(* ===== verification/HL_Prelude.thy ===== *)
theory HL_Prelude
  imports Main "HOL-Library.Word"
begin

text \<open>
  Shared vocabulary of the development: the machine types of the C++ sources, the ways an
  operation can fail to return, the x86 instructions that the index code issues by hand
  (\<open>bsr\<close>, \<open>bsf\<close>, the AVX-512 byte comparison), and generic lemmas on
  words, bit masks and lists that the component theories share.
\<close>

unbundle bit_operations_syntax

section \<open>Types\<close>

type_synonym u8 = "8 word"
type_synonym u16 = "16 word"
type_synonym u32 = "32 word"
type_synonym u64 = "64 word"

text \<open>
  \<open>Key_t\<close> and \<open>Val_t\<close> of \<open>hydralist/include/common.h\<close>; \<open>version_t\<close> of
  \<open>VersionedLock.h\<close>. Heap addresses of list nodes are natural numbers, a pointer that may be
  \<open>nullptr\<close> is an \<open>addr option\<close>.
\<close>

type_synonym Key_t = u64
type_synonym Val_t = u64
type_synonym version_t = u64
type_synonym addr = nat
type_synonym ptr = "addr option"

abbreviation ULLONG_MAX :: u64 where "ULLONG_MAX \<equiv> - 1"

text \<open>
  What can happen instead of a return: a dereference of \<open>nullptr\<close>, an access to memory that
  is not allocated or lies outside an array, a failed \<open>assert\<close>. The outcome of an operation
  that may also loop forever is an \<open>option\<close> of a fault or a result: \<open>None\<close> stands for
  an operation that never returns.
\<close>

datatype fault = NullDeref | BadAccess | AssertFail

type_synonym 'a outcome = "(fault + 'a) option"

section \<open>Lemma collections\<close>

named_theorems node_simps \<open>field updates of list nodes\<close>
named_theorems frame_simps \<open>what an operation leaves unchanged\<close>
named_theorems mask_simps \<open>bits of the masks the code computes\<close>

section \<open>Words and bit masks\<close>

lemma and_1_eq_0_iff_even [mask_simps]: "(w :: 'a::len word) AND 1 = 0 \<longleftrightarrow> even w"
  by (simp add: and_one_eq even_iff_mod_2_eq_zero)

lemma bit_exp_word [mask_simps]:
  "bit (2 ^ p :: 'a::len word) n \<longleftrightarrow> n < LENGTH('a) \<and> n = p"
  by (auto simp: bit_exp_iff)

lemma bit_not_exp_word [mask_simps]:
  "bit (NOT (2 ^ p :: 'a::len word)) n \<longleftrightarrow> n < LENGTH('a) \<and> n \<noteq> p"
  by (auto simp: bit_not_iff bit_exp_iff)

lemma bit_word_bound: "bit (w :: 'a::len word) n \<Longrightarrow> n < LENGTH('a)"
  by (rule bit_imp_le_length)

lemma word_neq_0_bit: "(w :: 'a::len word) \<noteq> 0 \<longleftrightarrow> (\<exists>n < LENGTH('a). bit w n)"
  by (auto simp: bit_eq_iff dest: bit_imp_le_length)

lemma word_eq_max_bit: "(w :: 'a::len word) = - 1 \<longleftrightarrow> (\<forall>n < LENGTH('a). bit w n)"
  by (auto simp: bit_eq_iff dest: bit_imp_le_length)

lemma clear_bit_less:
  fixes w :: "'a::len word"
  assumes "bit w p"
  shows "unat (w AND NOT (push_bit p 1)) < unat w"
proof -
  have "w AND NOT (push_bit p 1) \<le> w"
    by (rule word_and_le2)
  moreover have "w AND NOT (push_bit p 1) \<noteq> w"
    using assms bit_imp_le_length[OF assms] by (auto simp: bit_eq_iff bit_and_iff mask_simps)
  ultimately show ?thesis
    by (simp add: word_less_nat_alt[symmetric])
qed

section \<open>Bit scan instructions\<close>

text \<open>
  \<open>bsr\<close> puts the index of the highest set bit of its source into the destination,
  \<open>bsf\<close> that of the lowest. The destination is undefined for a zero source; the sources
  test for zero before they issue either, and no lemma says anything about that case.
\<close>

definition bsr :: "'a::len word \<Rightarrow> nat" where
  "bsr w = (case find (bit w) (rev [0..<LENGTH('a)]) of Some i \<Rightarrow> i | None \<Rightarrow> 0)"

definition bsf :: "'a::len word \<Rightarrow> nat" where
  "bsf w = (case find (bit w) [0..<LENGTH('a)] of Some i \<Rightarrow> i | None \<Rightarrow> 0)"

lemma find_upt_SomeD:
  assumes "find P [0..<n] = Some i"
  shows "i < n" "P i" "\<And>j. j < i \<Longrightarrow> \<not> P j"
  using assms by (auto simp: find_Some_iff)

lemma find_rev_upt_SomeD:
  assumes "find P (rev [0..<n]) = Some i"
  shows "i < n" "P i" "\<And>j. i < j \<Longrightarrow> j < n \<Longrightarrow> \<not> P j"
proof -
  obtain m where m: "m < n" "P (rev [0..<n] ! m)" "i = rev [0..<n] ! m"
      "\<And>j. j < m \<Longrightarrow> \<not> P (rev [0..<n] ! j)"
    using assms by (auto simp: find_Some_iff)
  then have i: "i = n - 1 - m"
    by (simp add: rev_nth)
  show "i < n" and "P i"
    using m i by auto
  fix j assume "i < j" "j < n"
  then have "n - 1 - j < m" and "rev [0..<n] ! (n - 1 - j) = j"
    using i m(1) by (auto simp: rev_nth)
  then show "\<not> P j"
    using m(4) by metis
qed

lemma bsr_props:
  assumes "(w :: 'a::len word) \<noteq> 0"
  shows "bit w (bsr w)" "\<And>j. bsr w < j \<Longrightarrow> \<not> bit w j"
proof -
  have "find (bit w) (rev [0..<LENGTH('a)]) \<noteq> None"
    using assms by (auto simp: find_None_iff word_neq_0_bit)
  then obtain i where i: "find (bit w) (rev [0..<LENGTH('a)]) = Some i"
    by auto
  then have "bsr w = i" by (simp add: bsr_def)
  with find_rev_upt_SomeD[OF i] show "bit w (bsr w)" "\<And>j. bsr w < j \<Longrightarrow> \<not> bit w j"
    by (auto dest: bit_imp_le_length)
qed

lemma bsf_props:
  assumes "(w :: 'a::len word) \<noteq> 0"
  shows "bit w (bsf w)" "\<And>j. j < bsf w \<Longrightarrow> \<not> bit w j"
proof -
  have "find (bit w) [0..<LENGTH('a)] \<noteq> None"
    using assms by (auto simp: find_None_iff word_neq_0_bit)
  then obtain i where i: "find (bit w) [0..<LENGTH('a)] = Some i"
    by auto
  then have "bsf w = i" by (simp add: bsf_def)
  with find_upt_SomeD[OF i] show "bit w (bsf w)" "\<And>j. j < bsf w \<Longrightarrow> \<not> bit w j"
    by auto
qed

lemma bsr_less: "(w :: 'a::len word) \<noteq> 0 \<Longrightarrow> bsr w < LENGTH('a)"
  using bsr_props(1) bit_imp_le_length by blast

lemma bsf_less: "(w :: 'a::len word) \<noteq> 0 \<Longrightarrow> bsf w < LENGTH('a)"
  using bsf_props(1) bit_imp_le_length by blast

section \<open>Byte comparison masks\<close>

text \<open>
  \<open>_mm512_cmpeq_epi8_mask\<close> after \<open>_mm512_set1_epi8\<close>: bit \<open>i\<close> of the mask says
  whether byte \<open>i\<close> of the vector equals the broadcast byte.
\<close>

definition cmpeq_epi8_mask :: "u8 list \<Rightarrow> u8 \<Rightarrow> u64" where
  "cmpeq_epi8_mask v b = horner_sum of_bool 2 (map (\<lambda>x. x = b) v)"

lemma bit_cmpeq_epi8_mask [mask_simps]:
  "bit (cmpeq_epi8_mask v b) i \<longleftrightarrow> i < 64 \<and> i < length v \<and> v ! i = b"
  by (auto simp: cmpeq_epi8_mask_def bit_horner_sum_bit_word_iff)

text \<open>A 64-bit mask is cut into its two 32-bit halves before it is scanned.\<close>

lemma bit_lower_half [mask_simps]:
  "bit (ucast (m :: u64) :: u32) p \<longleftrightarrow> p < 32 \<and> bit m p"
  by (simp add: bit_ucast_iff)

lemma bit_upper_half [mask_simps]: "bit (drop_bit b (m :: u64)) p \<longleftrightarrow> bit m (b + p)"
  by (simp add: bit_drop_bit_eq)

section \<open>Maps\<close>

lemma map_eqI: "(\<And>x y. m x = Some y \<longleftrightarrow> m' x = Some y) \<Longrightarrow> m = m'"
  by (intro ext) (metis not_None_eq)

text \<open>The loop that searches the least value of a field.\<close>

lemma least_le:
  fixes f :: "'a \<Rightarrow> 'b :: linorder"
  shows "fold (\<lambda>w m. if f w < m then f w else m) ws m0 \<le> m0 \<and>
    (\<forall>w \<in> set ws. fold (\<lambda>w m. if f w < m then f w else m) ws m0 \<le> f w)"
proof (induction ws arbitrary: m0)
  case (Cons w ws)
  let ?m = "if f w < m0 then f w else m0"
  have "?m \<le> m0" "?m \<le> f w" by auto
  then show ?case using Cons.IH[of ?m] by (auto simp del: if_split intro: order_trans)
qed simp

lemma least_in:
  fixes f :: "'a \<Rightarrow> 'b :: linorder"
  shows "fold (\<lambda>w m. if f w < m then f w else m) ws m0 = m0 \<or>
    fold (\<lambda>w m. if f w < m then f w else m) ws m0 \<in> f ` set ws"
proof (induction ws arbitrary: m0)
  case (Cons w ws)
  then show ?case using Cons[of "if f w < m0 then f w else m0"] by (auto split: if_splits)
qed simp

end
