(* ===== verification/Bitset.thy ===== *)
theory Bitset
  imports HL_Prelude
begin

text \<open>
  The occupancy map of a list node, \<open>hydra::bitset\<close> of \<open>hydralist/src/bitset.h\<close>: two
  64-bit words, bit \<open>i\<close> of the set in word \<open>i / 64\<close>. The shift \<open>1UL << pos\<close> is
  issued with the index itself, not with the index modulo 64; \<open>shl1\<close> is what the x86-64
  shift does with such a count. With \<open>MAX_ENTRIES\<close> 64 every index the list node passes is
  below 64, and there the shift is the one the language defines.
\<close>

section \<open>Operations\<close>

record bitset =
  bits0 :: u64
  bits1 :: u64

definition shl1 :: "nat \<Rightarrow> u64" where
  "shl1 pos = push_bit (pos mod 64) 1"

definition testBit :: "nat \<Rightarrow> u64 \<Rightarrow> bool" where
  "testBit pos b \<longleftrightarrow> b AND shl1 pos \<noteq> 0"

definition setBit :: "nat \<Rightarrow> u64 \<Rightarrow> u64" where
  "setBit pos b = b OR shl1 pos"

definition resetBit :: "nat \<Rightarrow> u64 \<Rightarrow> u64" where
  "resetBit pos b = b AND NOT (shl1 pos)"

text \<open>\<open>bits[index/64]\<close>: an index of 128 or more is outside the array.\<close>

definition bits_at :: "nat \<Rightarrow> bitset \<Rightarrow> u64" where
  "bits_at w s = (if w = 0 then bits0 s else bits1 s)"

definition upd_bits :: "nat \<Rightarrow> (u64 \<Rightarrow> u64) \<Rightarrow> bitset \<Rightarrow> bitset" where
  "upd_bits w f s = (if w = 0 then s\<lparr>bits0 := f (bits0 s)\<rparr> else s\<lparr>bits1 := f (bits1 s)\<rparr>)"

definition clear :: "bitset \<Rightarrow> bitset" where
  "clear s = s\<lparr>bits0 := 0, bits1 := 0\<rparr>"

definition set_at :: "nat \<Rightarrow> bitset \<Rightarrow> bitset" where
  "set_at index s = upd_bits (index div 64) (setBit index) s"

definition reset_at :: "nat \<Rightarrow> bitset \<Rightarrow> bitset" where
  "reset_at index s = upd_bits (index div 64) (resetBit index) s"

definition test :: "nat \<Rightarrow> bitset \<Rightarrow> bool" where
  "test index s = testBit index (bits_at (index div 64) s)"

definition to_ulong :: "bitset \<Rightarrow> u64" where
  "to_ulong s = bits0 s"

definition to_ulong_idx :: "nat \<Rightarrow> bitset \<Rightarrow> u64" where
  "to_ulong_idx index s = bits_at index s"

section \<open>The set of occupied indices\<close>

lemma testBit_iff: "testBit pos b \<longleftrightarrow> bit b (pos mod 64)"
  by (auto simp: testBit_def shl1_def word_neq_0_bit bit_and_iff mask_simps)

lemma bit_setBit: "bit (setBit pos b) n \<longleftrightarrow> bit b n \<or> n = pos mod 64"
  by (auto simp: setBit_def shl1_def bit_or_iff mask_simps)

lemma bit_resetBit: "bit (resetBit pos b) n \<longleftrightarrow> bit b n \<and> n \<noteq> pos mod 64"
  by (auto simp: resetBit_def shl1_def bit_and_iff mask_simps dest: bit_imp_le_length)

lemma test_iff: "i < 128 \<Longrightarrow> test i s \<longleftrightarrow> bit (if i < 64 then bits0 s else bits1 s) (i mod 64)"
  by (auto simp: test_def testBit_iff bits_at_def div_eq_0_iff)

lemma test_small [mask_simps]: "i < 64 \<Longrightarrow> test i s \<longleftrightarrow> bit (bits0 s) i"
  by (simp add: test_iff)

lemma index_word_pos_inj:
  "i < 128 \<Longrightarrow> j < 128 \<Longrightarrow> i div 64 = j div 64 \<Longrightarrow> i mod 64 = j mod (64::nat) \<Longrightarrow> i = j"
  by (metis mult_div_mod_eq)

lemma div_64_cases: "(i::nat) < 128 \<Longrightarrow> i div 64 = 0 \<or> i div 64 = 1"
  by arith

lemma test_clear [simp]: "\<not> test i (clear s)"
  by (simp add: test_def testBit_iff bits_at_def clear_def)

lemma test_set_at:
  assumes "i < 128" "j < 128"
  shows "test j (set_at i s) \<longleftrightarrow> test j s \<or> i = j"
  using assms div_64_cases[of i] div_64_cases[of j] index_word_pos_inj[of i j]
  by (auto simp: test_def set_at_def upd_bits_def bits_at_def testBit_iff bit_setBit)

lemma test_reset_at:
  assumes "i < 128" "j < 128"
  shows "test j (reset_at i s) \<longleftrightarrow> test j s \<and> i \<noteq> j"
  using assms div_64_cases[of i] div_64_cases[of j] index_word_pos_inj[of i j]
  by (auto simp: test_def reset_at_def upd_bits_def bits_at_def testBit_iff bit_resetBit)

lemma bits0_set_at [mask_simps]:
  "i < 64 \<Longrightarrow> bit (bits0 (set_at i s)) n \<longleftrightarrow> bit (bits0 s) n \<or> n = i"
  by (simp add: set_at_def upd_bits_def bit_setBit)

lemma bits0_reset_at [mask_simps]:
  "i < 64 \<Longrightarrow> bit (bits0 (reset_at i s)) n \<longleftrightarrow> bit (bits0 s) n \<and> n \<noteq> i"
  by (simp add: reset_at_def upd_bits_def bit_resetBit)

lemma bits0_clear [simp]: "bits0 (clear s) = 0"
  by (simp add: clear_def)

text \<open>
  The occupancy map is a finite set of indices below 128: \<open>set\<close> adds exactly its index,
  \<open>reset\<close> takes exactly its index away, \<open>clear\<close> empties it, and \<open>test\<close> reads it.
\<close>

theorem bitset_is_set:
  assumes "i < 128"
  shows "{j. j < 128 \<and> test j (set_at i s)} = insert i {j. j < 128 \<and> test j s} \<and>
    {j. j < 128 \<and> test j (reset_at i s)} = {j. j < 128 \<and> test j s} - {i} \<and>
    {j. j < 128 \<and> test j (clear s)} = {}"
  using assms by (auto simp: test_set_at test_reset_at)

theorem bitset_is_set_witness:
  "{j. j < 128 \<and> test j (set_at 77 \<lparr>bits0 = 5, bits1 = 0\<rparr>)}
     = insert 77 {j. j < 128 \<and> test j \<lparr>bits0 = 5, bits1 = 0\<rparr>} \<and> test 2 \<lparr>bits0 = 5, bits1 = 0\<rparr>"
  using bitset_is_set[of 77 "\<lparr>bits0 = 5, bits1 = 0\<rparr>"]
  by (simp add: test_def testBit_def bits_at_def shl1_def)

end
