(* ===== verification/VersionedLock.thy ===== *)
theory VersionedLock
  imports HL_Prelude
begin

text \<open>
  The sequence lock of a list node, \<open>hydralist/src/VersionedLock.h\<close>: an atomic counter that
  is even while the node is free and odd while a writer holds it. The operations are functions
  on the lock word. The second half is the machine of any number of threads that use the lock
  the way \<open>linkedList.cpp\<close> does: a writer loads the word, tries a compare-and-swap, stores
  to the protected memory location by location and unlocks; a reader loads the word, reads
  location by location and validates the word at the end.
\<close>

section \<open>Operations\<close>

record VersionedLock =
  version :: version_t

definition VersionedLock_init :: VersionedLock where
  "VersionedLock_init = \<lparr>version = 2\<rparr>"

definition read_lock :: "VersionedLock \<Rightarrow> version_t" where
  "read_lock l = (let ver = version l in if ver AND 1 \<noteq> 0 then 0 else ver)"

text \<open>
  \<open>compare_exchange_weak\<close>; that it may also fail for no reason is a rule of the machine
  below.
\<close>

definition compare_exchange :: "version_t \<Rightarrow> version_t \<Rightarrow> VersionedLock \<Rightarrow> bool \<times> VersionedLock" where
  "compare_exchange expected desired l =
     (if version l = expected then (True, l\<lparr>version := desired\<rparr>) else (False, l))"

definition write_lock :: "VersionedLock \<Rightarrow> version_t \<times> VersionedLock" where
  "write_lock l =
     (let ver = version l in
      if ver AND 1 = 0
      then (case compare_exchange ver (ver + 1) l of
              (True, l') \<Rightarrow> (ver, l')
            | (False, l') \<Rightarrow> (0, l'))
      else (0, l))"

definition read_unlock :: "version_t \<Rightarrow> VersionedLock \<Rightarrow> bool" where
  "read_unlock old_version l \<longleftrightarrow> version l = old_version"

definition write_unlock :: "VersionedLock \<Rightarrow> VersionedLock" where
  "write_unlock l = l\<lparr>version := version l + 1\<rparr>"

text \<open>A lock that a reader or a writer can take: even, and not wrapped around to 0.\<close>

definition unlocked :: "VersionedLock \<Rightarrow> bool" where
  "unlocked l \<longleftrightarrow> even (version l) \<and> version l \<noteq> 0"

lemma read_lock_eq: "read_lock l = (if even (version l) then version l else 0)"
  by (simp add: read_lock_def Let_def mask_simps)

lemma write_lock_eq:
  "write_lock l = (if even (version l) then (version l, l\<lparr>version := version l + 1\<rparr>) else (0, l))"
  by (simp add: write_lock_def Let_def compare_exchange_def mask_simps)

lemma write_lock_unlocked:
  "unlocked l \<Longrightarrow> write_lock l = (version l, l\<lparr>version := version l + 1\<rparr>) \<and> version l \<noteq> 0"
  by (simp add: unlocked_def write_lock_eq)

lemma write_lock_unlock:
  "unlocked l \<Longrightarrow> write_unlock (snd (write_lock l)) = l\<lparr>version := version l + 2\<rparr>"
  by (simp add: unlocked_def write_lock_eq write_unlock_def)

lemma unlocked_init [simp]: "unlocked VersionedLock_init"
  by (simp add: unlocked_def VersionedLock_init_def)

section \<open>Threads on one lock\<close>

text \<open>
  \<open>ticks\<close> counts the increments of the word since its construction and \<open>Reading\<close>
  remembers the count at its start: both are there for the proofs, no rule tests them.
\<close>

datatype 'v pc =
    Idle
  | WLoaded version_t
  | Writing
  | Reading version_t "nat \<rightharpoonup> 'v" nat

record 'v lsys =
  lock :: VersionedLock
  mem :: "nat \<Rightarrow> 'v"
  pcs :: "nat \<Rightarrow> 'v pc"
  ticks :: nat

inductive lstep :: "'v lsys \<Rightarrow> 'v lsys \<Rightarrow> bool" where
  w_load: "pcs s t = Idle \<Longrightarrow>
     lstep s (s\<lparr>pcs := (pcs s)(t := WLoaded (version (lock s)))\<rparr>)"
| w_odd: "pcs s t = WLoaded ver \<Longrightarrow> ver AND 1 \<noteq> 0 \<Longrightarrow> lstep s (s\<lparr>pcs := (pcs s)(t := Idle)\<rparr>)"
| w_cas: "pcs s t = WLoaded ver \<Longrightarrow> ver AND 1 = 0 \<Longrightarrow>
     compare_exchange ver (ver + 1) (lock s) = (True, l) \<Longrightarrow>
     lstep s (s\<lparr>lock := l, pcs := (pcs s)(t := Writing), ticks := Suc (ticks s)\<rparr>)"
| w_cas_fail: "pcs s t = WLoaded ver \<Longrightarrow> ver AND 1 = 0 \<Longrightarrow>
     lstep s (s\<lparr>pcs := (pcs s)(t := Idle)\<rparr>)"
| w_store: "pcs s t = Writing \<Longrightarrow> lstep s (s\<lparr>mem := (mem s)(x := v)\<rparr>)"
| w_unlock: "pcs s t = Writing \<Longrightarrow>
     lstep s (s\<lparr>lock := write_unlock (lock s), pcs := (pcs s)(t := Idle), ticks := Suc (ticks s)\<rparr>)"
| r_load: "pcs s t = Idle \<Longrightarrow> read_lock (lock s) = ver \<Longrightarrow> ver \<noteq> 0 \<Longrightarrow>
     lstep s (s\<lparr>pcs := (pcs s)(t := Reading ver Map.empty (ticks s))\<rparr>)"
| r_read: "pcs s t = Reading ver m k \<Longrightarrow>
     lstep s (s\<lparr>pcs := (pcs s)(t := Reading ver (m(x \<mapsto> mem s x)) k)\<rparr>)"
| r_unlock: "pcs s t = Reading ver m k \<Longrightarrow> lstep s (s\<lparr>pcs := (pcs s)(t := Idle)\<rparr>)"

inductive lreach :: "'v lsys \<Rightarrow> bool" where
  l_init: "lreach \<lparr>lock = VersionedLock_init, mem = m, pcs = (\<lambda>_. Idle), ticks = 0\<rparr>"
| l_step: "lreach s \<Longrightarrow> lstep s s' \<Longrightarrow> lreach s'"

definition lock_inv :: "'v lsys \<Rightarrow> bool" where
  "lock_inv s \<longleftrightarrow>
     version (lock s) = word_of_nat (2 + ticks s) \<and>
     (odd (ticks s) \<longleftrightarrow> (\<exists>t. pcs s t = Writing)) \<and>
     (\<forall>t t'. pcs s t = Writing \<longrightarrow> pcs s t' = Writing \<longrightarrow> t = t')"

definition read_inv :: "'v lsys \<Rightarrow> bool" where
  "read_inv s \<longleftrightarrow>
     (\<forall>t ver m k. pcs s t = Reading ver m k \<longrightarrow>
        even k \<and> k \<le> ticks s \<and> ver = word_of_nat (2 + k) \<and>
        (ticks s = k \<longrightarrow> m \<subseteq>\<^sub>m Some \<circ> mem s))"

lemma even_word_of_nat_64: "even (word_of_nat n :: u64) \<longleftrightarrow> even n"
  by (simp add: even_word_iff bit_simps)

lemma word_of_nat_eq_64:
  assumes "(word_of_nat m :: u64) = word_of_nat n" "n \<le> m" "m - n < 2 ^ 64"
  shows "m = n"
proof -
  have "m mod 2 ^ 64 = n mod 2 ^ 64"
    using assms(1) by (simp add: word_of_nat_eq_iff take_bit_eq_mod)
  then have "2 ^ 64 dvd m - n"
    using assms(2) by (metis mod_eq_dvd_iff_nat)
  then show ?thesis
    using assms(2,3) by (auto dest: nat_dvd_not_less)
qed

lemma lock_inv_frame:
  "lock_inv s \<Longrightarrow> lock s' = lock s \<Longrightarrow> ticks s' = ticks s \<Longrightarrow>
   (\<And>t. pcs s' t = Writing \<longleftrightarrow> pcs s t = Writing) \<Longrightarrow> lock_inv s'"
  by (simp add: lock_inv_def)

lemma lock_inv_step: "lstep s s' \<Longrightarrow> lock_inv s \<Longrightarrow> lock_inv s'"
proof (induction rule: lstep.induct)
  case (w_cas s t ver l)
  then have "even (ticks s)"
    using even_word_of_nat_64[of "2 + ticks s"]
    by (auto simp: compare_exchange_def lock_inv_def mask_simps simp del: of_nat_add split: if_splits)
  with w_cas show ?case
    by (auto simp: lock_inv_def compare_exchange_def split: if_splits)
next
  case (w_unlock s t)
  then have "odd (ticks s)" and "\<And>t'. pcs s t' = Writing \<Longrightarrow> t' = t"
    by (auto simp: lock_inv_def)
  with w_unlock show ?case
    by (auto simp: lock_inv_def write_unlock_def)
qed (auto elim!: lock_inv_frame split: if_splits)

lemma read_inv_step: "lstep s s' \<Longrightarrow> lock_inv s \<Longrightarrow> read_inv s \<Longrightarrow> read_inv s'"
proof (induction rule: lstep.induct)
  case (w_store s t x v)
  then have "odd (ticks s)" by (auto simp: lock_inv_def)
  with w_store.prems(2) show ?case
    unfolding read_inv_def by (fastforce)
next
  case (r_load s t ver)
  then have "even (ticks s)" and "ver = word_of_nat (2 + ticks s)"
    using even_word_of_nat_64[of "2 + ticks s"]
    by (auto simp: read_lock_eq lock_inv_def simp del: of_nat_add split: if_splits)
  with r_load show ?case
    by (auto simp: read_inv_def)
next
  case (r_read s t ver m k x)
  then show ?case
    by (auto simp: read_inv_def map_le_def)
qed (fastforce simp: read_inv_def)+

lemma lreach_inv: "lreach s \<Longrightarrow> lock_inv s \<and> read_inv s"
proof (induction rule: lreach.induct)
  case (l_init m)
  show ?case
    by (simp add: lock_inv_def read_inv_def VersionedLock_init_def)
next
  case (l_step s s')
  then show ?case
    using lock_inv_step read_inv_step by blast
qed

text \<open>
  C12. At any moment of any interleaving at most one thread is between a successful
  \<open>write_lock\<close> and its \<open>write_unlock\<close>.
\<close>

theorem write_lock_mutual_exclusion:
  assumes "lreach s" "pcs s t = Writing" "pcs s t' = Writing"
  shows "t = t'"
  using lreach_inv[OF assms(1)] assms(2,3) by (auto simp: lock_inv_def)

text \<open>Two threads: thread 1 takes the lock and stores, thread 0 waits with its loaded word.\<close>

definition busy :: "nat lsys" where
  "busy = \<lparr>lock = \<lparr>version = 3\<rparr>, mem = (\<lambda>_. 0)(7 := 42),
     pcs = (\<lambda>_. Idle)(0 := WLoaded 2, 1 := Writing), ticks = 1\<rparr>"

lemma lreach_busy: "lreach busy"
proof -
  let ?s0 = "\<lparr>lock = VersionedLock_init, mem = (\<lambda>_. 0 :: nat), pcs = (\<lambda>_. Idle), ticks = 0\<rparr>"
  let ?s1 = "?s0\<lparr>pcs := (\<lambda>_. Idle)(0 := WLoaded 2)\<rparr>"
  let ?s2 = "?s0\<lparr>pcs := (\<lambda>_. Idle)(0 := WLoaded 2, 1 := WLoaded 2)\<rparr>"
  let ?s3 = "?s0\<lparr>lock := \<lparr>version = 3\<rparr>, pcs := (\<lambda>_. Idle)(0 := WLoaded 2, 1 := Writing), ticks := 1\<rparr>"
  have "lreach ?s0" by (rule l_init)
  moreover have "lstep ?s0 ?s1"
    using w_load[of ?s0 0] by (simp add: VersionedLock_init_def)
  moreover have "lstep ?s1 ?s2"
    using w_load[of ?s1 1] by (simp add: VersionedLock_init_def)
  moreover have "lstep ?s2 ?s3"
    using w_cas[of ?s2 1 2 "\<lparr>version = 3\<rparr>"]
    by (simp add: VersionedLock_init_def compare_exchange_def fun_upd_twist)
  moreover have "lstep ?s3 busy"
    using w_store[of ?s3 1 7 42] by (simp add: busy_def)
  ultimately show ?thesis by (meson l_step)
qed

theorem write_lock_mutual_exclusion_witness:
  "lreach busy \<and> pcs busy 1 = Writing \<and> (\<nexists>t. pcs busy t = Writing \<and> t \<noteq> 1)"
proof -
  have "pcs busy 1 = Writing" by (simp add: busy_def)
  with lreach_busy show ?thesis
    using write_lock_mutual_exclusion[OF lreach_busy, of _ 1] by blast
qed

text \<open>
  C11. A reader whose \<open>read_unlock\<close> succeeds has seen one consistent state: every location it
  read still has the value it read, so no writer ran in between, whatever the interleaving, as
  long as the 64-bit counter has not gone once around since the reader began.
\<close>

theorem validated_read_is_snapshot:
  assumes "lreach s" "pcs s t = Reading ver m k" "read_unlock ver (lock s)"
    and "ticks s - k < 2 ^ 64"
  shows "m \<subseteq>\<^sub>m Some \<circ> mem s"
proof -
  have inv: "lock_inv s" "read_inv s"
    using lreach_inv[OF assms(1)] by auto
  then have k: "k \<le> ticks s" "ver = word_of_nat (2 + k)"
    and m: "ticks s = k \<Longrightarrow> m \<subseteq>\<^sub>m Some \<circ> mem s"
    using assms(2) by (auto simp: read_inv_def simp del: of_nat_add)
  have "(word_of_nat (2 + ticks s) :: u64) = word_of_nat (2 + k)"
    using assms(3) inv(1) k(2) by (simp add: read_unlock_def lock_inv_def)
  then have "ticks s = k"
    using word_of_nat_eq_64[of "2 + ticks s" "2 + k"] k(1) assms(4) by simp
  then show ?thesis by (rule m)
qed

text \<open>After the writer of \<open>busy\<close> has unlocked, thread 2 reads location 7.\<close>

definition after_write :: "nat lsys" where
  "after_write = \<lparr>lock = \<lparr>version = 4\<rparr>, mem = (\<lambda>_. 0)(7 := 42),
     pcs = (\<lambda>_. Idle)(0 := WLoaded 2, 2 := Reading 4 [7 \<mapsto> 42] 2), ticks = 2\<rparr>"

lemma lreach_after_write: "lreach after_write"
proof -
  let ?s1 = "busy\<lparr>lock := \<lparr>version = 4\<rparr>, pcs := (\<lambda>_. Idle)(0 := WLoaded 2), ticks := 2\<rparr>"
  let ?s2 = "?s1\<lparr>pcs := (\<lambda>_. Idle)(0 := WLoaded 2, 2 := Reading 4 Map.empty 2)\<rparr>"
  have idle: "(\<lambda>_. Idle :: nat pc)(0 := WLoaded 2, Suc 0 := Idle) = (\<lambda>_. Idle)(0 := WLoaded 2)"
    by (simp add: fun_eq_iff)
  have "lstep busy ?s1"
    using w_unlock[of busy 1] by (simp add: busy_def write_unlock_def idle numeral_2_eq_2)
  moreover have "lstep ?s1 ?s2"
    using r_load[of ?s1 2 4] by (simp add: busy_def read_lock_eq)
  moreover have "lstep ?s2 after_write"
    using r_read[of ?s2 2 4 Map.empty 2 7] by (simp add: busy_def after_write_def)
  ultimately show ?thesis
    using lreach_busy by (meson l_step)
qed

theorem validated_read_is_snapshot_witness:
  "lreach after_write \<and> read_unlock 4 (lock after_write) \<and> [7 \<mapsto> 42] \<subseteq>\<^sub>m Some \<circ> mem after_write"
proof -
  have "pcs after_write 2 = Reading 4 [7 \<mapsto> 42] 2" "read_unlock 4 (lock after_write)"
    "ticks after_write - 2 < 2 ^ 64"
    by (simp_all add: after_write_def read_unlock_def)
  with lreach_after_write show ?thesis
    using validated_read_is_snapshot[OF lreach_after_write, of 2 4 "[7 \<mapsto> 42]" 2] by blast
qed

end
