(* ===== verification/ListNode.thy ===== *)
theory ListNode
  imports Bitset VersionedLock "HOL-Library.Product_Lexorder"
begin

text \<open>
  One node of the data list, \<open>hydralist/src/listNode.h\<close> and the part of
  \<open>listNode.cpp\<close> that touches a single node: the slot arrays with their occupancy map and
  fingerprints, the search for a key or a free slot, the slot updates, and the permutation
  cache of range scans. Operations that follow \<open>next\<close> or \<open>prev\<close>, split or merge are
  in \<open>DataLayer\<close>.
\<close>

section \<open>The node\<close>

definition MAX_ENTRIES :: nat where
  "MAX_ENTRIES = 64"

text \<open>
  Fields \<open>min\<close>, \<open>max\<close>, \<open>next\<close> and \<open>prev\<close> are \<open>min_k\<close>, \<open>max_k\<close>,
  \<open>next_p\<close> and \<open>prev_p\<close>. The mutex \<open>pLock\<close> is taken and released inside
  \<open>generatePermuter\<close> only and has no field here. The type of the keys is a parameter: the index over
  integers and the one over strings (\<open>StringNode\<close>) share the operations on slots.
\<close>

record 'k ListNode_of =
  min_k :: 'k
  max_k :: 'k
  numEntries :: u8
  next_p :: ptr
  prev_p :: ptr
  deleted :: bool
  bitMap :: bitset
  fingerPrint :: "u8 list"
  verLock :: VersionedLock
  keyArray :: "('k \<times> Val_t) list"
  lastScanVersion :: u64
  permuter :: "u8 list"

type_synonym ListNode = "Key_t ListNode_of"

text \<open>
  The constructor runs on memory with any contents: what it does not set stays what it was.
\<close>

definition ListNode_ctor :: "'k ListNode_of \<Rightarrow> 'k ListNode_of" where
  "ListNode_ctor raw = raw\<lparr>numEntries := 0, deleted := False, bitMap := clear (bitMap raw),
     verLock := VersionedLock_init, lastScanVersion := 0\<rparr>"

definition setNext :: "ptr \<Rightarrow> 'k ListNode_of \<Rightarrow> 'k ListNode_of" where
  "setNext p n = n\<lparr>next_p := p\<rparr>"

definition setPrev :: "ptr \<Rightarrow> 'k ListNode_of \<Rightarrow> 'k ListNode_of" where
  "setPrev p n = n\<lparr>prev_p := p\<rparr>"

definition setMin :: "'k \<Rightarrow> 'k ListNode_of \<Rightarrow> 'k ListNode_of" where
  "setMin key n = n\<lparr>min_k := key\<rparr>"

definition setMax :: "'k \<Rightarrow> 'k ListNode_of \<Rightarrow> 'k ListNode_of" where
  "setMax key n = n\<lparr>max_k := key\<rparr>"

definition setNumEntries :: "nat \<Rightarrow> 'k ListNode_of \<Rightarrow> 'k ListNode_of" where
  "setNumEntries m n = n\<lparr>numEntries := word_of_nat m\<rparr>"

definition setDeleted :: "bool \<Rightarrow> 'k ListNode_of \<Rightarrow> 'k ListNode_of" where
  "setDeleted b n = n\<lparr>deleted := b\<rparr>"

definition readLock :: "'k ListNode_of \<Rightarrow> version_t" where
  "readLock n = read_lock (verLock n)"

definition writeLock :: "'k ListNode_of \<Rightarrow> version_t \<times> 'k ListNode_of" where
  "writeLock n = (case write_lock (verLock n) of (v, l) \<Rightarrow> (v, n\<lparr>verLock := l\<rparr>))"

definition readUnlock :: "version_t \<Rightarrow> 'k ListNode_of \<Rightarrow> bool" where
  "readUnlock oldVersion n = read_unlock oldVersion (verLock n)"

definition writeUnlock :: "'k ListNode_of \<Rightarrow> 'k ListNode_of" where
  "writeUnlock n = n\<lparr>verLock := write_unlock (verLock n)\<rparr>"

section \<open>Slots\<close>

definition insertAtIndex :: "'k \<times> Val_t \<Rightarrow> nat \<Rightarrow> u8 \<Rightarrow> 'k ListNode_of \<Rightarrow> 'k ListNode_of" where
  "insertAtIndex key index keyHash n =
     n\<lparr>keyArray := (keyArray n)[index := key],
       fingerPrint := (fingerPrint n)[index := keyHash],
       bitMap := set_at index (bitMap n),
       numEntries := numEntries n + 1\<rparr>"

definition updateAtIndex :: "Val_t \<Rightarrow> nat \<Rightarrow> 'k ListNode_of \<Rightarrow> 'k ListNode_of" where
  "updateAtIndex value index n =
     n\<lparr>keyArray := (keyArray n)[index := (fst (keyArray n ! index), value)]\<rparr>"

definition removeFromIndex :: "nat \<Rightarrow> 'k ListNode_of \<Rightarrow> 'k ListNode_of" where
  "removeFromIndex index n =
     n\<lparr>bitMap := reset_at index (bitMap n), numEntries := numEntries n - 1\<rparr>"

text \<open>
  \<open>getKeyInsertIndex\<close> falls off its end when no slot is free: \<open>None\<close>.
\<close>

definition getKeyInsertIndex :: "'k ListNode_of \<Rightarrow> nat option" where
  "getKeyInsertIndex n = find (\<lambda>i. \<not> test i (bitMap n)) [0..<MAX_ENTRIES]"

definition getKeyFingerPrint :: "Key_t \<Rightarrow> u8" where
  "getKeyFingerPrint key0 =
     (let key1 = NOT key0 + push_bit 18 key0;
          key2 = key1 XOR drop_bit 31 key1;
          key3 = (key2 + push_bit 2 key2) + push_bit 4 key2;
          key4 = key3 XOR drop_bit 11 key3;
          key5 = key4 + push_bit 6 key4;
          key6 = key5 XOR drop_bit 22 key5
      in ucast key6)"

section \<open>Searching for a key\<close>

text \<open>The \<open>while (posToCheck)\<close> loop over one 32-bit half of the candidate mask.\<close>

function scanMask :: "u32 \<Rightarrow> (nat \<Rightarrow> bool) \<Rightarrow> nat option" where
  "scanMask posToCheck isKey =
     (if posToCheck = 0 then None
      else let pos = bsr posToCheck in
           if isKey pos then Some pos
           else scanMask (posToCheck AND NOT (push_bit pos 1)) isKey)"
  by pat_completeness auto
termination
  by (relation "measure (\<lambda>(w, _). unat w)")
    (auto intro!: clear_bit_less bsr_props(1) simp del: push_bit_of_1)

declare scanMask.simps [simp del]

text \<open>The variant for \<open>MAX_ENTRIES == 64\<close>, the one this configuration compiles.\<close>

definition getKeyIndex :: "'k \<Rightarrow> u8 \<Rightarrow> 'k ListNode_of \<Rightarrow> int" where
  "getKeyIndex key keyHash n =
     (let mask = cmpeq_epi8_mask (take 64 (fingerPrint n)) keyHash;
          bitMapMask = to_ulong (bitMap n);
          posToCheck_64 = mask AND bitMapMask
      in case scanMask (ucast posToCheck_64) (\<lambda>pos. fst (keyArray n ! pos) = key) of
           Some pos \<Rightarrow> int pos
         | None \<Rightarrow>
             (case scanMask (ucast (drop_bit 32 posToCheck_64))
                     (\<lambda>pos. fst (keyArray n ! (pos + 32)) = key) of
                Some pos \<Rightarrow> int pos + 32
              | None \<Rightarrow> -1))"

text \<open>The variant for \<open>MAX_ENTRIES == 128\<close>.\<close>

definition getKeyIndex_128 :: "'k \<Rightarrow> u8 \<Rightarrow> 'k ListNode_of \<Rightarrow> int" where
  "getKeyIndex_128 key keyHash n =
     (let mask = cmpeq_epi8_mask (take 64 (fingerPrint n)) keyHash;
          posToCheck_64 = mask AND to_ulong_idx 0 (bitMap n);
          maskU = cmpeq_epi8_mask (take 64 (drop 64 (fingerPrint n))) keyHash;
          posToCheckU_64 = maskU AND to_ulong_idx 1 (bitMap n)
      in case scanMask (ucast posToCheck_64) (\<lambda>pos. fst (keyArray n ! pos) = key) of
           Some pos \<Rightarrow> int pos
         | None \<Rightarrow>
        (case scanMask (ucast (drop_bit 32 posToCheck_64))
                (\<lambda>pos. fst (keyArray n ! (pos + 32)) = key) of
           Some pos \<Rightarrow> int pos + 32
         | None \<Rightarrow>
        (case scanMask (ucast posToCheckU_64) (\<lambda>pos. fst (keyArray n ! (pos + 64)) = key) of
           Some pos \<Rightarrow> int pos + 64
         | None \<Rightarrow>
        (case scanMask (ucast (drop_bit 32 posToCheckU_64))
                (\<lambda>pos. fst (keyArray n ! (pos + 96)) = key) of
           Some pos \<Rightarrow> int pos + 96
         | None \<Rightarrow> -1))))"

text \<open>The portable variant, for any other \<open>MAX_ENTRIES\<close>, here \<open>N\<close>.\<close>

function getKeyIndex_loop :: "nat \<Rightarrow> 'k \<Rightarrow> u8 \<Rightarrow> 'k ListNode_of \<Rightarrow> nat \<Rightarrow> nat \<Rightarrow> int" where
  "getKeyIndex_loop N key keyHash n i count =
     (if i < N then
        if test i (bitMap n) \<and> keyHash = fingerPrint n ! i \<and> fst (keyArray n ! i) = key then int i
        else let count' = (if test i (bitMap n) then count + 1 else count) in
             if count' = unat (numEntries n) then -1
             else getKeyIndex_loop N key keyHash n (i + 1) count'
      else -1)"
  by pat_completeness auto
termination
  by (relation "measure (\<lambda>(N, _, _, _, i, _). N - i)") auto

declare getKeyIndex_loop.simps [simp del]

definition getKeyIndex_portable :: "nat \<Rightarrow> 'k \<Rightarrow> u8 \<Rightarrow> 'k ListNode_of \<Rightarrow> int" where
  "getKeyIndex_portable N key keyHash n = getKeyIndex_loop N key keyHash n 0 0"

section \<open>Searching for a free slot\<close>

text \<open>
  Result -1: the key is there already; -2: no slot is free.
\<close>

definition getFreeIndex :: "'k \<Rightarrow> u8 \<Rightarrow> 'k ListNode_of \<Rightarrow> int" where
  "getFreeIndex key keyHash n =
     (if numEntries n \<noteq> 0 \<and> getKeyIndex key keyHash n \<noteq> -1 then -1
      else let bitMapMask = to_ulong (bitMap n) in
           if NOT bitMapMask = 0 then -2
           else let freeIndexMask = NOT bitMapMask in
                if (ucast freeIndexMask :: u32) \<noteq> 0
                then int (bsf (ucast freeIndexMask :: u32))
                else int (bsf (ucast (drop_bit 32 freeIndexMask) :: u32)) + 32)"

definition getFreeIndex_128 :: "'k \<Rightarrow> u8 \<Rightarrow> 'k ListNode_of \<Rightarrow> int" where
  "getFreeIndex_128 key keyHash n =
     (if numEntries n \<noteq> 0 \<and> getKeyIndex_128 key keyHash n \<noteq> -1 then -1
      else let lower = to_ulong_idx 0 (bitMap n); upper = to_ulong_idx 1 (bitMap n) in
           if NOT lower = 0 \<and> NOT upper = 0 then -2
           else if NOT lower \<noteq> 0 then
             (let freeIndexMask = NOT lower in
              if (ucast freeIndexMask :: u32) \<noteq> 0
              then int (bsf (ucast freeIndexMask :: u32))
              else int (bsf (ucast (drop_bit 32 freeIndexMask) :: u32)) + 32)
           else
             (let freeIndexMask = NOT upper in
              if (ucast freeIndexMask :: u32) \<noteq> 0
              then int (bsf (ucast freeIndexMask :: u32)) + 64
              else int (bsf (ucast (drop_bit 32 freeIndexMask) :: u32)) + 96))"

function getFreeIndex_loop ::
  "nat \<Rightarrow> 'k \<Rightarrow> u8 \<Rightarrow> 'k ListNode_of \<Rightarrow> nat \<Rightarrow> int \<Rightarrow> nat \<Rightarrow> bool \<Rightarrow> int" where
  "getFreeIndex_loop N key keyHash n i freeIndex count keyCheckNeeded =
     (if i < N then
        if keyCheckNeeded \<and> test i (bitMap n) \<and> keyHash = fingerPrint n ! i \<and>
           fst (keyArray n ! i) = key then -1
        else
          let freeIndex' = (if freeIndex = -2 \<and> \<not> test i (bitMap n) then int i else freeIndex);
              count' = (if test i (bitMap n) then count + 1 else count);
              keyCheckNeeded' =
                (if test i (bitMap n) \<and> count' = unat (numEntries n) then False else keyCheckNeeded)
          in getFreeIndex_loop N key keyHash n (i + 1) freeIndex' count' keyCheckNeeded'
      else freeIndex)"
  by pat_completeness auto
termination
  by (relation "measure (\<lambda>(N, _, _, _, i, _). N - i)") auto

declare getFreeIndex_loop.simps [simp del]

definition getFreeIndex_portable :: "nat \<Rightarrow> 'k \<Rightarrow> u8 \<Rightarrow> 'k ListNode_of \<Rightarrow> int" where
  "getFreeIndex_portable N key keyHash n = getFreeIndex_loop N key keyHash n 0 (-2) 0 True"

section \<open>Reading and updating one node\<close>

definition checkRange :: "'k::ord \<Rightarrow> 'k ListNode_of \<Rightarrow> bool" where
  "checkRange key n \<longleftrightarrow> min_k n \<le> key \<and> key < max_k n"

text \<open>\<open>keyArray[ne-1]\<close> is read only if the first conjunct holds; it lies outside for \<open>ne = 0\<close>.\<close>

definition checkRangeLookup :: "'k::ord \<Rightarrow> 'k ListNode_of \<Rightarrow> fault + bool" where
  "checkRangeLookup key n =
     (let ne = unat (numEntries n) in
      if \<not> min_k n \<le> key then Inr False
      else if ne = 0 \<or> length (keyArray n) < ne then Inl BadAccess
      else Inr (key \<le> fst (keyArray n ! (ne - 1))))"

text \<open>The fingerprint \<open>getKeyFingerPrint\<close> depends on the type of the keys: \<open>fp\<close>.\<close>

definition ListNode_update :: "('k \<Rightarrow> u8) \<Rightarrow> 'k \<Rightarrow> Val_t \<Rightarrow> 'k ListNode_of \<Rightarrow> bool \<times> 'k ListNode_of" where
  "ListNode_update fp key value n =
     (let keyHash = fp key; index = getKeyIndex key keyHash n in
      if index = -1 then (False, n) else (True, updateAtIndex value (nat index) n))"

definition ListNode_probe :: "('k \<Rightarrow> u8) \<Rightarrow> 'k \<Rightarrow> 'k ListNode_of \<Rightarrow> bool" where
  "ListNode_probe fp key n =
     (let keyHash = fp key; index = getKeyIndex key keyHash n in
      if index = -1 then False else True)"

text \<open>\<open>lookup\<close> returns \<open>false\<close> (\<open>None\<close>) or writes the value through its reference.\<close>

definition ListNode_lookup :: "('k \<Rightarrow> u8) \<Rightarrow> 'k \<Rightarrow> 'k ListNode_of \<Rightarrow> Val_t option" where
  "ListNode_lookup fp key n =
     (let keyHash = fp key; index = getKeyIndex key keyHash n in
      if index = -1 then None else Some (snd (keyArray n ! nat index)))"

section \<open>The permutation cache and scans\<close>

text \<open>The \<open>for\<close> loop that stores the sorted indices.\<close>

definition storePermuter :: "u8 list \<Rightarrow> u8 list \<Rightarrow> u8 list" where
  "storePermuter idxs perm = idxs @ drop (length idxs) perm"

definition generatePermuter :: "u64 \<Rightarrow> 'k::linorder ListNode_of \<Rightarrow> 'k ListNode_of" where
  "generatePermuter writeVersion n =
     (if writeVersion = lastScanVersion n then n
      else let copyArray = sort (map (\<lambda>i. (fst (keyArray n ! i), word_of_nat i :: u8))
                                   (filter (\<lambda>i. test i (bitMap n)) [0..<MAX_ENTRIES]))
           in n\<lparr>permuter := storePermuter (map snd copyArray) (permuter n),
                lastScanVersion := writeVersion\<rparr>)"

text \<open>\<open>keyArray[permuter[i]]\<close>, with the bounds of both arrays.\<close>

definition permEntry :: "'k ListNode_of \<Rightarrow> nat \<Rightarrow> fault + ('k \<times> Val_t)" where
  "permEntry n i =
     (if i < length (permuter n) \<and> unat (permuter n ! i) < length (keyArray n)
      then Inr (keyArray n ! unat (permuter n ! i)) else Inl BadAccess)"

text \<open>The \<open>do ... while (lower < upper)\<close> loop.\<close>

function permuterLowerBound_loop :: "'k::ord \<Rightarrow> 'k ListNode_of \<Rightarrow> nat \<Rightarrow> nat \<Rightarrow> fault + nat" where
  "permuterLowerBound_loop key n lower upper =
     (let mid = (upper - lower) div 2 + lower in
      case permEntry n mid of
        Inl f \<Rightarrow> Inl f
      | Inr e \<Rightarrow>
          if key < fst e then
            (if lower < mid then permuterLowerBound_loop key n lower mid else Inr lower)
          else if fst e < key then
            (if mid + 1 < upper then permuterLowerBound_loop key n (mid + 1) upper
             else Inr (mid + 1))
          else Inr mid)"
  by pat_completeness auto
termination
  by (relation "measure (\<lambda>(_, _, lower, upper). upper - lower)") auto

declare permuterLowerBound_loop.simps [simp del]

definition permuterLowerBound :: "'k::ord \<Rightarrow> 'k ListNode_of \<Rightarrow> fault + nat" where
  "permuterLowerBound key n = permuterLowerBound_loop key n 0 (unat (numEntries n))"

text \<open>The \<open>for\<close> loop of \<open>scan\<close> from index \<open>i\<close> with \<open>todo\<close> values to go.\<close>

function scan_loop :: "'k ListNode_of \<Rightarrow> nat \<Rightarrow> nat \<Rightarrow> Val_t list \<Rightarrow> fault + Val_t list" where
  "scan_loop n i todo rangeVector =
     (if i < unat (numEntries n) \<and> todo > 0 then
        case permEntry n i of
          Inl f \<Rightarrow> Inl f
        | Inr e \<Rightarrow> scan_loop n (i + 1) (todo - 1) (rangeVector @ [snd e])
      else Inr rangeVector)"
  by pat_completeness auto
termination
  by (relation "measure (\<lambda>(n, i, _, _). unat (numEntries n) - i)") auto

declare scan_loop.simps [simp del]

text \<open>
  \<open>scan\<close> returns whether it is done, the longer result vector, and the node with its cache
  brought up to date.
\<close>

definition ListNode_scan ::
  "'k::linorder \<Rightarrow> int \<Rightarrow> Val_t list \<Rightarrow> u64 \<Rightarrow> 'k ListNode_of \<Rightarrow> fault + (bool \<times> Val_t list \<times> 'k ListNode_of)" where
  "ListNode_scan startKey rng rangeVector writeVersion n =
     (if next_p n = None then Inr (True, rangeVector, n)
      else
        let todo = rng - int (length rangeVector) in
        if todo < 1 then Inl AssertFail
        else
          let n1 = (if lastScanVersion n < writeVersion then generatePermuter writeVersion n else n) in
          case (if min_k n1 < startKey then permuterLowerBound startKey n1 else Inr 0) of
            Inl f \<Rightarrow> Inl f
          | Inr startIndex \<Rightarrow>
              (case scan_loop n1 startIndex (nat todo) rangeVector of
                 Inl f \<Rightarrow> Inl f
               | Inr rv \<Rightarrow> Inr (int (length rv) = rng, rv, n1)))"

end
