(* ===== verification/NodeSearch.thy ===== *)
theory NodeSearch
  imports ListNode
begin

text \<open>
  Correctness of the slot searches of \<open>listNode.cpp\<close>. The preprocessor picks one of three
  implementations of \<open>getKeyIndex\<close> and \<open>getFreeIndex\<close> by \<open>MAX_ENTRIES\<close>: AVX-512
  code for 64 and for 128 slots, a portable loop otherwise. They share one contract, the
  locales \<open>slot_search\<close> and \<open>free_slot_search\<close>, and each is shown to meet it.
\<close>

section \<open>Occupied slots\<close>

definition slots :: "nat \<Rightarrow> 'k ListNode_of \<Rightarrow> nat set" where
  "slots N n = {i. i < N \<and> test i (bitMap n)}"

text \<open>The arrays have their length and \<open>numEntries\<close> counts the occupied slots.\<close>

definition shape :: "nat \<Rightarrow> 'k ListNode_of \<Rightarrow> bool" where
  "shape N n \<longleftrightarrow> length (keyArray n) = N \<and> length (fingerPrint n) = N \<and>
     unat (numEntries n) = card (slots N n)"

definition slot_has :: "nat \<Rightarrow> 'k ListNode_of \<Rightarrow> 'k \<Rightarrow> u8 \<Rightarrow> nat \<Rightarrow> bool" where
  "slot_has N n k h i \<longleftrightarrow> i \<in> slots N n \<and> fingerPrint n ! i = h \<and> fst (keyArray n ! i) = k"

text \<open>Every occupied slot carries the fingerprint of its key, and no key is there twice.\<close>

definition hashed_by :: "('k \<Rightarrow> u8) \<Rightarrow> nat \<Rightarrow> 'k ListNode_of \<Rightarrow> bool" where
  "hashed_by fp N n \<longleftrightarrow> (\<forall>i \<in> slots N n. fingerPrint n ! i = fp (fst (keyArray n ! i)))"

abbreviation hashed :: "nat \<Rightarrow> ListNode \<Rightarrow> bool" where
  "hashed \<equiv> hashed_by getKeyFingerPrint"

lemmas hashed_def = hashed_by_def

definition uniq :: "nat \<Rightarrow> 'k ListNode_of \<Rightarrow> bool" where
  "uniq N n \<longleftrightarrow> inj_on (\<lambda>i. fst (keyArray n ! i)) (slots N n)"

definition node_keys :: "nat \<Rightarrow> 'k ListNode_of \<Rightarrow> 'k set" where
  "node_keys N n = (\<lambda>i. fst (keyArray n ! i)) ` slots N n"

lemma finite_slots [simp]: "finite (slots N n)"
  by (simp add: slots_def)

lemma slots_bound: "i \<in> slots N n \<Longrightarrow> i < N"
  by (simp add: slots_def)

lemma shape_empty: "shape N n \<Longrightarrow> numEntries n = 0 \<longleftrightarrow> slots N n = {}"
  by (simp add: shape_def unat_eq_zero[symmetric] del: unat_eq_zero)

section \<open>The contracts\<close>

locale slot_search =
  fixes N :: nat and find_slot :: "'k \<Rightarrow> u8 \<Rightarrow> 'k ListNode_of \<Rightarrow> int"
  assumes find_miss: "shape N n \<Longrightarrow> \<nexists>i. slot_has N n k h i \<Longrightarrow> find_slot k h n = -1"
    and find_hit: "shape N n \<Longrightarrow> slot_has N n k h i \<Longrightarrow>
      \<exists>j. find_slot k h n = int j \<and> slot_has N n k h j"
begin

lemma find_eq_minus_1: "shape N n \<Longrightarrow> find_slot k h n = -1 \<longleftrightarrow> (\<nexists>i. slot_has N n k h i)"
  using find_miss[of n k h] find_hit[of n k h] by fastforce

lemma find_absent:
  assumes "shape N n" "k \<notin> node_keys N n"
  shows "find_slot k h n = -1"
  using assms by (intro find_miss) (auto simp: slot_has_def node_keys_def)

lemma find_at:
  assumes "shape N n" "hashed_by fp N n" "uniq N n" "i \<in> slots N n" "fst (keyArray n ! i) = k"
  shows "find_slot k (fp k) n = int i"
proof -
  have "slot_has N n k (fp k) i"
    using assms by (auto simp: slot_has_def hashed_def)
  then obtain j where "find_slot k (fp k) n = int j" "slot_has N n k (fp k) j"
    using find_hit[OF assms(1)] by blast
  moreover have "j = i"
    using calculation(2) assms(3-5) by (auto simp: slot_has_def uniq_def inj_on_def)
  ultimately show ?thesis by simp
qed

lemma find_present:
  assumes "shape N n" "hashed_by fp N n" "uniq N n"
  shows "find_slot k (fp k) n = -1 \<longleftrightarrow> k \<notin> node_keys N n"
  using find_absent[OF assms(1)] find_at[OF assms] by (fastforce simp: node_keys_def)

end

locale free_slot_search = slot_search N find_slot
  for N :: nat and find_slot :: "'k \<Rightarrow> u8 \<Rightarrow> 'k ListNode_of \<Rightarrow> int" +
  fixes free_slot :: "'k \<Rightarrow> u8 \<Rightarrow> 'k ListNode_of \<Rightarrow> int"
  assumes free_hit: "shape N n \<Longrightarrow> slot_has N n k h i \<Longrightarrow> free_slot k h n = -1"
    and free_full: "shape N n \<Longrightarrow> \<nexists>i. slot_has N n k h i \<Longrightarrow> slots N n = {0..<N} \<Longrightarrow>
      free_slot k h n = -2"
    and free_lowest: "shape N n \<Longrightarrow> \<nexists>i. slot_has N n k h i \<Longrightarrow> slots N n \<noteq> {0..<N} \<Longrightarrow>
      \<exists>j < N. free_slot k h n = int j \<and> j \<notin> slots N n \<and> (\<forall>i < j. i \<in> slots N n)"
begin

lemma free_present:
  assumes "shape N n" "hashed_by fp N n" "k \<in> node_keys N n"
  shows "free_slot k (fp k) n = -1"
proof -
  obtain i where "i \<in> slots N n" "fst (keyArray n ! i) = k"
    using assms(3) by (auto simp: node_keys_def)
  then have "slot_has N n k (fp k) i"
    using assms(2) by (auto simp: slot_has_def hashed_def)
  then show ?thesis using free_hit[OF assms(1)] by blast
qed

lemma free_absent:
  assumes "shape N n" "k \<notin> node_keys N n"
  shows "slots N n = {0..<N} \<and> free_slot k h n = -2 \<or>
    (\<exists>j < N. free_slot k h n = int j \<and> j \<notin> slots N n)"
proof -
  have no: "\<nexists>i. slot_has N n k h i"
    using assms(2) by (auto simp: slot_has_def node_keys_def)
  show ?thesis
    using free_full[OF assms(1) no] free_lowest[OF assms(1) no] by blast
qed

lemma free_slot_unique:
  assumes "free_slot_search N find' free'" "shape N n"
  shows "free' k h n = free_slot k h n"
proof (cases "\<exists>i. slot_has N n k h i")
  case True
  then show ?thesis
    using free_hit[OF assms(2)] free_slot_search.free_hit[OF assms] by metis
next
  case False
  show ?thesis
  proof (cases "slots N n = {0..<N}")
    case True
    then show ?thesis
      using free_full[OF assms(2) False] free_slot_search.free_full[OF assms False] by simp
  next
    case nf: False
    obtain i j where "free_slot k h n = int i" "i \<notin> slots N n" "\<forall>x < i. x \<in> slots N n"
      and "free' k h n = int j" "j \<notin> slots N n" "\<forall>x < j. x \<in> slots N n"
      using free_lowest[OF assms(2) False nf] free_slot_search.free_lowest[OF assms False nf] by blast
    then show ?thesis
      by (metis linorder_neqE_nat)
  qed
qed

end

section \<open>The mask loop\<close>

lemma scanMask_Some: "scanMask w P = Some p \<Longrightarrow> bit w p \<and> P p"
proof (induction w P rule: scanMask.induct)
  case (1 w P)
  show ?case
  proof (cases "w = 0 \<or> P (bsr w)")
    case True
    with "1.prems" show ?thesis
      using bsr_props(1)[of w] by (auto simp: scanMask.simps[of w P] Let_def split: if_splits)
  next
    case False
    then have "scanMask (w AND NOT (push_bit (bsr w) 1)) P = Some p"
      using "1.prems" by (simp add: scanMask.simps[of w P] Let_def del: push_bit_of_1)
    then have "bit (w AND NOT (push_bit (bsr w) 1)) p \<and> P p"
      using "1.IH" False by blast
    then show ?thesis
      by (simp add: bit_and_iff)
  qed
qed

lemma scanMask_None: "scanMask w P = None \<Longrightarrow> bit w p \<Longrightarrow> \<not> P p"
proof (induction w P arbitrary: p rule: scanMask.induct)
  case (1 w P)
  have w: "w \<noteq> 0" using "1.prems"(2) by auto
  show ?case
  proof (cases "p = bsr w")
    case True
    with "1.prems" w show ?thesis
      by (auto simp: scanMask.simps[of w P] Let_def split: if_splits)
  next
    case False
    have nP: "\<not> P (bsr w)" and rest: "scanMask (w AND NOT (push_bit (bsr w) 1)) P = None"
      using "1.prems"(1) w by (auto simp: scanMask.simps[of w P] Let_def split: if_splits)
    have "bit (w AND NOT (push_bit (bsr w) 1)) p"
      using "1.prems"(2) False bit_imp_le_length[OF "1.prems"(2)]
      by (simp add: bit_and_iff mask_simps)
    then show ?thesis
      using "1.IH"[OF w refl nP rest] by blast
  qed
qed

lemma scanMask_cases:
  obtains (found) p where "scanMask w P = Some p" "bit w p" "P p"
  | (none) "scanMask w P = None" "\<And>p. bit w p \<Longrightarrow> \<not> P p"
  using scanMask_Some[of w P] scanMask_None[of w P] by (cases "scanMask w P") auto

text \<open>The two loops over the halves of a 64-bit mask, as every AVX-512 variant issues them.\<close>

definition scanHalves :: "u64 \<Rightarrow> (nat \<Rightarrow> bool) \<Rightarrow> nat option" where
  "scanHalves m P =
     (case scanMask (ucast m) P of
        Some p \<Rightarrow> Some p
      | None \<Rightarrow> map_option (\<lambda>p. p + 32) (scanMask (ucast (drop_bit 32 m)) (\<lambda>p. P (p + 32))))"

lemma scanHalves_cases:
  obtains (found) p where "scanHalves m P = Some p" "bit m p" "P p"
  | (none) "scanHalves m P = None" "\<And>p. bit m p \<Longrightarrow> \<not> P p"
proof (cases "ucast m :: u32" P rule: scanMask_cases)
  case (found p)
  then show ?thesis
    using that(1)[of p] by (simp add: scanHalves_def mask_simps)
next
  case lo: none
  show ?thesis
  proof (cases "ucast (drop_bit 32 m) :: u32" "\<lambda>p. P (p + 32)" rule: scanMask_cases)
    case (found p)
    with lo show ?thesis
      using that(1)[of "p + 32"] by (simp add: scanHalves_def mask_simps add.commute)
  next
    case none
    have "\<not> P p" if "bit m p" for p
    proof (cases "p < 32")
      case True
      then show ?thesis using lo(2)[of p] that by (simp add: mask_simps)
    next
      case False
      then show ?thesis
        using none(2)[of "p - 32"] that bit_imp_le_length[OF that] by (simp add: mask_simps)
    qed
    then show ?thesis
      using lo(1) none(1) that(2) by (simp add: scanHalves_def)
  qed
qed

section \<open>The three implementations\<close>

lemma getKeyIndex_scanHalves:
  "getKeyIndex k h n =
     (case scanHalves (cmpeq_epi8_mask (take 64 (fingerPrint n)) h AND bits0 (bitMap n))
             (\<lambda>p. fst (keyArray n ! p) = k) of
        Some p \<Rightarrow> int p | None \<Rightarrow> -1)"
  by (simp add: getKeyIndex_def scanHalves_def to_ulong_def Let_def split: option.splits)

lemma getKeyIndex_128_scanHalves:
  "getKeyIndex_128 k h n =
     (case scanHalves (cmpeq_epi8_mask (take 64 (fingerPrint n)) h AND bits0 (bitMap n))
             (\<lambda>p. fst (keyArray n ! p) = k) of
        Some p \<Rightarrow> int p
      | None \<Rightarrow>
          (case scanHalves (cmpeq_epi8_mask (take 64 (drop 64 (fingerPrint n))) h AND bits1 (bitMap n))
                  (\<lambda>p. fst (keyArray n ! (p + 64)) = k) of
             Some p \<Rightarrow> int p + 64 | None \<Rightarrow> -1))"
  by (simp add: getKeyIndex_128_def scanHalves_def to_ulong_idx_def bits_at_def Let_def add.assoc
      split: option.splits)

lemma candidate_bit:
  assumes "shape N n" "b + 64 \<le> N"
  shows "bit (cmpeq_epi8_mask (take 64 (drop b (fingerPrint n))) h AND m) p \<longleftrightarrow>
    p < 64 \<and> bit m p \<and> fingerPrint n ! (b + p) = h"
  using assms by (auto simp: shape_def bit_and_iff mask_simps)

interpretation avx64: slot_search 64 getKeyIndex
proof
  fix n :: "'k ListNode_of" and k h
  let ?m = "cmpeq_epi8_mask (take 64 (fingerPrint n)) h AND bits0 (bitMap n)"
  let ?P = "\<lambda>p. fst (keyArray n ! p) = k"
  assume sh: "shape 64 n"
  have b: "bit ?m p \<and> ?P p \<longleftrightarrow> slot_has 64 n k h p" for p
    using candidate_bit[OF sh, of 0] by (auto simp: slot_has_def slots_def mask_simps)
  {
    assume "\<nexists>i. slot_has 64 n k h i"
    then show "getKeyIndex k h n = -1"
      using b by (cases ?m ?P rule: scanHalves_cases) (auto simp: getKeyIndex_scanHalves)
  next
    fix i assume "slot_has 64 n k h i"
    then show "\<exists>j. getKeyIndex k h n = int j \<and> slot_has 64 n k h j"
      using b by (cases ?m ?P rule: scanHalves_cases) (auto simp: getKeyIndex_scanHalves)
  }
qed

interpretation avx128: slot_search 128 getKeyIndex_128
proof
  fix n :: "'k ListNode_of" and k h
  let ?m0 = "cmpeq_epi8_mask (take 64 (fingerPrint n)) h AND bits0 (bitMap n)"
  let ?m1 = "cmpeq_epi8_mask (take 64 (drop 64 (fingerPrint n))) h AND bits1 (bitMap n)"
  let ?P0 = "\<lambda>p. fst (keyArray n ! p) = k"
  let ?P1 = "\<lambda>p. fst (keyArray n ! (p + 64)) = k"
  assume sh: "shape 128 n"
  have b0: "bit ?m0 p \<and> ?P0 p \<longleftrightarrow> p < 64 \<and> slot_has 128 n k h p" for p
    using candidate_bit[OF sh, of 0] by (auto simp: slot_has_def slots_def mask_simps)
  have b1: "bit ?m1 p \<and> ?P1 p \<longleftrightarrow> p < 64 \<and> slot_has 128 n k h (p + 64)" for p
    using candidate_bit[OF sh, of 64] by (auto simp: slot_has_def slots_def test_iff add.commute)
  have split: "slot_has 128 n k h i \<Longrightarrow> i < 64 \<or> i - 64 < 64 \<and> i - 64 + 64 = i" for i
    by (auto simp: slot_has_def slots_def)
  {
    assume "\<nexists>i. slot_has 128 n k h i"
    then show "getKeyIndex_128 k h n = -1"
      using b0 b1
      by (cases ?m0 ?P0 rule: scanHalves_cases; cases ?m1 ?P1 rule: scanHalves_cases)
        (auto simp: getKeyIndex_128_scanHalves)
  next
    fix i assume i: "slot_has 128 n k h i"
    show "\<exists>j. getKeyIndex_128 k h n = int j \<and> slot_has 128 n k h j"
    proof (cases ?m0 ?P0 rule: scanHalves_cases)
      case (found p)
      then show ?thesis using b0 by (auto simp: getKeyIndex_128_scanHalves)
    next
      case lo: none
      show ?thesis
      proof (cases ?m1 ?P1 rule: scanHalves_cases)
        case (found p)
        then show ?thesis
          using b1[of p] lo(1) by (auto simp: getKeyIndex_128_scanHalves intro!: exI[of _ "p + 64"])
      next
        case none
        then show ?thesis
          using split[OF i] i b0[of i] b1[of "i - 64"] lo(2) by metis
      qed
    qed
  }
qed

lemma card_slots_Suc:
  "i < N \<Longrightarrow> card (slots N n \<inter> {..<Suc i}) =
     card (slots N n \<inter> {..<i}) + (if test i (bitMap n) then 1 else 0)"
proof -
  assume i: "i < N"
  show ?thesis
  proof (cases "test i (bitMap n)")
    case True
    then have "slots N n \<inter> {..<Suc i} = insert i (slots N n \<inter> {..<i})"
      using i by (auto simp: slots_def less_Suc_eq)
    with True show ?thesis by simp
  next
    case False
    then have "slots N n \<inter> {..<Suc i} = slots N n \<inter> {..<i}"
      by (auto simp: slots_def less_Suc_eq)
    with False show ?thesis by simp
  qed
qed

text \<open>Once as many occupied slots were seen as the node has, the rest is free.\<close>

lemma all_slots_seen:
  assumes "shape N n" "card (slots N n \<inter> {..<i}) = unat (numEntries n)"
  shows "slots N n \<subseteq> {..<i}"
proof -
  have "slots N n \<inter> {..<i} = slots N n"
    using assms by (intro card_subset_eq) (auto simp: shape_def)
  then show ?thesis by blast
qed

lemma getKeyIndex_loop_spec:
  assumes "shape N n" "count = card (slots N n \<inter> {..<i})" "\<forall>j < i. \<not> slot_has N n k h j" "i \<le> N"
  shows "(\<exists>j. getKeyIndex_loop N k h n i count = int j \<and> slot_has N n k h j) \<or>
    getKeyIndex_loop N k h n i count = -1 \<and> (\<nexists>j. slot_has N n k h j)"
  using assms
proof (induction N k h n i count rule: getKeyIndex_loop.induct)
  case (1 N k h n i count)
  show ?case
  proof (cases "i < N \<and> \<not> slot_has N n k h i")
    case True
    let ?c = "if test i (bitMap n) then count + 1 else count"
    have cond: "\<not> (test i (bitMap n) \<and> h = fingerPrint n ! i \<and> fst (keyArray n ! i) = k)"
      using True by (auto simp: slot_has_def slots_def)
    have c: "?c = card (slots N n \<inter> {..<Suc i})"
      using card_slots_Suc[of i N n] True "1.prems"(2) by simp
    have below: "\<forall>j < Suc i. \<not> slot_has N n k h j"
      using True "1.prems"(3) by (auto simp: less_Suc_eq)
    show ?thesis
    proof (cases "?c = unat (numEntries n)")
      case seen: True
      then have "slots N n \<subseteq> {..<Suc i}"
        using all_slots_seen[OF "1.prems"(1)] c by simp
      then have "\<nexists>j. slot_has N n k h j"
        using below by (auto simp: slot_has_def)
      then show ?thesis
        using True cond seen by (simp add: getKeyIndex_loop.simps[of N k h n i])
    next
      case False
      have "getKeyIndex_loop N k h n i count = getKeyIndex_loop N k h n (i + 1) ?c"
        using True cond False by (subst getKeyIndex_loop.simps) (auto simp: Let_def)
      then show ?thesis
        using "1.IH"[OF _ cond refl False "1.prems"(1)] True c below by simp
    qed
  next
    case False
    then show ?thesis
      using "1.prems"(3,4)
      by (auto simp: getKeyIndex_loop.simps[of N k h n i] slot_has_def slots_def not_less)
  qed
qed

interpretation portable: slot_search N "getKeyIndex_portable N" for N
proof
  fix n :: "'k ListNode_of" and k h
  assume sh: "shape N n"
  note spec = getKeyIndex_loop_spec[OF sh, of 0 0 k h]
  { assume "\<nexists>i. slot_has N n k h i"
    then show "getKeyIndex_portable N k h n = -1"
      using spec by (auto simp: getKeyIndex_portable_def)
  next
    fix i assume "slot_has N n k h i"
    then show "\<exists>j. getKeyIndex_portable N k h n = int j \<and> slot_has N n k h j"
      using spec by (auto simp: getKeyIndex_portable_def) }
qed

section \<open>Free slots\<close>

definition lowestBit :: "u64 \<Rightarrow> nat" where
  "lowestBit m = (if (ucast m :: u32) \<noteq> 0 then bsf (ucast m :: u32)
     else bsf (ucast (drop_bit 32 m) :: u32) + 32)"

lemma lowestBit_props:
  assumes "m \<noteq> 0"
  shows "bit m (lowestBit m)" "\<And>j. j < lowestBit m \<Longrightarrow> \<not> bit m j"
proof -
  have "bit m (lowestBit m) \<and> (\<forall>j < lowestBit m. \<not> bit m j)"
  proof (cases "(ucast m :: u32) = 0")
    case False
    then show ?thesis
      using bsf_props[OF False] bsf_less[OF False]
      by (simp add: lowestBit_def mask_simps)
  next
    case True
    then have lo: "\<not> bit m j" if "j < 32" for j
      using that bit_lower_half[of m j] by simp
    obtain p where p: "bit m p"
      using assms by (auto simp: word_neq_0_bit)
    then have "bit (ucast (drop_bit 32 m) :: u32) (p - 32)"
      using lo[of p] bit_imp_le_length[OF p] by (cases "p < 32") (auto simp: mask_simps)
    then have hi: "(ucast (drop_bit 32 m) :: u32) \<noteq> 0" by auto
    show ?thesis
    proof (intro conjI allI impI)
      show "bit m (lowestBit m)"
        using bsf_props(1)[OF hi] True by (simp add: lowestBit_def mask_simps add.commute)
      fix j assume j: "j < lowestBit m"
      show "\<not> bit m j"
      proof (cases "j < 32")
        case False
        then show ?thesis
          using j bsf_props(2)[OF hi, of "j - 32"] bsf_less[OF hi] True
          by (auto simp: lowestBit_def mask_simps)
      qed (rule lo)
    qed
  qed
  then show "bit m (lowestBit m)" "\<And>j. j < lowestBit m \<Longrightarrow> \<not> bit m j" by auto
qed

lemma bit_NOT_u64 [mask_simps]: "bit (NOT (m :: u64)) j \<longleftrightarrow> j < 64 \<and> \<not> bit m j"
  by (simp add: bit_not_iff)

lemma NOT_eq_0: "NOT (m :: u64) = 0 \<longleftrightarrow> (\<forall>j < 64. bit m j)"
  using word_neq_0_bit[of "NOT m"] by (auto simp: mask_simps)

lemma lowest_NOT:
  assumes "NOT (m :: u64) \<noteq> 0"
  shows "lowestBit (NOT m) < 64" "\<not> bit m (lowestBit (NOT m))" "\<And>j. j < lowestBit (NOT m) \<Longrightarrow> bit m j"
proof -
  show l: "lowestBit (NOT m) < 64" and "\<not> bit m (lowestBit (NOT m))"
    using lowestBit_props(1)[OF assms] by (simp_all add: bit_NOT_u64)
  fix j assume "j < lowestBit (NOT m)"
  with l show "bit m j"
    using lowestBit_props(2)[OF assms, of j] by (simp add: bit_NOT_u64)
qed

lemma slots_full: "slots N n = {0..<N} \<longleftrightarrow> (\<forall>i < N. test i (bitMap n))"
  by (simp only: slots_def set_eq_iff mem_Collect_eq atLeastLessThan_iff) blast

lemma test_lower: "j < 64 \<Longrightarrow> test j s \<longleftrightarrow> bit (bits0 s) j"
  by (simp add: test_iff)

lemma test_upper: "64 \<le> j \<Longrightarrow> j < 128 \<Longrightarrow> test j s \<longleftrightarrow> bit (bits1 s) (j - 64)"
  by (simp add: test_iff le_mod_geq)

lemma slots_64_full: "slots 64 n = {0..<64} \<longleftrightarrow> NOT (bits0 (bitMap n)) = 0"
  unfolding slots_full NOT_eq_0 using test_lower by blast

lemma slots_128_full:
  "slots 128 n = {0..<128} \<longleftrightarrow> NOT (bits0 (bitMap n)) = 0 \<and> NOT (bits1 (bitMap n)) = 0"
  (is "?l \<longleftrightarrow> ?r")
proof
  assume ?l
  then have t: "test j (bitMap n)" if "j < 128" for j
    using that unfolding slots_full by blast
  have "bit (bits0 (bitMap n)) j \<and> bit (bits1 (bitMap n)) j" if "j < 64" for j
    using that t[of j] t[of "j + 64"] test_lower[of j] test_upper[of "j + 64"] by simp
  then show ?r unfolding NOT_eq_0 by blast
next
  assume r: ?r
  have "test j (bitMap n)" if "j < 128" for j
    using r that test_lower[of j] test_upper[of j] unfolding NOT_eq_0 by (cases "j < 64") auto
  then show ?l unfolding slots_full by blast
qed

lemma getFreeIndex_lowestBit:
  "getFreeIndex k h n =
     (if numEntries n \<noteq> 0 \<and> getKeyIndex k h n \<noteq> -1 then -1
      else if NOT (bits0 (bitMap n)) = 0 then -2
      else int (lowestBit (NOT (bits0 (bitMap n)))))"
  by (simp add: getFreeIndex_def lowestBit_def to_ulong_def Let_def)

lemma getFreeIndex_128_lowestBit:
  "getFreeIndex_128 k h n =
     (if numEntries n \<noteq> 0 \<and> getKeyIndex_128 k h n \<noteq> -1 then -1
      else if NOT (bits0 (bitMap n)) = 0 \<and> NOT (bits1 (bitMap n)) = 0 then -2
      else if NOT (bits0 (bitMap n)) \<noteq> 0 then int (lowestBit (NOT (bits0 (bitMap n))))
      else int (lowestBit (NOT (bits1 (bitMap n)))) + 64)"
  by (simp add: getFreeIndex_128_def lowestBit_def to_ulong_idx_def bits_at_def Let_def)

lemma slot_has_nonempty: "shape N n \<Longrightarrow> slot_has N n k h i \<Longrightarrow> numEntries n \<noteq> 0"
  by (auto simp: shape_empty slot_has_def)

interpretation avx64: free_slot_search 64 getKeyIndex getFreeIndex
proof
  fix n :: "'k ListNode_of" and k h
  assume sh: "shape 64 n"
  let ?m = "bits0 (bitMap n)"
  { fix i assume "slot_has 64 n k h i"
    then show "getFreeIndex k h n = -1"
      using avx64.find_eq_minus_1[OF sh] slot_has_nonempty[OF sh]
      by (auto simp: getFreeIndex_lowestBit)
  next
    assume "\<nexists>i. slot_has 64 n k h i"
    then have k: "getKeyIndex k h n = -1" by (rule avx64.find_miss[OF sh])
    { assume "slots 64 n = {0..<64}"
      then show "getFreeIndex k h n = -2"
        using k by (simp add: getFreeIndex_lowestBit slots_64_full)
    next
      assume "slots 64 n \<noteq> {0..<64}"
      then have nf: "NOT ?m \<noteq> 0" by (simp add: slots_64_full)
      then show "\<exists>j < 64. getFreeIndex k h n = int j \<and> j \<notin> slots 64 n \<and> (\<forall>i < j. i \<in> slots 64 n)"
        using k lowest_NOT[OF nf]
        by (intro exI[of _ "lowestBit (NOT ?m)"]) (auto simp: getFreeIndex_lowestBit slots_def mask_simps)
    } }
qed

interpretation avx128: free_slot_search 128 getKeyIndex_128 getFreeIndex_128
proof
  fix n :: "'k ListNode_of" and k h
  assume sh: "shape 128 n"
  let ?m0 = "bits0 (bitMap n)" and ?m1 = "bits1 (bitMap n)"
  { fix i assume "slot_has 128 n k h i"
    then show "getFreeIndex_128 k h n = -1"
      using avx128.find_eq_minus_1[OF sh] slot_has_nonempty[OF sh]
      by (auto simp: getFreeIndex_128_lowestBit)
  next
    assume "\<nexists>i. slot_has 128 n k h i"
    then have k: "getKeyIndex_128 k h n = -1" by (rule avx128.find_miss[OF sh])
    { assume "slots 128 n = {0..<128}"
      then show "getFreeIndex_128 k h n = -2"
        using k by (simp add: getFreeIndex_128_lowestBit slots_128_full)
    next
      assume nf: "slots 128 n \<noteq> {0..<128}"
      show "\<exists>j < 128. getFreeIndex_128 k h n = int j \<and> j \<notin> slots 128 n \<and> (\<forall>i < j. i \<in> slots 128 n)"
      proof (cases "NOT ?m0 = 0")
        case False
        then show ?thesis
          using k lowest_NOT[OF False]
          by (intro exI[of _ "lowestBit (NOT ?m0)"])
            (auto simp: getFreeIndex_128_lowestBit slots_def test_iff)
      next
        case True
        with nf have hi: "NOT ?m1 \<noteq> 0" by (simp add: slots_128_full)
        have "i \<in> slots 128 n" if "i < lowestBit (NOT ?m1) + 64" for i
          using that True lowest_NOT(1)[OF hi] lowest_NOT(3)[OF hi, of "i - 64"]
            test_lower[of i "bitMap n"] test_upper[of i "bitMap n"]
          by (cases "i < 64") (auto simp: slots_def NOT_eq_0)
        then show ?thesis
          using k True hi lowest_NOT(1,2)[OF hi]
          by (intro exI[of _ "lowestBit (NOT ?m1) + 64"])
            (auto simp: getFreeIndex_128_lowestBit slots_def test_iff)
      qed
    } }
qed

text \<open>What the portable loop knows about the free slots below \<open>i\<close>.\<close>

definition free_upto :: "nat \<Rightarrow> 'k ListNode_of \<Rightarrow> nat \<Rightarrow> int \<Rightarrow> bool" where
  "free_upto N n i f \<longleftrightarrow>
     f = -2 \<and> (\<forall>j < i. j \<in> slots N n) \<or>
     (\<exists>j < i. f = int j \<and> j \<notin> slots N n \<and> (\<forall>x < j. x \<in> slots N n))"

lemma free_upto_Suc:
  "i < N \<Longrightarrow> free_upto N n i f \<Longrightarrow>
   free_upto N n (Suc i) (if f = -2 \<and> \<not> test i (bitMap n) then int i else f)"
  unfolding free_upto_def by (auto simp: slots_def less_Suc_eq)

lemma getFreeIndex_loop_spec:
  assumes "shape N n" "count = card (slots N n \<inter> {..<i})" "\<forall>j < i. \<not> slot_has N n k h j" "i \<le> N"
    and "\<not> needed \<Longrightarrow> slots N n \<subseteq> {..<i}" "free_upto N n i f"
  shows "(\<exists>j. slot_has N n k h j) \<and> getFreeIndex_loop N k h n i f count needed = -1 \<or>
    (\<nexists>j. slot_has N n k h j) \<and> free_upto N n N (getFreeIndex_loop N k h n i f count needed)"
  using assms
proof (induction N k h n i f count needed rule: getFreeIndex_loop.induct)
  case (1 N k h n i f count needed)
  let ?t = "test i (bitMap n)"
  show ?case
  proof (cases "i < N \<and> \<not> slot_has N n k h i")
    case True
    let ?c = "if ?t then count + 1 else count"
    let ?f = "if f = -2 \<and> \<not> ?t then int i else f"
    let ?n = "if ?t \<and> ?c = unat (numEntries n) then False else needed"
    have cond: "\<not> (needed \<and> ?t \<and> h = fingerPrint n ! i \<and> fst (keyArray n ! i) = k)"
      using True by (auto simp: slot_has_def slots_def)
    have c: "?c = card (slots N n \<inter> {..<i + 1})"
      using card_slots_Suc[of i N n] True "1.prems"(2) by simp
    have below: "\<forall>j < i + 1. \<not> slot_has N n k h j"
      using True "1.prems"(3) by (auto simp: less_Suc_eq)
    have seen: "slots N n \<subseteq> {..<i + 1}" if "\<not> ?n"
      using that "1.prems"(5) all_slots_seen[OF "1.prems"(1), of "i + 1"] c
      by (auto split: if_splits)
    have free: "free_upto N n (i + 1) ?f"
      using free_upto_Suc[of i N n f] True "1.prems"(6) by simp
    have eq: "getFreeIndex_loop N k h n i f count needed =
        getFreeIndex_loop N k h n (i + 1) ?f ?c ?n"
      using True cond by (subst getFreeIndex_loop.simps) (auto simp: Let_def)
    show ?thesis
      unfolding eq using True
      by (intro "1.IH"[OF _ cond refl refl refl "1.prems"(1) c below _ seen free]) auto
  next
    case False
    show ?thesis
    proof (cases "i < N")
      case True
      with False have hit: "slot_has N n k h i" by simp
      then have needed: needed
        using "1.prems"(5) by (auto simp: slot_has_def)
      have "getFreeIndex_loop N k h n i f count needed = -1"
        using hit needed True by (subst getFreeIndex_loop.simps) (auto simp: slot_has_def slots_def)
      with hit show ?thesis by blast
    next
      case out: False
      then have "i = N" using "1.prems"(4) by simp
      then show ?thesis
        using "1.prems"(3,6)
        by (auto simp: getFreeIndex_loop.simps[of N k h n N] slot_has_def slots_def)
    qed
  qed
qed

lemma free_upto_N:
  "free_upto N n N f \<longleftrightarrow>
     f = -2 \<and> slots N n = {0..<N} \<or>
     (\<exists>j < N. f = int j \<and> j \<notin> slots N n \<and> (\<forall>x < j. x \<in> slots N n))"
  unfolding free_upto_def by (auto simp: slots_def)

interpretation portable: free_slot_search N "getKeyIndex_portable N" "getFreeIndex_portable N" for N
proof
  fix n :: "'k ListNode_of" and k h
  assume sh: "shape N n"
  have spec: "(\<exists>j. slot_has N n k h j) \<and> getFreeIndex_portable N k h n = -1 \<or>
    (\<nexists>j. slot_has N n k h j) \<and> free_upto N n N (getFreeIndex_portable N k h n)"
    unfolding getFreeIndex_portable_def
    by (rule getFreeIndex_loop_spec[OF sh]) (auto simp: free_upto_def)
  { fix i assume "slot_has N n k h i"
    then show "getFreeIndex_portable N k h n = -1" using spec by blast
  next
    assume no: "\<nexists>i. slot_has N n k h i"
    { assume "slots N n = {0..<N}"
      then show "getFreeIndex_portable N k h n = -2"
        using spec no unfolding free_upto_N by (auto simp: slots_def)
    next
      assume "slots N n \<noteq> {0..<N}"
      then show "\<exists>j < N. getFreeIndex_portable N k h n = int j \<and> j \<notin> slots N n \<and>
          (\<forall>i < j. i \<in> slots N n)"
        using spec no unfolding free_upto_N by blast
    } }
qed

section \<open>The optimised searches equal the portable ones\<close>

lemma find_slot_unique:
  assumes "slot_search N find1" "slot_search N find2" "shape N n" "hashed N n" "uniq N n"
  shows "find1 k (getKeyFingerPrint k) n = find2 k (getKeyFingerPrint k) n"
proof (cases "k \<in> node_keys N n")
  case True
  then obtain i where "i \<in> slots N n" "fst (keyArray n ! i) = k"
    by (auto simp: node_keys_def)
  then show ?thesis
    using slot_search.find_at[OF assms(1,3,4,5)] slot_search.find_at[OF assms(2-5)] by metis
next
  case False
  then show ?thesis
    using slot_search.find_absent[OF assms(1,3)] slot_search.find_absent[OF assms(2,3)] by metis
qed

end
