(* ===== verification/NodeOps.thy ===== *)
theory NodeOps
  imports NodeSearch
begin

text \<open>
  A list node as a finite map. \<open>slots_ok\<close> is the invariant of the slot arrays; under it the
  slot updates of \<open>listNode.cpp\<close> are updates of \<open>node_map\<close> and the node's
  \<open>lookup\<close>, \<open>probe\<close> and \<open>update\<close> are the map's.
\<close>

section \<open>The map of a node\<close>

definition slots_ok_by :: "('k \<Rightarrow> u8) \<Rightarrow> 'k ListNode_of \<Rightarrow> bool" where
  "slots_ok_by fp n \<longleftrightarrow> shape MAX_ENTRIES n \<and> hashed_by fp MAX_ENTRIES n \<and> uniq MAX_ENTRIES n"

abbreviation slots_ok :: "ListNode \<Rightarrow> bool" where
  "slots_ok \<equiv> slots_ok_by getKeyFingerPrint"

lemmas slots_ok_def = slots_ok_by_def

definition live_idx :: "'k ListNode_of \<Rightarrow> nat list" where
  "live_idx n = filter (\<lambda>i. test i (bitMap n)) [0..<MAX_ENTRIES]"

definition entries :: "'k ListNode_of \<Rightarrow> ('k \<times> Val_t) list" where
  "entries n = map (\<lambda>i. keyArray n ! i) (live_idx n)"

definition node_map :: "'k ListNode_of \<Rightarrow> 'k \<rightharpoonup> Val_t" where
  "node_map n = map_of (entries n)"

abbreviation nslots :: "'k ListNode_of \<Rightarrow> nat set" where
  "nslots n \<equiv> slots MAX_ENTRIES n"

abbreviation nkeys :: "'k ListNode_of \<Rightarrow> 'k set" where
  "nkeys n \<equiv> node_keys MAX_ENTRIES n"

lemma MAX_ENTRIES_bounds: "0 < MAX_ENTRIES" "MAX_ENTRIES < 128" "MAX_ENTRIES \<le> 64"
  by (simp_all add: MAX_ENTRIES_def)

lemma set_live_idx [simp]: "set (live_idx n) = nslots n"
  by (auto simp: live_idx_def slots_def)

lemma set_entries: "set (entries n) = (\<lambda>i. keyArray n ! i) ` nslots n"
  by (simp add: entries_def)

lemma distinct_live_idx [simp]: "distinct (live_idx n)"
  by (simp add: live_idx_def)

lemma length_live_idx: "length (live_idx n) = card (nslots n)"
  using distinct_card[OF distinct_live_idx, of n] by simp

lemma distinct_keys_entries: "slots_ok_by fp n \<Longrightarrow> distinct (map fst (entries n))"
  by (auto simp: slots_ok_def uniq_def entries_def distinct_map o_def)

lemma node_map_Some:
  "slots_ok_by fp n \<Longrightarrow> node_map n k = Some v \<longleftrightarrow> (\<exists>i \<in> nslots n. keyArray n ! i = (k, v))"
  by (auto simp: node_map_def distinct_keys_entries set_entries dest: sym)

lemma dom_node_map: "dom (node_map n) = nkeys n"
  by (force simp: node_map_def dom_map_of_conv_image_fst set_entries node_keys_def)

lemma node_map_None: "node_map n k = None \<longleftrightarrow> k \<notin> nkeys n"
  using dom_node_map[of n] by (metis domIff)

lemma node_map_cong:
  assumes "bitMap n' = bitMap n" "keyArray n' = keyArray n"
  shows "node_map n' = node_map n" "nslots n' = nslots n" "nkeys n' = nkeys n"
  using assms by (simp_all add: node_map_def entries_def live_idx_def slots_def node_keys_def)

lemma slots_ok_cong:
  assumes "bitMap n' = bitMap n" "keyArray n' = keyArray n" "fingerPrint n' = fingerPrint n"
    "numEntries n' = numEntries n"
  shows "slots_ok_by fp n' = slots_ok_by fp n"
  using assms by (simp add: slots_ok_def shape_def hashed_def uniq_def slots_def)

text \<open>The arrays alone determine the map and the invariant; the setters change other fields.\<close>

lemma slots_ok_field [simp]:
  "slots_ok_by fp (n\<lparr>next_p := x0\<rparr>) = slots_ok_by fp n"
  "slots_ok_by fp (n\<lparr>prev_p := x1\<rparr>) = slots_ok_by fp n"
  "slots_ok_by fp (n\<lparr>min_k := x2\<rparr>) = slots_ok_by fp n"
  "slots_ok_by fp (n\<lparr>max_k := x3\<rparr>) = slots_ok_by fp n"
  "slots_ok_by fp (n\<lparr>deleted := x4\<rparr>) = slots_ok_by fp n"
  "slots_ok_by fp (n\<lparr>verLock := x5\<rparr>) = slots_ok_by fp n"
  "slots_ok_by fp (n\<lparr>lastScanVersion := x6\<rparr>) = slots_ok_by fp n"
  "slots_ok_by fp (n\<lparr>permuter := x7\<rparr>) = slots_ok_by fp n"
  by ((rule slots_ok_cong; simp)+)

lemma node_map_field [simp]:
  "node_map (n\<lparr>next_p := x0\<rparr>) = node_map n"
  "node_map (n\<lparr>prev_p := x1\<rparr>) = node_map n"
  "node_map (n\<lparr>min_k := x2\<rparr>) = node_map n"
  "node_map (n\<lparr>max_k := x3\<rparr>) = node_map n"
  "node_map (n\<lparr>deleted := x4\<rparr>) = node_map n"
  "node_map (n\<lparr>verLock := x5\<rparr>) = node_map n"
  "node_map (n\<lparr>lastScanVersion := x6\<rparr>) = node_map n"
  "node_map (n\<lparr>permuter := x7\<rparr>) = node_map n"
  by ((rule node_map_cong(1); simp)+)

lemma nslots_field [simp]:
  "nslots (n\<lparr>next_p := x0\<rparr>) = nslots n"
  "nslots (n\<lparr>prev_p := x1\<rparr>) = nslots n"
  "nslots (n\<lparr>min_k := x2\<rparr>) = nslots n"
  "nslots (n\<lparr>max_k := x3\<rparr>) = nslots n"
  "nslots (n\<lparr>deleted := x4\<rparr>) = nslots n"
  "nslots (n\<lparr>verLock := x5\<rparr>) = nslots n"
  "nslots (n\<lparr>lastScanVersion := x6\<rparr>) = nslots n"
  "nslots (n\<lparr>permuter := x7\<rparr>) = nslots n"
  by ((rule node_map_cong(2); simp)+)

lemma nkeys_field [simp]:
  "nkeys (n\<lparr>next_p := x0\<rparr>) = nkeys n"
  "nkeys (n\<lparr>prev_p := x1\<rparr>) = nkeys n"
  "nkeys (n\<lparr>min_k := x2\<rparr>) = nkeys n"
  "nkeys (n\<lparr>max_k := x3\<rparr>) = nkeys n"
  "nkeys (n\<lparr>deleted := x4\<rparr>) = nkeys n"
  "nkeys (n\<lparr>verLock := x5\<rparr>) = nkeys n"
  "nkeys (n\<lparr>lastScanVersion := x6\<rparr>) = nkeys n"
  "nkeys (n\<lparr>permuter := x7\<rparr>) = nkeys n"
  by ((rule node_map_cong(3); simp)+)

lemmas setter_defs [node_simps] =
  setNext_def setPrev_def setMin_def setMax_def setDeleted_def writeUnlock_def

lemma numEntries_card: "slots_ok_by fp n \<Longrightarrow> unat (numEntries n) = card (nslots n)"
  by (simp add: slots_ok_def shape_def)

lemma card_nslots_le: "card (nslots n) \<le> MAX_ENTRIES"
proof -
  have "nslots n \<subseteq> {..<MAX_ENTRIES}" by (auto simp: slots_def)
  then show ?thesis using card_mono[of "{..<MAX_ENTRIES}"] by fastforce
qed

section \<open>Slot updates\<close>

lemma insertAtIndex_sel [simp]:
  "keyArray (insertAtIndex e i h n) = (keyArray n)[i := e]"
  "fingerPrint (insertAtIndex e i h n) = (fingerPrint n)[i := h]"
  "bitMap (insertAtIndex e i h n) = set_at i (bitMap n)"
  "numEntries (insertAtIndex e i h n) = numEntries n + 1"
  "min_k (insertAtIndex e i h n) = min_k n" "max_k (insertAtIndex e i h n) = max_k n"
  "next_p (insertAtIndex e i h n) = next_p n" "prev_p (insertAtIndex e i h n) = prev_p n"
  "deleted (insertAtIndex e i h n) = deleted n" "verLock (insertAtIndex e i h n) = verLock n"
  "lastScanVersion (insertAtIndex e i h n) = lastScanVersion n"
  "permuter (insertAtIndex e i h n) = permuter n"
  by (simp_all add: insertAtIndex_def)

lemma removeFromIndex_sel [simp]:
  "keyArray (removeFromIndex i n) = keyArray n"
  "fingerPrint (removeFromIndex i n) = fingerPrint n"
  "bitMap (removeFromIndex i n) = reset_at i (bitMap n)"
  "numEntries (removeFromIndex i n) = numEntries n - 1"
  "min_k (removeFromIndex i n) = min_k n" "max_k (removeFromIndex i n) = max_k n"
  "next_p (removeFromIndex i n) = next_p n" "prev_p (removeFromIndex i n) = prev_p n"
  "deleted (removeFromIndex i n) = deleted n" "verLock (removeFromIndex i n) = verLock n"
  "lastScanVersion (removeFromIndex i n) = lastScanVersion n"
  "permuter (removeFromIndex i n) = permuter n"
  by (simp_all add: removeFromIndex_def)

lemma updateAtIndex_sel [simp]:
  "keyArray (updateAtIndex v i n) = (keyArray n)[i := (fst (keyArray n ! i), v)]"
  "fingerPrint (updateAtIndex v i n) = fingerPrint n"
  "bitMap (updateAtIndex v i n) = bitMap n"
  "numEntries (updateAtIndex v i n) = numEntries n"
  "min_k (updateAtIndex v i n) = min_k n" "max_k (updateAtIndex v i n) = max_k n"
  "next_p (updateAtIndex v i n) = next_p n" "prev_p (updateAtIndex v i n) = prev_p n"
  "deleted (updateAtIndex v i n) = deleted n" "verLock (updateAtIndex v i n) = verLock n"
  "lastScanVersion (updateAtIndex v i n) = lastScanVersion n"
  "permuter (updateAtIndex v i n) = permuter n"
  by (simp_all add: updateAtIndex_def)

text \<open>Under the invariant a key sits in one slot.\<close>

lemma slot_of_key:
  "slots_ok_by fp n \<Longrightarrow> i \<in> nslots n \<Longrightarrow> j \<in> nslots n \<Longrightarrow> fst (keyArray n ! i) = fst (keyArray n ! j) \<Longrightarrow> i = j"
  by (auto simp: slots_ok_def uniq_def inj_on_def)

lemma slots_ok_length:
  "slots_ok_by fp n \<Longrightarrow> length (keyArray n) = MAX_ENTRIES \<and> length (fingerPrint n) = MAX_ENTRIES"
  by (simp add: slots_ok_def shape_def)

lemma slots_insertAtIndex:
  "i < MAX_ENTRIES \<Longrightarrow> nslots (insertAtIndex e i h n) = insert i (nslots n)"
  using MAX_ENTRIES_bounds by (auto simp: slots_def test_set_at)

lemma slots_removeFromIndex:
  "i < MAX_ENTRIES \<Longrightarrow> nslots (removeFromIndex i n) = nslots n - {i}"
  using MAX_ENTRIES_bounds by (auto simp: slots_def test_reset_at)

lemma slots_updateAtIndex [simp]: "slots N (updateAtIndex v i n) = slots N n"
  by (simp add: slots_def)

lemma unat_incr_u8:
  assumes "unat (w :: u8) = c" "c < 255"
  shows "unat (w + 1) = c + 1"
  using assms by (simp add: unat_word_ariths)

lemma unat_decr_u8:
  assumes "unat (w :: u8) = c" "0 < c"
  shows "unat (w - 1) = c - 1"
proof -
  have "w \<noteq> 0" using assms by auto
  then show ?thesis
    using assms(1) unat_minus_one[of w] by simp
qed

lemma shape_insertAtIndex:
  assumes "shape MAX_ENTRIES n" "i < MAX_ENTRIES" "i \<notin> nslots n"
  shows "shape MAX_ENTRIES (insertAtIndex e i h n)"
proof -
  have "unat (numEntries n + 1) = card (nslots n) + 1"
    using assms(1) card_nslots_le[of n] MAX_ENTRIES_bounds
    by (intro unat_incr_u8) (auto simp: shape_def)
  then show ?thesis
    using assms by (simp add: shape_def slots_insertAtIndex)
qed

lemma slots_ok_insertAtIndex:
  assumes "slots_ok_by fp n" "i < MAX_ENTRIES" "i \<notin> nslots n" "k \<notin> nkeys n" "h = fp k"
  shows "slots_ok_by fp (insertAtIndex (k, v) i h n)"
proof -
  let ?n = "insertAtIndex (k, v) i h n"
  have arr: "j \<in> nslots n \<Longrightarrow> keyArray ?n ! j = keyArray n ! j \<and> fingerPrint ?n ! j = fingerPrint n ! j"
    "keyArray ?n ! i = (k, v)" "fingerPrint ?n ! i = h" for j
    using assms(2,3) slots_ok_length[OF assms(1)] by (auto simp: nth_list_update)
  have "hashed_by fp MAX_ENTRIES ?n"
    unfolding hashed_def slots_insertAtIndex[OF assms(2)]
    using assms(1,5) arr by (metis fst_conv hashed_def insert_iff slots_ok_def)
  moreover have "uniq MAX_ENTRIES ?n"
    unfolding uniq_def slots_insertAtIndex[OF assms(2)] inj_on_insert
  proof
    show "inj_on (\<lambda>i. fst (keyArray ?n ! i)) (nslots n)"
      using slot_of_key[OF assms(1)] arr(1) by (intro inj_onI) auto
    show "fst (keyArray ?n ! i) \<notin> (\<lambda>i. fst (keyArray ?n ! i)) ` (nslots n - {i})"
      using assms(4) arr by (auto simp: node_keys_def)
  qed
  ultimately show ?thesis
    using shape_insertAtIndex[of n i] assms by (simp add: slots_ok_def)
qed

lemma node_map_insertAtIndex:
  assumes "slots_ok_by fp n" "i < MAX_ENTRIES" "i \<notin> nslots n" "k \<notin> nkeys n" "h = fp k"
  shows "node_map (insertAtIndex (k, v) i h n) = (node_map n)(k \<mapsto> v)"
proof (rule map_eqI)
  let ?n = "insertAtIndex (k, v) i h n"
  fix x y
  have ok: "slots_ok_by fp ?n" by (rule slots_ok_insertAtIndex[OF assms])
  have "keyArray ?n ! j = keyArray n ! j" if "j \<in> nslots n" for j
    using assms(3) that by (cases "i = j") auto
  moreover have "keyArray ?n ! i = (k, v)"
    using assms(2) slots_ok_length[OF assms(1)] by simp
  ultimately have "node_map ?n x = Some y \<longleftrightarrow> (k, v) = (x, y) \<or> (\<exists>j \<in> nslots n. keyArray n ! j = (x, y))"
    unfolding node_map_Some[OF ok] slots_insertAtIndex[OF assms(2)] by auto
  moreover have "node_map n k = None" using assms(4) by (simp add: node_map_None)
  ultimately show "node_map ?n x = Some y \<longleftrightarrow> ((node_map n)(k \<mapsto> v)) x = Some y"
    unfolding node_map_Some[OF assms(1), symmetric] by auto
qed

lemma nkeys_insertAtIndex:
  assumes "slots_ok_by fp n" "i < MAX_ENTRIES" "i \<notin> nslots n" "k \<notin> nkeys n" "h = fp k"
  shows "nkeys (insertAtIndex (k, v) i h n) = insert k (nkeys n)"
  using node_map_insertAtIndex[OF assms] by (simp add: dom_node_map[symmetric])

lemma slots_ok_removeFromIndex:
  assumes "slots_ok_by fp n" "i \<in> nslots n"
  shows "slots_ok_by fp (removeFromIndex i n)"
proof -
  have i: "i < MAX_ENTRIES" using assms(2) by (rule slots_bound)
  have "0 < card (nslots n)" using assms(2) by (auto simp: card_gt_0_iff)
  then have "unat (numEntries n - 1) = card (nslots n - {i})"
    using unat_decr_u8[OF numEntries_card[OF assms(1)]] assms(2) by simp
  then have "shape MAX_ENTRIES (removeFromIndex i n)"
    using slots_ok_length[OF assms(1)] by (simp add: shape_def slots_removeFromIndex[OF i])
  then show ?thesis
    using assms(1) unfolding slots_ok_def hashed_def uniq_def slots_removeFromIndex[OF i]
    by (simp add: inj_on_diff)
qed

lemma node_map_removeFromIndex:
  assumes "slots_ok_by fp n" "i \<in> nslots n" "fst (keyArray n ! i) = k"
  shows "node_map (removeFromIndex i n) = (node_map n)(k := None)"
proof (rule map_eqI)
  fix x y
  have ok: "slots_ok_by fp (removeFromIndex i n)" by (rule slots_ok_removeFromIndex[OF assms(1,2)])
  have "node_map (removeFromIndex i n) x = Some y \<longleftrightarrow> (\<exists>j \<in> nslots n. j \<noteq> i \<and> keyArray n ! j = (x, y))"
    unfolding node_map_Some[OF ok] slots_removeFromIndex[OF slots_bound[OF assms(2)]] by auto
  moreover have "j \<noteq> i \<longleftrightarrow> x \<noteq> k" if "j \<in> nslots n" "keyArray n ! j = (x, y)" for j
    using slot_of_key[OF assms(1), of i j] assms(2,3) that by auto
  ultimately show "node_map (removeFromIndex i n) x = Some y \<longleftrightarrow> ((node_map n)(k := None)) x = Some y"
    using node_map_Some[OF assms(1), of x y] by auto
qed

lemma slots_ok_updateAtIndex:
  assumes "slots_ok_by fp n"
  shows "slots_ok_by fp (updateAtIndex v i n)"
proof -
  have "fst (keyArray (updateAtIndex v i n) ! j) = fst (keyArray n ! j)" for j
    by (cases "j = i \<and> i < length (keyArray n)") (auto simp: nth_list_update not_less list_update_beyond)
  then show ?thesis
    using assms unfolding slots_ok_def shape_def hashed_def uniq_def slots_updateAtIndex by simp
qed

lemma node_map_updateAtIndex:
  assumes "slots_ok_by fp n" "i \<in> nslots n" "fst (keyArray n ! i) = k"
  shows "node_map (updateAtIndex v i n) = (node_map n)(k \<mapsto> v)"
proof (rule map_eqI)
  fix x y
  have ok: "slots_ok_by fp (updateAtIndex v i n)" by (rule slots_ok_updateAtIndex[OF assms(1)])
  have "keyArray (updateAtIndex v i n) ! j = (if j = i then (k, v) else keyArray n ! j)" for j
    using assms(3) slots_ok_length[OF assms(1)] slots_bound[OF assms(2)] by (auto simp: nth_list_update)
  then have "node_map (updateAtIndex v i n) x = Some y \<longleftrightarrow>
      (x, y) = (k, v) \<or> (\<exists>j \<in> nslots n. j \<noteq> i \<and> keyArray n ! j = (x, y))"
    unfolding node_map_Some[OF ok] slots_updateAtIndex using assms(2) by auto
  moreover have "j \<noteq> i \<longleftrightarrow> x \<noteq> k" if "j \<in> nslots n" "keyArray n ! j = (x, y)" for j
    using slot_of_key[OF assms(1), of i j] assms(2,3) that by auto
  ultimately show "node_map (updateAtIndex v i n) x = Some y \<longleftrightarrow> ((node_map n)(k \<mapsto> v)) x = Some y"
    using node_map_Some[OF assms(1), of x y] by auto
qed

section \<open>The operations of one node\<close>

lemma getKeyIndex_found:
  assumes "slots_ok_by fp n" "i \<in> nslots n" "fst (keyArray n ! i) = k"
  shows "getKeyIndex k (fp k) n = int i"
  using assms avx64.find_at[of n fp i k] by (simp add: slots_ok_def MAX_ENTRIES_def)

lemma getKeyIndex_absent:
  "slots_ok_by fp n \<Longrightarrow> k \<notin> nkeys n \<Longrightarrow> getKeyIndex k h n = -1"
  using avx64.find_absent[of n k] by (simp add: slots_ok_def MAX_ENTRIES_def)

lemma getKeyIndex_cases:
  assumes "slots_ok_by fp n"
  obtains (absent) "k \<notin> nkeys n" "node_map n k = None" "getKeyIndex k (fp k) n = -1"
  | (found) i v where "i \<in> nslots n" "keyArray n ! i = (k, v)" "node_map n k = Some v"
      "getKeyIndex k (fp k) n = int i" "k \<in> nkeys n"
proof (cases "node_map n k")
  case None
  then show ?thesis
    using that(1) getKeyIndex_absent[OF assms] by (simp add: node_map_None)
next
  case (Some v)
  then obtain i where i: "i \<in> nslots n" "keyArray n ! i = (k, v)"
    using node_map_Some[OF assms] by blast
  then have "k \<in> nkeys n" by (force simp: node_keys_def)
  then show ?thesis
    using that(2)[OF i Some] getKeyIndex_found[OF assms i(1)] i(2) by simp
qed

lemma getFreeIndex_cases:
  assumes "slots_ok_by fp n"
  obtains (exists) "k \<in> nkeys n" "getFreeIndex k (fp k) n = -1"
  | (full) "k \<notin> nkeys n" "nslots n = {0..<MAX_ENTRIES}" "getFreeIndex k (fp k) n = -2"
  | (free) j where "k \<notin> nkeys n" "j < MAX_ENTRIES" "j \<notin> nslots n"
      "getFreeIndex k (fp k) n = int j"
  using assms avx64.free_present[of n fp k] avx64.free_absent[of n k "fp k"]
  unfolding slots_ok_def MAX_ENTRIES_def by blast

lemma ListNode_lookup_eq: "slots_ok_by fp n \<Longrightarrow> ListNode_lookup fp k n = node_map n k"
  by (erule getKeyIndex_cases[where k = k]) (auto simp: ListNode_lookup_def)

lemma ListNode_probe_eq: "slots_ok_by fp n \<Longrightarrow> ListNode_probe fp k n \<longleftrightarrow> node_map n k \<noteq> None"
  by (erule getKeyIndex_cases[where k = k]) (auto simp: ListNode_probe_def)

lemma ListNode_update_eq:
  assumes "slots_ok_by fp n" "ListNode_update fp k v n = (r, n')"
  shows "slots_ok_by fp n'" "r \<longleftrightarrow> node_map n k \<noteq> None"
    "node_map n' = (if r then (node_map n)(k \<mapsto> v) else node_map n)"
proof -
  have "slots_ok_by fp n' \<and> (r \<longleftrightarrow> node_map n k \<noteq> None) \<and>
    node_map n' = (if r then (node_map n)(k \<mapsto> v) else node_map n)"
    using getKeyIndex_cases[OF assms(1), of k] assms
    by cases (auto simp: ListNode_update_def slots_ok_updateAtIndex node_map_updateAtIndex)
  then show "slots_ok_by fp n'" "r \<longleftrightarrow> node_map n k \<noteq> None"
    "node_map n' = (if r then (node_map n)(k \<mapsto> v) else node_map n)" by auto
qed

section \<open>Fresh nodes\<close>

definition arrays_sized :: "'k ListNode_of \<Rightarrow> bool" where
  "arrays_sized n \<longleftrightarrow> length (keyArray n) = MAX_ENTRIES \<and> length (fingerPrint n) = MAX_ENTRIES \<and>
     length (permuter n) = MAX_ENTRIES"

lemma nslots_ctor [simp]: "nslots (ListNode_ctor raw) = {}"
  by (simp add: slots_def ListNode_ctor_def)

lemma nkeys_ctor [simp]: "nkeys (ListNode_ctor raw) = {}"
  by (simp add: node_keys_def)

lemma slots_ok_ctor: "arrays_sized raw \<Longrightarrow> slots_ok_by fp (ListNode_ctor raw)"
  unfolding slots_ok_def shape_def hashed_def uniq_def nslots_ctor
  by (simp add: arrays_sized_def ListNode_ctor_def)

lemma node_map_ctor [simp]: "node_map (ListNode_ctor raw) = Map.empty"
  using dom_node_map[of "ListNode_ctor raw"] by simp

end
