(* ===== verification/Oplog.thy ===== *)
theory Oplog
  imports HL_Prelude
begin

text \<open>
  The operation log through which the data list tells the search layers of split and merged
  nodes: \<open>OpStruct\<close> of \<open>include/common.h\<close> and the per-thread double-buffered log of
  \<open>Oplog.h\<close> and \<open>Oplog.cpp\<close>. The type of the keys is a parameter, for the indexes over integers and over
  strings share this code.
\<close>

section \<open>Log entries\<close>

datatype Operation = OpInsert | OpRemove

record 'k OpStruct =
  op :: Operation
  key :: 'k
  hash :: u8
  listNodePtr :: addr
  ts :: u64

text \<open>The comparison of two entries, \<open>OpStruct::operator<\<close>.\<close>

definition OpStruct_less :: "'k OpStruct \<Rightarrow> 'k OpStruct \<Rightarrow> bool" where
  "OpStruct_less a b \<longleftrightarrow> ts a < ts b"

text \<open>
  The logs hold pointers to entries. A pointer is modelled together with what it points to: its
  address and the entry. Entries are never changed once they are in a log.
\<close>

type_synonym 'k OpPtr = "addr \<times> 'k OpStruct"

definition WORKER_THREAD_PER_NUMA :: nat where
  "WORKER_THREAD_PER_NUMA = 1"

section \<open>The per-thread log\<close>

record 'k Oplog =
  op_0 :: "'k OpPtr list"
  op_1 :: "'k OpPtr list"

definition Oplog_new :: "'k Oplog" where
  "Oplog_new = \<lparr>op_0 = [], op_1 = []\<rparr>"

definition getQ :: "nat \<Rightarrow> 'k Oplog \<Rightarrow> 'k OpPtr list" where
  "getQ qnum l = (if qnum = 0 then op_0 l else op_1 l)"

definition setQ :: "nat \<Rightarrow> 'k OpPtr list \<Rightarrow> 'k Oplog \<Rightarrow> 'k Oplog" where
  "setQ qnum q l = (if qnum = 0 then l\<lparr>op_0 := q\<rparr> else l\<lparr>op_1 := q\<rparr>)"

definition resetQ :: "nat \<Rightarrow> 'k Oplog \<Rightarrow> 'k Oplog" where
  "resetQ qnum l = setQ qnum [] l"

text \<open>
  \<open>enq\<close>: \<open>p\<close> is the address \<open>new OpStruct\<close> returned, \<open>clk\<close> the clock reading and
  \<open>qnum\<close> the queue whose lock the loop at its end obtained.
\<close>

definition mk_op :: "Operation \<Rightarrow> 'k \<Rightarrow> u8 \<Rightarrow> addr \<Rightarrow> u64 \<Rightarrow> 'k OpStruct" where
  "mk_op o' k h lnp clk = \<lparr>op = o', key = k,
     hash = word_of_nat (unat h mod WORKER_THREAD_PER_NUMA), listNodePtr = lnp, ts = clk\<rparr>"

definition enq :: "nat \<Rightarrow> 'k OpPtr \<Rightarrow> 'k Oplog \<Rightarrow> 'k Oplog" where
  "enq qnum p l = setQ qnum (getQ qnum l @ [p]) l"

lemma getQ_setQ [simp]: "getQ q (setQ q' xs l) = (if (q = 0) = (q' = 0) then xs else getQ q l)"
  by (simp add: getQ_def setQ_def)

end
