(* ===== verification/DataLayer.thy ===== *)
theory DataLayer
  imports NodeOps Oplog
begin

text \<open>
  The part of \<open>listNode.cpp\<close> that works on several nodes: splitting a full node, merging two
  small neighbours, and the \<open>insert\<close> and \<open>remove\<close> that call them. Nodes live in a heap;
  a node operation takes the address of \<open>this\<close>.
\<close>

section \<open>The heap\<close>

text \<open>
  \<open>nodes\<close> is the memory of list nodes. What the machine supplies from outside is scripted:
  \<open>nmalloc\<close> and \<open>opmalloc\<close> are the addresses that successive \<open>new ListNode\<close> and
  \<open>new OpStruct\<close> return, \<open>raw\<close> the contents of the memory they return, \<open>rdtscp\<close> the
  successive clock readings; the counters say how many were used. \<open>oplogs\<close> maps a thread to
  its log (\<open>Oplog::perThreadLog\<close> and \<open>g_perThreadLog\<close>), and \<open>curQ\<close> selects the queue
  that is being filled.
\<close>

record 'k hstate_of =
  nodes :: "addr \<rightharpoonup> 'k ListNode_of"
  nmalloc :: "nat \<Rightarrow> addr"
  raw :: "nat \<Rightarrow> 'k ListNode_of"
  nallocs :: nat
  oplogs :: "nat \<rightharpoonup> 'k Oplog"
  curQ :: u64
  rdtscp :: "nat \<Rightarrow> u64"
  clkReads :: nat
  opmalloc :: "nat \<Rightarrow> addr"
  opallocs :: nat

type_synonym hstate = "Key_t hstate_of"

definition bindE :: "fault + 'a \<Rightarrow> ('a \<Rightarrow> fault + 'b) \<Rightarrow> fault + 'b" where
  "bindE m f = (case m of Inl e \<Rightarrow> Inl e | Inr x \<Rightarrow> f x)"

lemma bindE_simps [simp]: "bindE (Inl e) f = Inl e" "bindE (Inr x) f = f x"
  by (simp_all add: bindE_def)

text \<open>Dereferencing a pointer, and storing through it.\<close>

definition getNode :: "ptr \<Rightarrow> 'k hstate_of \<Rightarrow> fault + 'k ListNode_of" where
  "getNode p s = (case p of None \<Rightarrow> Inl NullDeref
     | Some a \<Rightarrow> (case nodes s a of None \<Rightarrow> Inl BadAccess | Some n \<Rightarrow> Inr n))"

definition putNode :: "addr \<Rightarrow> 'k ListNode_of \<Rightarrow> 'k hstate_of \<Rightarrow> 'k hstate_of" where
  "putNode a n s = s\<lparr>nodes := (nodes s)(a \<mapsto> n)\<rparr>"

definition updNode :: "ptr \<Rightarrow> ('k ListNode_of \<Rightarrow> 'k ListNode_of) \<Rightarrow> 'k hstate_of \<Rightarrow> fault + 'k hstate_of" where
  "updNode p f s = bindE (getNode p s) (\<lambda>n. Inr (putNode (the p) (f n) s))"

definition newNode :: "'k hstate_of \<Rightarrow> addr \<times> 'k hstate_of" where
  "newNode s = (let a = nmalloc s (nallocs s) in
     (a, (putNode a (ListNode_ctor (raw s (nallocs s))) s)\<lparr>nallocs := nallocs s + 1\<rparr>))"

definition ordo_get_clock :: "'k hstate_of \<Rightarrow> u64 \<times> 'k hstate_of" where
  "ordo_get_clock s = (rdtscp s (clkReads s), s\<lparr>clkReads := clkReads s + 1\<rparr>)"

text \<open>\<open>Oplog::getOpLog\<close>: the thread's log, created at its first use.\<close>

definition getOpLog :: "nat \<Rightarrow> 'k hstate_of \<Rightarrow> 'k Oplog" where
  "getOpLog t s = (case oplogs s t of Some l \<Rightarrow> l | None \<Rightarrow> Oplog_new)"

definition enqPerThreadLog :: "nat \<Rightarrow> Operation \<Rightarrow> 'k \<Rightarrow> u8 \<Rightarrow> addr \<Rightarrow> 'k hstate_of \<Rightarrow> 'k hstate_of" where
  "enqPerThreadLog t o' k h lnp s =
     (let perThreadLog = getOpLog t s;
          p = opmalloc s (opallocs s);
          (clk, s1) = ordo_get_clock s;
          qnum = unat (curQ s mod 2)
      in s1\<lparr>opallocs := opallocs s + 1,
            oplogs := (oplogs s)(t \<mapsto> enq qnum (p, mk_op o' k h lnp clk) perThreadLog)\<rparr>)"

section \<open>Split\<close>

text \<open>
  One round of the loop that moves the entries at or above the median into the new node: the
  state is this node, the new node, \<open>newNumEntries\<close> and \<open>removeIndex\<close>.
\<close>

definition split_step ::
  "'k::linorder \<Rightarrow> nat \<Rightarrow> 'k ListNode_of \<times> 'k ListNode_of \<times> nat \<times> int \<Rightarrow> 'k ListNode_of \<times> 'k ListNode_of \<times> nat \<times> int" where
  "split_step median i = (\<lambda>(this, new, newNumEntries, removeIndex).
     if median \<le> fst (keyArray this ! i) then
       (removeFromIndex i this,
        insertAtIndex (keyArray this ! i) newNumEntries (fingerPrint this ! i) new,
        newNumEntries + 1,
        if removeIndex = -1 then int i else removeIndex)
     else (this, new, newNumEntries, removeIndex))"

definition split_loop ::
  "'k::linorder \<Rightarrow> 'k ListNode_of \<Rightarrow> 'k ListNode_of \<Rightarrow> 'k ListNode_of \<times> 'k ListNode_of \<times> nat \<times> int" where
  "split_loop median this new = fold (split_step median) [0..<MAX_ENTRIES] (this, new, 0, -1)"

definition median_of :: "'k::linorder ListNode_of \<Rightarrow> 'k" where
  "median_of n = fst (sort_key fst (keyArray n) ! (MAX_ENTRIES div 2))"

text \<open>The two nodes after the split, \<open>this\<close> at \<open>a\<close> and the new one at \<open>b\<close>.\<close>

definition split_nodes ::
  "'k::linorder \<Rightarrow> Val_t \<Rightarrow> u8 \<Rightarrow> addr \<Rightarrow> addr \<Rightarrow> 'k ListNode_of \<Rightarrow> 'k ListNode_of \<Rightarrow> 'k ListNode_of \<times> 'k ListNode_of" where
  "split_nodes k v keyHash a b this new =
     (let median = median_of this;
          newMin = median;
          (n1, m1, newNumEntries, removeIndex) = split_loop median this new;
          (n2, m2) =
            (if k < newMin then
               (if removeIndex \<noteq> -1 then insertAtIndex (k, v) (nat removeIndex) keyHash n1
                else insertAtIndex (k, v) (unat (numEntries n1)) keyHash n1, m1)
             else (n1, insertAtIndex (k, v) newNumEntries keyHash m1));
          m3 = setMax (max_k n2) (setPrev (Some a) (setDeleted False
                 (setNext (next_p n2) (setMin newMin m2))));
          n3 = setNext (Some b) (setMax newMin n2)
      in (n3, m3))"

definition split :: "addr \<Rightarrow> 'k::linorder \<Rightarrow> Val_t \<Rightarrow> u8 \<Rightarrow> 'k hstate_of \<Rightarrow> fault + (addr \<times> 'k hstate_of)" where
  "split a k v keyHash s =
     bindE (getNode (Some a) s) (\<lambda>this.
       let (b, s1) = newNode s;
           (n3, m3) = split_nodes k v keyHash a b this (the (nodes s1 b))
       in Inr (b, putNode a n3 (putNode b m3 s1)))"

section \<open>Merge\<close>

text \<open>
  One round of the loop that moves the entries of \<open>deleteNode\<close> (\<open>src\<close>) into free slots of
  the surviving node (\<open>dst\<close>), the inner loop being a search for the next free slot.
\<close>

definition move_step :: "nat \<Rightarrow> 'k ListNode_of \<times> 'k ListNode_of \<times> nat \<Rightarrow> 'k ListNode_of \<times> 'k ListNode_of \<times> nat" where
  "move_step i = (\<lambda>(dst, src, cur).
     if test i (bitMap src) then
       (case find (\<lambda>j. \<not> test j (bitMap dst)) [cur..<MAX_ENTRIES] of
          Some j \<Rightarrow> (insertAtIndex (keyArray src ! i) j (fingerPrint src ! i) dst,
                     removeFromIndex i src, j + 1)
        | None \<Rightarrow> (dst, src, cur))
     else (dst, src, cur))"

definition move_loop :: "'k ListNode_of \<Rightarrow> 'k ListNode_of \<Rightarrow> 'k ListNode_of \<times> 'k ListNode_of \<times> nat" where
  "move_loop dst src = fold move_step [0..<MAX_ENTRIES] (dst, src, 0)"

definition mergeWithNext :: "addr \<Rightarrow> 'k hstate_of \<Rightarrow> fault + (ptr \<times> 'k hstate_of)" where
  "mergeWithNext a s =
     bindE (getNode (Some a) s) (\<lambda>this.
     bindE (getNode (next_p this) s) (\<lambda>del.
       let d = the (next_p this);
           (v, del1) = writeLock del
       in if v = 0 then Inr (None, putNode d del1 s)
          else
            let (this1, del2, _) = move_loop this del1;
                this2 = setNext (next_p del2) this1;
                s1 = putNode a this2 (putNode d del2 s)
            in bindE (updNode (next_p del2) (setPrev (Some a)) s1) (\<lambda>s2.
               bindE (updNode (Some d) (setDeleted True) s2) (\<lambda>s3.
               bindE (updNode (Some a) (setMax (max_k del2)) s3) (\<lambda>s4.
                 Inr (Some d, s4))))))"

definition mergeWithPrev :: "addr \<Rightarrow> 'k hstate_of \<Rightarrow> fault + (ptr \<times> 'k hstate_of)" where
  "mergeWithPrev a s =
     bindE (getNode (Some a) s) (\<lambda>this.
     bindE (getNode (prev_p this) s) (\<lambda>mer.
       let m = the (prev_p this);
           (v, mer1) = writeLock mer
       in if v = 0 then Inr (None, putNode m mer1 s)
          else
            let (mer2, this1, _) = move_loop mer1 this;
                mer3 = setNext (next_p this1) mer2;
                s1 = putNode m mer3 (putNode a this1 s)
            in bindE (updNode (next_p this1) (setPrev (Some m)) s1) (\<lambda>s2.
               bindE (updNode (Some a) (setDeleted True) s2) (\<lambda>s3.
               bindE (updNode (Some m) (setMax (max_k this1)) s3) (\<lambda>s4.
               bindE (updNode (Some m) writeUnlock s4) (\<lambda>s5.
                 Inr (Some a, s5)))))))"

section \<open>Insert and remove\<close>

text \<open>The fingerprint \<open>getKeyFingerPrint\<close> depends on the type of the keys: \<open>fp\<close>.\<close>

definition ListNode_insert ::
  "('k::linorder \<Rightarrow> u8) \<Rightarrow> nat \<Rightarrow> addr \<Rightarrow> 'k \<Rightarrow> Val_t \<Rightarrow> 'k hstate_of \<Rightarrow> fault + (bool \<times> 'k hstate_of)" where
  "ListNode_insert fp t a k v s =
     bindE (getNode (Some a) s) (\<lambda>this.
       let keyHash = fp k;
           index = getFreeIndex k keyHash this
       in if index = -1 then Inr (False, s)
          else if index = -2 then
            bindE (split a k v keyHash s) (\<lambda>(b, s1).
            bindE (getNode (Some b) s1) (\<lambda>new.
            bindE (updNode (next_p new) (setPrev (Some b)) s1) (\<lambda>s2.
            bindE (getNode (Some b) s2) (\<lambda>new2.
              Inr (True, enqPerThreadLog t OpInsert (min_k new2) keyHash b s2)))))
          else Inr (True, putNode a (insertAtIndex (k, v) (nat index) keyHash this) s))"

text \<open>\<open>numEntries + next->getNumEntries() < MAX_ENTRIES/2\<close>, computed in \<open>int\<close>.\<close>

definition small_pair :: "'k ListNode_of \<Rightarrow> 'k ListNode_of \<Rightarrow> bool" where
  "small_pair n m \<longleftrightarrow> unat (numEntries n) + unat (numEntries m) < MAX_ENTRIES div 2"

definition logRemoved :: "nat \<Rightarrow> u8 \<Rightarrow> ptr \<Rightarrow> 'k hstate_of \<Rightarrow> fault + 'k hstate_of" where
  "logRemoved t keyHash delNode s =
     (case delNode of None \<Rightarrow> Inr s
      | Some d \<Rightarrow> bindE (getNode (Some d) s) (\<lambda>n. Inr (enqPerThreadLog t OpRemove (min_k n) keyHash d s)))"

definition ListNode_remove :: "('k \<Rightarrow> u8) \<Rightarrow> nat \<Rightarrow> addr \<Rightarrow> 'k \<Rightarrow> 'k hstate_of \<Rightarrow> fault + (bool \<times> 'k hstate_of)" where
  "ListNode_remove fp t a k s =
     bindE (getNode (Some a) s) (\<lambda>this.
       let keyHash = fp k;
           index = getKeyIndex k keyHash this
       in if index = -1 then Inr (False, s)
          else
            let this1 = removeFromIndex (nat index) this;
                s1 = putNode a this1 s
            in bindE (getNode (next_p this1) s1) (\<lambda>nxt.
               if small_pair this1 nxt then
                 bindE (mergeWithNext a s1) (\<lambda>(delNode, s2).
                 bindE (logRemoved t keyHash delNode s2) (\<lambda>s3. Inr (True, s3)))
               else if prev_p this1 = None then Inr (True, s1)
               else bindE (getNode (prev_p this1) s1) (\<lambda>prv.
                 if small_pair this1 prv then
                   bindE (mergeWithPrev a s1) (\<lambda>(delNode, s2).
                   bindE (logRemoved t keyHash delNode s2) (\<lambda>s3. Inr (True, s3)))
                 else Inr (True, s1))))"

end
