(* ===== verification/NodeSplit.thy ===== *)
theory NodeSplit
  imports DataLayer "HOL-Library.Multiset"
begin

text \<open>
  The loops of \<open>split\<close>, \<open>mergeWithNext\<close> and \<open>mergeWithPrev\<close> as operations on the
  maps of the nodes: a split cuts a full node at its median, a merge joins two nodes.
\<close>

text \<open>The loops touch the slot arrays only.\<close>

definition same_rest :: "'k ListNode_of \<Rightarrow> 'k ListNode_of \<Rightarrow> bool" where
  "same_rest n n' \<longleftrightarrow> min_k n' = min_k n \<and> max_k n' = max_k n \<and> next_p n' = next_p n \<and>
     prev_p n' = prev_p n \<and> deleted n' = deleted n \<and> verLock n' = verLock n \<and>
     lastScanVersion n' = lastScanVersion n \<and> permuter n' = permuter n"

lemma same_rest_refl [simp]: "same_rest n n"
  by (simp add: same_rest_def)

lemma same_rest_trans: "same_rest n m \<Longrightarrow> same_rest m l \<Longrightarrow> same_rest n l"
  by (simp add: same_rest_def)

lemma same_rest_insertAtIndex [simp]: "same_rest n (insertAtIndex e i h n)"
  by (simp add: same_rest_def)

lemma same_rest_removeFromIndex [simp]: "same_rest n (removeFromIndex i n)"
  by (simp add: same_rest_def)

lemma fold_upt_Suc: "fold f [0..<Suc m] x = f m (fold f [0..<m] x)"
  by simp

section \<open>The split loop\<close>

definition keys_of :: "'k ListNode_of \<Rightarrow> nat list \<Rightarrow> 'k set" where
  "keys_of n is = (\<lambda>i. fst (keyArray n ! i)) ` set is"

definition above :: "'k::linorder \<Rightarrow> 'k ListNode_of \<Rightarrow> nat \<Rightarrow> nat list" where
  "above M n m = filter (\<lambda>i. M \<le> fst (keyArray n ! i)) [0..<m]"

definition split_inv ::
  "('k::linorder \<Rightarrow> u8) \<Rightarrow> 'k \<Rightarrow> 'k ListNode_of \<Rightarrow> 'k ListNode_of \<Rightarrow> nat \<Rightarrow> 'k ListNode_of \<times> 'k ListNode_of \<times> nat \<times> int \<Rightarrow> bool" where
  "split_inv fp M n0 m0 i = (\<lambda>(n, m, c, r).
     slots_ok_by fp n \<and> same_rest n0 n \<and> keyArray n = keyArray n0 \<and> fingerPrint n = fingerPrint n0 \<and>
     nslots n = {0..<MAX_ENTRIES} - set (above M n0 i) \<and>
     node_map n = node_map n0 |` (- keys_of n0 (above M n0 i)) \<and>
     slots_ok_by fp m \<and> same_rest m0 m \<and> nslots m = {0..<c} \<and> c = length (above M n0 i) \<and>
     node_map m = node_map n0 |` keys_of n0 (above M n0 i) \<and>
     r = (if above M n0 i = [] then -1 else int (hd (above M n0 i))))"

lemma above_Suc: "above M n (Suc m) = above M n m @ (if M \<le> fst (keyArray n ! m) then [m] else [])"
  by (simp add: above_def)

lemma length_above: "length (above M n m) \<le> m"
  unfolding above_def by (metis length_filter_le length_upt minus_nat.diff_0)

lemma set_above: "set (above M n m) = {i. i < m \<and> M \<le> fst (keyArray n ! i)}"
  by (auto simp: above_def)

lemma restrict_upd_new: "m k = Some v \<Longrightarrow> (m |` A)(k \<mapsto> v) = m |` (insert k A)"
  by (rule ext) (auto simp: restrict_map_def)

lemma restrict_upd_None: "(m |` (- A))(k := None) = m |` (- insert k A)"
  by (rule ext) (auto simp: restrict_map_def)

lemma split_inv_step:
  assumes inv: "split_inv fp M n0 m0 i st" and i: "i < MAX_ENTRIES"
    and ok: "slots_ok_by fp n0" and full: "nslots n0 = {0..<MAX_ENTRIES}"
  shows "split_inv fp M n0 m0 (Suc i) (split_step M i st)"
proof -
  obtain n m c r where st: "st = (n, m, c, r)" by (cases st) auto
  note inv' = inv[unfolded st split_inv_def prod.case]
  have arr: "keyArray n = keyArray n0" "fingerPrint n = fingerPrint n0" using inv' by auto
  show ?thesis
  proof (cases "M \<le> fst (keyArray n0 ! i)")
    case False
    then show ?thesis
      using inv' by (simp add: st split_step_def split_inv_def above_Suc)
  next
    case True
    obtain k v where kv: "keyArray n0 ! i = (k, v)" by (cases "keyArray n0 ! i") auto
    have i0: "i \<in> nslots n0" using full i by auto
    have idx: "i \<in> nslots n" using inv' i by (auto simp: set_above)
    have mk: "node_map n0 k = Some v"
      using kv i0 node_map_Some[OF ok] by blast
    have fp: "fingerPrint n0 ! i = fp k"
      using ok i0 kv by (auto simp: slots_ok_def hashed_def)
    have new: "k \<notin> keys_of n0 (above M n0 i)"
    proof
      assume "k \<in> keys_of n0 (above M n0 i)"
      then obtain j where j: "j < i" "fst (keyArray n0 ! j) = k"
        unfolding keys_of_def set_above by blast
      then have "j \<in> nslots n0" using full i by auto
      with slot_of_key[OF ok i0 this] j kv show False by simp
    qed
    have c: "c < MAX_ENTRIES" "c \<notin> nslots m"
      using inv' i length_above[of M n0 i] by auto
    have km: "k \<notin> nkeys m"
      using inv' new by (simp add: node_map_None[symmetric])
    have keys: "keys_of n0 (above M n0 (Suc i)) = insert k (keys_of n0 (above M n0 i))"
      using True kv by (simp add: above_Suc keys_of_def)
    have n1: "slots_ok_by fp (removeFromIndex i n)"
      using inv' idx by (simp add: slots_ok_removeFromIndex)
    have n2: "node_map (removeFromIndex i n) = node_map n0 |` (- keys_of n0 (above M n0 (Suc i)))"
      using inv' idx kv unfolding keys restrict_upd_None[symmetric]
      by (simp only: node_map_removeFromIndex[where fp = fp] fst_conv)
    have n3: "nslots (removeFromIndex i n) = {0..<MAX_ENTRIES} - set (above M n0 (Suc i))"
      using inv' True i by (simp add: slots_removeFromIndex above_Suc) blast
    have m': "slots_ok_by fp (insertAtIndex (k, v) c (fp k) m)"
        "node_map (insertAtIndex (k, v) c (fp k) m)
           = node_map n0 |` keys_of n0 (above M n0 (Suc i))"
        "nslots (insertAtIndex (k, v) c (fp k) m) = {0..<Suc c}"
      using inv' c km mk unfolding keys
      by (auto simp: slots_ok_insertAtIndex node_map_insertAtIndex[where fp = fp] restrict_upd_new slots_insertAtIndex)
    show ?thesis
      using True inv' n1 n2 n3 m' kv fp
      by (simp add: st split_step_def split_inv_def above_Suc)
        (auto intro: same_rest_trans)
  qed
qed

lemma split_inv_init:
  assumes "slots_ok_by fp n0" "nslots n0 = {0..<MAX_ENTRIES}" "slots_ok_by fp m0" "nslots m0 = {}"
  shows "split_inv fp M n0 m0 0 (n0, m0, 0, -1)"
proof -
  have "nkeys m0 = {}" using assms(4) by (simp add: node_keys_def)
  then have "node_map m0 = Map.empty" using dom_node_map[of m0] by simp
  moreover have "node_map n0 |` UNIV = node_map n0"
    by (rule ext) (simp add: restrict_map_def)
  ultimately show ?thesis
    using assms by (simp add: split_inv_def above_def keys_of_def)
qed

lemma split_loop_inv:
  assumes "slots_ok_by fp n0" "nslots n0 = {0..<MAX_ENTRIES}" "slots_ok_by fp m0" "nslots m0 = {}"
  shows "split_inv fp M n0 m0 MAX_ENTRIES (split_loop M n0 m0)"
proof -
  have "i \<le> MAX_ENTRIES \<Longrightarrow> split_inv fp M n0 m0 i (fold (split_step M) [0..<i] (n0, m0, 0, -1))" for i
  proof (induction i)
    case 0
    show ?case using split_inv_init[OF assms] by simp
  next
    case (Suc i)
    then show ?case
      unfolding fold_upt_Suc using split_inv_step[OF _ _ assms(1,2)] by simp
  qed
  then show ?thesis by (simp add: split_loop_def)
qed

section \<open>The median\<close>

lemma filter_ge_nth_strict:
  assumes "sorted_wrt (<) zs" "i < length zs"
  shows "filter (\<lambda>x. zs ! i \<le> x) zs = drop i (zs :: 'a::linorder list)"
proof -
  have "filter (\<lambda>x. zs ! i \<le> x) (take i zs) = []"
    using assms(2) sorted_wrt_nth_less[OF assms(1), of _ i]
    by (auto simp: filter_empty_conv in_set_conv_nth not_le)
  moreover have "filter (\<lambda>x. zs ! i \<le> x) (drop i zs) = drop i zs"
    using assms strict_sorted_imp_sorted[OF assms(1)]
    by (auto simp: filter_id_conv in_set_conv_nth sorted_iff_nth_mono)
  ultimately show ?thesis
    by (metis append_Nil append_take_drop_id filter_append)
qed

lemma full_keys:
  assumes "slots_ok_by fp n" "nslots n = {0..<MAX_ENTRIES}"
  shows "distinct (map fst (keyArray n))" "nkeys n = fst ` set (keyArray n)"
proof -
  have arr: "keyArray n = map ((!) (keyArray n)) [0..<MAX_ENTRIES]"
    using slots_ok_length[OF assms(1)] by (metis map_nth)
  show "distinct (map fst (keyArray n))"
    unfolding distinct_conv_nth
  proof (intro allI impI)
    fix i j assume *: "i < length (map fst (keyArray n))" "j < length (map fst (keyArray n))" "i \<noteq> j"
    then have "i \<in> nslots n" "j \<in> nslots n"
      using assms(2) slots_ok_length[OF assms(1)] by auto
    with * show "map fst (keyArray n) ! i \<noteq> map fst (keyArray n) ! j"
      using slot_of_key[OF assms(1)] by auto
  qed
  show "nkeys n = fst ` set (keyArray n)"
    unfolding node_keys_def assms(2) using arg_cong[OF arr, of "\<lambda>xs. fst ` set xs"]
    by (simp only: set_map set_upt image_image)
qed

lemma length_above_median:
  assumes "slots_ok_by fp n" "nslots n = {0..<MAX_ENTRIES}"
  shows "length (above (median_of n) n MAX_ENTRIES) = MAX_ENTRIES div 2"
    and "median_of n \<in> nkeys n"
    and "\<exists>x \<in> nkeys n. x < median_of n"
proof -
  define zs where "zs = map fst (sort_key fst (keyArray n))"
  have len: "length zs = MAX_ENTRIES"
    using slots_ok_length[OF assms(1)] by (simp add: zs_def)
  have mid: "MAX_ENTRIES div 2 < MAX_ENTRIES" "0 < MAX_ENTRIES div 2"
    by (simp_all add: MAX_ENTRIES_def)
  have mset: "mset zs = mset (map fst (keyArray n))"
    unfolding zs_def mset_map by (simp only: mset_sort)
  have srt: "sorted_wrt (<) zs"
    using full_keys(1)[OF assms] mset_eq_imp_distinct_iff[OF mset]
    by (simp add: strict_sorted_iff zs_def)
  have M: "median_of n = zs ! (MAX_ENTRIES div 2)"
    using len mid by (simp add: median_of_def zs_def)
  have keys: "nkeys n = set zs"
    using full_keys(2)[OF assms] mset_eq_setD[OF mset] by simp
  have arr: "map fst (keyArray n) = map (\<lambda>i. fst (keyArray n ! i)) [0..<MAX_ENTRIES]"
    using slots_ok_length[OF assms(1)] by (intro nth_equalityI) auto
  have "length (above (median_of n) n MAX_ENTRIES)
      = length (filter (\<lambda>x. median_of n \<le> x) (map fst (keyArray n)))"
    unfolding arr above_def filter_map by (simp add: o_def)
  also have "\<dots> = length (filter (\<lambda>x. median_of n \<le> x) zs)"
    using arg_cong[OF mset, of "\<lambda>m. size (filter_mset (\<lambda>x. median_of n \<le> x) m)"]
    by (simp only: mset_filter[symmetric] size_mset)
  also have "\<dots> = MAX_ENTRIES - MAX_ENTRIES div 2"
    using filter_ge_nth_strict[OF srt, of "MAX_ENTRIES div 2"] len mid M by simp
  also have "\<dots> = MAX_ENTRIES div 2" by (simp add: MAX_ENTRIES_def)
  finally show "length (above (median_of n) n MAX_ENTRIES) = MAX_ENTRIES div 2" .
  show "median_of n \<in> nkeys n" using M keys len mid by simp
  have "zs ! 0 < zs ! (MAX_ENTRIES div 2)"
    using srt len mid by (simp add: strict_sorted_iff sorted_wrt_iff_nth_less)
  moreover have "zs ! 0 \<in> nkeys n" using keys len mid by (metis less_trans nth_mem)
  ultimately show "\<exists>x \<in> nkeys n. x < median_of n" using M by auto
qed

section \<open>A split as a cut of the map\<close>

definition map_below :: "'k::linorder \<Rightarrow> ('k \<rightharpoonup> 'v) \<Rightarrow> ('k \<rightharpoonup> 'v)" where
  "map_below M m = m |` {x. x < M}"

definition map_from :: "'k::linorder \<Rightarrow> ('k \<rightharpoonup> 'v) \<Rightarrow> ('k \<rightharpoonup> 'v)" where
  "map_from M m = m |` {x. M \<le> x}"

lemma map_below_apply: "map_below M m x = (if x < M then m x else None)"
  by (simp add: map_below_def restrict_map_def)

lemma map_from_apply: "map_from M m x = (if M \<le> x then m x else None)"
  by (simp add: map_from_def restrict_map_def)

lemma map_cut_upd:
  "k < M \<Longrightarrow> map_below M (m(k \<mapsto> v)) = (map_below M m)(k \<mapsto> v)"
  "k < M \<Longrightarrow> map_from M (m(k \<mapsto> v)) = map_from M m"
  "M \<le> k \<Longrightarrow> map_from M (m(k \<mapsto> v)) = (map_from M m)(k \<mapsto> v)"
  "M \<le> k \<Longrightarrow> map_below M (m(k \<mapsto> v)) = map_below M m"
  by (auto simp: map_below_apply map_from_apply fun_eq_iff)

lemma map_cut_join: "map_from M m ++ map_below M m = m" "map_below M m ++ map_from M m = m"
  by (auto simp: map_add_def map_below_apply map_from_apply fun_eq_iff split: option.splits)

lemma map_cut_join_left: "map_below M m ++ (map_from M m ++ r) = m ++ r"
  by (simp add: map_cut_join(2))

lemma keys_of_all:
  assumes "slots_ok_by fp n" "nslots n = {0..<MAX_ENTRIES}"
  shows "node_map n |` keys_of n (above M n MAX_ENTRIES) = map_from M (node_map n)"
    "node_map n |` (- keys_of n (above M n MAX_ENTRIES)) = map_below M (node_map n)"
proof -
  have "keys_of n (above M n MAX_ENTRIES) = nkeys n \<inter> {x. M \<le> x}"
    using assms(2) unfolding keys_of_def set_above node_keys_def by auto
  then have eq: "keys_of n (above M n MAX_ENTRIES) = dom (node_map n) \<inter> {x. M \<le> x}"
    by (simp add: dom_node_map)
  show "node_map n |` keys_of n (above M n MAX_ENTRIES) = map_from M (node_map n)"
    unfolding eq by (rule ext) (auto simp: restrict_map_def map_from_apply)
  show "node_map n |` (- keys_of n (above M n MAX_ENTRIES)) = map_below M (node_map n)"
    unfolding eq by (rule ext) (auto simp: restrict_map_def map_below_apply)
qed

lemma split_nodes_spec:
  assumes ok: "slots_ok_by fp n" and full: "nslots n = {0..<MAX_ENTRIES}" and new: "k \<notin> nkeys n"
    and ok': "slots_ok_by fp m" and empty: "nslots m = {}"
    and res: "split_nodes k v (fp k) a b n m = (n', m')"
  shows "slots_ok_by fp n' \<and> slots_ok_by fp m' \<and>
    node_map n' = map_below (median_of n) ((node_map n)(k \<mapsto> v)) \<and>
    node_map m' = map_from (median_of n) ((node_map n)(k \<mapsto> v)) \<and>
    min_k n' = min_k n \<and> max_k n' = median_of n \<and> next_p n' = Some b \<and> prev_p n' = prev_p n \<and>
    deleted n' = deleted n \<and> verLock n' = verLock n \<and> lastScanVersion n' = lastScanVersion n \<and>
    permuter n' = permuter n \<and>
    min_k m' = median_of n \<and> max_k m' = max_k n \<and> next_p m' = next_p n \<and> prev_p m' = Some a \<and>
    \<not> deleted m' \<and> verLock m' = verLock m \<and> lastScanVersion m' = lastScanVersion m \<and>
    permuter m' = permuter m"
proof -
  let ?M = "median_of n"
  let ?h = "fp k"
  obtain n1 m1 c r where loop: "split_loop ?M n m = (n1, m1, c, r)" by (metis prod_cases4)
  note inv = split_loop_inv[OF ok full ok' empty, of ?M, unfolded loop split_inv_def prod.case]
  note len = length_above_median(1)[OF ok full]
  have ne: "above ?M n MAX_ENTRIES \<noteq> []" using len by (auto simp: MAX_ENTRIES_def)
  have hd: "hd (above ?M n MAX_ENTRIES) \<in> set (above ?M n MAX_ENTRIES)" using ne by simp
  have r: "r \<noteq> -1" "nat r < MAX_ENTRIES" "nat r \<notin> nslots n1"
    using inv hd ne by (auto simp: set_above)
  have c: "c < MAX_ENTRIES" "c \<notin> nslots m1" using inv len by (auto simp: MAX_ENTRIES_def)
  have maps: "node_map n1 = map_below ?M (node_map n)" "node_map m1 = map_from ?M (node_map n)"
    using inv keys_of_all[OF ok full] by auto
  have k: "k \<notin> nkeys n1" "k \<notin> nkeys m1"
    using new unfolding node_map_None[symmetric] maps by (simp_all add: map_below_apply map_from_apply)
  have ok1: "slots_ok_by fp n1" "slots_ok_by fp m1" using inv by auto
  note ins = slots_ok_insertAtIndex[OF ok1(1) r(2,3) k(1) refl, of v]
    node_map_insertAtIndex[OF ok1(1) r(2,3) k(1) refl, of v, unfolded maps]
    slots_ok_insertAtIndex[OF ok1(2) c k(2) refl, of v]
    node_map_insertAtIndex[OF ok1(2) c k(2) refl, of v, unfolded maps]
  have rest: "same_rest n n1" "same_rest m m1" using inv by auto
  show ?thesis
  proof (cases "k < ?M")
    case True
    then have "n' = setNext (Some b) (setMax ?M (insertAtIndex (k, v) (nat r) ?h n1))"
      "m' = setMax (max_k n1) (setPrev (Some a) (setDeleted False (setNext (next_p n1) (setMin ?M m1))))"
      using res r(1) by (auto simp: split_nodes_def Let_def loop node_simps)
    then show ?thesis
      using rest ok1 ins maps(2) True
      by (simp add: node_simps same_rest_def map_cut_upd)
  next
    case False
    then have "n' = setNext (Some b) (setMax ?M n1)"
      "m' = setMax (max_k n1) (setPrev (Some a) (setDeleted False (setNext (next_p n1) (setMin ?M
              (insertAtIndex (k, v) c ?h m1)))))"
      using res by (auto simp: split_nodes_def Let_def loop)
    then show ?thesis
      using rest ok1 ins maps(1) False
      by (simp add: node_simps same_rest_def map_cut_upd)
  qed
qed

text \<open>Both halves keep at least half of the capacity.\<close>

lemma split_nodes_sizes:
  assumes ok: "slots_ok_by fp n" and full: "nslots n = {0..<MAX_ENTRIES}" and new: "k \<notin> nkeys n"
    and ok': "slots_ok_by fp m" and empty: "nslots m = {}"
    and res: "split_nodes k v (fp k) a b n m = (n', m')"
  shows "MAX_ENTRIES div 2 \<le> unat (numEntries n') \<and> MAX_ENTRIES div 2 \<le> unat (numEntries m') \<and>
    unat (numEntries n') + unat (numEntries m') = MAX_ENTRIES + 1"
proof -
  let ?M = "median_of n"
  obtain n1 m1 c r where loop: "split_loop ?M n m = (n1, m1, c, r)" by (metis prod_cases4)
  note inv = split_loop_inv[OF ok full ok' empty, of ?M, unfolded loop split_inv_def prod.case]
  note len = length_above_median(1)[OF ok full]
  have "distinct (above ?M n MAX_ENTRIES)" by (simp add: above_def)
  then have card: "card (set (above ?M n MAX_ENTRIES)) = MAX_ENTRIES div 2"
    using len by (simp add: distinct_card)
  have "set (above ?M n MAX_ENTRIES) \<subseteq> {0..<MAX_ENTRIES}" by (auto simp: set_above)
  then have "card (nslots n1) = MAX_ENTRIES - MAX_ENTRIES div 2"
    using inv card by (simp add: card_Diff_subset)
  then have e: "unat (numEntries n1) = MAX_ENTRIES div 2" "unat (numEntries m1) = MAX_ENTRIES div 2"
    using inv len numEntries_card[of fp n1] numEntries_card[of fp m1] by (auto simp: MAX_ENTRIES_def)
  have "unat (numEntries n1 + 1) = MAX_ENTRIES div 2 + 1" "unat (numEntries m1 + 1) = MAX_ENTRIES div 2 + 1"
    using unat_incr_u8[OF e(1)] unat_incr_u8[OF e(2)] by (simp_all add: MAX_ENTRIES_def)
  moreover have "numEntries n' = numEntries n1 + 1 \<and> numEntries m' = numEntries m1 \<or>
      numEntries n' = numEntries n1 \<and> numEntries m' = numEntries m1 + 1"
    using res by (auto simp: split_nodes_def Let_def loop node_simps split: if_splits)
  ultimately show ?thesis using e by (auto simp: MAX_ENTRIES_def)
qed

section \<open>The merge loop\<close>

definition moved_keys :: "'k ListNode_of \<Rightarrow> nat \<Rightarrow> 'k set" where
  "moved_keys n i = (\<lambda>j. fst (keyArray n ! j)) ` {j \<in> nslots n. j < i}"

definition move_inv :: "('k \<Rightarrow> u8) \<Rightarrow> 'k ListNode_of \<Rightarrow> 'k ListNode_of \<Rightarrow> nat \<Rightarrow> 'k ListNode_of \<times> 'k ListNode_of \<times> nat \<Rightarrow> bool" where
  "move_inv fp d0 s0 i = (\<lambda>(d, s, cur).
     slots_ok_by fp d \<and> slots_ok_by fp s \<and> same_rest d0 d \<and> same_rest s0 s \<and>
     keyArray s = keyArray s0 \<and> fingerPrint s = fingerPrint s0 \<and>
     nslots s = {j \<in> nslots s0. i \<le> j} \<and> {0..<cur} \<subseteq> nslots d \<and>
     node_map d = node_map d0 ++ (node_map s0 |` moved_keys s0 i) \<and>
     card (nslots d) + card (nslots s) = card (nslots d0) + card (nslots s0))"

lemma moved_keys_Suc:
  "moved_keys n (Suc i) = (if i \<in> nslots n then insert (fst (keyArray n ! i)) (moved_keys n i) else moved_keys n i)"
  by (auto simp: moved_keys_def less_Suc_eq)

lemma find_free_slot:
  assumes "{0..<cur} \<subseteq> nslots d" "card (nslots d) < MAX_ENTRIES"
  obtains j where "find (\<lambda>j. \<not> test j (bitMap d)) [cur..<MAX_ENTRIES] = Some j"
    "j < MAX_ENTRIES" "j \<notin> nslots d" "{0..<Suc j} \<subseteq> insert j (nslots d)"
proof -
  have "\<exists>j < MAX_ENTRIES. j \<notin> nslots d"
  proof (rule ccontr)
    assume "\<not> ?thesis"
    then have "{0..<MAX_ENTRIES} \<subseteq> nslots d" by auto
    then have "MAX_ENTRIES \<le> card (nslots d)"
      using card_mono[of "nslots d" "{0..<MAX_ENTRIES}"] by simp
    then show False using assms(2) by simp
  qed
  then obtain j0 where j0: "j0 < MAX_ENTRIES" "j0 \<notin> nslots d" by blast
  then have "cur \<le> j0" using assms(1) by (metis atLeastLessThan_iff le0 not_le subsetD)
  with j0 have "find (\<lambda>j. \<not> test j (bitMap d)) [cur..<MAX_ENTRIES] \<noteq> None"
    by (auto simp: find_None_iff slots_def)
  then obtain j where j: "find (\<lambda>j. \<not> test j (bitMap d)) [cur..<MAX_ENTRIES] = Some j" by blast
  then obtain i where i: "i < MAX_ENTRIES - cur" "j = cur + i" "\<not> test j (bitMap d)"
      "\<And>i'. i' < i \<Longrightarrow> test (cur + i') (bitMap d)"
    by (auto simp: find_Some_iff)
  have "x \<in> insert j (nslots d)" if "x < Suc j" for x
  proof (cases "x < cur")
    case True
    then show ?thesis using assms(1) by auto
  next
    case False
    then show ?thesis using i(4)[of "x - cur"] that i(1,2) by (cases "x = j") (auto simp: slots_def)
  qed
  then have "{0..<Suc j} \<subseteq> insert j (nslots d)" by (meson atLeastLessThan_iff subsetI)
  moreover have "j < MAX_ENTRIES" "j \<notin> nslots d" using i by (auto simp: slots_def)
  ultimately show ?thesis using that[OF j] by blast
qed

lemma move_inv_step:
  assumes inv: "move_inv fp d0 s0 i (d, s, cur)" and i: "i < MAX_ENTRIES"
    and ok: "slots_ok_by fp s0" and disj: "nkeys d0 \<inter> nkeys s0 = {}"
    and room: "card (nslots d0) + card (nslots s0) \<le> MAX_ENTRIES"
  shows "move_inv fp d0 s0 (Suc i) (move_step i (d, s, cur))"
proof -
  note inv' = inv[unfolded move_inv_def prod.case]
  show ?thesis
  proof (cases "i \<in> nslots s0")
    case False
    then have "i \<notin> nslots s" "{j \<in> nslots s0. Suc i \<le> j} = {j \<in> nslots s0. i \<le> j}"
      using inv' by (auto simp: Suc_le_eq le_less)
    moreover have "\<not> test i (bitMap s)" using calculation(1) i by (simp add: slots_def)
    ultimately show ?thesis
      using inv' False by (auto simp: move_step_def move_inv_def moved_keys_Suc)
  next
    case True
    obtain k v where kv: "keyArray s0 ! i = (k, v)" by (cases "keyArray s0 ! i") auto
    have is': "i \<in> nslots s" using inv' True by auto
    then have tst: "test i (bitMap s)" by (simp add: slots_def)
    have "0 < card (nslots s)" using is' by (auto simp: card_gt_0_iff)
    then have "card (nslots d) < MAX_ENTRIES" using inv' room by linarith
    then obtain j where j: "find (\<lambda>j. \<not> test j (bitMap d)) [cur..<MAX_ENTRIES] = Some j"
        "j < MAX_ENTRIES" "j \<notin> nslots d" "{0..<Suc j} \<subseteq> insert j (nslots d)"
      using find_free_slot inv' by blast
    have mk: "node_map s0 k = Some v" using kv True node_map_Some[OF ok] by blast
    have fp: "fingerPrint s ! i = fp k"
      using inv' is' kv unfolding slots_ok_def hashed_def by auto
    have "k \<notin> moved_keys s0 i"
      using slot_of_key[OF ok True] kv by (auto simp: moved_keys_def)
    moreover have "node_map d0 k = None"
      using disj mk dom_node_map[of s0] unfolding node_map_None by blast
    ultimately have "node_map d k = None" using inv' by simp
    then have kd: "k \<notin> nkeys d" by (simp add: node_map_None)
    have okd: "slots_ok_by fp d" "slots_ok_by fp s" using inv' by auto
    note ins = slots_ok_insertAtIndex[OF okd(1) j(2,3) kd refl, of v]
      node_map_insertAtIndex[OF okd(1) j(2,3) kd refl, of v] slots_insertAtIndex[OF j(2), where n = d]
      slots_ok_removeFromIndex[OF okd(2) is'] slots_removeFromIndex[OF i, of s]
    have "node_map d0 ++ (node_map s0 |` moved_keys s0 (Suc i))
        = (node_map d0 ++ (node_map s0 |` moved_keys s0 i))(k \<mapsto> v)"
      using True kv mk by (simp add: moved_keys_Suc flip: restrict_upd_new)
    moreover have "{j \<in> nslots s0. Suc i \<le> j} = {j \<in> nslots s0. i \<le> j} - {i}" by auto
    moreover have "card (nslots s) = Suc (card (nslots s - {i}))"
      using is' by (metis card.remove finite_slots)
    ultimately show ?thesis
      using inv' ins j kv fp tst by (simp add: move_step_def move_inv_def) (auto intro: same_rest_trans)
  qed
qed

lemma move_loop_inv:
  assumes "slots_ok_by fp d0" "slots_ok_by fp s0" "nkeys d0 \<inter> nkeys s0 = {}"
    and "card (nslots d0) + card (nslots s0) \<le> MAX_ENTRIES"
  shows "move_inv fp d0 s0 MAX_ENTRIES (move_loop d0 s0)"
proof -
  have "i \<le> MAX_ENTRIES \<Longrightarrow> move_inv fp d0 s0 i (fold move_step [0..<i] (d0, s0, 0))" for i
  proof (induction i)
    case 0
    show ?case using assms by (simp add: move_inv_def moved_keys_def)
  next
    case (Suc i)
    then show ?case
      unfolding fold_upt_Suc using move_inv_step[OF _ _ assms(2-4)] by (metis Suc_leD Suc_le_eq prod_cases3)
  qed
  then show ?thesis by (simp add: move_loop_def)
qed

lemma move_loop_spec:
  assumes "slots_ok_by fp d0" "slots_ok_by fp s0" "nkeys d0 \<inter> nkeys s0 = {}"
    and "card (nslots d0) + card (nslots s0) \<le> MAX_ENTRIES"
    and "move_loop d0 s0 = (d, s, cur)"
  shows "slots_ok_by fp d" "node_map d = node_map d0 ++ node_map s0" "same_rest d0 d"
    "slots_ok_by fp s" "node_map s = Map.empty" "same_rest s0 s"
proof -
  note inv = move_loop_inv[OF assms(1-4), unfolded assms(5) move_inv_def prod.case]
  have all: "{j \<in> nslots s0. j < MAX_ENTRIES} = nslots s0" "{j \<in> nslots s0. MAX_ENTRIES \<le> j} = {}"
    using slots_bound[of _ MAX_ENTRIES s0] by (auto simp: not_le[symmetric])
  have "moved_keys s0 MAX_ENTRIES = dom (node_map s0)"
    unfolding moved_keys_def all dom_node_map node_keys_def ..
  then have "node_map s0 |` moved_keys s0 MAX_ENTRIES = node_map s0"
    by (simp add: restrict_map_def fun_eq_iff domIff)
  moreover have "nkeys s = {}" using inv unfolding all by (simp add: node_keys_def)
  ultimately show "slots_ok_by fp d" "node_map d = node_map d0 ++ node_map s0" "same_rest d0 d"
    "slots_ok_by fp s" "node_map s = Map.empty" "same_rest s0 s"
    using inv dom_node_map[of s] by auto
qed

end
