(* ===== verification/LinkedList.thy ===== *)
theory LinkedList
  imports DataLayer
begin

text \<open>
  The data list, \<open>hydralist/src/linkedList.cpp\<close>. Every operation starts at a node handed in
  by the search layer, walks along \<open>prev\<close> and \<open>next\<close> to the node whose range covers the
  key, locks it, checks it once more and works on it; whenever a check fails it starts over at
  the same node. The walk and the restarts may go on for ever, so the operations are partial
  functions: \<open>None\<close> is an operation that never returns. An operation runs here from its first
  to its last step without interference; the pause loops of the retries have no effect.
\<close>

section \<open>Walking to the node of a key\<close>

partial_function (option) findNode :: "'k::linorder \<Rightarrow> ptr \<Rightarrow> 'k hstate_of \<Rightarrow> addr outcome" where
  "findNode k cur s =
     (case getNode cur s of
        Inl f \<Rightarrow> Some (Inl f)
      | Inr n \<Rightarrow>
          if k < min_k n then findNode k (prev_p n) s
          else if \<not> checkRange k n then findNode k (next_p n) s
          else Some (Inr (the cur)))"

text \<open>Taking and giving back the lock of the node at \<open>a\<close>.\<close>

definition lockNode :: "addr \<Rightarrow> 'k hstate_of \<Rightarrow> version_t \<times> 'k hstate_of" where
  "lockNode a s = (case writeLock (the (nodes s a)) of (v, n) \<Rightarrow> (v, putNode a n s))"

definition unlockNode :: "addr \<Rightarrow> 'k hstate_of \<Rightarrow> 'k hstate_of" where
  "unlockNode a s = putNode a (writeUnlock (the (nodes s a))) s"

section \<open>Operations\<close>

definition LinkedList_initialize :: "nat \<Rightarrow> hstate \<Rightarrow> fault + (addr \<times> hstate)" where
  "LinkedList_initialize t s =
     (let (h, s1) = newNode s; (tl', s2) = newNode s1 in
      bindE (ListNode_insert getKeyFingerPrint t h 0 0 s2) (\<lambda>(_, s3).
      bindE (updNode (Some h) (setNext (Some tl')) s3) (\<lambda>s4.
      bindE (updNode (Some h) (setPrev None) s4) (\<lambda>s5.
      bindE (updNode (Some h) (setMin 0) s5) (\<lambda>s6.
      bindE (updNode (Some h) (setMax ULLONG_MAX) s6) (\<lambda>s7.
      bindE (ListNode_insert getKeyFingerPrint t tl' ULLONG_MAX 0 s7) (\<lambda>(_, s8).
      bindE (updNode (Some tl') (setNumEntries MAX_ENTRIES) s8) (\<lambda>s9.
      bindE (updNode (Some tl') (setNext None) s9) (\<lambda>s10.
      bindE (updNode (Some tl') (setPrev (Some tl')) s10) (\<lambda>s11.
      bindE (updNode (Some tl') (setMin ULLONG_MAX) s11) (\<lambda>s12.
        Inr (h, s12))))))))))))"

partial_function (option) LinkedList_insert ::
  "('k::linorder \<Rightarrow> u8) \<Rightarrow> nat \<Rightarrow> 'k \<Rightarrow> Val_t \<Rightarrow> ptr \<Rightarrow> 'k hstate_of \<Rightarrow> (bool \<times> 'k hstate_of) outcome" where
  "LinkedList_insert fp t k v head s =
     (case findNode k head s of
        None \<Rightarrow> None
      | Some (Inl f) \<Rightarrow> Some (Inl f)
      | Some (Inr cur) \<Rightarrow>
          (case lockNode cur s of (ver, s1) \<Rightarrow>
             if ver = 0 then LinkedList_insert fp t k v head s1
             else if deleted (the (nodes s1 cur)) then
               LinkedList_insert fp t k v head (unlockNode cur s1)
             else if \<not> checkRange k (the (nodes s1 cur)) then
               LinkedList_insert fp t k v head (unlockNode cur s1)
             else
               (case ListNode_insert fp t cur k v s1 of
                  Inl f \<Rightarrow> Some (Inl f)
                | Inr (ret, s2) \<Rightarrow> Some (Inr (ret, unlockNode cur s2)))))"

partial_function (option) LinkedList_update ::
  "('k::linorder \<Rightarrow> u8) \<Rightarrow> 'k \<Rightarrow> Val_t \<Rightarrow> ptr \<Rightarrow> 'k hstate_of \<Rightarrow> (bool \<times> 'k hstate_of) outcome" where
  "LinkedList_update fp k v head s =
     (case findNode k head s of
        None \<Rightarrow> None
      | Some (Inl f) \<Rightarrow> Some (Inl f)
      | Some (Inr cur) \<Rightarrow>
          (case lockNode cur s of (ver, s1) \<Rightarrow>
             if ver = 0 then LinkedList_update fp k v head s1
             else if deleted (the (nodes s1 cur)) then
               LinkedList_update fp k v head (unlockNode cur s1)
             else if \<not> checkRange k (the (nodes s1 cur)) then
               LinkedList_update fp k v head (unlockNode cur s1)
             else
               (case ListNode_update fp k v (the (nodes s1 cur)) of
                  (ret, n) \<Rightarrow> Some (Inr (ret, unlockNode cur (putNode cur n s1))))))"

text \<open>\<open>remove\<close> alone steps its start back to \<open>head->getPrev()\<close> before it starts over.\<close>

definition stepBack :: "ptr \<Rightarrow> 'k hstate_of \<Rightarrow> fault + ptr" where
  "stepBack head s =
     bindE (getNode head s) (\<lambda>n. Inr (if prev_p n \<noteq> None then prev_p n else head))"

partial_function (option) LinkedList_remove ::
  "('k::linorder \<Rightarrow> u8) \<Rightarrow> nat \<Rightarrow> 'k \<Rightarrow> ptr \<Rightarrow> 'k hstate_of \<Rightarrow> (bool \<times> 'k hstate_of) outcome" where
  "LinkedList_remove fp t k head s =
     (case findNode k head s of
        None \<Rightarrow> None
      | Some (Inl f) \<Rightarrow> Some (Inl f)
      | Some (Inr cur) \<Rightarrow>
          (case lockNode cur s of (ver, s1) \<Rightarrow>
             if ver = 0 then
               (case stepBack head s1 of
                  Inl f \<Rightarrow> Some (Inl f)
                | Inr head' \<Rightarrow> LinkedList_remove fp t k head' s1)
             else if deleted (the (nodes s1 cur)) then
               (case stepBack head s1 of
                  Inl f \<Rightarrow> Some (Inl f)
                | Inr head' \<Rightarrow> LinkedList_remove fp t k head' (unlockNode cur s1))
             else if \<not> checkRange k (the (nodes s1 cur)) then
               (case stepBack head s1 of
                  Inl f \<Rightarrow> Some (Inl f)
                | Inr head' \<Rightarrow> LinkedList_remove fp t k head' (unlockNode cur s1))
             else
               (case ListNode_remove fp t cur k s1 of
                  Inl f \<Rightarrow> Some (Inl f)
                | Inr (ret, s2) \<Rightarrow> Some (Inr (ret, unlockNode cur s2)))))"

partial_function (option) LinkedList_probe :: "('k::linorder \<Rightarrow> u8) \<Rightarrow> 'k \<Rightarrow> ptr \<Rightarrow> 'k hstate_of \<Rightarrow> bool outcome" where
  "LinkedList_probe fp k head s =
     (case findNode k head s of
        None \<Rightarrow> None
      | Some (Inl f) \<Rightarrow> Some (Inl f)
      | Some (Inr cur) \<Rightarrow>
          let n = the (nodes s cur); readVersion = readLock n in
          if readVersion = 0 then LinkedList_probe fp k head s
          else if deleted n then LinkedList_probe fp k head s
          else if \<not> checkRange k n then LinkedList_probe fp k head s
          else let ret = ListNode_probe fp k n in
               if \<not> readUnlock readVersion n then LinkedList_probe fp k head s
               else Some (Inr ret))"

partial_function (option) LinkedList_lookup ::
  "('k::linorder \<Rightarrow> u8) \<Rightarrow> 'k \<Rightarrow> ptr \<Rightarrow> 'k hstate_of \<Rightarrow> Val_t option outcome" where
  "LinkedList_lookup fp k head s =
     (case findNode k head s of
        None \<Rightarrow> None
      | Some (Inl f) \<Rightarrow> Some (Inl f)
      | Some (Inr cur) \<Rightarrow>
          let n = the (nodes s cur); readVersion = readLock n in
          if readVersion = 0 then LinkedList_lookup fp k head s
          else if deleted n then LinkedList_lookup fp k head s
          else if \<not> checkRange k n then LinkedList_lookup fp k head s
          else let ret = ListNode_lookup fp k n in
               if \<not> readUnlock readVersion n then LinkedList_lookup fp k head s
               else Some (Inr ret))"

text \<open>The counter of \<open>size\<close> is returned as a \<open>uint32_t\<close>.\<close>

partial_function (option) LinkedList_size :: "ptr \<Rightarrow> 'k hstate_of \<Rightarrow> u32 \<Rightarrow> u32 outcome" where
  "LinkedList_size cur s count =
     (case getNode cur s of
        Inl f \<Rightarrow> Some (Inl f)
      | Inr n \<Rightarrow> if next_p n \<noteq> None then LinkedList_size (next_p n) s (count + 1)
                 else Some (Inr count))"

section \<open>Scan\<close>

text \<open>
  The \<open>while\<close> loop over nodes; its result says whether to start over. The test
  \<open>rangeVector.size() < range\<close> converts \<open>range\<close> to an unsigned number, so a negative range
  counts as a huge one.
\<close>

definition moreWanted :: "Val_t list \<Rightarrow> int \<Rightarrow> bool" where
  "moreWanted rv rng \<longleftrightarrow> rng < 0 \<or> int (length rv) < rng"

partial_function (option) scanNodes ::
  "'k::linorder \<Rightarrow> int \<Rightarrow> Val_t list \<Rightarrow> bool \<Rightarrow> ptr \<Rightarrow> 'k hstate_of \<Rightarrow> (bool \<times> Val_t list \<times> 'k hstate_of) outcome" where
  "scanNodes startKey rng rv done cur s =
     (if \<not> (moreWanted rv rng \<and> \<not> done) then Some (Inr (False, rv, s))
      else
        (case getNode cur s of
           Inl f \<Rightarrow> Some (Inl f)
         | Inr n \<Rightarrow>
             let readVersion = readLock n in
             if readVersion = 0 then Some (Inr (True, rv, s))
             else if deleted n then Some (Inr (True, rv, s))
             else
               (case ListNode_scan startKey rng rv readVersion n of
                  Inl f \<Rightarrow> Some (Inl f)
                | Inr (done', rv', n') \<Rightarrow>
                    if \<not> readUnlock readVersion n' then Some (Inr (True, rv', putNode (the cur) n' s))
                    else scanNodes startKey rng rv' done' (next_p n') (putNode (the cur) n' s))))"

partial_function (option) LinkedList_scan ::
  "'k::linorder \<Rightarrow> int \<Rightarrow> ptr \<Rightarrow> 'k hstate_of \<Rightarrow> (Val_t list \<times> 'k hstate_of) outcome" where
  "LinkedList_scan startKey rng head s =
     (case findNode startKey head s of
        None \<Rightarrow> None
      | Some (Inl f) \<Rightarrow> Some (Inl f)
      | Some (Inr cur) \<Rightarrow>
          (case scanNodes startKey rng [] False (Some cur) s of
             None \<Rightarrow> None
           | Some (Inl f) \<Rightarrow> Some (Inl f)
           | Some (Inr (again, rv, s1)) \<Rightarrow>
               if again then LinkedList_scan startKey rng head s1
               else Some (Inr (rv, s1))))"

end
