(* ===== verification/DataList.thy ===== *)
theory DataList
  imports NodeSplit LinkedList
begin

text \<open>
  The invariant of the data list. The live nodes are a list of pairs of an address and a node:
  linked in both directions, their key ranges next to each other from 0 to \<open>ULLONG_MAX\<close>,
  closed by the tail node. The contents of the list is the union of the maps of its nodes. The
  walk of \<open>linkedList.cpp\<close> ends, from every live node and for every key below
  \<open>ULLONG_MAX\<close>, at the node whose range covers the key.
\<close>

type_synonym 'k cells = "(addr \<times> 'k ListNode_of) list"

section \<open>Nodes\<close>

text \<open>
  A lock with room for \<open>f\<close> more writers before its counter wraps around; the cache of the
  sorted order is no newer than the node, and right if it is as new.
\<close>

definition lock_ok :: "nat \<Rightarrow> 'k ListNode_of \<Rightarrow> bool" where
  "lock_ok f n \<longleftrightarrow> unlocked (verLock n) \<and> unat (version (verLock n)) + 2 * f < 2 ^ 64"

definition perm_idx :: "'k ListNode_of \<Rightarrow> nat list" where
  "perm_idx n = map unat (take (card (nslots n)) (permuter n))"

definition perm_ok :: "'k::linorder ListNode_of \<Rightarrow> bool" where
  "perm_ok n \<longleftrightarrow> set (perm_idx n) = nslots n \<and> distinct (perm_idx n) \<and>
     sorted (map (\<lambda>i. fst (keyArray n ! i)) (perm_idx n))"

definition cache_ok :: "'k::linorder ListNode_of \<Rightarrow> bool" where
  "cache_ok n \<longleftrightarrow> length (permuter n) = MAX_ENTRIES \<and> lastScanVersion n \<le> version (verLock n) \<and>
     (lastScanVersion n = version (verLock n) \<longrightarrow> perm_ok n)"

definition node_ok_by :: "('k::linorder \<Rightarrow> u8) \<Rightarrow> nat \<Rightarrow> 'k ListNode_of \<Rightarrow> bool" where
  "node_ok_by fp f n \<longleftrightarrow> slots_ok_by fp n \<and> nkeys n \<subseteq> {x. min_k n \<le> x \<and> x < max_k n} \<and> \<not> deleted n \<and>
     lock_ok f n \<and> cache_ok n"

lemma node_ok_mono: "node_ok_by fp (Suc f) n \<Longrightarrow> node_ok_by fp f n"
  by (simp add: node_ok_by_def lock_ok_def)

lemma even_plus_2: "even (v + 2) = even (v :: u64)"
  by simp

lemma lock_ok_write:
  assumes "lock_ok (Suc f) n" "version (verLock n') = version (verLock n) + 2"
  shows "lock_ok f n'" "version (verLock n) < version (verLock n')"
proof -
  have u: "unat (version (verLock n) + 2) = unat (version (verLock n)) + 2"
    using assms(1) by (simp add: lock_ok_def unat_word_ariths)
  show "version (verLock n) < version (verLock n')"
    using u assms(2) by (simp add: word_less_nat_alt)
  then have "version (verLock n') \<noteq> 0" by auto
  then show "lock_ok f n'"
    using assms u by (simp add: lock_ok_def unlocked_def)
qed

text \<open>What a node that was written under its lock has to satisfy once it is unlocked.\<close>

lemma node_ok_written:
  assumes ok: "node_ok_by fp (Suc f) n" and slots: "slots_ok_by fp n'"
    and keys: "nkeys n' \<subseteq> {x. min_k n' \<le> x \<and> x < max_k n'}" and live: "\<not> deleted n'"
    and ver: "version (verLock n') = version (verLock n) + 2"
    and cache: "lastScanVersion n' = lastScanVersion n" "permuter n' = permuter n"
  shows "node_ok_by fp f n'"
proof -
  have "lock_ok f n'" "version (verLock n) < version (verLock n')"
    using lock_ok_write[of f n n'] ok ver by (auto simp: node_ok_by_def)
  moreover have "cache_ok n'"
    using ok cache calculation(2) by (auto simp: node_ok_by_def cache_ok_def)
  ultimately show ?thesis
    using slots keys live by (simp add: node_ok_by_def)
qed

lemma node_ok_setPrev [simp]: "node_ok_by fp f (n\<lparr>prev_p := p\<rparr>) = node_ok_by fp f n"
  by (simp add: node_ok_by_def lock_ok_def cache_ok_def perm_ok_def perm_idx_def)

lemma writeLock_ok:
  "node_ok_by fp f n \<Longrightarrow> writeLock n = (version (verLock n), n\<lparr>verLock := \<lparr>version = version (verLock n) + 1\<rparr>\<rparr>) \<and>
     version (verLock n) \<noteq> 0"
  by (auto simp: node_ok_by_def lock_ok_def writeLock_def unlocked_def write_lock_eq)

lemma readLock_ok:
  "node_ok_by fp f n \<Longrightarrow> readLock n = version (verLock n) \<and> version (verLock n) \<noteq> 0"
  by (auto simp: node_ok_by_def lock_ok_def readLock_def unlocked_def read_lock_eq)

section \<open>The chain\<close>

definition hdaddr :: "'k cells \<Rightarrow> addr \<Rightarrow> addr" where
  "hdaddr L q = (case L of [] \<Rightarrow> q | e # _ \<Rightarrow> fst e)"

definition lastptr :: "ptr \<Rightarrow> 'k cells \<Rightarrow> ptr" where
  "lastptr p L = (if L = [] then p else Some (fst (last L)))"

lemma hdaddr_simps [simp]: "hdaddr [] q = q" "hdaddr (e # L) q = fst e"
  "hdaddr (L @ M) q = hdaddr L (hdaddr M q)"
  by (simp_all add: hdaddr_def split: list.splits)

lemma lastptr_simps [simp]: "lastptr p [] = p" "lastptr p (e # L) = lastptr (Some (fst e)) L"
  "lastptr p (L @ M) = lastptr (lastptr p L) M"
  by (auto simp: lastptr_def)

text \<open>
  \<open>chain p lo L q hi\<close>: the nodes of \<open>L\<close> follow the node \<open>p\<close>, precede the node
  \<open>q\<close>, and their ranges cut the interval from \<open>lo\<close> to \<open>hi\<close> into pieces.
\<close>

fun chain :: "ptr \<Rightarrow> 'k::linorder \<Rightarrow> 'k cells \<Rightarrow> addr \<Rightarrow> 'k \<Rightarrow> bool" where
  "chain p lo [] q hi \<longleftrightarrow> lo = hi"
| "chain p lo ((a, n) # L) q hi \<longleftrightarrow>
     prev_p n = p \<and> min_k n = lo \<and> lo < max_k n \<and> next_p n = Some (hdaddr L q) \<and>
     chain (Some a) (max_k n) L q hi"

lemma chain_append:
  "chain p lo (L @ M) q hi \<longleftrightarrow>
     (\<exists>mid. chain p lo L (hdaddr M q) mid \<and> chain (lastptr p L) mid M q hi)"
  by (induction L arbitrary: p lo) auto

lemma chain_le: "chain p lo L q hi \<Longrightarrow> lo \<le> hi"
  by (induction L arbitrary: p lo) (auto, meson less_imp_le order.trans)

definition cells_ok_by :: "('k::linorder \<Rightarrow> u8) \<Rightarrow> nat \<Rightarrow> 'k cells \<Rightarrow> bool" where
  "cells_ok_by fp f L \<longleftrightarrow> (\<forall>(a, n) \<in> set L. node_ok_by fp f n)"

lemma cells_ok_simps [simp]: "cells_ok_by fp f []" "cells_ok_by fp f ((a, n) # L) \<longleftrightarrow> node_ok_by fp f n \<and> cells_ok_by fp f L"
  "cells_ok_by fp f (L @ M) \<longleftrightarrow> cells_ok_by fp f L \<and> cells_ok_by fp f M"
  by (auto simp: cells_ok_by_def)

lemma cells_ok_mono: "cells_ok_by fp (Suc f) L \<Longrightarrow> cells_ok_by fp f L"
  by (auto simp: cells_ok_by_def intro: node_ok_mono)

section \<open>Contents\<close>

definition dl_map :: "'k cells \<Rightarrow> 'k \<rightharpoonup> Val_t" where
  "dl_map L = foldr (\<lambda>e m. node_map (snd e) ++ m) L Map.empty"

lemma dl_map_simps [simp]: "dl_map [] = Map.empty" "dl_map (e # L) = node_map (snd e) ++ dl_map L"
  "dl_map (L @ M) = dl_map L ++ dl_map M"
proof -
  show "dl_map [] = Map.empty" "dl_map (e # L) = node_map (snd e) ++ dl_map L"
    by (simp_all add: dl_map_def)
  show "dl_map (L @ M) = dl_map L ++ dl_map M"
    by (induction L) (simp_all add: dl_map_def)
qed

lemma dl_map_range:
  assumes "chain p lo L q hi" "cells_ok_by fp f L"
  shows "dom (dl_map L) \<subseteq> {x. lo \<le> x \<and> x < hi}"
  using assms
proof (induction L arbitrary: p lo)
  case (Cons e L)
  obtain a n where e: "e = (a, n)" by (cases e)
  have "dom (node_map n) \<subseteq> {x. lo \<le> x \<and> x < max_k n}" "max_k n \<le> hi" "lo < max_k n"
    using Cons.prems chain_le by (auto simp: e node_ok_by_def dom_node_map)
  moreover have "dom (dl_map L) \<subseteq> {x. max_k n \<le> x \<and> x < hi}"
    using Cons by (auto simp: e)
  ultimately show ?case by (fastforce simp: e)
qed simp

text \<open>The covering node alone decides about a key.\<close>

lemma dl_map_split:
  assumes "chain p lo (L @ (a, n) # M) q hi" "cells_ok_by fp f (L @ (a, n) # M)" "min_k n \<le> k" "k < max_k n"
  shows "dl_map L k = None" "dl_map M k = None"
    "dl_map (L @ (a, n) # M) k = node_map n k"
proof -
  obtain mid where m: "chain p lo L a mid" "chain (lastptr p L) mid ((a, n) # M) q hi"
    using assms(1) by (auto simp: chain_append)
  have "dom (dl_map L) \<subseteq> {x. lo \<le> x \<and> x < min_k n}" "dom (dl_map M) \<subseteq> {x. max_k n \<le> x \<and> x < hi}"
    using dl_map_range m assms(2) by (fastforce)+
  then show *: "dl_map L k = None" "dl_map M k = None"
    using assms(3,4) by force+
  then show "dl_map (L @ (a, n) # M) k = node_map n k"
    by (simp add: map_add_def split: option.splits)
qed

lemma dl_map_upd:
  assumes "chain p lo (L @ (a, n) # M) q hi" "cells_ok_by fp f (L @ (a, n) # M)" "min_k n \<le> k" "k < max_k n"
    and "m = (node_map n)(k := w)"
  shows "dl_map L ++ (m ++ dl_map M) = (dl_map (L @ (a, n) # M))(k := w)"
  using dl_map_split[OF assms(1-4)] assms(5)
  by (auto simp: map_add_def fun_eq_iff split: option.splits)

section \<open>The invariant\<close>

definition tail_ok_by :: "'k \<Rightarrow> 'k ListNode_of \<Rightarrow> bool" where
  "tail_ok_by hi n \<longleftrightarrow> next_p n = None \<and> min_k n = hi \<and> unat (numEntries n) = MAX_ENTRIES \<and>
     unlocked (verLock n) \<and> \<not> deleted n"

text \<open>The addresses that \<open>new\<close> will return are unused, and its memory holds whole nodes.\<close>

definition alloc_ok :: "'k hstate_of \<Rightarrow> bool" where
  "alloc_ok s \<longleftrightarrow> (\<forall>i. nallocs s \<le> i \<longrightarrow> nmalloc s i \<notin> dom (nodes s)) \<and> inj (nmalloc s) \<and>
     (\<forall>i. arrays_sized (raw s i))"

definition holds :: "(addr \<rightharpoonup> 'k ListNode_of) \<Rightarrow> 'k cells \<Rightarrow> bool" where
  "holds H L \<longleftrightarrow> distinct (map fst L) \<and> (\<forall>(a, n) \<in> set L. H a = Some n)"

definition dl_inv_by :: "('k::linorder \<Rightarrow> u8) \<Rightarrow> 'k \<Rightarrow> 'k \<Rightarrow> nat \<Rightarrow> 'k cells \<Rightarrow> addr \<Rightarrow> 'k hstate_of \<Rightarrow> bool" where
  "dl_inv_by fp lo hi f L q s \<longleftrightarrow> L \<noteq> [] \<and> holds (nodes s) L \<and> cells_ok_by fp f L \<and> chain None lo L q hi \<and>
     q \<notin> fst ` set L \<and> (\<exists>t. nodes s q = Some t \<and> tail_ok_by hi t) \<and> alloc_ok s"

text \<open>The list of the index over integers.\<close>

abbreviation dl_inv :: "nat \<Rightarrow> Key_t cells \<Rightarrow> addr \<Rightarrow> hstate \<Rightarrow> bool" where
  "dl_inv \<equiv> dl_inv_by getKeyFingerPrint 0 ULLONG_MAX"

abbreviation node_ok :: "nat \<Rightarrow> ListNode \<Rightarrow> bool" where
  "node_ok \<equiv> node_ok_by getKeyFingerPrint"

lemmas dl_inv_def = dl_inv_by_def
lemmas node_ok_def = node_ok_by_def
lemmas cells_ok_def = cells_ok_by_def
lemmas tail_ok_def = tail_ok_by_def

lemma holds_simps [simp]: "holds H []"
  "holds H ((a, n) # L) \<longleftrightarrow> a \<notin> fst ` set L \<and> H a = Some n \<and> holds H L"
  by (auto simp: holds_def)

lemma holds_dom: "holds H L \<Longrightarrow> a \<in> fst ` set L \<Longrightarrow> H a \<noteq> None"
  by (auto simp: holds_def)

lemma holds_append: "holds H (L @ M) \<longleftrightarrow> holds H L \<and> holds H M \<and> fst ` set L \<inter> fst ` set M = {}"
  by (auto simp: holds_def)

lemma holds_upd [simp]: "a \<notin> fst ` set L \<Longrightarrow> holds (H(a \<mapsto> n)) L = holds H L"
  unfolding holds_def by (metis (mono_tags, lifting) case_prod_beta fun_upd_other image_eqI)

lemma chain_cover:
  assumes "chain p lo L q hi" "lo \<le> k" "k < hi"
  obtains L1 a n L2 where "L = L1 @ (a, n) # L2" "checkRange k n"
proof -
  have "\<exists>L1 a n L2. L = L1 @ (a, n) # L2 \<and> checkRange k n"
    using assms
  proof (induction L arbitrary: p lo)
    case (Cons e L)
    obtain a n where e: "e = (a, n)" by (cases e)
    show ?case
    proof (cases "k < max_k n")
      case True
      then show ?thesis using Cons.prems by (intro exI[of _ "[]"]) (auto simp: e checkRange_def)
    next
      case False
      then obtain L1 b m L2 where "L = L1 @ (b, m) # L2" "checkRange k m"
        using Cons.IH[of "Some a" "max_k n"] Cons.prems by (auto simp: e not_less)
      then show ?thesis by (metis append_Cons)
    qed
  qed auto
  then show ?thesis using that by blast
qed

section \<open>The walk\<close>

lemma getNode_Some [simp]: "nodes s a = Some n \<Longrightarrow> getNode (Some a) s = Inr n"
  by (simp add: getNode_def)

lemma findNode_here:
  "nodes s a = Some n \<Longrightarrow> checkRange k n \<Longrightarrow> findNode k (Some a) s = Some (Inr a)"
  by (subst findNode.simps) (auto simp: checkRange_def)

lemma findNode_right:
  assumes "nodes s a = Some n" "min_k n \<le> k" "\<not> k < max_k n"
  shows "findNode k (Some a) s = findNode k (next_p n) s"
  by (subst findNode.simps) (use assms in \<open>auto simp: checkRange_def\<close>)

lemma findNode_left:
  assumes "nodes s a = Some n" "k < min_k n"
  shows "findNode k (Some a) s = findNode k (prev_p n) s"
  by (subst findNode.simps) (use assms in auto)

lemma walk_right:
  assumes "chain p lo L q hi" "lo \<le> k" "k < hi" "holds (nodes s) L"
  shows "\<exists>(c, n) \<in> set L. checkRange k n \<and> findNode k (Some (hdaddr L q)) s = Some (Inr c)"
  using assms
proof (induction L arbitrary: p lo)
  case (Cons e L)
  obtain a n where e: "e = (a, n)" by (cases e)
  show ?case
  proof (cases "k < max_k n")
    case True
    then have "checkRange k n" using Cons.prems by (simp add: e checkRange_def)
    then show ?thesis using Cons.prems findNode_here by (auto simp: e)
  next
    case False
    then have "findNode k (Some a) s = findNode k (Some (hdaddr L q)) s"
      using Cons.prems findNode_right[of s a n k] by (auto simp: e)
    then show ?thesis
      using Cons.IH[of "Some a" "max_k n"] Cons.prems False by (fastforce simp: e not_less)
  qed
qed auto

lemma walk_left:
  assumes "chain p lo L q hi" "lo \<le> k" "k < hi" "holds (nodes s) L"
  shows "\<exists>(c, n) \<in> set L. checkRange k n \<and> findNode k (lastptr p L) s = Some (Inr c)"
  using assms
proof (induction L arbitrary: q hi rule: rev_induct)
  case (snoc e L)
  obtain a n where e: "e = (a, n)" by (cases e)
  have n: "chain p lo L a (min_k n)" "max_k n = hi" "prev_p n = lastptr p L" "nodes s a = Some n"
    "holds (nodes s) L"
    using snoc.prems by (auto simp: e chain_append holds_append)
  show ?case
  proof (cases "k < min_k n")
    case False
    then have "checkRange k n" using n snoc.prems(3) by (simp add: checkRange_def)
    then show ?thesis using n findNode_here by (auto simp: e)
  next
    case True
    then have "findNode k (Some a) s = findNode k (lastptr p L) s"
      using findNode_left n by metis
    then show ?thesis
      using snoc.IH[OF n(1) snoc.prems(2) True n(5)] by (auto simp: e)
  qed
qed auto

lemma findNode_chain:
  assumes "chain None lo L q hi" "holds (nodes s) L" "a \<in> fst ` set L" "lo \<le> k \<and> k < hi"
  obtains L1 c n L2 where "L = L1 @ (c, n) # L2" "checkRange k n" "findNode k (Some a) s = Some (Inr c)"
proof -
  obtain n where "(a, n) \<in> set L" using assms(3) by auto
  then obtain A B where L: "L = A @ (a, n) # B" by (meson split_list)
  have k: "k < hi" using assms(4) by simp
  have ch: "chain None lo A a (min_k n)" "chain (lastptr None A) (min_k n) ((a, n) # B) q hi"
    "holds (nodes s) A" "holds (nodes s) ((a, n) # B)"
    using assms(1,2) by (auto simp: L chain_append holds_append)
  have "\<exists>(c, n) \<in> set L. checkRange k n \<and> findNode k (Some a) s = Some (Inr c)"
  proof (cases "k < min_k n")
    case True
    then have "findNode k (Some a) s = findNode k (lastptr None A) s"
      using ch findNode_left[of s a n k] by auto
    then show ?thesis
      using walk_left[OF ch(1) _ True ch(3)] assms(4) by (auto simp: L)
  next
    case False
    then show ?thesis
      using walk_right[OF ch(2) _ k ch(4)] by (auto simp: L)
  qed
  then show ?thesis using that by (auto dest!: split_list)
qed

end
