(* ===== verification/ListRefinement.thy ===== *)
theory ListRefinement
  imports DataList
begin

text \<open>
  The operations of the data list refine those of a finite map: from every live start node
  \<open>lookup\<close>, \<open>probe\<close>, \<open>update\<close>, \<open>insert\<close> and \<open>remove\<close> return, keep the
  invariant, and change the map as they should. Splits and merges keep the links, and the log
  entry they leave tells the search layer exactly how the set of nodes changed.
\<close>

text \<open>The node that decides about a key, reached from any live node.\<close>

lemma covering_node_by:
  assumes "dl_inv_by fp lo hi f L q s" "a \<in> fst ` set L" "lo \<le> k \<and> k < hi"
  obtains L1 c n L2 where "L = L1 @ (c, n) # L2" "checkRange k n" "findNode k (Some a) s = Some (Inr c)"
    "nodes s c = Some n" "node_ok_by fp f n" "min_k n \<le> k" "k < max_k n" "dl_map L k = node_map n k"
proof -
  have inv: "chain None lo L q hi" "holds (nodes s) L" "cells_ok_by fp f L"
    using assms(1) by (auto simp: dl_inv_by_def)
  obtain L1 c n L2 where L: "L = L1 @ (c, n) # L2" and rng: "checkRange k n"
      and find: "findNode k (Some a) s = Some (Inr c)"
    using findNode_chain[OF inv(1,2) assms(2,3)] .
  have r: "min_k n \<le> k" "k < max_k n" using rng by (auto simp: checkRange_def)
  have "nodes s c = Some n" "node_ok_by fp f n" using inv by (auto simp: L holds_append)
  moreover have "dl_map L k = node_map n k"
    using dl_map_split(3) inv r unfolding L by blast
  ultimately show ?thesis using that L rng find r by blast
qed

section \<open>Reading\<close>

lemma LinkedList_lookup_refines_by:
  assumes "dl_inv_by fp lo hi f L q s" "a \<in> fst ` set L" "lo \<le> k \<and> k < hi"
  shows "LinkedList_lookup fp k (Some a) s = Some (Inr (dl_map L k))"
proof -
  obtain L1 c n L2 where c: "findNode k (Some a) s = Some (Inr c)" "nodes s c = Some n" "node_ok_by fp f n"
      "checkRange k n" "dl_map L k = node_map n k"
    using covering_node_by[OF assms] by metis
  then show ?thesis
    using readLock_ok[OF c(3)] by (subst LinkedList_lookup.simps)
      (simp add: Let_def node_ok_by_def readUnlock_def read_unlock_def ListNode_lookup_eq)
qed

lemma LinkedList_probe_refines_by:
  assumes "dl_inv_by fp lo hi f L q s" "a \<in> fst ` set L" "lo \<le> k \<and> k < hi"
  shows "LinkedList_probe fp k (Some a) s = Some (Inr (dl_map L k \<noteq> None))"
proof -
  obtain L1 c n L2 where c: "findNode k (Some a) s = Some (Inr c)" "nodes s c = Some n" "node_ok_by fp f n"
      "checkRange k n" "dl_map L k = node_map n k"
    using covering_node_by[OF assms] by metis
  then show ?thesis
    using readLock_ok[OF c(3)] by (subst LinkedList_probe.simps)
      (simp add: Let_def node_ok_by_def readUnlock_def read_unlock_def ListNode_probe_eq)
qed

section \<open>Writing one node\<close>

lemma putNode_sel [simp]:
  "nodes (putNode a n s) = (nodes s)(a \<mapsto> n)" "nmalloc (putNode a n s) = nmalloc s"
  "raw (putNode a n s) = raw s" "nallocs (putNode a n s) = nallocs s"
  "oplogs (putNode a n s) = oplogs s" "curQ (putNode a n s) = curQ s"
  "rdtscp (putNode a n s) = rdtscp s" "clkReads (putNode a n s) = clkReads s"
  "opmalloc (putNode a n s) = opmalloc s" "opallocs (putNode a n s) = opallocs s"
  by (simp_all add: putNode_def)

lemma putNode_putNode [simp]: "putNode a m (putNode a n s) = putNode a m s"
  by (simp add: putNode_def)

lemma alloc_ok_cong:
  assumes "alloc_ok s" "dom (nodes s') = dom (nodes s)" "nmalloc s' = nmalloc s" "raw s' = raw s"
    "nallocs s' = nallocs s"
  shows "alloc_ok s'"
  using assms by (simp add: alloc_ok_def)

lemma alloc_ok_new:
  assumes "alloc_ok s" "dom (nodes s') = insert (nmalloc s (nallocs s)) (dom (nodes s))"
    "nmalloc s' = nmalloc s" "raw s' = raw s" "nallocs s' = Suc (nallocs s)"
  shows "alloc_ok s'"
proof -
  have "nmalloc s i \<notin> dom (nodes s')" if "Suc (nallocs s) \<le> i" for i
    using assms(1,2) that by (auto simp: alloc_ok_def dest: injD)
  then show ?thesis using assms by (simp add: alloc_ok_def)
qed

text \<open>
  The node covering the key, locked: where every writing operation begins its work.
\<close>

definition locked :: "'k ListNode_of \<Rightarrow> 'k ListNode_of" where
  "locked n = n\<lparr>verLock := \<lparr>version = version (verLock n) + 1\<rparr>\<rparr>"

lemma locked_sel [simp]:
  "keyArray (locked n) = keyArray n" "fingerPrint (locked n) = fingerPrint n"
  "bitMap (locked n) = bitMap n" "numEntries (locked n) = numEntries n"
  "min_k (locked n) = min_k n" "max_k (locked n) = max_k n" "next_p (locked n) = next_p n"
  "prev_p (locked n) = prev_p n" "deleted (locked n) = deleted n"
  "lastScanVersion (locked n) = lastScanVersion n" "permuter (locked n) = permuter n"
  "version (verLock (locked n)) = version (verLock n) + 1"
  "slots_ok_by fp (locked n) = slots_ok_by fp n" "node_map (locked n) = node_map n"
  "nslots (locked n) = nslots n" "nkeys (locked n) = nkeys n" "checkRange k (locked n) = checkRange k n"
  by (simp_all add: locked_def checkRange_def)

lemma lockNode_ok:
  "nodes s a = Some n \<Longrightarrow> node_ok_by fp f n \<Longrightarrow>
   lockNode a s = (version (verLock n), putNode a (locked n) s) \<and> version (verLock n) \<noteq> 0"
  using writeLock_ok[of fp f n] by (auto simp: lockNode_def locked_def)

lemma unlock_version:
  "version (verLock m) = version (verLock n) + 1 \<Longrightarrow>
   version (verLock (writeUnlock m)) = version (verLock n) + 2"
  by (simp add: writeUnlock_def write_unlock_def)

text \<open>Replacing one node by a version of itself that was written under its lock.\<close>

lemma dl_inv_write:
  assumes inv: "dl_inv_by fp lo hi (Suc f) (L1 @ (a, n) # L2) q s"
    and n': "slots_ok_by fp n'" "nkeys n' \<subseteq> {x. min_k n \<le> x \<and> x < max_k n}" "\<not> deleted n'"
      "version (verLock n') = version (verLock n) + 1"
      "lastScanVersion n' = lastScanVersion n" "permuter n' = permuter n"
      "min_k n' = min_k n" "max_k n' = max_k n" "next_p n' = next_p n" "prev_p n' = prev_p n"
  shows "dl_inv_by fp lo hi f (L1 @ (a, writeUnlock n') # L2) q (putNode a (writeUnlock n') s)"
proof -
  have ok: "node_ok_by fp (Suc f) n" using inv by (simp add: dl_inv_by_def)
  have "node_ok_by fp f (writeUnlock n')"
    using node_ok_written[OF ok, of "writeUnlock n'"] unlock_version[OF n'(4)] n'
    by (simp add: writeUnlock_def)
  moreover have "chain None lo (L1 @ (a, writeUnlock n') # L2) q hi"
    using inv n' by (auto simp: dl_inv_by_def chain_append writeUnlock_def)
  moreover have "alloc_ok (putNode a (writeUnlock n') s)"
    by (rule alloc_ok_cong[of s]) (use inv in \<open>auto simp: dl_inv_by_def holds_append\<close>)
  ultimately show ?thesis
    using inv by (auto simp: dl_inv_by_def holds_append cells_ok_mono)
qed

lemma nkeys_upd_range:
  assumes "node_ok_by fp f n" "node_map m = (node_map n)(k := w)" "min_k n \<le> k" "k < max_k n"
  shows "nkeys m \<subseteq> {x. min_k n \<le> x \<and> x < max_k n}"
proof -
  have "nkeys m \<subseteq> insert k (nkeys n)"
    unfolding dom_node_map[symmetric] assms(2) by (auto split: if_splits)
  then show ?thesis using assms by (auto simp: node_ok_by_def)
qed

section \<open>The log and the anchors\<close>

text \<open>
  The anchors of a list: the smallest key of each node with the node's address, what a search
  layer is to hold. Replaying a log entry is what a search layer does with it.
\<close>

definition anchor_map :: "'k cells \<Rightarrow> 'k \<rightharpoonup> addr" where
  "anchor_map L = map_of (map (\<lambda>(a, n). (min_k n, a)) L)"

definition replay :: "'k OpStruct \<Rightarrow> ('k \<rightharpoonup> addr) \<Rightarrow> ('k \<rightharpoonup> addr)" where
  "replay e m = (case op e of OpInsert \<Rightarrow> m(key e \<mapsto> listNodePtr e) | OpRemove \<Rightarrow> m(key e := None))"

text \<open>Thread \<open>t\<close> appended \<open>es\<close> to the queue it is filling and changed no other queue.\<close>

definition appended :: "nat \<Rightarrow> 'k OpPtr list \<Rightarrow> 'k hstate_of \<Rightarrow> 'k hstate_of \<Rightarrow> bool" where
  "appended t es s s' \<longleftrightarrow> curQ s' = curQ s \<and> (\<forall>t'. t' \<noteq> t \<longrightarrow> oplogs s' t' = oplogs s t') \<and>
     (let c = unat (curQ s mod 2) in
      getQ c (getOpLog t s') = getQ c (getOpLog t s) @ es \<and>
      getQ (1 - c) (getOpLog t s') = getQ (1 - c) (getOpLog t s))"

lemma appended_Nil [simp]: "curQ s' = curQ s \<Longrightarrow> oplogs s' = oplogs s \<Longrightarrow> appended t [] s s'"
  by (simp add: appended_def getOpLog_def)

lemma enqPerThreadLog_sel [simp]:
  "nodes (enqPerThreadLog t o' k h p s) = nodes s" "nmalloc (enqPerThreadLog t o' k h p s) = nmalloc s"
  "raw (enqPerThreadLog t o' k h p s) = raw s" "nallocs (enqPerThreadLog t o' k h p s) = nallocs s"
  by (simp_all add: enqPerThreadLog_def ordo_get_clock_def Let_def)

lemma appended_enq:
  assumes "curQ s = curQ s0" "oplogs s = oplogs s0" "curQ s' = curQ (enqPerThreadLog t o' k h p s)"
    "oplogs s' = oplogs (enqPerThreadLog t o' k h p s)"
  shows "\<exists>e clk. appended t [(e, mk_op o' k h p clk)] s0 s'"
proof -
  have "unat (curQ s0 mod 2) = 0 \<or> unat (curQ s0 mod 2) = 1"
    by (metis (no_types) mod_2_eq_odd of_bool_def unat_0 unat_1)
  then show ?thesis
    using assms
    by (intro exI[of _ "opmalloc s (opallocs s)"] exI[of _ "rdtscp s (clkReads s)"])
      (auto simp: appended_def enqPerThreadLog_def ordo_get_clock_def Let_def enq_def getOpLog_def)
qed

lemma mk_op_sel [simp]: "op (mk_op o' k h p clk) = o'" "key (mk_op o' k h p clk) = k"
  "listNodePtr (mk_op o' k h p clk) = p"
  by (simp_all add: mk_op_def)

lemma anchor_map_simps [simp]: "anchor_map [] = Map.empty"
  "anchor_map ((a, n) # L) = (anchor_map L)(min_k n \<mapsto> a)"
  "anchor_map (L @ M) = anchor_map M ++ anchor_map L"
  by (simp_all add: anchor_map_def)

lemma anchor_map_range:
  assumes "chain p lo L q hi"
  shows "dom (anchor_map L) \<subseteq> {x. lo \<le> x \<and> x < hi}"
  using assms
proof (induction L arbitrary: p lo)
  case (Cons e L)
  obtain a n where e: "e = (a, n)" by (cases e)
  have "max_k n \<le> hi" "lo < max_k n" using Cons.prems chain_le by (auto simp: e)
  moreover have "dom (anchor_map L) \<subseteq> {x. max_k n \<le> x \<and> x < hi}"
    using Cons by (auto simp: e)
  moreover have "dom (anchor_map (e # L)) = insert lo (dom (anchor_map L))"
    using Cons.prems by (simp add: e)
  moreover have "lo \<le> x \<and> x < hi" if "x \<in> dom (anchor_map L)" for x
  proof -
    have "max_k n \<le> x" "x < hi" using calculation(3) that by blast+
    with \<open>lo < max_k n\<close> show ?thesis by simp
  qed
  ultimately show ?case by auto
qed simp

section \<open>Relinking the right neighbour\<close>

text \<open>The list to the right of a node, closed by the tail.\<close>

definition rest_ok_by :: "'k \<Rightarrow> (addr \<rightharpoonup> 'k ListNode_of) \<Rightarrow> 'k cells \<Rightarrow> addr \<Rightarrow> bool" where
  "rest_ok_by hi H L q \<longleftrightarrow> holds H L \<and> q \<notin> fst ` set L \<and> (\<exists>t. H q = Some t \<and> tail_ok_by hi t)"

definition relink :: "ptr \<Rightarrow> 'k cells \<Rightarrow> 'k cells" where
  "relink p L = (case L of [] \<Rightarrow> [] | (a, n) # M \<Rightarrow> (a, n\<lparr>prev_p := p\<rparr>) # M)"

lemma relink_simps [simp]:
  "relink p [] = []" "hdaddr (relink p L) q = hdaddr L q" "map fst (relink p L) = map fst L"
  "fst ` set (relink p L) = fst ` set L" "cells_ok_by fp f (relink p L) = cells_ok_by fp f L"
  "dl_map (relink p L) = dl_map L" "anchor_map (relink p L) = anchor_map L"
  by (cases L; auto simp: relink_def image_iff split: prod.splits)+

lemma chain_relink: "chain p lo L q hi \<Longrightarrow> chain p' lo (relink p' L) q hi"
  by (auto simp: relink_def split: list.splits)

lemma rest_ok_upd [simp]:
  "a \<notin> fst ` set L \<Longrightarrow> a \<noteq> q \<Longrightarrow> rest_ok_by hi (H(a \<mapsto> n)) L q = rest_ok_by hi H L q"
  by (simp add: rest_ok_by_def)

lemma rest_ok_hd: "rest_ok_by hi H L q \<Longrightarrow> \<exists>nx. H (hdaddr L q) = Some nx"
  by (cases L) (auto simp: rest_ok_by_def)

lemma rest_ok_relink:
  assumes "rest_ok_by hi H L q" "H (hdaddr L q) = Some nx"
  shows "rest_ok_by hi (H(hdaddr L q \<mapsto> nx\<lparr>prev_p := p\<rparr>)) (relink p L) q"
proof (cases L)
  case Nil
  then show ?thesis using assms by (auto simp: rest_ok_by_def tail_ok_by_def)
next
  case (Cons e M)
  then show ?thesis
    using assms by (cases e) (auto simp: rest_ok_by_def relink_def)
qed

lemma hdaddr_in: "hdaddr L q \<in> insert q (fst ` set L)"
  by (cases L) auto

lemma hdaddr_notin: "q \<notin> A \<Longrightarrow> A \<inter> fst ` set L = {} \<Longrightarrow> hdaddr L q \<notin> A"
  by (cases L) auto

section \<open>Insert\<close>

lemma newNode_eq:
  "newNode s = (nmalloc s (nallocs s),
     (putNode (nmalloc s (nallocs s)) (ListNode_ctor (raw s (nallocs s))) s)\<lparr>nallocs := nallocs s + 1\<rparr>)"
  by (simp add: newNode_def Let_def)

text \<open>What \<open>insert\<close> does to a full node.\<close>

lemma ListNode_insert_full:
  assumes "nodes s a = Some n" "slots_ok_by fp n" "k \<notin> nkeys n" "nslots n = {0..<MAX_ENTRIES}"
    and b: "b = nmalloc s (nallocs s)" and nb: "nodes s b = None"
    and c: "next_p n = Some c" "nodes s c = Some nc" "c \<noteq> a"
    and sp: "split_nodes k v (fp k) a b n (ListNode_ctor (raw s (nallocs s))) = (n', m')"
    and m': "next_p m' = next_p n"
  shows "\<exists>s'. ListNode_insert fp t a k v s
      = Inr (True, enqPerThreadLog t OpInsert (min_k m') (fp k) b s') \<and>
    nodes s' = (nodes s)(b \<mapsto> m', a \<mapsto> n', c \<mapsto> nc\<lparr>prev_p := Some b\<rparr>) \<and>
    nmalloc s' = nmalloc s \<and> raw s' = raw s \<and> nallocs s' = Suc (nallocs s) \<and>
    oplogs s' = oplogs s \<and> curQ s' = curQ s"
proof -
  have ab: "b \<noteq> a" "b \<noteq> c" using assms(1) nb c by auto
  have idx: "getFreeIndex k (fp k) n = -2"
    using getFreeIndex_cases[OF assms(2), of k] assms(3,4) by cases auto
  have "split a k v (fp k) s
      = Inr (b, putNode a n' (putNode b m' (snd (newNode s))))"
    using assms(1) sp by (simp add: split_def newNode_eq b)
  then show ?thesis
    using assms(1) idx c ab m'
    by (intro exI[of _ "putNode c (nc\<lparr>prev_p := Some b\<rparr>) (putNode a n' (putNode b m' (snd (newNode s))))"])
      (simp add: ListNode_insert_def updNode_def newNode_eq b[symmetric] setPrev_def fun_upd_twist)
qed

text \<open>The list after the split of the node at \<open>c\<close>.\<close>

lemma dl_inv_split:
  assumes inv: "dl_inv_by fp lo hi (Suc f) (L1 @ (c, n) # L2) q s"
    and full: "nslots n = {0..<MAX_ENTRIES}" and k: "k \<notin> nkeys n" "min_k n \<le> k" "k < max_k n"
    and b: "b = nmalloc s (nallocs s)"
    and sp: "split_nodes k v (fp k) c b (locked n) (ListNode_ctor (raw s (nallocs s))) = (n', m')"
    and nx: "nodes s (hdaddr L2 q) = Some nx"
    and s': "nodes s' = (nodes s)(b \<mapsto> m', c \<mapsto> writeUnlock n', hdaddr L2 q \<mapsto> nx\<lparr>prev_p := Some b\<rparr>)"
      "nmalloc s' = nmalloc s" "raw s' = raw s" "nallocs s' = Suc (nallocs s)"
  shows "dl_inv_by fp lo hi f (L1 @ (c, writeUnlock n') # (b, m') # relink (Some b) L2) q s' \<and>
    dl_map (L1 @ (c, writeUnlock n') # (b, m') # relink (Some b) L2) = (dl_map (L1 @ (c, n) # L2))(k \<mapsto> v) \<and>
    anchor_map (L1 @ (c, writeUnlock n') # (b, m') # relink (Some b) L2)
      = (anchor_map (L1 @ (c, n) # L2))(min_k m' \<mapsto> b)"
proof -
  let ?M = "median_of n"
  let ?L = "L1 @ (c, writeUnlock n') # (b, m') # relink (Some b) L2"
  have ok: "node_ok_by fp (Suc f) n" "slots_ok_by fp n" "cells_ok_by fp (Suc f) L1" "cells_ok_by fp (Suc f) L2"
    using inv by (auto simp: dl_inv_by_def node_ok_by_def)
  have ch: "chain None lo L1 c (min_k n)" "chain (Some c) (max_k n) L2 q hi"
      "next_p n = Some (hdaddr L2 q)" "prev_p n = lastptr None L1"
    using inv by (auto simp: dl_inv_by_def chain_append)
  have al: "alloc_ok s" and h: "holds (nodes s) (L1 @ (c, n) # L2)" and q: "q \<notin> fst ` set (L1 @ (c, n) # L2)"
    using inv by (auto simp: dl_inv_by_def)
  have fresh: "nodes s b = None" using al b by (auto simp: alloc_ok_def)
  then have bL: "b \<notin> fst ` set (L1 @ (c, n) # L2)" "b \<noteq> q"
    using holds_dom[OF h, of b] inv by (blast, auto simp: dl_inv_by_def)
  have med: "median_of (locked n) = ?M" by (simp add: median_of_def)
  have M: "min_k n < ?M" "?M < max_k n"
    using length_above_median[OF ok(2) full] ok(1) by (auto simp: node_ok_by_def)
  have "arrays_sized (raw s (nallocs s))" using al by (simp add: alloc_ok_def)
  then have ctor: "slots_ok_by fp (ListNode_ctor (raw s (nallocs s)))" "length (permuter (raw s (nallocs s))) = MAX_ENTRIES"
    by (auto simp: slots_ok_ctor arrays_sized_def)
  note spec = split_nodes_spec[where fp = fp, OF _ _ _ ctor(1) nslots_ctor sp, simplified, OF ok(2) full k(1), unfolded med]
  have kr: "min_k n \<le> x \<and> x < max_k n" if "node_map n x = Some y" for x y
    using ok(1) that dom_node_map[of n] by (auto simp: node_ok_by_def)
  have keys: "nkeys n' \<subseteq> {x. min_k n \<le> x \<and> x < ?M}" "nkeys m' \<subseteq> {x. ?M \<le> x \<and> x < max_k n}"
    using spec k unfolding dom_node_map[symmetric]
    by (auto simp: map_below_apply map_from_apply dest: kr split: if_splits)
  have n': "node_ok_by fp f (writeUnlock n')"
    using node_ok_written[OF ok(1), of "writeUnlock n'"] unlock_version[of n' n] spec keys ok(1)
    by (simp add: writeUnlock_def node_ok_by_def)
  have m': "node_ok_by fp f m'"
    using spec keys ctor(2) ok(1)
    by (simp add: node_ok_by_def lock_ok_def cache_ok_def ListNode_ctor_def VersionedLock_init_def unlocked_def)
  have "chain None lo ?L q hi"
    using ch spec M chain_relink[OF ch(2), of "Some b"] by (auto simp: chain_append writeUnlock_def)
  moreover have "cells_ok_by fp f ?L" using n' m' ok cells_ok_mono by auto
  moreover have hd: "hdaddr L2 q \<noteq> b" "hdaddr L2 q \<noteq> c" "hdaddr L2 q \<notin> fst ` set L1"
    using hdaddr_notin[of q "insert b (insert c (fst ` set L1))" L2] bL h q by (simp_all add: holds_append image_Un)
  moreover have "rest_ok_by hi (nodes s') (relink (Some b) L2) q"
  proof -
    have "rest_ok_by hi ((nodes s)(b \<mapsto> m', c \<mapsto> writeUnlock n')) L2 q"
      using inv h q bL by (simp add: rest_ok_by_def dl_inv_by_def holds_append image_Un)
    then show ?thesis
      using hd rest_ok_relink[of hi _ L2 q nx "Some b"] nx s'(1) by auto
  qed
  moreover have "holds (nodes s') L1" "nodes s' c = Some (writeUnlock n')" "nodes s' b = Some m'"
    using s'(1) h q bL hd by (auto simp: holds_append image_Un)
  moreover have "alloc_ok s'"
    by (rule alloc_ok_new[OF al]) (use s' b nx h in \<open>auto simp: holds_append\<close>)
  ultimately have "dl_inv_by fp lo hi f ?L q s'"
    using h q bL unfolding dl_inv_by_def rest_ok_by_def by (simp add: holds_append image_Un)
  moreover have "dl_map ?L = (dl_map (L1 @ (c, n) # L2))(k \<mapsto> v)"
    using spec dl_map_upd[of None lo L1 c n L2 q hi fp "Suc f" k _ "Some v"] inv k(2,3)
    by (simp add: dl_inv_by_def writeUnlock_def map_cut_join_left del: map_add_assoc)
  moreover have "anchor_map ?L = (anchor_map (L1 @ (c, n) # L2))(min_k m' \<mapsto> b)"
  proof -
    have "anchor_map L1 ?M = None"
      using anchor_map_range[OF ch(1)] M by (force simp: domIff)
    then show ?thesis
      using spec M by (auto simp: writeUnlock_def map_add_def fun_eq_iff split: option.splits)
  qed
  ultimately show ?thesis by blast
qed

text \<open>
  What an operation keeps of the memory: nodes are not released, and the smallest key of a node
  never changes, not even that of a node that was taken out of the list.
\<close>

definition kept :: "'k hstate_of \<Rightarrow> 'k hstate_of \<Rightarrow> bool" where
  "kept s s' \<longleftrightarrow> nmalloc s' = nmalloc s \<and> nallocs s' \<le> Suc (nallocs s) \<and>
     dom (nodes s') \<subseteq> insert (nmalloc s (nallocs s)) (dom (nodes s)) \<and>
     (\<forall>a n. nodes s a = Some n \<longrightarrow> (\<exists>n'. nodes s' a = Some n' \<and> min_k n' = min_k n))"

text \<open>A node outside the list is marked as deleted; \<open>q\<close> is the tail.\<close>

definition strays_deleted :: "'k cells \<Rightarrow> addr \<Rightarrow> 'k hstate_of \<Rightarrow> bool" where
  "strays_deleted L q s \<longleftrightarrow> (\<forall>a n. nodes s a = Some n \<longrightarrow> a \<in> fst ` set L \<or> a = q \<or> deleted n)"

text \<open>
  What an operation logs when \<open>m\<close> are the anchors before it: nothing, or one change that fits
  \<open>m\<close> and names a node with the key of the entry.
\<close>

definition log_step_by :: "'k \<Rightarrow> (addr \<rightharpoonup> 'k ListNode_of) \<Rightarrow> ('k \<rightharpoonup> addr) \<Rightarrow> 'k OpPtr list \<Rightarrow> bool" where
  "log_step_by lo ns m es \<longleftrightarrow> es = [] \<or> (\<exists>p e nd. es = [(p, e)] \<and> hash e = 0 \<and> key e \<noteq> lo \<and>
     ns (listNodePtr e) = Some nd \<and> min_k nd = key e \<and>
     m (key e) = (case op e of OpInsert \<Rightarrow> None | OpRemove \<Rightarrow> Some (listNodePtr e)))"

lemma anchor_at:
  assumes "chain p lo (A @ (x, n) # B) q hi"
  shows "anchor_map (A @ (x, n) # B) (min_k n) = Some x"
proof -
  have "chain p lo A x (min_k n)" using assms by (auto simp: chain_append)
  from anchor_map_range[OF this] have "anchor_map A (min_k n) = None" by (force simp: domIff)
  then show ?thesis by (simp add: map_add_def anchor_map_def split: option.splits)
qed

text \<open>
  How an operation that writes ends: the invariant with one writer less to come, the new
  contents, and log entries that turn the old anchors into the new ones. The head stays.
\<close>

definition wrote_by ::
  "('k::linorder \<Rightarrow> u8) \<Rightarrow> 'k \<Rightarrow> 'k \<Rightarrow> nat \<Rightarrow> nat \<Rightarrow> 'k cells \<Rightarrow> addr \<Rightarrow> 'k hstate_of \<Rightarrow> ('k \<rightharpoonup> Val_t) \<Rightarrow> 'k cells \<Rightarrow> 'k hstate_of \<Rightarrow> bool" where
  "wrote_by fp lo hi f t L q s m L' s' \<longleftrightarrow> dl_inv_by fp lo hi f L' q s' \<and> dl_map L' = m \<and> hdaddr L' q = hdaddr L q \<and>
     kept s s' \<and> (strays_deleted L q s \<longrightarrow> strays_deleted L' q s') \<and>
     (\<exists>es. appended t es s s' \<and> log_step_by lo (nodes s') (anchor_map L) es \<and> anchor_map L' = fold (replay \<circ> snd) es (anchor_map L))"

text \<open>Only the covering node was written and nothing was logged.\<close>

lemma wrote_one:
  assumes inv: "dl_inv_by fp lo hi (Suc f) (L1 @ (c, n) # L2) q s" and r: "min_k n \<le> k" "k < max_k n"
    and ok: "slots_ok_by fp n'" and m: "node_map n' = (node_map n)(k := w)" and frame: "same_rest (locked n) n'"
    and s2: "s2 = putNode c n' s"
  shows "wrote_by fp lo hi f t (L1 @ (c, n) # L2) q s ((dl_map (L1 @ (c, n) # L2))(k := w))
    (L1 @ (c, writeUnlock n') # L2) (unlockNode c s2)"
proof -
  have ok': "node_ok_by fp (Suc f) n" "chain None lo (L1 @ (c, n) # L2) q hi" "cells_ok_by fp (Suc f) (L1 @ (c, n) # L2)"
    using inv by (auto simp: dl_inv_by_def)
  have "dl_inv_by fp lo hi f (L1 @ (c, writeUnlock n') # L2) q (putNode c (writeUnlock n') s)"
    using ok frame nkeys_upd_range[OF ok'(1) m r] ok'(1)
    by (intro dl_inv_write[OF inv]) (auto simp: node_ok_by_def same_rest_def)
  moreover have "dl_map (L1 @ (c, writeUnlock n') # L2) = (dl_map (L1 @ (c, n) # L2))(k := w)"
    using dl_map_upd[OF ok'(2,3) r m] by (simp add: writeUnlock_def)
  moreover have "anchor_map (L1 @ (c, writeUnlock n') # L2) = anchor_map (L1 @ (c, n) # L2)"
    using frame by (simp add: writeUnlock_def same_rest_def)
  moreover have "kept s (unlockNode c s2)"
    using frame inv s2 by (auto simp: kept_def unlockNode_def writeUnlock_def same_rest_def dl_inv_by_def holds_append)
  moreover have "strays_deleted (L1 @ (c, n) # L2) q s \<longrightarrow> strays_deleted (L1 @ (c, writeUnlock n') # L2) q (unlockNode c s2)"
    by (auto simp: strays_deleted_def unlockNode_def s2)
  ultimately show ?thesis
    unfolding wrote_by_def s2 unlockNode_def by (auto simp: log_step_by_def intro!: exI[of _ "[]"])
qed

lemma same_rest_locked [simp]: "same_rest (locked n) n' \<Longrightarrow> same_rest (locked n) (insertAtIndex e i h n')"
  by (simp add: same_rest_def)

section \<open>Update\<close>

lemma LinkedList_update_refines_by:
  assumes inv: "dl_inv_by fp lo hi (Suc f) L q s" and a: "a \<in> fst ` set L" and k: "lo \<le> k \<and> k < hi"
  shows "\<exists>L' s'. LinkedList_update fp k v (Some a) s = Some (Inr (dl_map L k \<noteq> None, s')) \<and>
    wrote_by fp lo hi f t L q s (if dl_map L k = None then dl_map L else (dl_map L)(k \<mapsto> v)) L' s' \<and>
    map fst L' = map fst L"
proof -
  obtain L1 c n L2 where c: "L = L1 @ (c, n) # L2" "checkRange k n" "findNode k (Some a) s = Some (Inr c)"
      "nodes s c = Some n" "node_ok_by fp (Suc f) n" "min_k n \<le> k" "k < max_k n" "dl_map L k = node_map n k"
    using covering_node_by[OF assms] .
  obtain b n' where upd: "ListNode_update fp k v (locked n) = (b, n')" by fastforce
  have ok: "slots_ok_by fp n" using c(5) by (simp add: node_ok_by_def)
  note spec = ListNode_update_eq[OF _ upd, simplified, OF ok]
  have frame: "same_rest (locked n) n'"
    using upd by (auto simp: ListNode_update_def Let_def same_rest_def split: if_splits)
  have m: "node_map n' = (node_map n)(k := (if b then Some v else node_map n k))"
    using spec(3) by auto
  note w = wrote_one[OF inv[unfolded c(1)] c(6,7) spec(1) m frame refl, of t, folded c(1)]
  have "LinkedList_update fp k v (Some a) s = Some (Inr (b, unlockNode c (putNode c n' s)))"
    using lockNode_ok[OF c(4,5)] c upd by (subst LinkedList_update.simps) (simp add: node_ok_by_def)
  moreover have "(dl_map L)(k := (if b then Some v else node_map n k))
      = (if dl_map L k = None then dl_map L else (dl_map L)(k \<mapsto> v))"
    using c(8) spec(2) by (auto simp: fun_eq_iff)
  ultimately show ?thesis
    using w spec(2) c(1,8) by (intro exI[of _ "L1 @ (c, writeUnlock n') # L2"]) auto
qed

section \<open>Insert into the list\<close>

lemma insert_into_full:
  assumes inv: "dl_inv_by fp lo hi (Suc f) (L1 @ (c, n) # L2) q s" and r: "min_k n \<le> k" "k < max_k n"
    and full: "nslots n = {0..<MAX_ENTRIES}" "k \<notin> nkeys n"
  shows "\<exists>L' s2. ListNode_insert fp t c k v (putNode c (locked n) s) = Inr (True, s2) \<and>
    wrote_by fp lo hi f t (L1 @ (c, n) # L2) q s ((dl_map (L1 @ (c, n) # L2))(k \<mapsto> v)) L' (unlockNode c s2) \<and>
    fst ` set (L1 @ (c, n) # L2) \<subseteq> fst ` set L'"
proof -
  let ?s1 = "putNode c (locked n) s"
  define b where "b = nmalloc s (nallocs s)"
  have n: "nodes s c = Some n" "slots_ok_by fp n" "next_p n = Some (hdaddr L2 q)"
    using inv by (auto simp: dl_inv_by_def holds_append node_ok_by_def chain_append)
  have fresh: "nodes s b = None" using inv by (auto simp: dl_inv_by_def alloc_ok_def b_def)
  have cq: "c \<noteq> q" "c \<notin> fst ` set L2" "rest_ok_by hi (nodes s) L2 q"
    using inv by (auto simp: dl_inv_by_def holds_append rest_ok_by_def)
  then have hc: "hdaddr L2 q \<noteq> c" "b \<noteq> c" using hdaddr_in[of L2 q] fresh n by auto
  obtain nx where nx: "nodes s (hdaddr L2 q) = Some nx"
    using rest_ok_hd[OF cq(3)] by blast
  then have hb: "hdaddr L2 q \<noteq> b" using fresh by auto
  obtain n' m' where sp: "split_nodes k v (fp k) c b (locked n)
      (ListNode_ctor (raw s (nallocs s))) = (n', m')" by fastforce
  have fr: "next_p m' = next_p (locked n)" "min_k n' = min_k n" "max_k n' = min_k m'" "max_k m' = max_k n"
    using split_nodes_spec[where fp = fp, OF _ _ _ slots_ok_ctor nslots_ctor sp] inv full n
    by (simp_all add: dl_inv_by_def alloc_ok_def)
  obtain s2 where s2: "ListNode_insert fp t c k v ?s1
      = Inr (True, enqPerThreadLog t OpInsert (min_k m') (fp k) b s2)"
    "nodes s2 = (nodes s)(b \<mapsto> m', c \<mapsto> n', hdaddr L2 q \<mapsto> nx\<lparr>prev_p := Some b\<rparr>)"
    "nmalloc s2 = nmalloc s" "raw s2 = raw s" "nallocs s2 = Suc (nallocs s)"
    "oplogs s2 = oplogs s" "curQ s2 = curQ s"
    using ListNode_insert_full[of ?s1 c "locked n" fp k b "hdaddr L2 q" nx v n' m' t]
      full sp fresh n nx hc fr(1) by (auto simp: b_def fun_upd_twist)
  let ?e = "enqPerThreadLog t OpInsert (min_k m') (fp k) b s2"
  let ?L = "L1 @ (c, writeUnlock n') # (b, m') # relink (Some b) L2"
  have nodes': "nodes (unlockNode c ?e)
      = (nodes s)(b \<mapsto> m', c \<mapsto> writeUnlock n', hdaddr L2 q \<mapsto> nx\<lparr>prev_p := Some b\<rparr>)"
    using s2(2) hc hb by (auto simp: unlockNode_def fun_eq_iff)
  note post = dl_inv_split[OF inv full(1,2) r b_def sp nx nodes']
  obtain e clk where app: "appended t [(e, mk_op OpInsert (min_k m') (fp k) b clk)] s (unlockNode c ?e)"
    using appended_enq[of s2 s "unlockNode c ?e" t OpInsert "min_k m'" "fp k" b] s2
    by (auto simp: unlockNode_def)
  have kept: "kept s (unlockNode c ?e)"
    using n(1) nx fresh s2(3,5) fr(2) hc unfolding kept_def nodes' by (auto simp: b_def writeUnlock_def unlockNode_def)
  have str: "strays_deleted (L1 @ (c, n) # L2) q s \<longrightarrow> strays_deleted ?L q (unlockNode c ?e)"
    using nx hc hb unfolding strays_deleted_def nodes' by (auto simp: image_Un)
  have "dl_inv_by fp lo hi f ?L q (unlockNode c ?e)" using post s2 by (simp add: unlockNode_def)
  then have lt: "min_k n < min_k m'" "min_k m' < max_k n" using fr by (auto simp: dl_inv_by_def chain_append writeUnlock_def)
  have "chain None lo L1 c (min_k n)" using inv by (auto simp: dl_inv_by_def chain_append)
  then have lo: "min_k m' \<noteq> lo" using chain_le lt(1) by force
  have "anchor_map (L1 @ (c, n) # L2) (min_k m') = None"
  proof -
    have "chain None lo L1 c (min_k n)" "chain (Some c) (max_k n) L2 q hi" using inv by (auto simp: dl_inv_by_def chain_append)
    then have "anchor_map L1 (min_k m') = None" "anchor_map L2 (min_k m') = None"
      using anchor_map_range[of None lo L1 c "min_k n"] anchor_map_range[of "Some c" "max_k n" L2 q hi] lt by (force simp: domIff)+
    then show ?thesis using lt by (auto simp: anchor_map_def map_add_def split: option.splits)
  qed
  then have step: "log_step_by lo (nodes (unlockNode c ?e)) (anchor_map (L1 @ (c, n) # L2)) [(e, mk_op OpInsert (min_k m') (fp k) b clk)]"
    using lt lo hb hc unfolding log_step_by_def nodes' by (auto simp: mk_op_def WORKER_THREAD_PER_NUMA_def)
  have "wrote_by fp lo hi f t (L1 @ (c, n) # L2) q s ((dl_map (L1 @ (c, n) # L2))(k \<mapsto> v)) ?L (unlockNode c ?e)"
    using post s2 app kept step str unfolding wrote_by_def
    by (auto simp: unlockNode_def replay_def intro!: exI[of _ "[(e, mk_op OpInsert (min_k m') (fp k) b clk)]"])
  moreover have "fst ` set (L1 @ (c, n) # L2) \<subseteq> fst ` set ?L" by (simp add: image_Un) blast
  ultimately show ?thesis
    using s2(1) by (intro exI[of _ ?L]) blast
qed

lemma ListNode_insert_covering:
  assumes inv: "dl_inv_by fp lo hi (Suc f) (L1 @ (c, n) # L2) q s" and r: "min_k n \<le> k" "k < max_k n"
  shows "\<exists>L' s2. ListNode_insert fp t c k v (putNode c (locked n) s) = Inr (node_map n k = None, s2) \<and>
    wrote_by fp lo hi f t (L1 @ (c, n) # L2) q s ((dl_map (L1 @ (c, n) # L2))
      (k := (if node_map n k = None then Some v else node_map n k))) L' (unlockNode c s2) \<and>
    fst ` set (L1 @ (c, n) # L2) \<subseteq> fst ` set L'"
proof -
  have okl: "slots_ok_by fp (locked n)" using inv by (auto simp: dl_inv_by_def node_ok_by_def)
  show ?thesis
  proof (cases rule: getFreeIndex_cases[OF okl, of k, case_names exists full free])
    case exists
    then have "node_map n k \<noteq> None" by (simp add: node_map_None)
    moreover have "wrote_by fp lo hi f t (L1 @ (c, n) # L2) q s ((dl_map (L1 @ (c, n) # L2))(k := node_map n k))
      (L1 @ (c, writeUnlock (locked n)) # L2) (unlockNode c (putNode c (locked n) s))"
      using okl by (intro wrote_one[OF inv r]) auto
    ultimately show ?thesis
      using exists by (intro exI[of _ "L1 @ (c, writeUnlock (locked n)) # L2"]) (auto simp: ListNode_insert_def)
  next
    case full
    then show ?thesis
      using insert_into_full[OF inv r] by (simp add: node_map_None)
  next
    case (free j)
    let ?n = "insertAtIndex (k, v) j (fp k) (locked n)"
    have "wrote_by fp lo hi f t (L1 @ (c, n) # L2) q s ((dl_map (L1 @ (c, n) # L2))(k := Some v))
      (L1 @ (c, writeUnlock ?n) # L2) (unlockNode c (putNode c ?n s))"
      using slots_ok_insertAtIndex[OF okl free(2,3,1) refl] node_map_insertAtIndex[OF okl free(2,3,1) refl]
      by (intro wrote_one[OF inv r]) auto
    moreover have "node_map n k = None" using free by (simp add: node_map_None)
    ultimately show ?thesis
      using free by (intro exI[of _ "L1 @ (c, writeUnlock ?n) # L2"]) (auto simp: ListNode_insert_def)
  qed
qed

lemma LinkedList_insert_refines_by:
  assumes inv: "dl_inv_by fp lo hi (Suc f) L q s" and a: "a \<in> fst ` set L" and k: "lo \<le> k \<and> k < hi"
  shows "\<exists>L' s'. LinkedList_insert fp t k v (Some a) s = Some (Inr (dl_map L k = None, s')) \<and>
    wrote_by fp lo hi f t L q s (if dl_map L k = None then (dl_map L)(k \<mapsto> v) else dl_map L) L' s' \<and>
    fst ` set L \<subseteq> fst ` set L'"
proof -
  obtain L1 c n L2 where c: "L = L1 @ (c, n) # L2" "checkRange k n" "findNode k (Some a) s = Some (Inr c)"
      "nodes s c = Some n" "node_ok_by fp (Suc f) n" "min_k n \<le> k" "k < max_k n" "dl_map L k = node_map n k"
    using covering_node_by[OF assms] .
  obtain L' s2 where *: "ListNode_insert fp t c k v (putNode c (locked n) s) = Inr (node_map n k = None, s2)"
      "wrote_by fp lo hi f t L q s ((dl_map L)(k := (if node_map n k = None then Some v else node_map n k))) L' (unlockNode c s2)"
      "fst ` set L \<subseteq> fst ` set L'"
    using ListNode_insert_covering[OF inv[unfolded c(1)] c(6,7)] unfolding c(1) by blast
  then have "LinkedList_insert fp t k v (Some a) s = Some (Inr (dl_map L k = None, unlockNode c s2))"
    using lockNode_ok[OF c(4,5)] c by (subst LinkedList_insert.simps) (simp add: node_ok_by_def)
  moreover have "(dl_map L)(k := (if node_map n k = None then Some v else node_map n k))
      = (if dl_map L k = None then (dl_map L)(k \<mapsto> v) else dl_map L)"
    using c(8) by (auto simp: fun_eq_iff)
  ultimately show ?thesis using * by auto
qed

section \<open>The list over integers\<close>

abbreviation wrote :: "nat \<Rightarrow> nat \<Rightarrow> Key_t cells \<Rightarrow> addr \<Rightarrow> hstate \<Rightarrow> (Key_t \<rightharpoonup> Val_t) \<Rightarrow> Key_t cells \<Rightarrow> hstate \<Rightarrow> bool" where
  "wrote \<equiv> wrote_by getKeyFingerPrint 0 ULLONG_MAX"

abbreviation log_step :: "(addr \<rightharpoonup> ListNode) \<Rightarrow> (Key_t \<rightharpoonup> addr) \<Rightarrow> Key_t OpPtr list \<Rightarrow> bool" where
  "log_step \<equiv> log_step_by 0"

abbreviation rest_ok :: "(addr \<rightharpoonup> ListNode) \<Rightarrow> Key_t cells \<Rightarrow> addr \<Rightarrow> bool" where
  "rest_ok \<equiv> rest_ok_by ULLONG_MAX"

lemmas wrote_def = wrote_by_def
lemmas log_step_def = log_step_by_def
lemmas rest_ok_def = rest_ok_by_def

lemma below_ULLONG_MAX: "(k :: u64) \<noteq> ULLONG_MAX \<Longrightarrow> 0 \<le> k \<and> k < ULLONG_MAX"
  by (simp add: word_order.not_eq_extremum)

lemmas covering_node = covering_node_by[where fp = getKeyFingerPrint and lo = 0 and hi = ULLONG_MAX, OF _ _ below_ULLONG_MAX]
lemmas LinkedList_lookup_refines = LinkedList_lookup_refines_by[where fp = getKeyFingerPrint and lo = 0 and hi = ULLONG_MAX, OF _ _ below_ULLONG_MAX]
lemmas LinkedList_probe_refines = LinkedList_probe_refines_by[where fp = getKeyFingerPrint and lo = 0 and hi = ULLONG_MAX, OF _ _ below_ULLONG_MAX]
lemmas LinkedList_update_refines = LinkedList_update_refines_by[where fp = getKeyFingerPrint and lo = 0 and hi = ULLONG_MAX, OF _ _ below_ULLONG_MAX]
lemmas LinkedList_insert_refines = LinkedList_insert_refines_by[where fp = getKeyFingerPrint and lo = 0 and hi = ULLONG_MAX, OF _ _ below_ULLONG_MAX]

end
