(* ===== verification/ListRemove.thy ===== *)
theory ListRemove
  imports ListRefinement
begin

text \<open>
  \<open>remove\<close> refines the deletion of a key, with the merge of two small neighbours in either
  direction.
\<close>

section \<open>Two neighbours become one\<close>

text \<open>
  The node \<open>x\<close> has taken over the entries, the range and the successor of its right
  neighbour \<open>y\<close>; the key \<open>k\<close> of one of the two is gone.
\<close>

lemma dl_inv_merge:
  assumes inv: "dl_inv_by fp lo hi (Suc f) (A @ (x, nx) # (y, ny) # B) q s"
    and slots: "slots_ok_by fp nx'" and m: "node_map nx' = (node_map nx ++ node_map ny)(k := None)"
    and k: "min_k nx \<le> k" "k < max_k ny"
    and fields: "min_k nx' = min_k nx" "max_k nx' = max_k ny" "next_p nx' = next_p ny"
      "prev_p nx' = prev_p nx" "\<not> deleted nx'" "version (verLock nx') = version (verLock nx) + 2"
      "lastScanVersion nx' = lastScanVersion nx" "permuter nx' = permuter nx"
    and nb: "nodes s (hdaddr B q) = Some nb"
    and s': "nodes s' = (nodes s)(x \<mapsto> nx', y \<mapsto> ny', hdaddr B q \<mapsto> nb\<lparr>prev_p := Some x\<rparr>)"
      "nmalloc s' = nmalloc s" "raw s' = raw s" "nallocs s' = nallocs s"
  shows "dl_inv_by fp lo hi f (A @ (x, nx') # relink (Some x) B) q s' \<and>
    dl_map (A @ (x, nx') # relink (Some x) B) = (dl_map (A @ (x, nx) # (y, ny) # B))(k := None) \<and>
    anchor_map (A @ (x, nx') # relink (Some x) B) = (anchor_map (A @ (x, nx) # (y, ny) # B))(min_k ny := None)"
proof -
  let ?L = "A @ (x, nx') # relink (Some x) B"
  have ok: "node_ok_by fp (Suc f) nx" "node_ok_by fp (Suc f) ny" "cells_ok_by fp (Suc f) A" "cells_ok_by fp (Suc f) B"
    using inv by (auto simp: dl_inv_by_def)
  have ch: "chain None lo A x (min_k nx)" "chain (Some y) (max_k ny) B q hi"
      "prev_p nx = lastptr None A" "next_p ny = Some (hdaddr B q)"
      "min_k nx < max_k nx" "min_k ny = max_k nx" "min_k ny < max_k ny"
    using inv by (auto simp: dl_inv_by_def chain_append)
  have h: "holds (nodes s) A" "holds (nodes s) B" "x \<notin> fst ` set A" "y \<notin> fst ` set A" "x \<notin> fst ` set B"
      "y \<notin> fst ` set B" "x \<noteq> y" "fst ` set A \<inter> fst ` set B = {}" "nodes s x = Some nx" "nodes s y = Some ny"
    and q: "q \<notin> fst ` set A" "q \<notin> fst ` set B" "q \<noteq> x" "q \<noteq> y"
    and al: "alloc_ok s" and tl: "rest_ok_by hi (nodes s) B q"
    using inv unfolding dl_inv_by_def rest_ok_by_def holds_append by (auto simp: image_Un)
  have hd: "hdaddr B q \<noteq> x" "hdaddr B q \<noteq> y" "hdaddr B q \<notin> fst ` set A"
    using hdaddr_notin[of q "insert x (insert y (fst ` set A))" B] h q by auto
  have "nkeys nx' \<subseteq> nkeys nx \<union> nkeys ny"
    unfolding dom_node_map[symmetric] m by auto
  then have "nkeys nx' \<subseteq> {z. min_k nx' \<le> z \<and> z < max_k nx'}"
    using ok(1,2) ch fields by (fastforce simp: node_ok_by_def)
  then have "node_ok_by fp f nx'"
    using node_ok_written[OF ok(1) slots] fields by blast
  moreover have "chain None lo ?L q hi"
    using ch fields chain_relink[OF ch(2), of "Some x"] by (auto simp: chain_append)
  moreover have "rest_ok_by hi (nodes s') (relink (Some x) B) q"
    using rest_ok_relink[of hi "(nodes s)(x \<mapsto> nx', y \<mapsto> ny')" B q nb "Some x"] tl s' hd nb h q by simp
  moreover have "holds (nodes s') A" "nodes s' x = Some nx'"
    using s' h hd by auto
  moreover have "alloc_ok s'"
    by (rule alloc_ok_cong[OF al]) (use s' h nb in auto)
  ultimately have "dl_inv_by fp lo hi f ?L q s'"
    using h q cells_ok_mono[OF ok(3)] cells_ok_mono[OF ok(4)] unfolding dl_inv_by_def rest_ok_by_def by (simp add: holds_append image_Un)
  moreover have "dl_map ?L = (dl_map (A @ (x, nx) # (y, ny) # B))(k := None)"
  proof -
    have "dom (dl_map A) \<subseteq> {z. lo \<le> z \<and> z < min_k nx}" "dom (dl_map B) \<subseteq> {z. max_k ny \<le> z \<and> z < hi}"
      using dl_map_range[OF ch(1) ok(3)] dl_map_range[OF ch(2) ok(4)] by auto
    then have "dl_map A k = None" "dl_map B k = None" using k by force+
    then show ?thesis using m by (auto simp: map_add_def fun_eq_iff split: option.splits)
  qed
  moreover have "anchor_map ?L = (anchor_map (A @ (x, nx) # (y, ny) # B))(min_k ny := None)"
  proof -
    have "dom (anchor_map A) \<subseteq> {z. lo \<le> z \<and> z < min_k nx}" "dom (anchor_map B) \<subseteq> {z. max_k ny \<le> z \<and> z < hi}"
      using anchor_map_range[OF ch(1)] anchor_map_range[OF ch(2)] by auto
    then have "anchor_map A (min_k ny) = None" "anchor_map B (min_k ny) = None" using ch by force+
    then show ?thesis using fields ch by (auto simp: map_add_def fun_eq_iff split: option.splits)
  qed
  ultimately show ?thesis by blast
qed

section \<open>Running the merges\<close>

lemma mergeWithNext_run:
  assumes "nodes s a = Some n" "next_p n = Some d" "nodes s d = Some nd" "node_ok_by fp f nd"
    and "next_p nd = Some x" "nodes s x = Some nx" "a \<noteq> d" "x \<noteq> a" "x \<noteq> d"
    and "move_loop n (locked nd) = (n1, nd1, cur)" "same_rest n n1" "same_rest (locked nd) nd1"
  shows "mergeWithNext a s = Inr (Some d, s\<lparr>nodes := (nodes s)(a \<mapsto> n1\<lparr>next_p := Some x, max_k := max_k nd\<rparr>,
    d \<mapsto> nd1\<lparr>deleted := True\<rparr>, x \<mapsto> nx\<lparr>prev_p := Some a\<rparr>)\<rparr>)"
  using assms writeLock_ok[OF assms(4), folded locked_def]
  by (simp add: mergeWithNext_def updNode_def putNode_def same_rest_def node_simps)
    (intro arg_cong[where f = "\<lambda>h. s\<lparr>nodes := h\<rparr>"] ext, auto)

lemma mergeWithPrev_run:
  assumes "nodes s a = Some n" "prev_p n = Some p" "nodes s p = Some np" "node_ok_by fp f np"
    and "next_p n = Some x" "nodes s x = Some nx" "a \<noteq> p" "x \<noteq> a" "x \<noteq> p"
    and "move_loop (locked np) n = (np1, n1, cur)" "same_rest (locked np) np1" "same_rest n n1"
  shows "mergeWithPrev a s = Inr (Some a, s\<lparr>nodes := (nodes s)
    (p \<mapsto> writeUnlock (np1\<lparr>next_p := Some x, max_k := max_k n\<rparr>),
    a \<mapsto> n1\<lparr>deleted := True\<rparr>, x \<mapsto> nx\<lparr>prev_p := Some p\<rparr>)\<rparr>)"
  using assms writeLock_ok[OF assms(4), folded locked_def]
  by (simp add: mergeWithPrev_def updNode_def putNode_def same_rest_def node_simps)
    (intro arg_cong[where f = "\<lambda>h. s\<lparr>nodes := h\<rparr>"] ext, auto)

text \<open>The entry that reports the node that went away.\<close>

lemma logRemoved_run:
  assumes "nodes s2 d = Some nd" "curQ s2 = curQ s" "oplogs s2 = oplogs s" "min_k nd = x"
  obtains e clk s3 where "logRemoved t h (Some d) s2 = Inr s3" "nodes s3 = nodes s2"
    "nmalloc s3 = nmalloc s2" "raw s3 = raw s2" "nallocs s3 = nallocs s2"
    "appended t [(e, mk_op OpRemove x h d clk)] s (unlockNode a s3)"
  using that[of "enqPerThreadLog t OpRemove (min_k nd) h d s2"] assms
    appended_enq[of s2 s "unlockNode a (enqPerThreadLog t OpRemove (min_k nd) h d s2)" t OpRemove "min_k nd" h d]
  by (auto simp: logRemoved_def unlockNode_def)

lemma wrote_merge:
  assumes "dl_inv_by fp lo hi f L' q s' \<and> dl_map L' = m \<and> anchor_map L' = (anchor_map L)(x := None)"
    and "appended t [(e, mk_op OpRemove x h d clk)] s s'" and "hdaddr L' q = hdaddr L q"
    and "kept s s'" "strays_deleted L q s \<longrightarrow> strays_deleted L' q s'"
    and "nodes s' d = Some nd" "min_k nd = x" "x \<noteq> lo" "anchor_map L x = Some d"
  shows "wrote_by fp lo hi f t L q s m L' s'"
proof -
  have "log_step_by lo (nodes s') (anchor_map L) [(e, mk_op OpRemove x h d clk)]"
    using assms by (auto simp: log_step_by_def mk_op_def WORKER_THREAD_PER_NUMA_def)
  then show ?thesis
    using assms unfolding wrote_by_def by (auto simp: replay_def intro!: exI[of _ "[(e, mk_op OpRemove x h d clk)]"])
qed

text \<open>The anchor of the second of two neighbours.\<close>

lemma second_anchor:
  assumes "dl_inv_by fp lo hi f (A @ (x, nx) # (y, ny) # B) q s"
  shows "anchor_map (A @ (x, nx) # (y, ny) # B) (min_k ny) = Some y" "min_k ny \<noteq> lo"
proof -
  have ch: "chain None lo ((A @ [(x, nx)]) @ (y, ny) # B) q hi" using assms by (simp add: dl_inv_by_def)
  from anchor_at[OF this] show "anchor_map (A @ (x, nx) # (y, ny) # B) (min_k ny) = Some y" by simp
  have "chain None lo A x (min_k nx)" "min_k nx < min_k ny" using assms by (auto simp: dl_inv_by_def chain_append)
  then show "min_k ny \<noteq> lo" using chain_le by force
qed

lemma small_pair_card:
  "small_pair n m \<Longrightarrow> slots_ok_by fp n \<Longrightarrow> slots_ok_by fp m \<Longrightarrow> card (nslots n) + card (nslots m) \<le> MAX_ENTRIES"
  by (simp add: small_pair_def numEntries_card)

lemma keys_disjoint:
  assumes "node_ok_by fp f n" "node_ok_by fp g m" "max_k n \<le> min_k m"
  shows "nkeys n \<inter> nkeys m = {}"
  using assms unfolding node_ok_by_def by fastforce

text \<open>The node after the key has left its slot, and before any merge.\<close>

definition removed_by :: "('k::linorder \<Rightarrow> u8) \<Rightarrow> 'k ListNode_of \<Rightarrow> 'k \<Rightarrow> 'k ListNode_of \<Rightarrow> bool" where
  "removed_by fp n k n1 \<longleftrightarrow> slots_ok_by fp n1 \<and> node_map n1 = (node_map n)(k := None) \<and> same_rest (locked n) n1"

lemma removed_keys: "removed_by fp n k n1 \<Longrightarrow> nkeys n1 \<subseteq> nkeys n"
  unfolding removed_by_def dom_node_map[symmetric] by (auto split: if_splits)

lemma remove_mergeNext:
  assumes inv: "dl_inv_by fp lo hi (Suc f) (A @ (c, n) # (d, nd) # B) q s" and k: "min_k n \<le> k" "k < max_k n"
    and rem: "removed_by fp n k n1" and small: "small_pair n1 nd"
  shows "\<exists>s2 s3 L'. mergeWithNext c (putNode c n1 s) = Inr (Some d, s2) \<and> logRemoved t h (Some d) s2 = Inr s3 \<and>
    wrote_by fp lo hi f t (A @ (c, n) # (d, nd) # B) q s ((dl_map (A @ (c, n) # (d, nd) # B))(k := None)) L' (unlockNode c s3)"
proof -
  have ok: "node_ok_by fp (Suc f) n" "node_ok_by fp (Suc f) nd" "slots_ok_by fp nd" "next_p n = Some d" "max_k n = min_k nd"
      "next_p nd = Some (hdaddr B q)" "min_k nd < max_k nd"
    using inv by (auto simp: dl_inv_by_def chain_append node_ok_by_def)
  have h: "nodes s d = Some nd" "c \<noteq> d" "rest_ok_by hi (nodes s) B q" "c \<notin> fst ` set B" "d \<notin> fst ` set B"
      "c \<noteq> q" "d \<noteq> q"
    using inv unfolding dl_inv_by_def rest_ok_by_def holds_append by (auto simp: image_Un)
  have hd: "hdaddr B q \<noteq> c" "hdaddr B q \<noteq> d"
    using hdaddr_notin[of q "{c, d}" B] h by auto
  obtain nb where nb: "nodes s (hdaddr B q) = Some nb" using rest_ok_hd[OF h(3)] by blast
  have n1: "slots_ok_by fp n1" "node_map n1 = (node_map n)(k := None)" "same_rest (locked n) n1"
    using rem by (auto simp: removed_by_def)
  obtain n2 nd2 cur where loop: "move_loop n1 (locked nd) = (n2, nd2, cur)" by (metis prod_cases3)
  have disj: "nkeys n1 \<inter> nkeys (locked nd) = {}"
    using keys_disjoint[OF ok(1,2)] ok(5) removed_keys[OF rem] by auto
  note mv = move_loop_spec[OF n1(1) _ disj _ loop, simplified, OF ok(3) small_pair_card[OF small n1(1) ok(3)]]
  let ?n3 = "n2\<lparr>next_p := Some (hdaddr B q), max_k := max_k nd\<rparr>"
  define s2 where "s2 = (putNode c n1 s)\<lparr>nodes := (nodes (putNode c n1 s))(c \<mapsto> ?n3,
    d \<mapsto> nd2\<lparr>deleted := True\<rparr>, hdaddr B q \<mapsto> nb\<lparr>prev_p := Some c\<rparr>)\<rparr>"
  have run: "mergeWithNext c (putNode c n1 s) = Inr (Some d, s2)"
    unfolding s2_def using n1(3) ok h hd nb loop mv
    by (intro mergeWithNext_run[where f = "Suc f" and nd = nd and cur = cur]) (auto simp: same_rest_def)
  obtain e clk s3 where log: "logRemoved t h (Some d) s2 = Inr s3" "nodes s3 = nodes s2"
      "nmalloc s3 = nmalloc s2" "raw s3 = raw s2" "nallocs s3 = nallocs s2"
      "appended t [(e, mk_op OpRemove (min_k nd) h d clk)] s (unlockNode c s3)"
    by (rule logRemoved_run[of s2 d "nd2\<lparr>deleted := True\<rparr>" s "min_k nd" t h c])
      (use mv(6) hd h(2) in \<open>auto simp: s2_def same_rest_def\<close>)
  have map: "node_map (writeUnlock ?n3) = (node_map n ++ node_map nd)(k := None)"
  proof -
    have "node_map nd k = None"
      using ok k unfolding node_map_None by (auto simp: node_ok_by_def)
    then show ?thesis
      using mv(2) n1(2) by (auto simp: writeUnlock_def map_add_def fun_eq_iff split: option.splits)
  qed
  have nodes: "nodes (unlockNode c s3) = (nodes s)(c \<mapsto> writeUnlock ?n3,
      d \<mapsto> nd2\<lparr>deleted := True\<rparr>, hdaddr B q \<mapsto> nb\<lparr>prev_p := Some c\<rparr>)"
    using log(2) hd h(2) by (auto simp: unlockNode_def s2_def fun_eq_iff)
  note fields = mv(3)[unfolded same_rest_def] mv(6)[unfolded same_rest_def] n1(3)[unfolded same_rest_def]
  have kept: "kept s (unlockNode c s3)"
    using fields log h hd nb inv unfolding kept_def nodes by (auto simp: unlockNode_def s2_def writeUnlock_def dl_inv_by_def holds_append)
  have str: "strays_deleted (A @ (c, n) # (d, nd) # B) q s \<longrightarrow> strays_deleted (A @ (c, writeUnlock ?n3) # relink (Some c) B) q (unlockNode c s3)"
    using nb hd unfolding strays_deleted_def nodes by (auto simp: image_Un)
  have "min_k n \<le> k" "k < max_k nd" using k ok by auto
  note post = dl_inv_merge[OF inv _ map this _ _ _ _ _ _ _ _ nb nodes]
  have "wrote_by fp lo hi f t (A @ (c, n) # (d, nd) # B) q s
      ((dl_map (A @ (c, n) # (d, nd) # B))(k := None)) (A @ (c, writeUnlock ?n3) # relink (Some c) B) (unlockNode c s3)"
    by (rule wrote_merge[OF post log(6) _ kept str, where nd = "nd2\<lparr>deleted := True\<rparr>"])
      (use fields mv(1) log ok second_anchor[OF inv] nodes hd
        in \<open>auto simp: writeUnlock_def write_unlock_def unlockNode_def s2_def node_ok_by_def\<close>)
  then show ?thesis using run log(1) by blast
qed

lemma remove_mergePrev:
  assumes inv: "dl_inv_by fp lo hi (Suc f) (A @ (p, np) # (c, n) # B) q s" and k: "min_k n \<le> k" "k < max_k n"
    and rem: "removed_by fp n k n1" and small: "small_pair n1 np"
  shows "\<exists>s2 s3 L'. mergeWithPrev c (putNode c n1 s) = Inr (Some c, s2) \<and> logRemoved t h (Some c) s2 = Inr s3 \<and>
    wrote_by fp lo hi f t (A @ (p, np) # (c, n) # B) q s ((dl_map (A @ (p, np) # (c, n) # B))(k := None)) L' (unlockNode c s3)"
proof -
  have ok: "node_ok_by fp (Suc f) n" "node_ok_by fp (Suc f) np" "slots_ok_by fp np" "prev_p n = Some p" "max_k np = min_k n"
      "next_p n = Some (hdaddr B q)" "min_k np < max_k np"
    using inv by (auto simp: dl_inv_by_def chain_append node_ok_by_def)
  have h: "nodes s p = Some np" "p \<noteq> c" "rest_ok_by hi (nodes s) B q" "c \<notin> fst ` set B" "p \<notin> fst ` set B"
      "c \<noteq> q" "p \<noteq> q"
    using inv unfolding dl_inv_by_def rest_ok_by_def holds_append by (auto simp: image_Un)
  have hd: "hdaddr B q \<noteq> c" "hdaddr B q \<noteq> p"
    using hdaddr_notin[of q "{c, p}" B] h by auto
  obtain nb where nb: "nodes s (hdaddr B q) = Some nb" using rest_ok_hd[OF h(3)] by blast
  have n1: "slots_ok_by fp n1" "node_map n1 = (node_map n)(k := None)" "same_rest (locked n) n1"
    using rem by (auto simp: removed_by_def)
  obtain np2 n2 cur where loop: "move_loop (locked np) n1 = (np2, n2, cur)" by (metis prod_cases3)
  have disj: "nkeys (locked np) \<inter> nkeys n1 = {}"
    using keys_disjoint[OF ok(2,1)] ok(5) removed_keys[OF rem] by auto
  have room: "card (nslots np) + card (nslots n1) \<le> MAX_ENTRIES"
    using small_pair_card[OF small n1(1) ok(3)] by simp
  note mv = move_loop_spec[OF _ n1(1) disj _ loop, simplified, OF ok(3) room]
  let ?p3 = "np2\<lparr>next_p := Some (hdaddr B q), max_k := max_k n1\<rparr>"
  define s2 where "s2 = (putNode c n1 s)\<lparr>nodes := (nodes (putNode c n1 s))(p \<mapsto> writeUnlock ?p3,
    c \<mapsto> n2\<lparr>deleted := True\<rparr>, hdaddr B q \<mapsto> nb\<lparr>prev_p := Some p\<rparr>)\<rparr>"
  have run: "mergeWithPrev c (putNode c n1 s) = Inr (Some c, s2)"
    unfolding s2_def using n1(3) ok h hd nb loop mv
    by (intro mergeWithPrev_run[where f = "Suc f" and np = np and cur = cur]) (auto simp: same_rest_def)
  obtain e clk s3 where log: "logRemoved t h (Some c) s2 = Inr s3" "nodes s3 = nodes s2"
      "nmalloc s3 = nmalloc s2" "raw s3 = raw s2" "nallocs s3 = nallocs s2"
      "appended t [(e, mk_op OpRemove (min_k n) h c clk)] s (unlockNode c s3)"
    by (rule logRemoved_run[of s2 c "n2\<lparr>deleted := True\<rparr>" s "min_k n" t h c])
      (use mv(6) n1(3) hd h(2) in \<open>auto simp: s2_def same_rest_def\<close>)
  have map: "node_map (writeUnlock ?p3) = (node_map np ++ node_map n)(k := None)"
  proof -
    have "node_map np k = None"
      using ok k unfolding node_map_None by (auto simp: node_ok_by_def)
    then show ?thesis
      using mv(2) n1(2) by (auto simp: writeUnlock_def map_add_def fun_eq_iff split: option.splits)
  qed
  have nodes: "nodes (unlockNode c s3) = (nodes s)(p \<mapsto> writeUnlock ?p3,
      c \<mapsto> writeUnlock (n2\<lparr>deleted := True\<rparr>), hdaddr B q \<mapsto> nb\<lparr>prev_p := Some p\<rparr>)"
    using log(2) hd h(2) by (auto simp: unlockNode_def s2_def fun_eq_iff)
  note fields = mv(3)[unfolded same_rest_def] mv(6)[unfolded same_rest_def] n1(3)[unfolded same_rest_def]
  have kept: "kept s (unlockNode c s3)"
    using fields log h hd nb inv unfolding kept_def nodes by (auto simp: unlockNode_def s2_def writeUnlock_def dl_inv_by_def holds_append)
  have str: "strays_deleted (A @ (p, np) # (c, n) # B) q s \<longrightarrow> strays_deleted (A @ (p, writeUnlock ?p3) # relink (Some p) B) q (unlockNode c s3)"
    using nb hd unfolding strays_deleted_def nodes by (auto simp: image_Un writeUnlock_def)
  have "min_k np \<le> k" "k < max_k n" using k ok by auto
  note post = dl_inv_merge[OF inv _ map this _ _ _ _ _ _ _ _ nb nodes]
  have "wrote_by fp lo hi f t (A @ (p, np) # (c, n) # B) q s
      ((dl_map (A @ (p, np) # (c, n) # B))(k := None)) (A @ (p, writeUnlock ?p3) # relink (Some p) B) (unlockNode c s3)"
    by (rule wrote_merge[OF post log(6) _ kept str, where nd = "writeUnlock (n2\<lparr>deleted := True\<rparr>)"])
      (use fields mv(1) log ok second_anchor[OF inv] nodes hd in \<open>auto simp: writeUnlock_def write_unlock_def unlockNode_def s2_def node_ok_by_def\<close>)
  then show ?thesis using run log(1) by blast
qed

section \<open>Remove\<close>

lemma ListNode_remove_covering:
  assumes inv: "dl_inv_by fp lo hi (Suc f) (A @ (c, n) # B) q s" and r: "min_k n \<le> k" "k < max_k n"
  shows "\<exists>L' s2. ListNode_remove fp t c k (putNode c (locked n) s) = Inr (node_map n k \<noteq> None, s2) \<and>
    wrote_by fp lo hi f t (A @ (c, n) # B) q s ((dl_map (A @ (c, n) # B))(k := None)) L' (unlockNode c s2)"
proof -
  have okl: "slots_ok_by fp (locked n)" using inv by (auto simp: dl_inv_by_def node_ok_by_def)
  have nxt: "next_p n = Some (hdaddr B q)" "rest_ok_by hi (nodes s) B q" "prev_p n = lastptr None A" "c \<noteq> q" "c \<notin> fst ` set B"
    using inv unfolding dl_inv_by_def rest_ok_by_def holds_append by (auto simp: chain_append image_Un)
  have hd: "hdaddr B q \<noteq> c" using hdaddr_notin[of q "{c}" B] nxt by auto
  obtain nb where nb: "nodes s (hdaddr B q) = Some nb" using rest_ok_hd[OF nxt(2)] by blast
  show ?thesis
  proof (cases rule: getKeyIndex_cases[OF okl, of k, case_names absent found])
    case absent
    then have "(node_map n)(k := None) = node_map n" by auto
    then have "wrote_by fp lo hi f t (A @ (c, n) # B) q s ((dl_map (A @ (c, n) # B))(k := None))
        (A @ (c, writeUnlock (locked n)) # B) (unlockNode c (putNode c (locked n) s))"
      using okl by (intro wrote_one[OF inv r]) auto
    then show ?thesis using absent by (auto simp: ListNode_remove_def)
  next
    case (found i v)
    let ?n1 = "removeFromIndex i (locked n)"
    have rem: "removed_by fp n k ?n1"
      using slots_ok_removeFromIndex[OF okl found(1)] node_map_removeFromIndex[OF okl found(1)] found(2)
      by (simp add: removed_by_def)
    have prev: "prev_p ?n1 = lastptr None A" "next_p ?n1 = Some (hdaddr B q)" using nxt by auto
    have one: "wrote_by fp lo hi f t (A @ (c, n) # B) q s ((dl_map (A @ (c, n) # B))(k := None))
        (A @ (c, writeUnlock ?n1) # B) (unlockNode c (putNode c ?n1 s))"
      using rem by (intro wrote_one[OF inv r]) (auto simp: removed_by_def)
    show ?thesis
    proof (cases "small_pair ?n1 nb")
      case True
      then obtain d nd B' where B: "B = (d, nd) # B'"
        using nxt(2) nb by (cases B) (auto simp: rest_ok_by_def tail_ok_by_def small_pair_def MAX_ENTRIES_def)
      then have "nd = nb" using nxt(2) nb by (auto simp: rest_ok_by_def)
      then show ?thesis
        using remove_mergeNext[OF inv[unfolded B] r rem, of t "fp k"] True found prev nb hd B
        by (auto simp: ListNode_remove_def Let_def)
    next
      case big: False
      show ?thesis
      proof (cases A rule: rev_cases)
        case Nil
        then show ?thesis using one found prev nb hd big by (auto simp: ListNode_remove_def Let_def)
      next
        case (snoc A' e)
        obtain p np where e: "e = (p, np)" by (cases e)
        have p: "nodes s p = Some np" "p \<noteq> c" "prev_p ?n1 = Some p"
          using inv prev by (auto simp: snoc e dl_inv_by_def holds_append)
        show ?thesis
        proof (cases "small_pair ?n1 np")
          case True
          then show ?thesis
            using remove_mergePrev[of fp lo hi f A' p np c n B q s, OF _ r rem, of t "fp k"] inv found p nb hd big prev(2)
            by (auto simp: ListNode_remove_def Let_def snoc e)
        next
          case False
          then show ?thesis
            using one found p nb hd big prev(2) by (auto simp: ListNode_remove_def Let_def)
        qed
      qed
    qed
  qed
qed

lemma LinkedList_remove_refines_by:
  assumes inv: "dl_inv_by fp lo hi (Suc f) L q s" and a: "a \<in> fst ` set L" and k: "lo \<le> k \<and> k < hi"
  shows "\<exists>L' s'. LinkedList_remove fp t k (Some a) s = Some (Inr (dl_map L k \<noteq> None, s')) \<and>
    wrote_by fp lo hi f t L q s ((dl_map L)(k := None)) L' s'"
proof -
  obtain L1 c n L2 where c: "L = L1 @ (c, n) # L2" "checkRange k n" "findNode k (Some a) s = Some (Inr c)"
      "nodes s c = Some n" "node_ok_by fp (Suc f) n" "min_k n \<le> k" "k < max_k n" "dl_map L k = node_map n k"
    using covering_node_by[OF assms] .
  obtain L' s2 where *: "ListNode_remove fp t c k (putNode c (locked n) s) = Inr (node_map n k \<noteq> None, s2)"
      "wrote_by fp lo hi f t L q s ((dl_map L)(k := None)) L' (unlockNode c s2)"
    using ListNode_remove_covering[OF inv[unfolded c(1)] c(6,7)] unfolding c(1) by blast
  then have "LinkedList_remove fp t k (Some a) s = Some (Inr (dl_map L k \<noteq> None, unlockNode c s2))"
    using lockNode_ok[OF c(4,5)] c by (subst LinkedList_remove.simps) (simp add: node_ok_by_def)
  then show ?thesis using * by auto
qed

lemmas LinkedList_remove_refines = LinkedList_remove_refines_by[where fp = getKeyFingerPrint and lo = 0 and hi = ULLONG_MAX, OF _ _ below_ULLONG_MAX]

end
