(* ===== verification/ListInit.thy ===== *)
theory ListInit
  imports ListRemove
begin

text \<open>
  \<open>LinkedList::initialize\<close> builds a list that satisfies the invariant. It holds one entry, the
  key 0 that \<open>initialize\<close> puts into the head node.
\<close>

lemma zero_less_max: "(0 :: u64) < ULLONG_MAX"
  by (rule word_order.not_eq_extremum[THEN iffD1]) simp

lemma ListNode_insert_fresh:
  assumes "nodes s a = Some n" "slots_ok_by fp n" "nslots n = {}"
  obtains j where "ListNode_insert fp t a k v s = Inr (True, putNode a (insertAtIndex (k, v) j (fp k) n) s)"
    "j < MAX_ENTRIES" "j \<notin> nslots n" "k \<notin> nkeys n"
proof -
  have "k \<notin> nkeys n" using assms(3) by (simp add: node_keys_def)
  then show ?thesis
    using that assms MAX_ENTRIES_bounds
    by (cases rule: getFreeIndex_cases[OF assms(2), of k]) (auto simp: ListNode_insert_def)
qed

lemma LinkedList_initialize_run:
  assumes "alloc_ok s"
  defines "h \<equiv> nmalloc s (nallocs s)" and "q \<equiv> nmalloc s (Suc (nallocs s))"
  defines "nh \<equiv> ListNode_ctor (raw s (nallocs s))" and "nq \<equiv> ListNode_ctor (raw s (Suc (nallocs s)))"
  shows "\<exists>i j s'. i < MAX_ENTRIES \<and> LinkedList_initialize t s = Inr (h, s') \<and>
    nodes s' = (nodes s)
      (h \<mapsto> (insertAtIndex (0, 0) i (getKeyFingerPrint 0) nh)\<lparr>next_p := Some q, prev_p := None, min_k := 0, max_k := ULLONG_MAX\<rparr>,
       q \<mapsto> (insertAtIndex (ULLONG_MAX, 0) j (getKeyFingerPrint ULLONG_MAX) nq)
         \<lparr>numEntries := word_of_nat MAX_ENTRIES, next_p := None, prev_p := Some q, min_k := ULLONG_MAX\<rparr>) \<and>
    nmalloc s' = nmalloc s \<and> raw s' = raw s \<and> nallocs s' = Suc (Suc (nallocs s)) \<and> oplogs s' = oplogs s \<and> curQ s' = curQ s"
proof -
  have hq: "h \<noteq> q" using assms(1) by (auto simp: alloc_ok_def h_def q_def dest: injD)
  have ctor: "slots_ok nh" "nslots nh = {}" "slots_ok nq" "nslots nq = {}"
    using assms(1) by (auto simp: alloc_ok_def nh_def nq_def slots_ok_ctor)
  let ?s2 = "snd (newNode (snd (newNode s)))"
  have s2: "nodes ?s2 = (nodes s)(h \<mapsto> nh, q \<mapsto> nq)"
    by (simp add: newNode_eq h_def q_def nh_def nq_def)
  obtain i where i: "ListNode_insert getKeyFingerPrint t h 0 0 ?s2
      = Inr (True, putNode h (insertAtIndex (0, 0) i (getKeyFingerPrint 0) nh) ?s2)" "i < MAX_ENTRIES"
    by (rule ListNode_insert_fresh[of ?s2 h nh getKeyFingerPrint t 0 0]) (use s2 hq ctor in auto)
  let ?nh = "(insertAtIndex (0, 0) i (getKeyFingerPrint 0) nh)\<lparr>next_p := Some q, prev_p := None, min_k := 0, max_k := ULLONG_MAX\<rparr>"
  let ?s7 = "putNode h ?nh ?s2"
  obtain j where j: "ListNode_insert getKeyFingerPrint t q ULLONG_MAX 0 ?s7
      = Inr (True, putNode q (insertAtIndex (ULLONG_MAX, 0) j (getKeyFingerPrint ULLONG_MAX) nq) ?s7)"
    by (rule ListNode_insert_fresh[of ?s7 q nq getKeyFingerPrint t ULLONG_MAX 0]) (use s2 hq ctor in auto)
  have a: "fst (newNode s) = h" "fst (newNode (snd (newNode s))) = q"
    by (simp_all add: newNode_eq h_def q_def)
  show ?thesis
    using i j s2 hq a
    by (intro exI[of _ i] exI[of _ j])
      (auto simp: LinkedList_initialize_def updNode_def node_simps setNumEntries_def split_beta Let_def
        newNode_eq nh_def nq_def)
qed

lemma LinkedList_initialize_ok:
  assumes "alloc_ok s" "2 * f + 2 < 2 ^ 64"
  shows "\<exists>n s'. LinkedList_initialize t s = Inr (nmalloc s (nallocs s), s') \<and>
    dl_inv f [(nmalloc s (nallocs s), n)] (nmalloc s (Suc (nallocs s))) s' \<and>
    node_map n = [0 \<mapsto> 0] \<and> min_k n = 0 \<and> oplogs s' = oplogs s \<and> curQ s' = curQ s"
proof -
  define h q where "h = nmalloc s (nallocs s)" and "q = nmalloc s (Suc (nallocs s))"
  define nh nq where "nh = ListNode_ctor (raw s (nallocs s))" and "nq = ListNode_ctor (raw s (Suc (nallocs s)))"
  have hq: "h \<noteq> q" using assms(1) by (auto simp: alloc_ok_def h_def q_def dest: injD)
  have sized: "arrays_sized (raw s (nallocs s))" using assms(1) by (simp add: alloc_ok_def)
  then have nh: "slots_ok nh" "length (permuter nh) = MAX_ENTRIES"
    by (simp_all add: nh_def slots_ok_ctor) (simp add: arrays_sized_def ListNode_ctor_def)
  obtain i j s' where run: "i < MAX_ENTRIES" "LinkedList_initialize t s = Inr (h, s')"
    "nodes s' = (nodes s)
      (h \<mapsto> (insertAtIndex (0, 0) i (getKeyFingerPrint 0) nh)\<lparr>next_p := Some q, prev_p := None, min_k := 0, max_k := ULLONG_MAX\<rparr>,
       q \<mapsto> (insertAtIndex (ULLONG_MAX, 0) j (getKeyFingerPrint ULLONG_MAX) nq)
         \<lparr>numEntries := word_of_nat MAX_ENTRIES, next_p := None, prev_p := Some q, min_k := ULLONG_MAX\<rparr>)"
    "nmalloc s' = nmalloc s" "raw s' = raw s" "nallocs s' = Suc (Suc (nallocs s))" "oplogs s' = oplogs s" "curQ s' = curQ s"
    using LinkedList_initialize_run[OF assms(1), of t, folded h_def q_def nh_def nq_def] by blast
  let ?n = "insertAtIndex (0, 0) i (getKeyFingerPrint 0) nh"
  have "i \<notin> nslots nh" "0 \<notin> nkeys nh" by (auto simp: nh_def)
  then have n: "slots_ok ?n" "node_map ?n = [0 \<mapsto> 0]"
    using slots_ok_insertAtIndex[OF nh(1) run(1)] node_map_insertAtIndex[OF nh(1) run(1)] by (auto simp: nh_def)
  then have keys: "nkeys ?n = {0}" by (simp add: dom_node_map[symmetric])
  have al: "alloc_ok s'"
  proof -
    have "dom (nodes s') = insert q (insert h (dom (nodes s)))" using run(3) by auto
    then show ?thesis
      using assms(1) run(4-6) by (auto simp: alloc_ok_def h_def q_def dest: injD)
  qed
  let ?nh = "?n\<lparr>next_p := Some q, prev_p := None, min_k := 0, max_k := ULLONG_MAX\<rparr>"
  have "node_ok f ?nh"
    using n keys nh(2) assms(2)
    by (simp add: node_ok_def lock_ok_def cache_ok_def nh_def ListNode_ctor_def VersionedLock_init_def
        unlocked_def zero_less_max)
  moreover have "unat (word_of_nat MAX_ENTRIES :: u8) = MAX_ENTRIES" by (simp add: MAX_ENTRIES_def)
  ultimately have "dl_inv f [(h, ?nh)] q s'"
    using run(3) hq al by (simp add: dl_inv_def tail_ok_def zero_less_max nq_def ListNode_ctor_def)
  then show ?thesis
    using run(2,7,8) n(2) by (intro exI[of _ ?nh] exI[of _ s']) (simp add: h_def q_def)
qed

end
