(* ===== verification/ScanRefinement.thy ===== *)
theory ScanRefinement
  imports ListInit
begin

text \<open>
  Range scans. The permutation cache of a node lists its slots in the order of their keys; the
  binary search on it finds the first key not below the start, and the scan over the nodes
  returns the values of the smallest keys not below the start key, in order.
\<close>

section \<open>A map in the order of its keys\<close>

definition map_entries :: "('k::linorder \<rightharpoonup> 'v) \<Rightarrow> ('k \<times> 'v) list" where
  "map_entries m = map (\<lambda>k. (k, the (m k))) (sorted_list_of_set (dom m))"

definition range_values :: "('k::linorder) \<Rightarrow> ('k \<rightharpoonup> 'v) \<Rightarrow> 'v list" where
  "range_values start m = map snd (filter (\<lambda>e. start \<le> fst e) (map_entries m))"

lemma map_entries_unique:
  assumes "sorted (map fst es)" "distinct (map fst es)" "\<And>k v. (k, v) \<in> set es \<longleftrightarrow> m k = Some v"
  shows "es = map_entries m"
proof -
  have d: "fst ` set es = dom m" using assms(3) by force
  then have "map fst es = sorted_list_of_set (dom m)"
    using assms(1,2) by (metis list.set_map sorted_list_of_set.idem_if_sorted_distinct)
  then have "map_entries m = map (\<lambda>e. (fst e, the (m (fst e)))) es"
    unfolding map_entries_def by (simp flip: \<open>map fst es = _\<close>)
  moreover have "(fst e, the (m (fst e))) = e" if "e \<in> set es" for e
    using assms(3)[of "fst e" "snd e"] that by (metis option.sel prod.collapse)
  ultimately show ?thesis by (simp add: map_idI)
qed

lemma map_entries_add:
  assumes "finite (dom m)" "finite (dom m')" "\<And>x y. x \<in> dom m \<Longrightarrow> y \<in> dom m' \<Longrightarrow> x < y"
  shows "map_entries (m ++ m') = map_entries m @ map_entries m'"
proof -
  let ?xs = "sorted_list_of_set (dom m)" and ?ys = "sorted_list_of_set (dom m')"
  have "sorted (?xs @ ?ys)" "distinct (?xs @ ?ys)"
    using assms by (auto simp: sorted_append less_imp_le)
  moreover have "set (?xs @ ?ys) = dom (m ++ m')" using assms by auto
  ultimately have "sorted_list_of_set (dom (m ++ m')) = ?xs @ ?ys"
    by (metis sorted_list_of_set.idem_if_sorted_distinct)
  moreover have "(m ++ m') x = m x" if "x \<in> dom m" for x
    using assms(3)[OF that, of x] by (auto simp: map_add_def split: option.splits)
  ultimately show ?thesis
    using assms by (simp add: map_entries_def map_add_dom_app_simps)
qed

lemma range_values_add:
  assumes "finite (dom m)" "finite (dom m')" "\<And>x y. x \<in> dom m \<Longrightarrow> y \<in> dom m' \<Longrightarrow> x < y"
  shows "range_values start (m ++ m') = range_values start m @ range_values start m'"
  using map_entries_add[OF assms] by (simp add: range_values_def)

section \<open>The cache of one node\<close>

definition perm_entries :: "'k ListNode_of \<Rightarrow> ('k \<times> Val_t) list" where
  "perm_entries n = map (\<lambda>i. keyArray n ! i) (perm_idx n)"

lemma finite_node_map [simp]: "finite (dom (node_map n))"
  unfolding dom_node_map node_keys_def by simp

lemma perm_entries_sorted:
  assumes "slots_ok_by fp n" "perm_ok n"
  shows "perm_entries n = map_entries (node_map n)"
proof (rule map_entries_unique)
  show "sorted (map fst (perm_entries n))"
    using assms(2) by (simp add: perm_entries_def perm_ok_def o_def)
  show "distinct (map fst (perm_entries n))"
    using assms by (auto simp: perm_entries_def perm_ok_def o_def distinct_map slots_ok_by_def uniq_def)
  show "(k, v) \<in> set (perm_entries n) \<longleftrightarrow> node_map n k = Some v" for k v
    using assms by (auto simp: node_map_Some perm_entries_def perm_ok_def image_iff) metis
qed

lemma length_perm_idx:
  "slots_ok_by fp n \<Longrightarrow> length (permuter n) = MAX_ENTRIES \<Longrightarrow> length (perm_idx n) = unat (numEntries n)"
  using card_nslots_le[of n] by (simp add: perm_idx_def numEntries_card)

lemma permEntry_eq:
  assumes "slots_ok_by fp n" "perm_ok n" "length (permuter n) = MAX_ENTRIES" "i < unat (numEntries n)"
  shows "permEntry n i = Inr (perm_entries n ! i)"
proof -
  have i: "i < card (nslots n)" "i < length (perm_idx n)"
    using assms length_perm_idx[OF assms(1)] by (auto simp: numEntries_card)
  then have "perm_idx n ! i = unat (permuter n ! i)" by (simp add: perm_idx_def)
  moreover have "perm_idx n ! i \<in> nslots n" using i assms(2) nth_mem by (auto simp: perm_ok_def)
  ultimately show ?thesis
    using i card_nslots_le[of n] assms slots_ok_length[OF assms(1)] slots_bound
    by (auto simp: permEntry_def perm_entries_def)
qed

text \<open>Sorting the slots and storing the order.\<close>

definition sorted_slots :: "'k::linorder ListNode_of \<Rightarrow> ('k \<times> u8) list" where
  "sorted_slots n = sort (map (\<lambda>i. (fst (keyArray n ! i), word_of_nat i)) (live_idx n))"

lemma unat_slot: "i \<in> nslots n \<Longrightarrow> unat (word_of_nat i :: u8) = i"
  using slots_bound[of i MAX_ENTRIES n] by (simp add: unat_of_nat MAX_ENTRIES_def)

lemma sorted_slots_props:
  shows "set (map (unat \<circ> snd) (sorted_slots n)) = nslots n"
    "distinct (map (unat \<circ> snd) (sorted_slots n))" "length (sorted_slots n) = card (nslots n)"
    "sorted (map (\<lambda>i. fst (keyArray n ! i)) (map (unat \<circ> snd) (sorted_slots n)))"
proof -
  have mset: "mset (map (unat \<circ> snd) (sorted_slots n)) = mset (live_idx n)"
  proof -
    have "mset (map (unat \<circ> snd) (sorted_slots n))
        = mset (map (unat \<circ> snd) (map (\<lambda>i. (fst (keyArray n ! i), word_of_nat i :: u8)) (live_idx n)))"
      unfolding sorted_slots_def mset_map by (simp only: mset_sort mset_map)
    also have "map (unat \<circ> snd) (map (\<lambda>i. (fst (keyArray n ! i), word_of_nat i :: u8)) (live_idx n)) = live_idx n"
      by (simp add: o_def) (rule map_idI, simp add: unat_slot)
    finally show ?thesis .
  qed
  then show "set (map (unat \<circ> snd) (sorted_slots n)) = nslots n"
    using mset_eq_setD by fastforce
  show "distinct (map (unat \<circ> snd) (sorted_slots n))"
    using mset_eq_imp_distinct_iff[OF mset] by simp
  show "length (sorted_slots n) = card (nslots n)"
    by (simp add: sorted_slots_def length_live_idx)
  have "fst (keyArray n ! unat (snd e)) = fst e" if "e \<in> set (sorted_slots n)" for e
    using that unat_slot[of _ n] by (auto simp: sorted_slots_def)
  then have "map (\<lambda>i. fst (keyArray n ! i)) (map (unat \<circ> snd) (sorted_slots n)) = map fst (sorted_slots n)"
    by simp
  moreover have "sorted (map fst (sorted_slots n))"
    by (rule sorted_map_mono[where f = fst]) (auto simp: sorted_slots_def mono_on_def less_eq_prod_def)
  ultimately show "sorted (map (\<lambda>i. fst (keyArray n ! i)) (map (unat \<circ> snd) (sorted_slots n)))"
    by (simp only:)
qed

lemma generatePermuter_new:
  assumes "w \<noteq> lastScanVersion n" "length (permuter n) = MAX_ENTRIES"
  shows "perm_ok (generatePermuter w n)" "length (permuter (generatePermuter w n)) = MAX_ENTRIES"
    "nslots n = {} \<Longrightarrow> permuter (generatePermuter w n) = permuter n"
proof -
  have gen: "generatePermuter w n = n\<lparr>permuter := storePermuter (map snd (sorted_slots n)) (permuter n),
      lastScanVersion := w\<rparr>"
    using assms(1) by (simp add: generatePermuter_def sorted_slots_def live_idx_def Let_def)
  have idx: "perm_idx (generatePermuter w n) = map (unat \<circ> snd) (sorted_slots n)"
    using sorted_slots_props(3)[of n] by (simp add: gen perm_idx_def storePermuter_def)
  show "perm_ok (generatePermuter w n)"
    unfolding perm_ok_def idx using sorted_slots_props[of n] by (simp add: gen)
  show "length (permuter (generatePermuter w n)) = MAX_ENTRIES"
    using assms(2) sorted_slots_props(3)[of n] card_nslots_le[of n] by (simp add: gen storePermuter_def)
  show "permuter (generatePermuter w n) = permuter n" if "nslots n = {}"
    using that sorted_slots_props(3)[of n] by (simp add: gen storePermuter_def)
qed

section \<open>The binary search\<close>

text \<open>\<open>r\<close> separates the entries below the key from the others.\<close>

definition cut_at :: "'k::linorder \<Rightarrow> ('k \<times> Val_t) list \<Rightarrow> nat \<Rightarrow> bool" where
  "cut_at k es r \<longleftrightarrow> r \<le> length es \<and> (\<forall>j < r. fst (es ! j) < k) \<and> (\<forall>j. r \<le> j \<and> j < length es \<longrightarrow> k \<le> fst (es ! j))"

lemma cut_at_drop:
  assumes "cut_at k es r"
  shows "drop r es = filter (\<lambda>e. k \<le> fst e) es"
proof -
  have "fst e < k" if "e \<in> set (take r es)" for e
    using that assms unfolding cut_at_def in_set_conv_nth by auto
  moreover have "k \<le> fst e" if e: "e \<in> set (drop r es)" for e
  proof -
    obtain i where "i < length es - r" "e = es ! (r + i)" using e by (auto simp: in_set_conv_nth)
    then show ?thesis using assms by (simp add: cut_at_def)
  qed
  ultimately have "filter (\<lambda>e. k \<le> fst e) (take r es) = []" "filter (\<lambda>e. k \<le> fst e) (drop r es) = drop r es"
    by (auto simp: filter_empty_conv filter_id_conv not_le)
  then show ?thesis by (metis append_Nil append_take_drop_id filter_append)
qed

lemma perm_entries_less:
  assumes "slots_ok_by fp n" "perm_ok n" "i < j" "j < length (perm_entries n)"
  shows "fst (perm_entries n ! i) < fst (perm_entries n ! j)"
proof -
  have "sorted (map fst (perm_entries n))" "distinct (map fst (perm_entries n))"
    using assms(1,2) by (auto simp: perm_entries_def perm_ok_def o_def distinct_map slots_ok_by_def uniq_def)
  then have "sorted_wrt (<) (map fst (perm_entries n))" by (simp add: strict_sorted_iff)
  from sorted_wrt_nth_less[OF this assms(3)] assms(3,4) show ?thesis by simp
qed

lemma permuterLowerBound_loop_cut:
  assumes ok: "slots_ok_by fp n" "perm_ok n" "length (permuter n) = MAX_ENTRIES"
    and "lo < hi" "hi \<le> length (perm_entries n)"
    and "\<forall>j < lo. fst (perm_entries n ! j) < k"
    and "\<forall>j. hi \<le> j \<and> j < length (perm_entries n) \<longrightarrow> k < fst (perm_entries n ! j)"
  shows "\<exists>r. permuterLowerBound_loop k n lo hi = Inr r \<and> cut_at k (perm_entries n) r"
  using assms(4-7)
proof (induction "hi - lo" arbitrary: lo hi rule: less_induct)
  case less
  let ?es = "perm_entries n"
  define mid where "mid = (hi - lo) div 2 + lo"
  have mid: "lo \<le> mid" "mid < hi" using less.prems(1) by (auto simp: mid_def)
  have len: "length ?es = unat (numEntries n)"
    using length_perm_idx[OF ok(1)] ok by (simp add: perm_entries_def)
  have e: "permEntry n mid = Inr (?es ! mid)"
    using permEntry_eq[OF ok] mid less.prems(2) len by simp
  have up: "fst (?es ! mid) \<le> fst (?es ! j)" if "mid \<le> j" "j < length ?es" for j
    using perm_entries_less[OF ok(1,2), of mid j] that by (cases "mid = j") auto
  have down: "fst (?es ! j) \<le> fst (?es ! mid)" if "j \<le> mid" for j
    using perm_entries_less[OF ok(1,2), of j mid] that mid less.prems(2) by (cases "mid = j") auto
  have step: "permuterLowerBound_loop k n lo hi =
     (if k < fst (?es ! mid) then if lo < mid then permuterLowerBound_loop k n lo mid else Inr lo
      else if fst (?es ! mid) < k then
        if mid + 1 < hi then permuterLowerBound_loop k n (mid + 1) hi else Inr (mid + 1)
      else Inr mid)"
    by (subst permuterLowerBound_loop.simps) (simp add: mid_def[symmetric] Let_def e)
  consider "k < fst (?es ! mid)" | "fst (?es ! mid) < k" | "fst (?es ! mid) = k" by force
  then show ?case
  proof cases
    case 1
    then have right: "\<forall>j. mid \<le> j \<and> j < length ?es \<longrightarrow> k < fst (?es ! j)"
      using up less_le_trans by blast
    show ?thesis
    proof (cases "lo < mid")
      case True
      then show ?thesis
        using less.hyps[of mid lo] less.prems mid right 1 by (simp add: step)
    next
      case False
      then show ?thesis
        using 1 right mid less.prems unfolding step
        by (intro exI[of _ lo]) (auto simp: cut_at_def less_imp_le)
    qed
  next
    case 2
    then have left: "\<forall>j < mid + 1. fst (?es ! j) < k"
      using down by (auto simp: less_Suc_eq_le intro: le_less_trans)
    have nk: "\<not> k < fst (?es ! mid)" using 2 by simp
    show ?thesis
    proof (cases "mid + 1 < hi")
      case True
      then show ?thesis
        using less.hyps[of hi "mid + 1"] less.prems mid left nk 2 by (simp add: step)
    next
      case False
      then have "mid + 1 = hi" using mid by simp
      then show ?thesis
        using 2 nk left less.prems unfolding step
        by (intro exI[of _ "mid + 1"]) (auto simp: cut_at_def less_imp_le)
    qed
  next
    case 3
    moreover have "\<forall>j < mid. fst (?es ! j) < k"
      using 3 perm_entries_less[OF ok(1,2), of _ mid] mid less.prems(2) by auto
    ultimately show ?thesis
      using mid less.prems(2) up by (intro exI[of _ mid]) (auto simp: step cut_at_def)
  qed
qed

lemma permuterLowerBound_cut:
  assumes "slots_ok_by fp n" "perm_ok n" "length (permuter n) = MAX_ENTRIES"
    and "nslots n = {} \<longrightarrow> unat (permuter n ! 0) < MAX_ENTRIES"
  shows "\<exists>r. permuterLowerBound k n = Inr r \<and> drop r (perm_entries n) = filter (\<lambda>e. k \<le> fst e) (perm_entries n)"
proof (cases "nslots n = {}")
  case True
  then have "unat (numEntries n) = 0" "perm_entries n = []"
    using numEntries_card[OF assms(1)] by (auto simp: perm_entries_def perm_idx_def)
  moreover have "permEntry n 0 = Inr (keyArray n ! unat (permuter n ! 0))"
    using True assms slots_ok_length[OF assms(1)] MAX_ENTRIES_bounds by (simp add: permEntry_def)
  ultimately show ?thesis
    by (simp add: permuterLowerBound_def permuterLowerBound_loop.simps)
next
  case False
  then have "0 < unat (numEntries n)" using numEntries_card[OF assms(1)] by (simp add: card_gt_0_iff)
  moreover have "length (perm_entries n) = unat (numEntries n)"
    using length_perm_idx[OF assms(1)] assms by (simp add: perm_entries_def)
  ultimately show ?thesis
    using permuterLowerBound_loop_cut[OF assms(1-3), of 0 "unat (numEntries n)" k] cut_at_drop
    unfolding permuterLowerBound_def by (metis leD less_nat_zero_code order.refl)
qed

section \<open>Scanning one node\<close>

lemma scan_loop_take:
  assumes "slots_ok_by fp n" "perm_ok n" "length (permuter n) = MAX_ENTRIES"
  shows "scan_loop n i todo rv = Inr (rv @ map snd (take todo (drop i (perm_entries n))))"
proof (induction todo arbitrary: i rv)
  case 0
  show ?case by (subst scan_loop.simps) simp
next
  case (Suc todo)
  have len: "length (perm_entries n) = unat (numEntries n)"
    using length_perm_idx[OF assms(1)] assms by (simp add: perm_entries_def)
  show ?case
  proof (cases "i < unat (numEntries n)")
    case True
    then have "drop i (perm_entries n) = perm_entries n ! i # drop (Suc i) (perm_entries n)"
      using len by (simp add: Cons_nth_drop_Suc)
    then show ?thesis
      using True Suc.IH[of "Suc i"] permEntry_eq[OF assms True] by (subst scan_loop.simps) simp
  next
    case False
    then show ?thesis using len by (subst scan_loop.simps) simp
  qed
qed

text \<open>The node after its cache has been brought up to date.\<close>

definition refreshed :: "'k::linorder ListNode_of \<Rightarrow> 'k ListNode_of" where
  "refreshed n = (if lastScanVersion n < version (verLock n) then generatePermuter (version (verLock n)) n else n)"

lemma refreshed_sel [simp]:
  "keyArray (refreshed n) = keyArray n" "fingerPrint (refreshed n) = fingerPrint n"
  "bitMap (refreshed n) = bitMap n" "numEntries (refreshed n) = numEntries n"
  "min_k (refreshed n) = min_k n" "max_k (refreshed n) = max_k n" "next_p (refreshed n) = next_p n"
  "prev_p (refreshed n) = prev_p n" "deleted (refreshed n) = deleted n" "verLock (refreshed n) = verLock n"
  by (simp_all add: refreshed_def generatePermuter_def Let_def)

lemma refreshed_maps [simp]:
  "slots_ok_by fp (refreshed n) = slots_ok_by fp n" "node_map (refreshed n) = node_map n"
  "nslots (refreshed n) = nslots n" "nkeys (refreshed n) = nkeys n"
  by (rule slots_ok_cong node_map_cong; simp)+

lemma refreshed_ok:
  assumes "node_ok_by fp f n"
  shows "node_ok_by fp f (refreshed n)" "perm_ok (refreshed n)" "length (permuter (refreshed n)) = MAX_ENTRIES"
    "nslots n = {} \<Longrightarrow> permuter (refreshed n) = permuter n"
proof -
  have c: "length (permuter n) = MAX_ENTRIES" "lastScanVersion n \<le> version (verLock n)"
      "lastScanVersion n = version (verLock n) \<longrightarrow> perm_ok n"
    using assms by (auto simp: node_ok_by_def cache_ok_def)
  show p: "perm_ok (refreshed n)" "length (permuter (refreshed n)) = MAX_ENTRIES"
    "nslots n = {} \<Longrightarrow> permuter (refreshed n) = permuter n"
    using c generatePermuter_new[of "version (verLock n)" n] by (auto simp: refreshed_def)
  have "lastScanVersion (refreshed n) = version (verLock n)"
    using c(2) by (auto simp: refreshed_def generatePermuter_def Let_def)
  then show "node_ok_by fp f (refreshed n)"
    using assms p by (simp add: node_ok_by_def cache_ok_def lock_ok_def)
qed

lemma ListNode_scan_ok:
  assumes ok: "node_ok_by fp f n" and nx: "next_p n \<noteq> None" and todo: "int (length rv) < rng"
    and rd: "nslots n = {} \<and> min_k n < startKey \<longrightarrow> unat (permuter n ! 0) < MAX_ENTRIES"
  shows "\<exists>rv'. ListNode_scan startKey rng rv (version (verLock n)) n = Inr (int (length rv') = rng, rv', refreshed n) \<and>
    rv' = rv @ take (nat rng - length rv) (range_values startKey (node_map n))"
proof -
  let ?n = "refreshed n"
  have so: "slots_ok_by fp ?n" using ok by (simp add: node_ok_by_def)
  note r = refreshed_ok[OF ok]
  have pe: "perm_entries ?n = map_entries (node_map n)"
    using perm_entries_sorted[OF so r(2)] by simp
  have start: "\<exists>i. (if min_k ?n < startKey then permuterLowerBound startKey ?n else Inr 0) = Inr i \<and>
      drop i (perm_entries ?n) = filter (\<lambda>e. startKey \<le> fst e) (perm_entries ?n)"
  proof (cases "min_k ?n < startKey")
    case True
    then show ?thesis
      using permuterLowerBound_cut[OF so r(2,3), of startKey] rd r(4) by auto
  next
    case False
    have "startKey \<le> fst e" if "e \<in> set (perm_entries ?n)" for e
    proof -
      have "fst e \<in> nkeys n"
        using that unfolding pe dom_node_map[symmetric] by (auto simp: map_entries_def)
      then have "min_k n \<le> fst e" using ok by (auto simp: node_ok_by_def)
      with False show ?thesis by simp
    qed
    then have "filter (\<lambda>e. startKey \<le> fst e) (perm_entries ?n) = perm_entries ?n"
      by (simp add: filter_id_conv)
    then show ?thesis using False by auto
  qed
  then obtain i where i: "(if min_k ?n < startKey then permuterLowerBound startKey ?n else Inr 0) = Inr i"
      "drop i (perm_entries ?n) = filter (\<lambda>e. startKey \<le> fst e) (perm_entries ?n)" by blast
  have "nat (rng - int (length rv)) = nat rng - length rv" by simp
  then show ?thesis
    using nx todo i scan_loop_take[OF so r(2,3), of i "nat rng - length rv" rv]
    by (auto simp: ListNode_scan_def Let_def refreshed_def[symmetric] range_values_def pe take_map)
qed

section \<open>Scanning the list\<close>

text \<open>A scan changes nothing but the caches of the nodes it visits.\<close>

definition scanned :: "'k::linorder cells \<Rightarrow> 'k cells \<Rightarrow> bool" where
  "scanned L L' \<longleftrightarrow> list_all2 (\<lambda>(a, n) (b, m). a = b \<and> (m = n \<or> m = refreshed n)) L L'"

lemma scanned_simps [simp]: "scanned [] L' \<longleftrightarrow> L' = []"
  "scanned ((a, n) # L) L' \<longleftrightarrow> (\<exists>m M. L' = (a, m) # M \<and> (m = n \<or> m = refreshed n) \<and> scanned L M)"
  by (auto simp: scanned_def list_all2_Cons1)

lemma scanned_refl [simp]: "scanned L L"
  by (auto simp: scanned_def list_all2_same)

lemma scanned_append: "scanned (L @ M) N \<longleftrightarrow> (\<exists>L' M'. N = L' @ M' \<and> scanned L L' \<and> scanned M M')"
proof (induction L arbitrary: N)
  case (Cons e L)
  obtain a n where e: "e = (a, n)" by (cases e)
  show ?case unfolding e append_Cons scanned_simps Cons.IH by (metis append_Cons)
qed auto

lemma scanned_hdaddr: "scanned L L' \<Longrightarrow> hdaddr L' q = hdaddr L q"
  by (cases L) auto

lemma scanned_same:
  "scanned L L' \<Longrightarrow> map fst L' = map fst L \<and> dl_map L' = dl_map L \<and> anchor_map L' = anchor_map L \<and>
     chain p lo L' q hi = chain p lo L q hi \<and> (cells_ok_by fp f L \<longrightarrow> cells_ok_by fp f L')"
proof (induction L arbitrary: L' p lo)
  case (Cons e L)
  obtain a n where e: "e = (a, n)" by (cases e)
  obtain m M where L': "L' = (a, m) # M" "m = n \<or> m = refreshed n" "scanned L M"
    using Cons.prems by (auto simp: e)
  have "map fst M = map fst L \<and> dl_map M = dl_map L \<and> anchor_map M = anchor_map L \<and>
     chain (Some a) (max_k n) M q hi = chain (Some a) (max_k n) L q hi \<and> (cells_ok_by fp f L \<longrightarrow> cells_ok_by fp f M)"
    using Cons.IH[OF L'(3)] .
  then show ?case
    using L'(2) refreshed_ok(1) scanned_hdaddr[OF L'(3), of q] by (auto simp: e L'(1))
qed simp

text \<open>
  The binary search in a node looks at the first index of the cache even if the node is empty, and then that
  index was perhaps never written. \<open>stray_index k L\<close>: the node that covers \<open>k\<close>, and does not begin with it, is empty
  and its memory holds an index outside of the array there.
\<close>

definition stray_index :: "'k::linorder \<Rightarrow> 'k cells \<Rightarrow> bool" where
  "stray_index k L \<longleftrightarrow> (\<exists>(a, n) \<in> set L. min_k n < k \<and> k < max_k n \<and> nslots n = {} \<and> MAX_ENTRIES \<le> unat (permuter n ! 0))"

text \<open>How a scan of \<open>rng\<close> values from \<open>k\<close> on fails: a negative range ends in the assertion of \<open>ListNode::scan\<close>.\<close>

definition scan_fault :: "'k::linorder \<Rightarrow> int \<Rightarrow> 'k cells \<Rightarrow> fault option" where
  "scan_fault k rng L = (if rng < 0 then Some AssertFail else if 0 < rng \<and> stray_index k L then Some BadAccess else None)"

definition perm_readable :: "'k::linorder \<Rightarrow> 'k cells \<Rightarrow> bool" where
  "perm_readable k L \<longleftrightarrow> (\<forall>(a, n) \<in> set L. nslots n = {} \<and> min_k n < k \<longrightarrow> unat (permuter n ! 0) < MAX_ENTRIES)"

lemma chain_bounds: "chain p lo L q hi \<Longrightarrow> (a, n) \<in> set L \<Longrightarrow> lo \<le> min_k n \<and> max_k n \<le> hi"
proof (induction L arbitrary: p lo)
  case (Cons e L)
  obtain b m where e: "e = (b, m)" by (cases e)
  show ?case
  proof (cases "(a, n) = e")
    case True
    then show ?thesis using Cons.prems chain_le by (fastforce simp: e)
  next
    case False
    then have "max_k m \<le> min_k n \<and> max_k n \<le> hi" using Cons by (auto simp: e)
    moreover have "lo < max_k m" using Cons.prems by (simp add: e)
    ultimately show ?thesis by auto
  qed
qed simp

lemma stray_index_covering:
  assumes "chain p lo (L1 @ (c, n) # L2) q hi" "min_k n \<le> k" "k < max_k n"
  shows "stray_index k (L1 @ (c, n) # L2) \<longleftrightarrow> min_k n < k \<and> nslots n = {} \<and> MAX_ENTRIES \<le> unat (permuter n ! 0)"
    "\<not> stray_index k (L1 @ (c, n) # L2) \<Longrightarrow> perm_readable k ((c, n) # L2)"
proof -
  have ch: "chain p lo L1 c (min_k n)" "chain (Some c) (max_k n) L2 q hi" using assms(1) by (auto simp: chain_append)
  have L1: "max_k m \<le> k" if "(a, m) \<in> set L1" for a m using chain_bounds[OF ch(1) that] assms(2) by auto
  have L2: "k < min_k m" if "(a, m) \<in> set L2" for a m using chain_bounds[OF ch(2) that] assms(3) by auto
  show st: "stray_index k (L1 @ (c, n) # L2) \<longleftrightarrow> min_k n < k \<and> nslots n = {} \<and> MAX_ENTRIES \<le> unat (permuter n ! 0)"
  proof
    assume "stray_index k (L1 @ (c, n) # L2)"
    then obtain a m where m: "(a, m) \<in> set (L1 @ (c, n) # L2)" "min_k m < k" "k < max_k m" "nslots m = {}" "MAX_ENTRIES \<le> unat (permuter m ! 0)"
      by (auto simp: stray_index_def)
    have "(a, m) \<notin> set L1" "(a, m) \<notin> set L2" using L1[of a m] L2[of a m] m(2,3) by auto
    then show "min_k n < k \<and> nslots n = {} \<and> MAX_ENTRIES \<le> unat (permuter n ! 0)" using m by auto
  qed (use assms(3) in \<open>auto simp: stray_index_def\<close>)
  show "\<not> stray_index k (L1 @ (c, n) # L2) \<Longrightarrow> perm_readable k ((c, n) # L2)"
    unfolding st perm_readable_def using L2 by (auto simp: not_le dest: less_not_sym)
qed

lemma finite_dl_map [simp]: "finite (dom (dl_map L))"
  by (induction L) auto

lemma range_values_cons:
  assumes "chain p lo ((a, n) # L) q hi" "cells_ok_by fp f ((a, n) # L)"
  shows "range_values k (dl_map ((a, n) # L)) = range_values k (node_map n) @ range_values k (dl_map L)"
proof -
  have "dom (dl_map L) \<subseteq> {x. max_k n \<le> x \<and> x < hi}" "dom (node_map n) \<subseteq> {x. min_k n \<le> x \<and> x < max_k n}"
    using dl_map_range[of "Some a" "max_k n" L q hi fp f] assms by (auto simp: node_ok_by_def dom_node_map)
  then have "x < y" if "x \<in> dom (node_map n)" "y \<in> dom (dl_map L)" for x y
    using that by (force intro: less_le_trans)
  from range_values_add[OF finite_node_map finite_dl_map this] show ?thesis by simp
qed

lemma scanNodes_tail:
  assumes "nodes s q = Some t" "tail_ok_by hi t"
  shows "scanNodes k rng rv False (Some q) s = Some (Inr (False, rv, s))"
proof -
  have put: "putNode q t s = s" using assms(1) by (simp add: putNode_def fun_upd_idem)
  have "readLock t = version (verLock t)" "version (verLock t) \<noteq> 0" "readUnlock (version (verLock t)) t"
    using assms(2) by (auto simp: tail_ok_by_def unlocked_def readLock_def read_lock_eq readUnlock_def read_unlock_def)
  moreover have "scanNodes k rng rv True c s = Some (Inr (False, rv, s))" for c
    by (subst scanNodes.simps) simp
  ultimately show ?thesis
    using assms put by (subst scanNodes.simps) (simp add: tail_ok_by_def ListNode_scan_def)
qed

lemma scanNodes_node:
  assumes "nodes s a = Some n" "node_ok_by fp f n" "next_p n \<noteq> None" "int (length rv) < rng"
    and "nslots n = {} \<and> min_k n < k \<longrightarrow> unat (permuter n ! 0) < MAX_ENTRIES"
    and rv': "rv' = rv @ take (nat rng - length rv) (range_values k (node_map n))"
  shows "scanNodes k rng rv False (Some a) s
    = scanNodes k rng rv' (int (length rv') = rng) (next_p n) (putNode a (refreshed n) s)"
  using ListNode_scan_ok[OF assms(2-5)] readLock_ok[OF assms(2)] assms
  by (subst scanNodes.simps) (auto simp: moreWanted_def node_ok_by_def readUnlock_def read_unlock_def)

lemma scanNodes_stop:
  "rng = int (length rv) \<Longrightarrow> scanNodes k rng rv d c s = Some (Inr (False, rv, s))"
  by (subst scanNodes.simps) (simp add: moreWanted_def)

text \<open>What the loop over the nodes leaves behind, started at the first node of \<open>L\<close>.\<close>

definition scan_post_by :: "'k::linorder \<Rightarrow> 'k cells \<Rightarrow> addr \<Rightarrow> 'k hstate_of \<Rightarrow> 'k cells \<Rightarrow> 'k hstate_of \<Rightarrow> bool" where
  "scan_post_by hi L q s L' s' \<longleftrightarrow> s' = s\<lparr>nodes := nodes s'\<rparr> \<and> scanned L L' \<and> rest_ok_by hi (nodes s') L' q \<and>
     (\<forall>a. a \<notin> fst ` set L \<longrightarrow> nodes s' a = nodes s a)"

lemma scan_post_sel:
  assumes "scan_post_by hi L q s L' s'"
  shows "oplogs s' = oplogs s" "curQ s' = curQ s" "nmalloc s' = nmalloc s" "raw s' = raw s" "nallocs s' = nallocs s"
proof -
  define H where "H = nodes s'"
  have "s' = s\<lparr>nodes := H\<rparr>" using assms by (simp add: scan_post_by_def H_def)
  then show "oplogs s' = oplogs s" "curQ s' = curQ s" "nmalloc s' = nmalloc s" "raw s' = raw s" "nallocs s' = nallocs s"
    by simp_all
qed

lemma scan_post_refl: "rest_ok_by hi (nodes s) L q \<Longrightarrow> scan_post_by hi L q s L s"
  by (simp add: scan_post_by_def)

lemma scan_post_cons:
  assumes "scan_post_by hi L q (putNode a (refreshed n) s) L' s'" "a \<notin> fst ` set L" "a \<noteq> q" "nodes s a = Some n"
  shows "scan_post_by hi ((a, n) # L) q s ((a, refreshed n) # L') s'"
proof -
  have fst: "map fst L' = map fst L" using assms(1) scanned_same[of L L'] by (auto simp: scan_post_by_def)
  then have "a \<notin> fst ` set L'" using assms(2) by (metis list.set_map)
  then show ?thesis
    using assms unfolding scan_post_by_def rest_ok_by_def by (cases s') (auto simp: putNode_def)
qed

lemma scanNodes_ok:
  assumes "chain p lo L q hi" "cells_ok_by fp f L" "rest_ok_by hi (nodes s) L q" "perm_readable k L"
    and "int (length rv) \<le> rng"
  shows "\<exists>L' s'. scanNodes k rng rv False (Some (hdaddr L q)) s
      = Some (Inr (False, take (nat rng) (rv @ range_values k (dl_map L)), s')) \<and> scan_post_by hi L q s L' s'"
  using assms
proof (induction L arbitrary: p lo s rv)
  case Nil
  then show ?case
    using scanNodes_tail[of s q] scan_post_refl[OF Nil(3)]
    by (auto simp: rest_ok_by_def range_values_def map_entries_def intro!: exI[of _ s])
next
  case (Cons e L)
  obtain a n where e: "e = (a, n)" by (cases e)
  have n: "nodes s a = Some n" "node_ok_by fp f n" "next_p n = Some (hdaddr L q)" "a \<notin> fst ` set L" "a \<noteq> q"
      "nslots n = {} \<and> min_k n < k \<longrightarrow> unat (permuter n ! 0) < MAX_ENTRIES"
    using Cons.prems by (auto simp: e rest_ok_by_def perm_readable_def)
  have vals: "range_values k (dl_map (e # L)) = range_values k (node_map n) @ range_values k (dl_map L)"
    using range_values_cons Cons.prems(1,2) unfolding e by blast
  let ?s = "putNode a (refreshed n) s"
  have rest: "rest_ok_by hi (nodes ?s) L q" using Cons.prems(3) n by (simp add: e rest_ok_by_def)
  show ?case
  proof (cases "int (length rv) = rng")
    case True
    then show ?thesis
      using scanNodes_stop[of rng rv k False "Some (fst e)" s] scan_post_refl[OF Cons.prems(3)] by auto
  next
    case False
    then have lt: "int (length rv) < rng" using Cons.prems(5) by simp
    define rv1 where "rv1 = rv @ take (nat rng - length rv) (range_values k (node_map n))"
    have step: "scanNodes k rng rv False (Some a) s
        = scanNodes k rng rv1 (int (length rv1) = rng) (Some (hdaddr L q)) ?s"
      using scanNodes_node[OF n(1,2) _ lt n(6) rv1_def] n(3) by simp
    have len: "int (length rv1) \<le> rng" using lt by (simp add: rv1_def)
    have rv: "take (nat rng) (rv @ range_values k (dl_map (e # L))) = take (nat rng) (rv1 @ range_values k (dl_map L))"
      unfolding vals rv1_def using lt by (auto simp: take_append min_def)
    show ?thesis
    proof (cases "int (length rv1) = rng")
      case True
      then have "scanNodes k rng rv False (Some a) s = Some (Inr (False, rv1, ?s))"
        unfolding step by (intro scanNodes_stop) simp
      moreover have "take (nat rng) (rv1 @ range_values k (dl_map L)) = rv1" using True by auto
      moreover have "scan_post_by hi (e # L) q s ((a, refreshed n) # L) ?s"
        unfolding e using scan_post_cons[OF scan_post_refl[OF rest] n(4,5,1)] .
      ultimately show ?thesis using rv by (auto simp: e)
    next
      case False
      obtain L' s' where "scanNodes k rng rv1 False (Some (hdaddr L q)) ?s
          = Some (Inr (False, take (nat rng) (rv1 @ range_values k (dl_map L)), s'))" "scan_post_by hi L q ?s L' s'"
        using Cons.IH[OF _ _ rest _ len, of "Some a" "max_k n"] Cons.prems by (auto simp: e perm_readable_def)
      moreover have "scan_post_by hi (e # L) q s ((a, refreshed n) # L') s'"
        unfolding e using scan_post_cons[OF calculation(2) n(4,5,1)] .
      ultimately show ?thesis
        using step False rv by (auto simp: e)
    qed
  qed
qed

lemma range_values_skip:
  assumes "dom m \<subseteq> {x. x < k}" "finite (dom m)" "finite (dom m')" "\<And>x y. x \<in> dom m \<Longrightarrow> y \<in> dom m' \<Longrightarrow> x < y"
  shows "range_values k (m ++ m') = range_values k m'"
proof -
  have "range_values k m = []"
    using assms(1,2) by (auto simp: range_values_def map_entries_def filter_empty_conv not_le)
  then show ?thesis using range_values_add[OF assms(2-4)] by simp
qed

lemma dl_inv_scanned:
  assumes inv: "dl_inv_by fp lo hi f (L1 @ M) q s" and M: "M \<noteq> []" and post: "scan_post_by hi M q s M' s'"
  shows "dl_inv_by fp lo hi f (L1 @ M') q s'"
proof -
  have sc: "scanned (L1 @ M) (L1 @ M')" using post scanned_refl unfolding scan_post_by_def scanned_append by blast
  note same = scanned_same[OF sc, of None lo q hi fp f]
  have fsts: "fst ` set M' = fst ` set M"
    using post scanned_same[of M M'] by (metis list.set_map scan_post_by_def)
  have rest: "holds (nodes s') M'" "q \<notin> fst ` set M'" "\<exists>t. nodes s' q = Some t \<and> tail_ok_by hi t"
    using post by (auto simp: scan_post_by_def rest_ok_by_def)
  have out: "nodes s' a = nodes s a" if "a \<notin> fst ` set M" for a
    using post that by (simp add: scan_post_by_def)
  have L1: "holds (nodes s) L1" "holds (nodes s) M" "fst ` set L1 \<inter> fst ` set M = {}" "q \<notin> fst ` set L1"
    using inv unfolding dl_inv_by_def holds_append by (auto simp: image_Un)
  have "holds (nodes s') L1"
    using L1(1,3) out unfolding holds_def by (metis (mono_tags, lifting) case_prod_beta disjoint_iff image_eqI)
  moreover have "dom (nodes s') = dom (nodes s)"
  proof -
    have "a \<in> dom (nodes s') \<longleftrightarrow> a \<in> dom (nodes s)" for a
      using out[of a] holds_dom[OF L1(2), of a] holds_dom[OF rest(1), of a] fsts by (cases "a \<in> fst ` set M") (auto simp: domIff)
    then show ?thesis by blast
  qed
  ultimately have "holds (nodes s') L1" "alloc_ok s'"
    using inv alloc_ok_cong[of s s'] scan_post_sel[OF post] by (auto simp: dl_inv_by_def)
  moreover have "M' \<noteq> []" using fsts M by auto
  ultimately show ?thesis
    using inv same rest L1 fsts unfolding dl_inv_by_def by (simp add: holds_append image_Un)
qed

text \<open>The scan of the first node decides whether the scan fails.\<close>

lemma ListNode_scan_fault:
  assumes "node_ok_by fp f n" "next_p n \<noteq> None"
    and "rng < 0 \<and> e = AssertFail \<or>
      0 < rng \<and> min_k n < k \<and> nslots n = {} \<and> MAX_ENTRIES \<le> unat (permuter n ! 0) \<and> e = BadAccess"
  shows "ListNode_scan k rng [] (version (verLock n)) n = Inl e"
proof (cases "rng < 0")
  case True
  then show ?thesis using assms(2,3) by (simp add: ListNode_scan_def)
next
  case False
  then have n: "0 < rng" "min_k n < k" "nslots n = {}" "MAX_ENTRIES \<le> unat (permuter n ! 0)" "e = BadAccess" using assms(3) by auto
  have so: "slots_ok_by fp n" using assms(1) by (simp add: node_ok_by_def)
  have "permuter (refreshed n) = permuter n" using refreshed_ok(4)[OF assms(1) n(3)] .
  then have "permEntry (refreshed n) 0 = Inl BadAccess"
    using n(4) slots_ok_length[OF so] by (simp add: permEntry_def)
  moreover have "unat (numEntries n) = 0" using numEntries_card[OF so] n(3) by simp
  ultimately have "permuterLowerBound k (refreshed n) = Inl BadAccess"
    by (simp add: permuterLowerBound_def permuterLowerBound_loop.simps)
  then show ?thesis
    using assms(2) n by (simp add: ListNode_scan_def Let_def refreshed_def[symmetric])
qed

lemma scan_fault_covering:
  assumes inv: "dl_inv_by fp lo hi f (L1 @ (c, n) # L2) q s" and k: "min_k n \<le> k" "k < max_k n" and flt: "scan_fault k rng (L1 @ (c, n) # L2) = Some e"
  shows "ListNode_scan k rng [] (version (verLock n)) n = Inl e" "rng \<noteq> 0"
proof -
  have n: "chain None lo (L1 @ (c, n) # L2) q hi" "node_ok_by fp f n" "next_p n \<noteq> None"
    using inv by (auto simp: dl_inv_by_def chain_append)
  show "rng \<noteq> 0" using flt by (auto simp: scan_fault_def split: if_splits)
  show "ListNode_scan k rng [] (version (verLock n)) n = Inl e"
    using ListNode_scan_fault[OF n(2,3), of rng e k] stray_index_covering(1)[OF n(1) k] flt
    by (auto simp: scan_fault_def split: if_splits)
qed

lemma scanNodes_fault:
  assumes inv: "dl_inv_by fp lo hi f L q s" and a: "a \<in> fst ` set L" and k: "lo \<le> k \<and> k < hi" and flt: "scan_fault k rng L = Some e"
  shows "\<exists>c. findNode k (Some a) s = Some (Inr c) \<and> scanNodes k rng [] False (Some c) s = Some (Inl e)"
proof -
  obtain L1 c n L2 where c: "L = L1 @ (c, n) # L2" "findNode k (Some a) s = Some (Inr c)" "nodes s c = Some n" "node_ok_by fp f n"
      "min_k n \<le> k" "k < max_k n"
    using covering_node_by[OF inv a k] by metis
  note bad = scan_fault_covering[OF inv[unfolded c(1)] c(5,6) flt[unfolded c(1)]]
  have "scanNodes k rng [] False (Some c) s = Some (Inl e)"
    using bad readLock_ok[OF c(4)] c(3,4) by (subst scanNodes.simps) (auto simp: moreWanted_def node_ok_by_def)
  then show ?thesis using c(2) by blast
qed

lemma scanNodes_covering:
  assumes inv: "dl_inv_by fp lo hi f L q s" and a: "a \<in> fst ` set L" and k: "lo \<le> k \<and> k < hi"
    and none: "scan_fault k rng L = None"
  shows "\<exists>c L' s'. findNode k (Some a) s = Some (Inr c) \<and>
    scanNodes k rng [] False (Some c) s = Some (Inr (False, take (nat rng) (range_values k (dl_map L)), s')) \<and>
    dl_inv_by fp lo hi f L' q s' \<and> scanned L L' \<and> oplogs s' = oplogs s \<and> curQ s' = curQ s"
proof -
  obtain L1 c n L2 where c: "L = L1 @ (c, n) # L2" "checkRange k n" "findNode k (Some a) s = Some (Inr c)"
      "min_k n \<le> k" "k < max_k n"
    using covering_node_by[OF inv a k] by metis
  let ?M = "(c, n) # L2"
  have ch: "chain None lo L1 c (min_k n)" "chain (lastptr None L1) (min_k n) ?M q hi"
      "cells_ok_by fp f L1" "cells_ok_by fp f ?M" "rest_ok_by hi (nodes s) ?M q"
    using inv unfolding c(1) dl_inv_by_def rest_ok_by_def holds_append
    by (auto simp: chain_append image_Un)
  have rng: "0 \<le> rng" "rng = 0 \<or> perm_readable k ?M"
    using none stray_index_covering(2)[of None lo L1 c n L2 q hi k] inv c(4,5) unfolding c(1) by (auto simp: scan_fault_def dl_inv_by_def split: if_splits)
  obtain M' s' where run: "scanNodes k rng [] False (Some c) s
      = Some (Inr (False, take (nat rng) (range_values k (dl_map ?M)), s'))" and post: "scan_post_by hi ?M q s M' s'"
  proof (cases "rng = 0")
    case True
    then show ?thesis using that[of s ?M] scanNodes_stop[of 0 "[]" k False "Some c" s] scan_post_refl[OF ch(5)] by simp
  next
    case False
    then show ?thesis using that scanNodes_ok[OF ch(2,4,5), of k "[]" rng] rng by auto
  qed
  have below: "dom (dl_map L1) \<subseteq> {x. lo \<le> x \<and> x < min_k n}" "dom (dl_map ?M) \<subseteq> {x. min_k n \<le> x \<and> x < hi}"
    using dl_map_range[OF ch(1,3)] dl_map_range[OF ch(2,4)] by blast+
  have "range_values k (dl_map L) = range_values k (dl_map ?M)"
    unfolding c(1) dl_map_simps(3)
    by (rule range_values_skip) (use below c(4) in \<open>auto intro: less_le_trans dest!: subsetD\<close>)
  then have "scanNodes k rng [] False (Some c) s = Some (Inr (False, take (nat rng) (range_values k (dl_map L)), s'))"
    using run by simp
  moreover have "dl_inv_by fp lo hi f (L1 @ M') q s'"
    using dl_inv_scanned[OF inv[unfolded c(1)] _ post] by simp
  moreover have "scanned L (L1 @ M')"
    unfolding c(1) scanned_append using post scanned_refl unfolding scan_post_by_def by blast
  moreover have "oplogs s' = oplogs s" "curQ s' = curQ s"
    using scan_post_sel[OF post] by auto
  ultimately show ?thesis using c(3) by blast
qed

lemma LinkedList_scan_refines_by:
  assumes "dl_inv_by fp lo hi f L q s" "a \<in> fst ` set L" "lo \<le> k \<and> k < hi"
  shows "case scan_fault k rng L of Some e \<Rightarrow> LinkedList_scan k rng (Some a) s = Some (Inl e)
    | None \<Rightarrow> (\<exists>L' s'. LinkedList_scan k rng (Some a) s = Some (Inr (take (nat rng) (range_values k (dl_map L)), s')) \<and>
        dl_inv_by fp lo hi f L' q s' \<and> scanned L L' \<and> oplogs s' = oplogs s \<and> curQ s' = curQ s)"
proof (cases "scan_fault k rng L")
  case None
  then show ?thesis using scanNodes_covering[OF assms None] by (simp, subst LinkedList_scan.simps) auto
next
  case (Some e)
  then show ?thesis using scanNodes_fault[OF assms Some] by (simp, subst LinkedList_scan.simps) auto
qed

lemmas LinkedList_scan_refines = LinkedList_scan_refines_by[where fp = getKeyFingerPrint and lo = 0 and hi = ULLONG_MAX, OF _ _ below_ULLONG_MAX]

end
