(* ===== verification/ListTheorems.thy ===== *)
theory ListTheorems
  imports ScanRefinement
begin

text \<open>
  The contract of the data list, one theorem per operation, with the concrete list that the
  operations run on in the witnesses: the one \<open>initialize\<close> builds in an empty heap.
\<close>

section \<open>A concrete list\<close>

definition blank :: ListNode where
  "blank = \<lparr>min_k = 0, max_k = 0, numEntries = 0, next_p = None, prev_p = None, deleted = False,
     bitMap = \<lparr>bits0 = 0, bits1 = 0\<rparr>, fingerPrint = replicate MAX_ENTRIES 0, verLock = \<lparr>version = 0\<rparr>,
     keyArray = replicate MAX_ENTRIES (0, 0), lastScanVersion = 0, permuter = replicate MAX_ENTRIES 0\<rparr>"

definition boot :: hstate where
  "boot = \<lparr>nodes = Map.empty, nmalloc = (\<lambda>i. i), raw = (\<lambda>_. blank), nallocs = 0, oplogs = Map.empty,
     curQ = 0, rdtscp = (\<lambda>i. word_of_nat i), clkReads = 0, opmalloc = (\<lambda>i. i), opallocs = 0\<rparr>"

definition boot_list :: hstate where
  "boot_list = snd (projr (LinkedList_initialize 0 boot))"

definition boot_cells :: "Key_t cells" where
  "boot_cells = [(0, the (nodes boot_list 0))]"

lemma alloc_ok_boot: "alloc_ok boot"
  by (simp add: alloc_ok_def boot_def arrays_sized_def blank_def)

lemma boot_list_inv:
  assumes "2 * f + 2 < 2 ^ 64"
  shows "dl_inv f boot_cells 1 boot_list \<and> dl_map boot_cells = [0 \<mapsto> 0] \<and> (\<forall>k. \<not> stray_index k boot_cells) \<and>
    anchor_map boot_cells = [0 \<mapsto> 0]"
proof -
  obtain n s' where init: "LinkedList_initialize 0 boot = Inr (0, s')" "dl_inv f [(0, n)] 1 s'"
      "node_map n = [0 \<mapsto> 0]" "min_k n = 0"
    using LinkedList_initialize_ok[OF alloc_ok_boot assms, of 0] by (auto simp: boot_def)
  then have "boot_list = s'" "nodes s' 0 = Some n" by (auto simp: boot_list_def dl_inv_def)
  moreover have "nslots n \<noteq> {}"
    using init(3) dom_node_map[of n] by (auto simp: node_keys_def)
  ultimately show ?thesis
    using init by (simp add: boot_cells_def stray_index_def)
qed

lemma boot_list_ok:
  "dl_inv 1000 boot_cells 1 boot_list" "dl_map boot_cells = [0 \<mapsto> 0]" "\<not> stray_index k boot_cells"
  "0 \<in> fst ` set boot_cells"
  using boot_list_inv[of 1000] by (simp_all add: boot_cells_def)

section \<open>The operations\<close>

text \<open>
  C1. \<open>LinkedList::insert\<close> from any live node and for any key below \<open>ULLONG_MAX\<close> returns.
  It returns true exactly if the key was not there, and then the list holds the new entry and
  all the old ones; otherwise it is unchanged. The list stays well formed, also over a split,
  no node leaves it, and the entries the thread appends to its log turn the old map of anchors
  into the new one.
\<close>

theorem LinkedList_insert_correct:
  assumes "dl_inv (Suc f) L q s" "a \<in> fst ` set L" "k \<noteq> ULLONG_MAX"
  shows "\<exists>L' es s'. LinkedList_insert getKeyFingerPrint t k v (Some a) s = Some (Inr (dl_map L k = None, s')) \<and>
    dl_inv f L' q s' \<and> dl_map L' = (if dl_map L k = None then (dl_map L)(k \<mapsto> v) else dl_map L) \<and>
    fst ` set L \<subseteq> fst ` set L' \<and> appended t es s s' \<and>
    anchor_map L' = fold (replay \<circ> snd) es (anchor_map L)"
  using LinkedList_insert_refines[OF assms, of t v] unfolding wrote_def by blast

theorem LinkedList_insert_correct_witness:
  "\<exists>L' s'. LinkedList_insert getKeyFingerPrint 0 5 7 (Some 0) boot_list = Some (Inr (True, s')) \<and>
    dl_inv 999 L' 1 s' \<and> dl_map L' = [0 \<mapsto> 0, 5 \<mapsto> 7]"
proof -
  have "dl_inv (Suc 999) boot_cells 1 boot_list" "(5 :: Key_t) \<noteq> ULLONG_MAX"
    using boot_list_ok(1) by simp_all
  from LinkedList_insert_correct[OF this(1) boot_list_ok(4) this(2), of 0 7] show ?thesis
    by (auto simp: boot_list_ok(2))
qed

text \<open>
  C2. \<open>LinkedList::remove\<close> from any live node returns; it returns true exactly if the key was
  there, and afterwards the list holds all entries but that one. The list stays well formed when
  the node is merged with its successor or its predecessor, the head stays, and the log entry
  names the node that went away.
\<close>

theorem LinkedList_remove_correct:
  assumes "dl_inv (Suc f) L q s" "a \<in> fst ` set L" "k \<noteq> ULLONG_MAX"
  shows "\<exists>L' es s'. LinkedList_remove getKeyFingerPrint t k (Some a) s = Some (Inr (dl_map L k \<noteq> None, s')) \<and>
    dl_inv f L' q s' \<and> dl_map L' = (dl_map L)(k := None) \<and> hdaddr L' q = hdaddr L q \<and>
    appended t es s s' \<and> anchor_map L' = fold (replay \<circ> snd) es (anchor_map L)"
  using LinkedList_remove_refines[OF assms, of t] unfolding wrote_def by blast

theorem LinkedList_remove_correct_witness:
  "\<exists>L' s'. LinkedList_remove getKeyFingerPrint 0 0 (Some 0) boot_list = Some (Inr (True, s')) \<and>
    dl_inv 999 L' 1 s' \<and> dl_map L' = Map.empty"
proof -
  have "dl_inv (Suc 999) boot_cells 1 boot_list" "(0 :: Key_t) \<noteq> ULLONG_MAX"
    using boot_list_ok(1) by simp_all
  from LinkedList_remove_correct[OF this(1) boot_list_ok(4) this(2), of 0] show ?thesis
    by (auto simp: boot_list_ok(2))
qed

text \<open>
  C4. \<open>LinkedList::lookup\<close> from any live node returns the value of the key, or that there is
  none.
\<close>

theorem LinkedList_lookup_correct:
  assumes "dl_inv f L q s" "a \<in> fst ` set L" "k \<noteq> ULLONG_MAX"
  shows "LinkedList_lookup getKeyFingerPrint k (Some a) s = Some (Inr (dl_map L k))"
  by (rule LinkedList_lookup_refines[OF assms])

theorem LinkedList_lookup_correct_witness:
  "LinkedList_lookup getKeyFingerPrint 0 (Some 0) boot_list = Some (Inr (Some 0)) \<and>
   LinkedList_lookup getKeyFingerPrint 5 (Some 0) boot_list = Some (Inr None)"
  using LinkedList_lookup_correct[OF boot_list_ok(1) boot_list_ok(4), of 0]
    LinkedList_lookup_correct[OF boot_list_ok(1) boot_list_ok(4), of 5]
  by (simp add: boot_list_ok(2))

text \<open>
  \<open>LinkedList::update\<close> from any live node returns; it returns true exactly if the key was
  there, and then its value is the new one. No node comes or goes and nothing is logged.
\<close>

theorem LinkedList_update_correct:
  assumes "dl_inv (Suc f) L q s" "a \<in> fst ` set L" "k \<noteq> ULLONG_MAX"
  shows "\<exists>L' s'. LinkedList_update getKeyFingerPrint k v (Some a) s = Some (Inr (dl_map L k \<noteq> None, s')) \<and>
    dl_inv f L' q s' \<and> dl_map L' = (if dl_map L k = None then dl_map L else (dl_map L)(k \<mapsto> v)) \<and>
    map fst L' = map fst L"
  using LinkedList_update_refines[OF assms, of v] unfolding wrote_def by blast

theorem LinkedList_update_correct_witness:
  "\<exists>L' s'. LinkedList_update getKeyFingerPrint 0 9 (Some 0) boot_list = Some (Inr (True, s')) \<and>
    dl_inv 999 L' 1 s' \<and> dl_map L' = [0 \<mapsto> 9]"
proof -
  have "dl_inv (Suc 999) boot_cells 1 boot_list" "(0 :: Key_t) \<noteq> ULLONG_MAX"
    using boot_list_ok(1) by simp_all
  from LinkedList_update_correct[OF this(1) boot_list_ok(4) this(2), of 9] show ?thesis
    by (auto simp: boot_list_ok(2))
qed

text \<open>
  C5. \<open>LinkedList::scan\<close> from any live node, for any start key but \<open>ULLONG_MAX\<close> and any range. A negative range ends in the
  assertion of \<open>ListNode::scan\<close>. If the node that covers the start key is empty, does not begin with it, and the memory of its
  permutation cache, which such a node never wrote, begins with an index that is outside of the array, a scan of at least one value
  reads outside of the array (\<open>scan_fault\<close>). In all other cases it returns the values of the smallest keys that are not below the start
  key, in the order of the keys, as many as were asked for or as there are, and changes nothing
  but the permutation caches of the nodes it visits.
\<close>

theorem LinkedList_scan_correct:
  assumes "dl_inv f L q s" "a \<in> fst ` set L" "k \<noteq> ULLONG_MAX"
  shows "case scan_fault k rng L of
      Some e \<Rightarrow> LinkedList_scan k rng (Some a) s = Some (Inl e)
    | None \<Rightarrow> (\<exists>L' s'. LinkedList_scan k rng (Some a) s = Some (Inr (take (nat rng) (range_values k (dl_map L)), s')) \<and>
        dl_inv f L' q s' \<and> dl_map L' = dl_map L \<and> map fst L' = map fst L)"
  using LinkedList_scan_refines[OF assms, of rng] scanned_same by (fastforce split: option.splits)

theorem LinkedList_scan_correct_witness:
  "(\<exists>s'. LinkedList_scan 0 10 (Some 0) boot_list = Some (Inr ([0], s'))) \<and>
   LinkedList_scan 0 (-1) (Some 0) boot_list = Some (Inl AssertFail)"
proof -
  have "range_values (0 :: Key_t) (dl_map boot_cells) = [0]"
    by (simp add: boot_list_ok(2) range_values_def map_entries_def)
  with LinkedList_scan_correct[OF boot_list_ok(1,4), of 0 10] LinkedList_scan_correct[OF boot_list_ok(1,4), of 0 "-1"] show ?thesis
    by (auto simp: scan_fault_def boot_list_ok(3))
qed

text \<open>
  \<open>LinkedList::initialize\<close> builds a well-formed list of one node between 0 and the tail.
  It holds the single entry 0 with value 0, and logs nothing.
\<close>

theorem LinkedList_initialize_correct:
  assumes "alloc_ok s" "2 * f + 2 < 2 ^ 64"
  shows "\<exists>h q n s'. LinkedList_initialize t s = Inr (h, s') \<and> dl_inv f [(h, n)] q s' \<and>
    dl_map [(h, n)] = [0 \<mapsto> 0] \<and> oplogs s' = oplogs s"
  using LinkedList_initialize_ok[OF assms, of t] by auto

theorem LinkedList_initialize_correct_witness:
  "\<exists>h q n s'. LinkedList_initialize 0 boot = Inr (h, s') \<and> dl_inv 1000 [(h, n)] q s' \<and>
    dl_map [(h, n)] = [0 \<mapsto> 0]"
  using LinkedList_initialize_correct[OF alloc_ok_boot, of 1000 0] by auto

text \<open>\<open>LinkedList::probe\<close> from any live node tells whether the key is there.\<close>

theorem LinkedList_probe_correct:
  assumes "dl_inv f L q s" "a \<in> fst ` set L" "k \<noteq> ULLONG_MAX"
  shows "LinkedList_probe getKeyFingerPrint k (Some a) s = Some (Inr (dl_map L k \<noteq> None))"
  by (rule LinkedList_probe_refines[OF assms])

theorem LinkedList_probe_correct_witness:
  "LinkedList_probe getKeyFingerPrint 0 (Some 0) boot_list = Some (Inr True) \<and>
   LinkedList_probe getKeyFingerPrint 5 (Some 0) boot_list = Some (Inr False)"
  using LinkedList_probe_correct[OF boot_list_ok(1) boot_list_ok(4), of 0]
    LinkedList_probe_correct[OF boot_list_ok(1) boot_list_ok(4), of 5]
  by (simp add: boot_list_ok(2))

end
