(* ===== verification/NodeTheorems.thy ===== *)
theory NodeTheorems
  imports ListTheorems
begin

text \<open>
  Theorems on single nodes and on the limits of the data list: the vectorised searches agree
  with the portable ones, a split halves a node, the number of nodes, and the inputs for which
  the code fails or never returns.
\<close>

section \<open>The searches\<close>

text \<open>
  C13. On every well-formed node the AVX-512 searches compiled for 64 entries return what the
  portable loops return, for the slot of a key and for a free slot.
\<close>

theorem getKeyIndex_64_portable:
  assumes "slots_ok n"
  shows "getKeyIndex k (getKeyFingerPrint k) n = getKeyIndex_portable 64 k (getKeyFingerPrint k) n \<and>
    getFreeIndex k (getKeyFingerPrint k) n = getFreeIndex_portable 64 k (getKeyFingerPrint k) n"
proof -
  have ok: "shape 64 n" "hashed 64 n" "uniq 64 n" using assms by (auto simp: slots_ok_def MAX_ENTRIES_def)
  show ?thesis
    using find_slot_unique[OF avx64.slot_search_axioms portable.slot_search_axioms ok]
      portable.free_slot_unique[OF avx64.free_slot_search_axioms ok(1)] by blast
qed

definition one_entry :: ListNode where
  "one_entry = insertAtIndex (42, 7) 40 (getKeyFingerPrint 42) (ListNode_ctor blank)"

lemma slots_ok_one_entry: "slots_ok one_entry" "node_map one_entry = [42 \<mapsto> 7]"
proof -
  have *: "slots_ok (ListNode_ctor blank)" "(40 :: nat) < MAX_ENTRIES"
      "40 \<notin> nslots (ListNode_ctor blank)" "42 \<notin> nkeys (ListNode_ctor blank)"
    by (simp add: slots_ok_ctor arrays_sized_def blank_def, simp add: MAX_ENTRIES_def, simp_all)
  show "slots_ok one_entry"
    unfolding one_entry_def by (rule slots_ok_insertAtIndex[OF * refl])
  show "node_map one_entry = [42 \<mapsto> 7]"
    unfolding one_entry_def by (simp only: node_map_insertAtIndex[OF * refl] node_map_ctor)
qed

theorem getKeyIndex_64_portable_witness:
  "getKeyIndex 42 (getKeyFingerPrint 42) one_entry = getKeyIndex_portable 64 42 (getKeyFingerPrint 42) one_entry \<and>
   getKeyIndex_portable 64 42 (getKeyFingerPrint 42) one_entry \<noteq> -1"
proof -
  have "getKeyIndex 42 (getKeyFingerPrint 42) one_entry \<noteq> -1"
    by (cases rule: getKeyIndex_cases[OF slots_ok_one_entry(1), of 42]) (simp_all add: slots_ok_one_entry(2))
  then show ?thesis
    using getKeyIndex_64_portable[OF slots_ok_one_entry(1), of 42] by auto
qed

text \<open>
  The searches for 128 entries return what the portable loops return, over both words of the
  occupancy map.
\<close>

theorem getKeyIndex_128_portable:
  assumes "shape 128 n" "hashed 128 n" "uniq 128 n"
  shows "getKeyIndex_128 k (getKeyFingerPrint k) n = getKeyIndex_portable 128 k (getKeyFingerPrint k) n \<and>
    getFreeIndex_128 k (getKeyFingerPrint k) n = getFreeIndex_portable 128 k (getKeyFingerPrint k) n"
  using find_slot_unique[OF avx128.slot_search_axioms portable.slot_search_axioms assms]
    portable.free_slot_unique[OF avx128.free_slot_search_axioms assms(1)] by blast

text \<open>A node of 128 slots whose only entry sits in the upper half.\<close>

definition upper_entry :: ListNode where
  "upper_entry = blank\<lparr>numEntries := 1, bitMap := set_at 100 \<lparr>bits0 = 0, bits1 = 0\<rparr>,
     fingerPrint := replicate 128 (getKeyFingerPrint 42), keyArray := replicate 128 (42, 7)\<rparr>"

theorem getKeyIndex_128_portable_witness:
  "getKeyIndex_128 42 (getKeyFingerPrint 42) upper_entry
     = getKeyIndex_portable 128 42 (getKeyFingerPrint 42) upper_entry \<and> slots 128 upper_entry = {100}"
proof -
  have "test i (bitMap upper_entry) \<longleftrightarrow> i = 100" if "i < 128" for i
    using that by (simp add: upper_entry_def test_set_at) (auto simp: test_def testBit_def bits_at_def)
  then have s: "slots 128 upper_entry = {100}" by (auto simp: slots_def)
  then have "shape 128 upper_entry" "hashed 128 upper_entry" "uniq 128 upper_entry"
    by (simp_all add: shape_def hashed_def uniq_def upper_entry_def)
  from getKeyIndex_128_portable[OF this, of 42] s show ?thesis by blast
qed

section \<open>Splits\<close>

text \<open>
  The split of a full node cuts it at its median: each half keeps at least half of the
  capacity, together they hold the old entries and the new one, and every key of the left half
  is below every key of the right one.
\<close>

theorem split_balanced:
  assumes "slots_ok n" "nslots n = {0..<MAX_ENTRIES}" "k \<notin> nkeys n" "arrays_sized r"
    and "split_nodes k v (getKeyFingerPrint k) a b n (ListNode_ctor r) = (n', m')"
  shows "slots_ok n' \<and> slots_ok m' \<and> node_map n' ++ node_map m' = (node_map n)(k \<mapsto> v) \<and>
    (\<forall>x \<in> nkeys n'. \<forall>y \<in> nkeys m'. x < y) \<and>
    MAX_ENTRIES div 2 \<le> unat (numEntries n') \<and> MAX_ENTRIES div 2 \<le> unat (numEntries m') \<and>
    unat (numEntries n') + unat (numEntries m') = MAX_ENTRIES + 1"
proof -
  note spec = split_nodes_spec[where fp = getKeyFingerPrint, OF assms(1-3) slots_ok_ctor[OF assms(4)] nslots_ctor assms(5)]
  note len = split_nodes_sizes[where fp = getKeyFingerPrint, OF assms(1-3) slots_ok_ctor[OF assms(4)] nslots_ctor assms(5)]
  have "nkeys n' \<subseteq> {x. x < median_of n}" "nkeys m' \<subseteq> {x. median_of n \<le> x}"
    using spec unfolding dom_node_map[symmetric] by (auto simp: map_below_apply map_from_apply split: if_splits)
  then have "\<forall>x \<in> nkeys n'. \<forall>y \<in> nkeys m'. x < y" by force
  then show ?thesis
    using spec len by (simp add: map_cut_join(2))
qed

text \<open>A full node, with the even keys from 0 to 126.\<close>

definition full_node :: ListNode where
  "full_node = blank\<lparr>numEntries := 64, bitMap := \<lparr>bits0 = - 1, bits1 = 0\<rparr>,
     keyArray := map (\<lambda>i. (word_of_nat (2 * i), word_of_nat i)) [0..<MAX_ENTRIES],
     fingerPrint := map (\<lambda>i. getKeyFingerPrint (word_of_nat (2 * i))) [0..<MAX_ENTRIES]\<rparr>"

lemma unat_even_key: "i < 64 \<Longrightarrow> unat (word_of_nat (2 * i) :: u64) = 2 * i"
  by (simp only: unat_of_nat) simp

lemma even_keys_inj:
  assumes "i < 64" "j < 64" "(word_of_nat (2 * i) :: u64) = word_of_nat (2 * j)"
  shows "i = j"
  using arg_cong[OF assms(3), of unat] unat_even_key[OF assms(1)] unat_even_key[OF assms(2)] by linarith

lemma full_node_ok: "nslots full_node = {0..<MAX_ENTRIES}" "slots_ok full_node" "1 \<notin> nkeys full_node"
proof -
  show s: "nslots full_node = {0..<MAX_ENTRIES}"
    unfolding slots_def by (auto simp: full_node_def test_small MAX_ENTRIES_def)
  have k: "fst (keyArray full_node ! i) = word_of_nat (2 * i)" if "i < MAX_ENTRIES" for i
    using that by (simp add: full_node_def)
  have "inj_on (\<lambda>i. fst (keyArray full_node ! i)) {0..<MAX_ENTRIES}"
    using k even_keys_inj MAX_ENTRIES_bounds(3) by (intro inj_onI) auto
  then show "slots_ok full_node"
    unfolding slots_ok_def shape_def hashed_def uniq_def s
    by (simp add: full_node_def) (simp add: MAX_ENTRIES_def)
  show "1 \<notin> nkeys full_node"
  proof
    assume "1 \<in> nkeys full_node"
    then obtain i where "i < MAX_ENTRIES" "(1 :: u64) = word_of_nat (2 * i)"
      unfolding node_keys_def s using k by auto
    then have "unat (1 :: u64) = 2 * i"
      using unat_even_key[of i] MAX_ENTRIES_bounds(3) by (metis less_le_trans)
    then show False by simp
  qed
qed

theorem split_balanced_witness:
  "\<exists>n' m'. split_nodes 1 7 (getKeyFingerPrint 1) 0 2 full_node (ListNode_ctor blank) = (n', m') \<and>
     node_map n' ++ node_map m' = (node_map full_node)(1 \<mapsto> 7)"
proof -
  obtain n' m' where sp: "split_nodes 1 7 (getKeyFingerPrint 1) 0 2 full_node (ListNode_ctor blank) = (n', m')"
    by fastforce
  have "arrays_sized blank" by (simp add: arrays_sized_def blank_def)
  from split_balanced[OF full_node_ok(2,1,3) this sp] sp show ?thesis by blast
qed

section \<open>Size\<close>

lemma size_chain:
  assumes "chain p lo L q hi" "rest_ok (nodes s) L q"
  shows "LinkedList_size (Some (hdaddr L q)) s c = Some (Inr (c + word_of_nat (length L)))"
  using assms
proof (induction L arbitrary: p lo c)
  case Nil
  then show ?case by (subst LinkedList_size.simps) (auto simp: rest_ok_def tail_ok_def)
next
  case (Cons e L)
  obtain a n where e: "e = (a, n)" by (cases e)
  have "LinkedList_size (Some (hdaddr L q)) s (c + 1) = Some (Inr (c + 1 + word_of_nat (length L)))"
    using Cons.IH[of "Some a" "max_k n"] Cons.prems by (auto simp: e rest_ok_def)
  then show ?case
    using Cons.prems by (subst LinkedList_size.simps) (simp add: e rest_ok_def)
qed

text \<open>\<open>LinkedList::size\<close> from the head counts the nodes of the list, modulo the width of its result.\<close>

theorem LinkedList_size_correct:
  assumes "dl_inv f L q s"
  shows "LinkedList_size (Some (hdaddr L q)) s 0 = Some (Inr (word_of_nat (length L)))"
  using size_chain[of None 0 L q ULLONG_MAX s 0] assms by (auto simp: dl_inv_def rest_ok_def)

theorem LinkedList_size_correct_witness:
  "LinkedList_size (Some 0) boot_list 0 = Some (Inr 1)"
  using LinkedList_size_correct[OF boot_list_ok(1)] by (simp add: boot_cells_def)

section \<open>Where the list fails\<close>

lemma walk_max:
  assumes "chain p lo L q hi" "rest_ok (nodes s) L q"
  shows "findNode ULLONG_MAX (Some (hdaddr L q)) s = Some (Inl NullDeref)"
  using assms
proof (induction L arbitrary: p lo)
  case Nil
  then obtain t where t: "nodes s q = Some t" "tail_ok_by ULLONG_MAX t" by (auto simp: rest_ok_def)
  have "findNode ULLONG_MAX (Some q) s = findNode ULLONG_MAX (next_p t) s"
    using t by (intro findNode_right) (auto simp: tail_ok_def)
  moreover have "findNode ULLONG_MAX None s = Some (Inl NullDeref)"
    by (subst findNode.simps) (simp add: getNode_def)
  ultimately show ?case using t by (simp add: tail_ok_def)
next
  case (Cons e L)
  obtain a n where e: "e = (a, n)" by (cases e)
  have "findNode ULLONG_MAX (Some a) s = findNode ULLONG_MAX (next_p n) s"
    using Cons.prems by (intro findNode_right) (auto simp: e rest_ok_def)
  then show ?case
    using Cons.IH[of "Some a" "max_k n"] Cons.prems by (auto simp: e rest_ok_def)
qed

text \<open>
  C15. The key \<open>ULLONG_MAX\<close> lies in no range: every operation on it walks past the tail and
  dereferences a null pointer.
\<close>

theorem max_key_null_dereference:
  assumes "dl_inv f L q s" "a \<in> fst ` set L"
  shows "LinkedList_lookup getKeyFingerPrint ULLONG_MAX (Some a) s = Some (Inl NullDeref) \<and>
    LinkedList_insert getKeyFingerPrint t ULLONG_MAX v (Some a) s = Some (Inl NullDeref) \<and>
    LinkedList_remove getKeyFingerPrint t ULLONG_MAX (Some a) s = Some (Inl NullDeref)"
proof -
  obtain n A B where L: "L = A @ (a, n) # B" using assms(2) by (auto dest!: split_list)
  have "rest_ok (nodes s) ((a, n) # B) q" "\<exists>p lo. chain p lo ((a, n) # B) q ULLONG_MAX"
    using assms(1) unfolding L dl_inv_def rest_ok_def holds_append by (auto simp: chain_append)
  then have "findNode ULLONG_MAX (Some a) s = Some (Inl NullDeref)"
    using walk_max[of _ _ "(a, n) # B" q ULLONG_MAX s] by auto
  then show ?thesis
    by (simp add: LinkedList_lookup.simps LinkedList_insert.simps LinkedList_remove.simps)
qed

theorem max_key_null_dereference_witness:
  "LinkedList_lookup getKeyFingerPrint ULLONG_MAX (Some 0) boot_list = Some (Inl NullDeref)"
  using max_key_null_dereference[OF boot_list_ok(1,4), of 0 0] by blast

text \<open>A start node that covers the key and was deleted by a merge.\<close>

definition stale :: "Key_t \<Rightarrow> addr \<Rightarrow> hstate \<Rightarrow> bool" where
  "stale k a s \<longleftrightarrow> (\<exists>n. nodes s a = Some n \<and> deleted n \<and> checkRange k n)"

lemma stale_putNode:
  "stale k a s \<Longrightarrow> deleted n = deleted (the (nodes s a)) \<Longrightarrow> min_k n = min_k (the (nodes s a)) \<Longrightarrow>
   max_k n = max_k (the (nodes s a)) \<Longrightarrow> stale k a (putNode a n s)"
  by (auto simp: stale_def checkRange_def)

lemma stale_lock: "stale k a s \<Longrightarrow> stale k a (snd (lockNode a s))"
  by (auto simp: lockNode_def writeLock_def split: prod.splits intro: stale_putNode)

lemma stale_unlock: "stale k a s \<Longrightarrow> stale k a (unlockNode a s)"
  by (auto simp: unlockNode_def writeUnlock_def intro: stale_putNode)

lemma stale_find: "stale k a s \<Longrightarrow> findNode k (Some a) s = Some (Inr a)"
  by (auto simp: stale_def intro: findNode_here)

lemma stale_insert:
  assumes "LinkedList_insert getKeyFingerPrint t k v p s = Some y"
  shows "p = Some a \<longrightarrow> \<not> stale k a s"
proof (rule LinkedList_insert.raw_induct[where P = "\<lambda>fp t k v p s y. p = Some a \<longrightarrow> \<not> stale k a s", OF _ assms])
  fix ins :: "(Key_t \<Rightarrow> u8) \<Rightarrow> nat \<Rightarrow> Key_t \<Rightarrow> Val_t \<Rightarrow> ptr \<Rightarrow> hstate \<Rightarrow> (bool \<times> hstate) outcome" and fp t k v p s y
  assume IH: "\<And>fp t k v p s y. ins fp t k v p s = Some y \<Longrightarrow> p = Some a \<longrightarrow> \<not> stale k a s"
    and run: "(case findNode k p s of None \<Rightarrow> None | Some (Inl f) \<Rightarrow> Some (Inl f)
      | Some (Inr cur) \<Rightarrow> (case lockNode cur s of (ver, s1) \<Rightarrow>
          if ver = 0 then ins fp t k v p s1
          else if deleted (the (nodes s1 cur)) then ins fp t k v p (unlockNode cur s1)
          else if \<not> checkRange k (the (nodes s1 cur)) then ins fp t k v p (unlockNode cur s1)
          else (case ListNode_insert fp t cur k v s1 of Inl f \<Rightarrow> Some (Inl f)
            | Inr (ret, s2) \<Rightarrow> Some (Inr (ret, unlockNode cur s2))))) = Some y"
  show "p = Some a \<longrightarrow> \<not> stale k a s"
  proof (intro impI notI)
    assume p: "p = Some a" and st: "stale k a s"
    obtain ver s1 where lock: "lockNode a s = (ver, s1)" by fastforce
    then have "stale k a s1" "stale k a (unlockNode a s1)" "deleted (the (nodes s1 a))"
      using stale_lock[OF st] stale_unlock by (auto simp: stale_def)
    then show False
      using run IH p stale_find[OF st] lock by (auto split: if_splits)
  qed
qed

lemma stale_lookup:
  assumes "LinkedList_lookup getKeyFingerPrint k p s = Some y"
  shows "p = Some a \<longrightarrow> \<not> stale k a s"
proof (rule LinkedList_lookup.raw_induct[where P = "\<lambda>fp k p s y. p = Some a \<longrightarrow> \<not> stale k a s", OF _ assms])
  fix look :: "(Key_t \<Rightarrow> u8) \<Rightarrow> Key_t \<Rightarrow> ptr \<Rightarrow> hstate \<Rightarrow> Val_t option outcome" and fp k p s y
  assume IH: "\<And>fp k p s y. look fp k p s = Some y \<Longrightarrow> p = Some a \<longrightarrow> \<not> stale k a s"
    and run: "(case findNode k p s of None \<Rightarrow> None | Some (Inl f) \<Rightarrow> Some (Inl f)
      | Some (Inr cur) \<Rightarrow>
          let n = the (nodes s cur); readVersion = readLock n in
          if readVersion = 0 then look fp k p s
          else if deleted n then look fp k p s
          else if \<not> checkRange k n then look fp k p s
          else let ret = ListNode_lookup fp k n in
               if \<not> readUnlock readVersion n then look fp k p s else Some (Inr ret)) = Some y"
  show "p = Some a \<longrightarrow> \<not> stale k a s"
  proof (intro impI notI)
    assume p: "p = Some a" and st: "stale k a s"
    then have "deleted (the (nodes s a))" by (auto simp: stale_def)
    then have "look fp k p s = Some y" using run p stale_find[OF st] by (auto simp: Let_def split: if_splits)
    with IH p st show False by blast
  qed
qed

text \<open>
  C14. An insert or a lookup that the search layer starts at a node which covers the key but has
  been merged away never returns: both start over at that same node for ever. The search layers
  learn of a merge only later, so such a start node can be handed out.
\<close>

theorem stale_start_never_returns:
  assumes "nodes s a = Some n" "deleted n" "checkRange k n"
  shows "LinkedList_insert getKeyFingerPrint t k v (Some a) s = None \<and> LinkedList_lookup getKeyFingerPrint k (Some a) s = None"
proof -
  have "stale k a s" using assms by (auto simp: stale_def)
  then show ?thesis
    using stale_insert stale_lookup by (metis not_None_eq)
qed

theorem stale_start_never_returns_witness:
  "LinkedList_insert getKeyFingerPrint 0 5 7 (Some 3) (putNode 3 (blank\<lparr>max_k := 10, deleted := True\<rparr>) boot_list) = None"
  using stale_start_never_returns[of "putNode 3 (blank\<lparr>max_k := 10, deleted := True\<rparr>) boot_list" 3
      "blank\<lparr>max_k := 10, deleted := True\<rparr>" 5 0 7]
  by (simp add: checkRange_def blank_def)

text \<open>
  A scan that starts inside the range of an empty node reads the first index of its cache,
  which may never have been written: an index that lies outside the entries makes the scan read
  outside the array.
\<close>

theorem scan_of_empty_node_faults:
  assumes "node_ok f n" "nslots n = {}" "next_p n \<noteq> None" "min_k n < k" "0 < rng"
    and "\<not> unat (permuter n ! 0) < MAX_ENTRIES"
  shows "ListNode_scan k rng [] (version (verLock n)) n = Inl BadAccess"
  using ListNode_scan_fault[OF assms(1,3), of rng BadAccess k] assms by (simp add: not_less)

definition garbage_node :: ListNode where
  "garbage_node = (ListNode_ctor (blank\<lparr>permuter := replicate MAX_ENTRIES 200\<rparr>))\<lparr>max_k := 10, next_p := Some 1\<rparr>"

theorem scan_of_empty_node_faults_witness:
  "ListNode_scan 5 10 [] 2 garbage_node = Inl BadAccess"
proof -
  have "arrays_sized (blank\<lparr>permuter := replicate MAX_ENTRIES 200\<rparr>)" by (simp add: arrays_sized_def blank_def)
  then have "slots_ok garbage_node" by (simp add: garbage_node_def slots_ok_ctor)
  then have "node_ok 5 garbage_node"
    by (simp add: node_ok_def garbage_node_def lock_ok_def cache_ok_def unlocked_def)
      (simp add: ListNode_ctor_def VersionedLock_init_def)
  moreover have "nslots garbage_node = {}" by (simp add: garbage_node_def)
  moreover have "version (verLock garbage_node) = 2" "next_p garbage_node \<noteq> None" "min_k garbage_node < 5"
    by (simp_all add: garbage_node_def ListNode_ctor_def VersionedLock_init_def blank_def)
  moreover have "\<not> unat (permuter garbage_node ! 0) < MAX_ENTRIES"
    using MAX_ENTRIES_bounds by (simp add: garbage_node_def ListNode_ctor_def)
  ultimately show ?thesis
    using scan_of_empty_node_faults[of 5 garbage_node 5 10] by simp
qed

text \<open>
  The entry that \<open>initialize\<close> puts into the head node is visible: inserting the key 0 into
  a new list fails, and looking it up finds a value nobody stored.
\<close>

theorem key_zero_taken:
  assumes "alloc_ok s"
  shows "\<exists>h s' s''. LinkedList_initialize t s = Inr (h, s') \<and>
    LinkedList_insert getKeyFingerPrint t 0 v (Some h) s' = Some (Inr (False, s'')) \<and>
    LinkedList_lookup getKeyFingerPrint 0 (Some h) s' = Some (Inr (Some 0))"
proof -
  obtain n s' where init: "LinkedList_initialize t s = Inr (nmalloc s (nallocs s), s')"
      "dl_inv (Suc 0) [(nmalloc s (nallocs s), n)] (nmalloc s (Suc (nallocs s))) s'" "node_map n = [0 \<mapsto> 0]"
    using LinkedList_initialize_ok[OF assms, of "Suc 0" t] by auto
  have "(0 :: Key_t) \<noteq> ULLONG_MAX" by simp
  then show ?thesis
    using init(1,3) LinkedList_insert_refines[OF init(2), of _ 0 t v] LinkedList_lookup_refines[OF init(2), of _ 0]
    by fastforce
qed

theorem key_zero_taken_witness:
  "\<exists>h s' s''. LinkedList_initialize 0 boot = Inr (h, s') \<and>
    LinkedList_insert getKeyFingerPrint 0 0 7 (Some h) s' = Some (Inr (False, s''))"
  using key_zero_taken[OF alloc_ok_boot, of 0 7] by blast

end
