(* ===== verification/ArtNode.thy ===== *)
theory ArtNode
  imports HL_Prelude "HOL-Library.Multiset"
begin

text \<open>
  The four node layouts of the radix tree, \<open>lib/ARTROWEX/N4.cpp\<close>, \<open>N16.cpp\<close>,
  \<open>N48.cpp\<close> and \<open>N256.cpp\<close>: how each stores the children of an inner node under one
  byte of the key. The type of children is a parameter, a null pointer is \<open>None\<close>; an
  \<open>assert(false)\<close> is the result \<open>None\<close> of an operation that returns a node.
\<close>

section \<open>Loops shared by the layouts\<close>

text \<open>
  \<open>getAnyChild\<close>: the first child that is a leaf, or else the last child seen.
\<close>

fun anyChild_loop :: "('c \<Rightarrow> bool) \<Rightarrow> 'c option list \<Rightarrow> 'c option \<Rightarrow> 'c option" where
  "anyChild_loop isLeaf [] acc = acc"
| "anyChild_loop isLeaf (None # cs) acc = anyChild_loop isLeaf cs acc"
| "anyChild_loop isLeaf (Some c # cs) acc =
     (if isLeaf c then Some c else anyChild_loop isLeaf cs (Some c))"

text \<open>\<open>getSmallestChild\<close> and \<open>getLargestChild\<close> over unsorted keys.\<close>

fun smallest_loop :: "u8 \<Rightarrow> (u8 \<times> 'c option) list \<Rightarrow> u8 \<Rightarrow> 'c option \<Rightarrow> 'c option" where
  "smallest_loop start [] minKey acc = acc"
| "smallest_loop start ((key, child) # xs) minKey acc =
     (if start \<le> key \<and> key \<le> minKey \<and> child \<noteq> None
      then smallest_loop start xs key child
      else smallest_loop start xs minKey acc)"

fun largest_loop :: "u8 \<Rightarrow> (u8 \<times> 'c option) list \<Rightarrow> u8 \<Rightarrow> 'c option \<Rightarrow> 'c option" where
  "largest_loop end' [] maxKey acc = acc"
| "largest_loop end' ((key, child) # xs) maxKey acc =
     (if key \<le> end' \<and> maxKey \<le> key \<and> child \<noteq> None
      then largest_loop end' xs key child
      else largest_loop end' xs maxKey acc)"

text \<open>The children of the keys of a range, where the layout stores them unsorted.\<close>

definition children_between :: "u8 \<Rightarrow> u8 \<Rightarrow> (u8 \<times> 'c option) list \<Rightarrow> (u8 \<times> 'c) list" where
  "children_between start end' xs =
     sort_key fst (List.map_filter (\<lambda>(k, c). if start \<le> k \<and> k \<le> end' then map_option (Pair k) c else None) xs)"

section \<open>\<open>N4\<close> and \<open>N16\<close>\<close>

text \<open>
  Both keep the keys and the children in two arrays filled from the left; \<open>compactCount\<close> is
  the number of slots ever used, \<open>count\<close> the number of children.
\<close>

datatype 'c karr = Karr (keys: "u8 list") (children: "'c option list") (compactCount: nat) (count: nat)

definition N4_new :: "'c karr" where
  "N4_new = Karr (replicate 4 0) (replicate 4 None) 0 0"

definition N4_insert :: "u8 \<Rightarrow> 'c \<Rightarrow> 'c karr \<Rightarrow> bool \<times> 'c karr" where
  "N4_insert key n a =
     (if compactCount a = 4 then (False, a)
      else (True, Karr ((keys a)[compactCount a := key]) ((children a)[compactCount a := Some n])
                    (compactCount a + 1) (count a + 1)))"

definition N4_entries :: "'c karr \<Rightarrow> (u8 \<times> 'c) list" where
  "N4_entries a = List.map_filter (\<lambda>i. map_option (Pair (keys a ! i)) (children a ! i)) [0..<compactCount a]"

definition N4_pos :: "u8 \<Rightarrow> nat \<Rightarrow> 'c karr \<Rightarrow> nat option" where
  "N4_pos key m a = find (\<lambda>i. children a ! i \<noteq> None \<and> keys a ! i = key) [0..<m]"

definition N4_change :: "u8 \<Rightarrow> 'c \<Rightarrow> 'c karr \<Rightarrow> 'c karr option" where
  "N4_change key val a =
     (case N4_pos key (compactCount a) a of
        Some i \<Rightarrow> Some (Karr (keys a) ((children a)[i := Some val]) (compactCount a) (count a))
      | None \<Rightarrow> None)"

definition N4_getChild :: "u8 \<Rightarrow> 'c karr \<Rightarrow> 'c option" where
  "N4_getChild k a = (case N4_pos k 4 a of Some i \<Rightarrow> children a ! i | None \<Rightarrow> None)"

definition N4_remove :: "u8 \<Rightarrow> 'c karr \<Rightarrow> 'c karr option" where
  "N4_remove k a =
     (case N4_pos k (compactCount a) a of
        Some i \<Rightarrow> Some (Karr (keys a) ((children a)[i := None]) (compactCount a) (count a - 1))
      | None \<Rightarrow> None)"

definition N4_getAnyChild :: "('c \<Rightarrow> bool) \<Rightarrow> 'c karr \<Rightarrow> 'c option" where
  "N4_getAnyChild isLeaf a = anyChild_loop isLeaf (map (\<lambda>i. children a ! i) [0..<4]) None"

definition N4_getAnyChildReverse :: "('c \<Rightarrow> bool) \<Rightarrow> 'c karr \<Rightarrow> 'c option" where
  "N4_getAnyChildReverse isLeaf a = anyChild_loop isLeaf (rev (map (\<lambda>i. children a ! i) [0..<4])) None"

definition N4_getSecondChild :: "u8 \<Rightarrow> 'c karr \<Rightarrow> ('c \<times> u8) option" where
  "N4_getSecondChild key a =
     (case find (\<lambda>i. children a ! i \<noteq> None \<and> keys a ! i \<noteq> key) [0..<compactCount a] of
        Some i \<Rightarrow> map_option (\<lambda>c. (c, keys a ! i)) (children a ! i)
      | None \<Rightarrow> None)"

definition N4_getChildren :: "u8 \<Rightarrow> u8 \<Rightarrow> 'c karr \<Rightarrow> (u8 \<times> 'c) list" where
  "N4_getChildren start end' a = children_between start end' (map (\<lambda>i. (keys a ! i, children a ! i)) [0..<4])"

definition N4_getSmallestChild :: "u8 \<Rightarrow> 'c karr \<Rightarrow> 'c option" where
  "N4_getSmallestChild start a = smallest_loop start (map (\<lambda>i. (keys a ! i, children a ! i)) [0..<4]) 255 None"

definition N4_getLargestChild :: "u8 \<Rightarrow> 'c karr \<Rightarrow> 'c option" where
  "N4_getLargestChild end' a = largest_loop end' (map (\<lambda>i. (keys a ! i, children a ! i)) [0..<4]) 0 None"

text \<open>\<open>N16\<close> stores each key with its sign bit flipped.\<close>

definition flipSign :: "u8 \<Rightarrow> u8" where
  "flipSign keyByte = keyByte XOR 128"

definition N16_new :: "'c karr" where
  "N16_new = Karr (replicate 16 0) (replicate 16 None) 0 0"

definition N16_insert :: "u8 \<Rightarrow> 'c \<Rightarrow> 'c karr \<Rightarrow> bool \<times> 'c karr" where
  "N16_insert key n a =
     (if compactCount a = 16 then (False, a)
      else (True, Karr ((keys a)[compactCount a := flipSign key]) ((children a)[compactCount a := Some n])
                    (compactCount a + 1) (count a + 1)))"

definition N16_entries :: "'c karr \<Rightarrow> (u8 \<times> 'c) list" where
  "N16_entries a =
     List.map_filter (\<lambda>i. map_option (Pair (flipSign (keys a ! i))) (children a ! i)) [0..<compactCount a]"

text \<open>
  \<open>_mm_movemask_epi8(_mm_cmpeq_epi8(...))\<close>: bit \<open>i\<close> says whether byte \<open>i\<close> equals the
  broadcast byte; \<open>ctz\<close> is the index of the lowest set bit.
\<close>

definition movemask_cmpeq :: "u8 \<Rightarrow> u8 list \<Rightarrow> u32" where
  "movemask_cmpeq b v = horner_sum of_bool 2 (map (\<lambda>x. x = b) (take 16 v))"

definition ctz :: "u32 \<Rightarrow> nat" where
  "ctz x = bsf x"

lemma xor_set_bit:
  assumes "bit (w :: 'a::len word) p"
  shows "w XOR push_bit p 1 = w AND NOT (push_bit p 1)"
  by (rule bit_word_eqI) (use assms in \<open>auto simp: bit_xor_iff bit_and_iff mask_simps\<close>)

text \<open>The loop over the set bits, from the lowest to the highest.\<close>

function scanBits :: "u32 \<Rightarrow> (nat \<Rightarrow> bool) \<Rightarrow> nat option" where
  "scanBits bitfield isPos =
     (if bitfield = 0 then None
      else let pos = ctz bitfield in
           if isPos pos then Some pos else scanBits (bitfield XOR push_bit pos 1) isPos)"
  by pat_completeness auto

termination
  by (relation "measure (\<lambda>(w, _). unat w)")
    (auto simp: ctz_def xor_set_bit bsf_props(1) intro!: clear_bit_less simp del: push_bit_of_1)

declare scanBits.simps [simp del]

definition N16_getChildPos :: "u8 \<Rightarrow> 'c karr \<Rightarrow> nat option" where
  "N16_getChildPos k a =
     scanBits (movemask_cmpeq (flipSign k) (keys a) AND (push_bit (compactCount a) 1 - 1))
       (\<lambda>pos. children a ! pos \<noteq> None)"

definition N16_change :: "u8 \<Rightarrow> 'c \<Rightarrow> 'c karr \<Rightarrow> 'c karr option" where
  "N16_change key val a =
     (case N16_getChildPos key a of
        Some i \<Rightarrow> Some (Karr (keys a) ((children a)[i := Some val]) (compactCount a) (count a))
      | None \<Rightarrow> None)"

definition N16_getChild :: "u8 \<Rightarrow> 'c karr \<Rightarrow> 'c option" where
  "N16_getChild k a =
     (case scanBits (movemask_cmpeq (flipSign k) (keys a) AND (push_bit 16 1 - 1))
             (\<lambda>pos. children a ! pos \<noteq> None \<and> keys a ! pos = flipSign k) of
        Some pos \<Rightarrow> children a ! pos
      | None \<Rightarrow> None)"

text \<open>\<open>remove\<close> refuses (\<open>Some None\<close>) when the node should shrink instead, unless forced.\<close>

definition N16_remove :: "u8 \<Rightarrow> bool \<Rightarrow> 'c karr \<Rightarrow> 'c karr option option" where
  "N16_remove k force a =
     (if count a = 3 \<and> \<not> force then Some None
      else (case N16_getChildPos k a of
              Some i \<Rightarrow> Some (Some (Karr (keys a) ((children a)[i := None]) (compactCount a) (count a - 1)))
            | None \<Rightarrow> None))"

definition N16_getAnyChild :: "('c \<Rightarrow> bool) \<Rightarrow> 'c karr \<Rightarrow> 'c option" where
  "N16_getAnyChild isLeaf a = anyChild_loop isLeaf (map (\<lambda>i. children a ! i) [0..<16]) None"

definition N16_getAnyChildReverse :: "('c \<Rightarrow> bool) \<Rightarrow> 'c karr \<Rightarrow> 'c option" where
  "N16_getAnyChildReverse isLeaf a = anyChild_loop isLeaf (rev (map (\<lambda>i. children a ! i) [0..<16])) None"

definition N16_getChildren :: "u8 \<Rightarrow> u8 \<Rightarrow> 'c karr \<Rightarrow> (u8 \<times> 'c) list" where
  "N16_getChildren start end' a =
     children_between start end' (map (\<lambda>i. (flipSign (keys a ! i), children a ! i)) [0..<compactCount a])"

definition N16_getSmallestChild :: "u8 \<Rightarrow> 'c karr \<Rightarrow> 'c option" where
  "N16_getSmallestChild start a =
     smallest_loop start (map (\<lambda>i. (flipSign (keys a ! i), children a ! i)) [0..<compactCount a]) 255 None"

definition N16_getLargestChild :: "u8 \<Rightarrow> 'c karr \<Rightarrow> 'c option" where
  "N16_getLargestChild end' a =
     largest_loop end' (map (\<lambda>i. (flipSign (keys a ! i), children a ! i)) [0..<compactCount a]) 0 None"

section \<open>\<open>N48\<close>\<close>

datatype 'c karr48 = Karr48 (childIndex: "u8 list") (children48: "'c option list")
  (compactCount48: nat) (count48: nat)

definition emptyMarker :: u8 where
  "emptyMarker = 48"

definition N48_new :: "'c karr48" where
  "N48_new = Karr48 (replicate 256 emptyMarker) (replicate 48 None) 0 0"

definition N48_insert :: "u8 \<Rightarrow> 'c \<Rightarrow> 'c karr48 \<Rightarrow> bool \<times> 'c karr48" where
  "N48_insert key n a =
     (if compactCount48 a = 48 then (False, a)
      else (True, Karr48 ((childIndex a)[unat key := word_of_nat (compactCount48 a)])
                    ((children48 a)[compactCount48 a := Some n]) (compactCount48 a + 1) (count48 a + 1)))"

definition N48_child :: "'c karr48 \<Rightarrow> nat \<Rightarrow> 'c option" where
  "N48_child a i = (let index = childIndex a ! i in
     if index \<noteq> emptyMarker then children48 a ! unat index else None)"

definition N48_entries :: "'c karr48 \<Rightarrow> (u8 \<times> 'c) list" where
  "N48_entries a = List.map_filter (\<lambda>i. map_option (Pair (word_of_nat i)) (N48_child a i)) [0..<256]"

definition N48_change :: "u8 \<Rightarrow> 'c \<Rightarrow> 'c karr48 \<Rightarrow> 'c karr48 option" where
  "N48_change key val a = (let index = childIndex a ! unat key in
     if index \<noteq> emptyMarker
     then Some (Karr48 (childIndex a) ((children48 a)[unat index := Some val]) (compactCount48 a) (count48 a))
     else None)"

definition N48_getChild :: "u8 \<Rightarrow> 'c karr48 \<Rightarrow> 'c option" where
  "N48_getChild k a = (let index = childIndex a ! unat k in
     if index = emptyMarker then None else children48 a ! unat index)"

definition N48_remove :: "u8 \<Rightarrow> bool \<Rightarrow> 'c karr48 \<Rightarrow> 'c karr48 option option" where
  "N48_remove k force a =
     (if count48 a = 12 \<and> \<not> force then Some None
      else if childIndex a ! unat k = emptyMarker then None
      else Some (Some (Karr48 ((childIndex a)[unat k := emptyMarker])
             ((children48 a)[unat (childIndex a ! unat k) := None]) (compactCount48 a) (count48 a - 1))))"

definition N48_getAnyChild :: "('c \<Rightarrow> bool) \<Rightarrow> 'c karr48 \<Rightarrow> 'c option" where
  "N48_getAnyChild isLeaf a = anyChild_loop isLeaf (map (\<lambda>i. children48 a ! i) [0..<48]) None"

definition N48_getAnyChildReverse :: "('c \<Rightarrow> bool) \<Rightarrow> 'c karr48 \<Rightarrow> 'c option" where
  "N48_getAnyChildReverse isLeaf a = anyChild_loop isLeaf (rev (map (\<lambda>i. children48 a ! i) [0..<48])) None"

definition N48_getChildren :: "u8 \<Rightarrow> u8 \<Rightarrow> 'c karr48 \<Rightarrow> (u8 \<times> 'c) list" where
  "N48_getChildren start end' a =
     List.map_filter (\<lambda>i. map_option (Pair (word_of_nat i)) (N48_child a i)) [unat start..<Suc (unat end')]"

definition N48_getSmallestChild :: "u8 \<Rightarrow> 'c karr48 \<Rightarrow> 'c option" where
  "N48_getSmallestChild start a =
     (case find (\<lambda>i. N48_child a i \<noteq> None) [unat start..<256] of Some i \<Rightarrow> N48_child a i | None \<Rightarrow> None)"

definition N48_getLargestChild :: "u8 \<Rightarrow> 'c karr48 \<Rightarrow> 'c option" where
  "N48_getLargestChild end' a =
     (case find (\<lambda>i. N48_child a i \<noteq> None) (rev [0..<Suc (unat end')]) of Some i \<Rightarrow> N48_child a i | None \<Rightarrow> None)"

section \<open>\<open>N256\<close>\<close>

datatype 'c karr256 = Karr256 (children256: "'c option list") (count256: nat)

definition N256_new :: "'c karr256" where
  "N256_new = Karr256 (replicate 256 None) 0"

definition N256_insert :: "u8 \<Rightarrow> 'c \<Rightarrow> 'c karr256 \<Rightarrow> bool \<times> 'c karr256" where
  "N256_insert key val a = (True, Karr256 ((children256 a)[unat key := Some val]) (count256 a + 1))"

definition N256_entries :: "'c karr256 \<Rightarrow> (u8 \<times> 'c) list" where
  "N256_entries a = List.map_filter (\<lambda>i. map_option (Pair (word_of_nat i)) (children256 a ! i)) [0..<256]"

definition N256_change :: "u8 \<Rightarrow> 'c \<Rightarrow> 'c karr256 \<Rightarrow> 'c karr256" where
  "N256_change key n a = Karr256 ((children256 a)[unat key := Some n]) (count256 a)"

definition N256_getChild :: "u8 \<Rightarrow> 'c karr256 \<Rightarrow> 'c option" where
  "N256_getChild k a = children256 a ! unat k"

definition N256_remove :: "u8 \<Rightarrow> bool \<Rightarrow> 'c karr256 \<Rightarrow> 'c karr256 option" where
  "N256_remove k force a =
     (if count256 a = 37 \<and> \<not> force then None
      else Some (Karr256 ((children256 a)[unat k := None]) (count256 a - 1)))"

definition N256_getAnyChild :: "('c \<Rightarrow> bool) \<Rightarrow> 'c karr256 \<Rightarrow> 'c option" where
  "N256_getAnyChild isLeaf a = anyChild_loop isLeaf (map (\<lambda>i. children256 a ! i) [0..<256]) None"

definition N256_getAnyChildReverse :: "('c \<Rightarrow> bool) \<Rightarrow> 'c karr256 \<Rightarrow> 'c option" where
  "N256_getAnyChildReverse isLeaf a = anyChild_loop isLeaf (rev (map (\<lambda>i. children256 a ! i) [0..<256])) None"

definition N256_getChildren :: "u8 \<Rightarrow> u8 \<Rightarrow> 'c karr256 \<Rightarrow> (u8 \<times> 'c) list" where
  "N256_getChildren start end' a =
     List.map_filter (\<lambda>i. map_option (Pair (word_of_nat i)) (children256 a ! i)) [unat start..<Suc (unat end')]"

definition N256_getSmallestChild :: "u8 \<Rightarrow> 'c karr256 \<Rightarrow> 'c option" where
  "N256_getSmallestChild start a =
     (case find (\<lambda>i. children256 a ! i \<noteq> None) [unat start..<256] of Some i \<Rightarrow> children256 a ! i | None \<Rightarrow> None)"

definition N256_getLargestChild :: "u8 \<Rightarrow> 'c karr256 \<Rightarrow> 'c option" where
  "N256_getLargestChild end' a =
     (case find (\<lambda>i. children256 a ! i \<noteq> None) (rev [0..<Suc (unat end')]) of Some i \<Rightarrow> children256 a ! i | None \<Rightarrow> None)"

end
