(* ===== verification/ArtLayouts.thy ===== *)
theory ArtLayouts
  imports ArtNode
begin

text \<open>
  Every node layout of the radix tree implements a map from bytes to children. The contract is
  the locale \<open>art_node\<close>; it is interpreted on all four layouts, and copying a node into another
  layout is proved once, in the locale.
\<close>

section \<open>The contract\<close>

text \<open>The child under the least key from \<open>s\<close> on, and under the greatest key up to \<open>e\<close>.\<close>

definition least_from :: "u8 \<Rightarrow> (u8 \<rightharpoonup> 'c) \<Rightarrow> 'c option \<Rightarrow> bool" where
  "least_from s m r \<longleftrightarrow> (\<forall>k \<ge> s. m k = None) \<and> r = None \<or>
     (\<exists>k \<ge> s. m k = r \<and> r \<noteq> None \<and> (\<forall>j. s \<le> j \<and> j < k \<longrightarrow> m j = None))"

definition greatest_upto :: "u8 \<Rightarrow> (u8 \<rightharpoonup> 'c) \<Rightarrow> 'c option \<Rightarrow> bool" where
  "greatest_upto e m r \<longleftrightarrow> (\<forall>k \<le> e. m k = None) \<and> r = None \<or>
     (\<exists>k \<le> e. m k = r \<and> r \<noteq> None \<and> (\<forall>j. k < j \<and> j \<le> e \<longrightarrow> m j = None))"

definition lists_map :: "u8 \<Rightarrow> u8 \<Rightarrow> (u8 \<rightharpoonup> 'c) \<Rightarrow> (u8 \<times> 'c) list \<Rightarrow> bool" where
  "lists_map s e m xs \<longleftrightarrow> sorted (map fst xs) \<and> distinct (map fst xs) \<and>
     (\<forall>k c. (k, c) \<in> set xs \<longleftrightarrow> s \<le> k \<and> k \<le> e \<and> m k = Some c)"

locale art_node =
  fixes ok :: "'n \<Rightarrow> bool" and cmap :: "'n \<Rightarrow> u8 \<Rightarrow> 'c option" and cap :: nat and used :: "'n \<Rightarrow> nat"
    and cnt :: "'n \<Rightarrow> nat" and new :: 'n and ins :: "u8 \<Rightarrow> 'c \<Rightarrow> 'n \<Rightarrow> bool \<times> 'n"
    and get :: "u8 \<Rightarrow> 'n \<Rightarrow> 'c option" and chg :: "u8 \<Rightarrow> 'c \<Rightarrow> 'n \<Rightarrow> 'n option"
    and del :: "u8 \<Rightarrow> 'n \<Rightarrow> 'n option" and ents :: "'n \<Rightarrow> (u8 \<times> 'c) list"
    and smallest :: "u8 \<Rightarrow> 'n \<Rightarrow> 'c option" and largest :: "u8 \<Rightarrow> 'n \<Rightarrow> 'c option"
    and any :: "('c \<Rightarrow> bool) \<Rightarrow> 'n \<Rightarrow> 'c option" and anyR :: "('c \<Rightarrow> bool) \<Rightarrow> 'n \<Rightarrow> 'c option"
    and between :: "u8 \<Rightarrow> u8 \<Rightarrow> 'n \<Rightarrow> (u8 \<times> 'c) list"
  assumes new_ok: "ok new \<and> cmap new = Map.empty \<and> used new = 0"
    and ins_ok: "ok n \<Longrightarrow> cmap n k = None \<Longrightarrow> used n < cap \<Longrightarrow>
      \<exists>n'. ins k c n = (True, n') \<and> ok n' \<and> cmap n' = (cmap n)(k \<mapsto> c) \<and> used n' = Suc (used n)"
    and get_ok: "ok n \<Longrightarrow> get k n = cmap n k"
    and chg_ok: "ok n \<Longrightarrow> cmap n k \<noteq> None \<Longrightarrow>
      \<exists>n'. chg k c n = Some n' \<and> ok n' \<and> cmap n' = (cmap n)(k \<mapsto> c)"
    and del_ok: "ok n \<Longrightarrow> cmap n k \<noteq> None \<Longrightarrow>
      \<exists>n'. del k n = Some n' \<and> ok n' \<and> cmap n' = (cmap n)(k := None)"
    and ents_ok: "ok n \<Longrightarrow> distinct (map fst (ents n)) \<and> map_of (ents n) = cmap n"
    and cnt_ok: "ok n \<Longrightarrow> cnt n = card (dom (cmap n))"
    and smallest_ok: "ok n \<Longrightarrow> least_from s (cmap n) (smallest s n)"
    and largest_ok: "ok n \<Longrightarrow> greatest_upto e (cmap n) (largest e n)"
    and any_ok: "ok n \<Longrightarrow> cmap n \<noteq> Map.empty \<Longrightarrow> \<exists>k c. cmap n k = Some c \<and> any P n = Some c"
    and anyR_ok: "ok n \<Longrightarrow> cmap n \<noteq> Map.empty \<Longrightarrow> \<exists>k c. cmap n k = Some c \<and> anyR P n = Some c"
    and between_ok: "ok n \<Longrightarrow> lists_map s e (cmap n) (between s e n)"
begin

definition copy :: "(u8 \<times> 'c) list \<Rightarrow> 'n \<Rightarrow> 'n" where
  "copy xs n = fold (\<lambda>(k, c) t. snd (ins k c t)) xs n"

lemma copy_into:
  assumes "ok n" "distinct (map fst xs)" "dom (cmap n) \<inter> fst ` set xs = {}" "used n + length xs \<le> cap"
  shows "ok (copy xs n) \<and> cmap (copy xs n) = cmap n ++ map_of xs \<and> used (copy xs n) = used n + length xs"
  using assms
proof (induction xs arbitrary: n)
  case Nil
  then show ?case by (simp add: copy_def)
next
  case (Cons e xs)
  obtain k c where e: "e = (k, c)" by (cases e)
  have "cmap n k = None" "used n < cap" using Cons.prems by (auto simp: e)
  then obtain n' where n': "ins k c n = (True, n')" "ok n'" "cmap n' = (cmap n)(k \<mapsto> c)" "used n' = Suc (used n)"
    using ins_ok[OF Cons.prems(1)] by blast
  have "dom (cmap n') \<inter> fst ` set xs = {}" using Cons.prems(2,3) n'(3) by (auto simp: e)
  then have IH: "ok (copy xs n') \<and> cmap (copy xs n') = cmap n' ++ map_of xs \<and> used (copy xs n') = used n' + length xs"
    using Cons.IH[OF n'(2)] Cons.prems(2,4) n'(4) by (simp add: e)
  have "k \<notin> dom (map_of xs)" using Cons.prems(2) by (auto simp: e dom_map_of_conv_image_fst)
  then have "cmap n' ++ map_of xs = cmap n ++ map_of (e # xs)"
    unfolding n'(3) e by (auto simp: map_add_def fun_eq_iff domIff split: option.splits)
  moreover have "copy (e # xs) n = copy xs n'" by (simp add: e copy_def n'(1))
  ultimately show ?case using IH n'(4) by (simp del: map_of.simps)
qed

text \<open>Copying all the children of another node into a fresh one.\<close>

lemma copy_all:
  assumes "distinct (map fst xs)" "length xs \<le> cap"
  shows "ok (copy xs new)" "cmap (copy xs new) = map_of xs" "used (copy xs new) = length xs"
  using copy_into[of new xs] new_ok assms by auto

text \<open>A copy with one more child: what growing and compacting a node produce.\<close>

lemma copy_insert:
  assumes "distinct (map fst xs)" "length xs < cap" "map_of xs k = None"
  shows "ok (snd (ins k c (copy xs new)))" "cmap (snd (ins k c (copy xs new))) = (map_of xs)(k \<mapsto> c)"
  using ins_ok[of "copy xs new" k c] copy_all[OF assms(1)] assms(2,3) by auto

lemma length_ents: "ok n \<Longrightarrow> length (ents n) = card (dom (cmap n))"
  using ents_ok[of n] by (metis dom_map_of_conv_image_fst distinct_card length_map list.set_map)

end

section \<open>Loops\<close>

lemma anyChild_loop_mem:
  "anyChild_loop P cs acc = Some c \<Longrightarrow> acc = Some c \<or> Some c \<in> set cs"
  by (induction P cs acc rule: anyChild_loop.induct) (auto split: if_splits)

lemma anyChild_loop_Some:
  "acc \<noteq> None \<or> (\<exists>c. Some c \<in> set cs) \<Longrightarrow> anyChild_loop P cs acc \<noteq> None"
  by (induction P cs acc rule: anyChild_loop.induct) auto

lemma anyChild_ok:
  assumes "\<And>c. Some c \<in> set cs \<longleftrightarrow> (\<exists>k. m k = Some c)" "m \<noteq> Map.empty"
  shows "\<exists>k c. m k = Some c \<and> anyChild_loop P cs None = Some c"
proof -
  obtain k c where "m k = Some c" using assms(2) by (meson ext option.exhaust)
  then have "Some c \<in> set cs" using assms(1) by blast
  then obtain d where "anyChild_loop P cs None = Some d"
    using anyChild_loop_Some[of None cs P] by auto
  with anyChild_loop_mem[OF this] assms(1) show ?thesis by auto
qed

text \<open>A list of keys and children that presents a map: one live position for each key.\<close>

definition presents :: "(u8 \<times> 'c option) list \<Rightarrow> (u8 \<rightharpoonup> 'c) \<Rightarrow> bool" where
  "presents xs m \<longleftrightarrow> (\<forall>k c. (k, Some c) \<in> set xs \<longleftrightarrow> m k = Some c)"

text \<open>The best key so far, at the start of the loop and at its end.\<close>

definition best_min :: "u8 \<Rightarrow> (u8 \<times> 'c option) list \<Rightarrow> (u8 \<rightharpoonup> 'c) \<Rightarrow> u8 \<Rightarrow> 'c option \<Rightarrow> bool" where
  "best_min s seen m b acc \<longleftrightarrow>
     (acc = None \<and> b = 255 \<and> (\<forall>j c. (j, Some c) \<in> set seen \<longrightarrow> \<not> s \<le> j) \<or>
      acc \<noteq> None \<and> s \<le> b \<and> m b = acc \<and> (\<forall>j c. (j, Some c) \<in> set seen \<and> s \<le> j \<longrightarrow> b \<le> j))"

definition best_max :: "u8 \<Rightarrow> (u8 \<times> 'c option) list \<Rightarrow> (u8 \<rightharpoonup> 'c) \<Rightarrow> u8 \<Rightarrow> 'c option \<Rightarrow> bool" where
  "best_max e seen m b acc \<longleftrightarrow>
     (acc = None \<and> b = 0 \<and> (\<forall>j c. (j, Some c) \<in> set seen \<longrightarrow> \<not> j \<le> e) \<or>
      acc \<noteq> None \<and> b \<le> e \<and> m b = acc \<and> (\<forall>j c. (j, Some c) \<in> set seen \<and> j \<le> e \<longrightarrow> j \<le> b))"

lemma u8_le_255: "k \<le> (255 :: u8)"
proof -
  have "(255 :: u8) = - 1" by simp
  then show ?thesis by (simp only: word_order.extremum)
qed

lemma smallest_loop_best:
  assumes "best_min s seen m b acc" "\<forall>k c. (k, Some c) \<in> set xs \<longrightarrow> m k = Some c"
  shows "\<exists>b'. best_min s (seen @ xs) m b' (smallest_loop s xs b acc)"
  using assms
proof (induction xs arbitrary: seen b acc)
  case Nil
  then show ?case by auto
next
  case (Cons e xs)
  obtain k c where e: "e = (k, c)" by (cases e)
  let ?take = "s \<le> k \<and> k \<le> b \<and> c \<noteq> None"
  have "best_min s (seen @ [(k, c)]) m (if ?take then k else b) (if ?take then c else acc)"
  proof (cases ?take)
    case True
    then have "m k = c" using Cons.prems(2) by (auto simp: e)
    moreover have "k \<le> j" if "(j, Some d) \<in> set seen" "s \<le> j" for j d
      using Cons.prems(1) True that unfolding best_min_def by (meson order.trans)
    ultimately show ?thesis using True by (auto simp: best_min_def)
  next
    case False
    then have "b \<le> k" "acc \<noteq> None" if "s \<le> k" "c \<noteq> None"
      using that Cons.prems(1) u8_le_255[of k] unfolding best_min_def by (auto simp: not_le less_imp_le)
    then show ?thesis using Cons.prems(1) False by (auto simp: best_min_def)
  qed
  from Cons.IH[OF this] Cons.prems(2) show ?case by (auto simp: e split: if_splits)
qed

lemma largest_loop_best:
  assumes "best_max x seen m b acc" "\<forall>k c. (k, Some c) \<in> set xs \<longrightarrow> m k = Some c"
  shows "\<exists>b'. best_max x (seen @ xs) m b' (largest_loop x xs b acc)"
  using assms
proof (induction xs arbitrary: seen b acc)
  case Nil
  then show ?case by auto
next
  case (Cons e xs)
  obtain k c where e: "e = (k, c)" by (cases e)
  let ?take = "k \<le> x \<and> b \<le> k \<and> c \<noteq> None"
  have "best_max x (seen @ [(k, c)]) m (if ?take then k else b) (if ?take then c else acc)"
  proof (cases ?take)
    case True
    then have "m k = c" using Cons.prems(2) by (auto simp: e)
    moreover have "j \<le> k" if "(j, Some d) \<in> set seen" "j \<le> x" for j d
      using Cons.prems(1) True that unfolding best_max_def by (meson order.trans)
    ultimately show ?thesis using True by (auto simp: best_max_def)
  next
    case False
    then have "k \<le> b" "acc \<noteq> None" if "k \<le> x" "c \<noteq> None"
      using that Cons.prems(1) unfolding best_max_def by (auto simp: not_le less_imp_le)
    then show ?thesis using Cons.prems(1) False by (auto simp: best_max_def)
  qed
  from Cons.IH[OF this] Cons.prems(2) show ?case by (auto simp: e split: if_splits)
qed

lemma smallest_loop_ok:
  assumes "presents xs m"
  shows "least_from s m (smallest_loop s xs 255 None)"
proof -
  have eq: "(j, Some c) \<in> set xs \<longleftrightarrow> m j = Some c" for j c using assms by (simp add: presents_def)
  have "best_min s [] m 255 None" by (simp add: best_min_def)
  then obtain b where b: "best_min s xs m b (smallest_loop s xs 255 None)"
    using smallest_loop_best[of s "[]" m 255 None xs] eq by auto
  show ?thesis
  proof (cases "smallest_loop s xs 255 None")
    case None
    then have "m k = None" if "s \<le> k" for k
      using b that by (cases "m k") (auto simp: best_min_def eq)
    then show ?thesis using None by (simp add: least_from_def)
  next
    case (Some c)
    then have "m b = Some c" "s \<le> b" using b by (auto simp: best_min_def)
    moreover have "m j = None" if "s \<le> j" "j < b" for j
      using b that Some by (cases "m j") (auto simp: best_min_def eq)
    ultimately show ?thesis unfolding least_from_def Some by (intro disjI2 exI[of _ b]) simp
  qed
qed

lemma largest_loop_ok:
  assumes "presents xs m"
  shows "greatest_upto x m (largest_loop x xs 0 None)"
proof -
  have eq: "(j, Some c) \<in> set xs \<longleftrightarrow> m j = Some c" for j c using assms by (simp add: presents_def)
  have "best_max x [] m 0 None" by (simp add: best_max_def)
  then obtain b where b: "best_max x xs m b (largest_loop x xs 0 None)"
    using largest_loop_best[of x "[]" m 0 None xs] eq by auto
  show ?thesis
  proof (cases "largest_loop x xs 0 None")
    case None
    then have "m k = None" if "k \<le> x" for k
      using b that by (cases "m k") (auto simp: best_max_def eq)
    then show ?thesis using None by (simp add: greatest_upto_def)
  next
    case (Some c)
    then have "m b = Some c" "b \<le> x" using b by (auto simp: best_max_def)
    moreover have "m j = None" if "b < j" "j \<le> x" for j
      using b that Some by (cases "m j") (auto simp: best_max_def eq)
    ultimately show ?thesis unfolding greatest_upto_def Some by (intro disjI2 exI[of _ b]) simp
  qed
qed

lemma set_map_filter_pairs:
  "(k, c) \<in> set (List.map_filter (\<lambda>(k, c). if P k then map_option (Pair k) c else None) xs)
     \<longleftrightarrow> P k \<and> (k, Some c) \<in> set xs"
  by (force simp: List.map_filter_def split: if_splits)

lemma children_between_ok:
  assumes "presents xs m" "distinct (map fst (filter (\<lambda>e. snd e \<noteq> None) xs))"
  shows "lists_map s e m (children_between s e xs)"
proof -
  let ?ys = "List.map_filter (\<lambda>(k, c). if s \<le> k \<and> k \<le> e then map_option (Pair k) c else None) xs"
  have "map fst ?ys = filter (\<lambda>k. s \<le> k \<and> k \<le> e) (map fst (filter (\<lambda>e. snd e \<noteq> None) xs))"
    by (induction xs) (auto simp: List.map_filter_def)
  then have "distinct (map fst ?ys)" using assms(2) by simp
  then have "distinct (map fst (sort_key fst ?ys))"
    using mset_eq_imp_distinct_iff[of "map fst (sort_key fst ?ys)" "map fst ?ys"] by simp
  then show ?thesis
    using assms(1) set_map_filter_pairs[of _ _ "\<lambda>k. s \<le> k \<and> k \<le> e" xs]
    by (auto simp: lists_map_def children_between_def presents_def)
qed

section \<open>Key arrays\<close>

definition occupied :: "'c karr \<Rightarrow> nat set" where
  "occupied a = {i. i < length (children a) \<and> children a ! i \<noteq> None}"

definition karr_ok :: "nat \<Rightarrow> 'c karr \<Rightarrow> bool" where
  "karr_ok C a \<longleftrightarrow> length (keys a) = C \<and> length (children a) = C \<and> compactCount a \<le> C \<and>
     occupied a \<subseteq> {..<compactCount a} \<and> inj_on (\<lambda>i. keys a ! i) (occupied a) \<and> count a = card (occupied a)"

definition karr_ents :: "(u8 \<Rightarrow> u8) \<Rightarrow> 'c karr \<Rightarrow> (u8 \<times> 'c) list" where
  "karr_ents dec a =
     List.map_filter (\<lambda>i. map_option (Pair (dec (keys a ! i))) (children a ! i)) [0..<compactCount a]"

definition karr_map :: "(u8 \<Rightarrow> u8) \<Rightarrow> 'c karr \<Rightarrow> (u8 \<rightharpoonup> 'c)" where
  "karr_map dec a = map_of (karr_ents dec a)"

lemma finite_occupied [simp]: "finite (occupied a)"
  by (simp add: occupied_def)

lemma map_fst_map_filter:
  "map fst (List.map_filter (\<lambda>i. map_option (Pair (f i)) (g i)) xs) = map f (filter (\<lambda>i. g i \<noteq> None) xs)"
  by (induction xs) (auto simp: List.map_filter_def)

lemma set_map_filter_opt:
  "(k, c) \<in> set (List.map_filter (\<lambda>i. map_option (Pair (f i)) (g i)) xs) \<longleftrightarrow> (\<exists>i \<in> set xs. g i = Some c \<and> f i = k)"
  by (force simp: List.map_filter_def)

lemma karr_ents_distinct:
  assumes "karr_ok C a" "inj dec"
  shows "distinct (map fst (karr_ents dec a))"
proof -
  have "set (filter (\<lambda>i. children a ! i \<noteq> None) [0..<compactCount a]) \<subseteq> occupied a"
    using assms(1) by (auto simp: occupied_def karr_ok_def)
  moreover have "inj_on (\<lambda>i. dec (keys a ! i)) (occupied a)"
    using assms by (auto simp: karr_ok_def inj_on_def dest: injD)
  ultimately show ?thesis
    unfolding karr_ents_def map_fst_map_filter distinct_map by (meson distinct_filter distinct_upt inj_on_subset)
qed

lemma karr_map_Some:
  assumes "karr_ok C a" "inj dec"
  shows "karr_map dec a k = Some c \<longleftrightarrow> (\<exists>i \<in> occupied a. children a ! i = Some c \<and> dec (keys a ! i) = k)"
proof -
  have "karr_map dec a k = Some c \<longleftrightarrow> (\<exists>i < compactCount a. children a ! i = Some c \<and> dec (keys a ! i) = k)"
    unfolding karr_map_def map_of_eq_Some_iff[OF karr_ents_distinct[OF assms]]
    unfolding karr_ents_def set_map_filter_opt by auto
  then show ?thesis using assms(1) unfolding karr_ok_def occupied_def by fastforce
qed

lemma karr_map_dom:
  assumes "karr_ok C a" "inj dec"
  shows "dom (karr_map dec a) = (\<lambda>i. dec (keys a ! i)) ` occupied a"
proof -
  have "k \<in> dom (karr_map dec a) \<longleftrightarrow> (\<exists>i \<in> occupied a. dec (keys a ! i) = k)" for k
    using karr_map_Some[OF assms] by (auto simp: dom_def occupied_def)
  then show ?thesis by (intro set_eqI) (simp only: image_iff, metis)
qed

lemma karr_count:
  assumes "karr_ok C a" "inj dec"
  shows "count a = card (dom (karr_map dec a))"
proof -
  have "inj_on (\<lambda>i. dec (keys a ! i)) (occupied a)"
    using assms by (auto simp: karr_ok_def inj_on_def dest: injD)
  from card_image[OF this] show ?thesis
    using assms(1) unfolding karr_map_dom[OF assms] karr_ok_def by simp
qed

lemma karr_new: "karr_ok C (Karr (replicate C 0) (replicate C (None :: 'c option)) 0 0)"
  "karr_map dec (Karr (replicate C 0) (replicate C None) 0 0) = Map.empty"
proof -
  have "occupied (Karr (replicate C 0) (replicate C (None :: 'c option)) 0 0) = {}" by (auto simp: occupied_def)
  then show "karr_ok C (Karr (replicate C 0) (replicate C (None :: 'c option)) 0 0)" by (simp add: karr_ok_def)
  show "karr_map dec (Karr (replicate C 0) (replicate C None) 0 0) = Map.empty"
    by (simp add: karr_map_def karr_ents_def List.map_filter_def)
qed

lemma karr_insert:
  assumes ok: "karr_ok C a" and dec: "inj dec" "\<And>x. dec (enc x) = x" and new: "karr_map dec a k = None"
    and room: "compactCount a < C"
    and b_def: "b = Karr ((keys a)[compactCount a := enc k]) ((children a)[compactCount a := Some c])
    (compactCount a + 1) (count a + 1)"
  shows "karr_ok C b \<and> karr_map dec b = (karr_map dec a)(k \<mapsto> c)"
proof -
  let ?n = "compactCount a"
  have len: "length (keys a) = C" "length (children a) = C" and sub: "occupied a \<subseteq> {..<?n}"
    using ok by (auto simp: karr_ok_def)
  have occ: "occupied b = insert ?n (occupied a)" "?n \<notin> occupied a"
    using room len sub by (auto simp: occupied_def b_def nth_list_update)
  have arr: "keys b ! i = (if i = ?n then enc k else keys a ! i)"
    "children b ! i = (if i = ?n then Some c else children a ! i)" for i
    using room len by (auto simp: b_def nth_list_update)
  have fresh: "dec (keys a ! i) \<noteq> k" if "i \<in> occupied a" for i
    using new that karr_map_dom[OF ok dec(1)] by (metis domIff image_eqI)
  then have nk: "keys a ! i \<noteq> enc k" if "i \<in> occupied a" for i using dec(2) that by metis
  have ia: "inj_on (\<lambda>i. keys a ! i) (occupied a)" using ok by (simp add: karr_ok_def)
  have "inj_on (\<lambda>i. keys b ! i) (occupied b)"
  proof (rule inj_onI)
    fix x y assume *: "x \<in> occupied b" "y \<in> occupied b" "keys b ! x = keys b ! y"
    then have "x = ?n \<longleftrightarrow> y = ?n" using nk occ by (metis arr(1) insertE)
    then show "x = y" using * inj_onD[OF ia, of x y] occ(1) by (auto simp: arr(1) split: if_splits)
  qed
  then have kb: "karr_ok C b"
    unfolding karr_ok_def occ(1) using ok room occ(2) sub by (auto simp: karr_ok_def b_def)
  have "karr_map dec b x = Some y \<longleftrightarrow> ((karr_map dec a)(k \<mapsto> c)) x = Some y" for x y
  proof -
    have "karr_map dec b x = Some y \<longleftrightarrow> (y = c \<and> x = k) \<or> (\<exists>i \<in> occupied a. children a ! i = Some y \<and> dec (keys a ! i) = x)"
      unfolding karr_map_Some[OF kb dec(1)] occ(1) using occ(2) dec(2) by (auto simp: arr)
    then show ?thesis
      using karr_map_Some[OF ok dec(1), of x y] new by auto
  qed
  then show ?thesis using kb map_eqI by blast
qed

text \<open>The position of a key, however it is found.\<close>

locale karr_pos =
  fixes C :: nat and dec :: "u8 \<Rightarrow> u8" and pos :: "u8 \<Rightarrow> 'c karr \<Rightarrow> nat option"
  assumes dec: "inj dec"
    and pos_hit: "karr_ok C a \<Longrightarrow> pos k a = Some i \<Longrightarrow> i \<in> occupied a \<and> dec (keys a ! i) = k"
    and pos_miss: "karr_ok C a \<Longrightarrow> pos k a = None \<Longrightarrow> i \<in> occupied a \<Longrightarrow> dec (keys a ! i) \<noteq> k"
begin

lemma at:
  assumes "karr_ok C a"
  shows "(case pos k a of Some i \<Rightarrow> children a ! i | None \<Rightarrow> None) = karr_map dec a k"
proof (cases "pos k a")
  case None
  then have "karr_map dec a k = None"
    using pos_miss[OF assms None] karr_map_dom[OF assms dec] by (metis (mono_tags, lifting) domIff imageE)
  then show ?thesis using None by simp
next
  case (Some i)
  note hit = pos_hit[OF assms Some]
  then obtain c where "children a ! i = Some c" by (auto simp: occupied_def)
  then have "karr_map dec a k = Some c" using hit karr_map_Some[OF assms dec] by blast
  then show ?thesis using Some \<open>children a ! i = Some c\<close> by simp
qed

lemma found:
  assumes "karr_ok C a" "karr_map dec a k \<noteq> None"
  obtains i where "pos k a = Some i" "i \<in> occupied a" "dec (keys a ! i) = k" "i < length (children a)"
  using at[OF assms(1), of k] assms(2) pos_hit[OF assms(1), of k]
  by (cases "pos k a") (auto simp: occupied_def)

lemma key_unique:
  "karr_ok C a \<Longrightarrow> i \<in> occupied a \<Longrightarrow> j \<in> occupied a \<Longrightarrow> dec (keys a ! i) = dec (keys a ! j) \<Longrightarrow> i = j"
  using dec by (auto simp: karr_ok_def inj_on_def dest: injD)

lemma change:
  assumes ok: "karr_ok C a" and k: "karr_map dec a k \<noteq> None"
  shows "\<exists>b. (case pos k a of Some i \<Rightarrow> Some (Karr (keys a) ((children a)[i := Some v]) (compactCount a) (count a)) | None \<Rightarrow> None) = Some b \<and>
    karr_ok C b \<and> karr_map dec b = (karr_map dec a)(k \<mapsto> v)"
proof -
  obtain i where i: "pos k a = Some i" "i \<in> occupied a" "dec (keys a ! i) = k" "i < length (children a)"
    using found[OF assms] .
  let ?b = "Karr (keys a) ((children a)[i := Some v]) (compactCount a) (count a)"
  have occ: "occupied ?b = occupied a" using i(2,4) by (auto simp: occupied_def nth_list_update)
  then have ok': "karr_ok C ?b" using ok by (simp add: karr_ok_def)
  have "karr_map dec ?b x = Some y \<longleftrightarrow> ((karr_map dec a)(k \<mapsto> v)) x = Some y" for x y
  proof -
    have ch: "children ?b ! j = (if j = i then Some v else children a ! j)" for j
      using i(4) by (simp add: nth_list_update)
    have ji: "j = i \<longleftrightarrow> dec (keys a ! j) = k" if "j \<in> occupied a" for j
      using key_unique[OF ok i(2) that] i(3) by metis
    show ?thesis
    proof (cases "x = k")
      case True
      have "karr_map dec ?b x = Some y \<longleftrightarrow> (\<exists>j \<in> occupied a. j = i \<and> v = y)"
        unfolding karr_map_Some[OF ok' dec] occ ch unfolding karr.sel True using ji by (intro bex_cong) auto
      then show ?thesis using i(2) True by simp
    next
      case False
      have "karr_map dec ?b x = Some y \<longleftrightarrow> (\<exists>j \<in> occupied a. children a ! j = Some y \<and> dec (keys a ! j) = x)"
        unfolding karr_map_Some[OF ok' dec] occ ch unfolding karr.sel using ji False by (intro bex_cong) auto
      then show ?thesis using karr_map_Some[OF ok dec, of x y] False by simp
    qed
  qed
  then have "karr_map dec ?b = (karr_map dec a)(k \<mapsto> v)" by (rule map_eqI)
  then show ?thesis using i(1) ok' by simp
qed

lemma remove:
  assumes ok: "karr_ok C a" and k: "karr_map dec a k \<noteq> None"
  shows "\<exists>b. (case pos k a of Some i \<Rightarrow> Some (Karr (keys a) ((children a)[i := None]) (compactCount a) (count a - 1)) | None \<Rightarrow> None) = Some b \<and>
    karr_ok C b \<and> karr_map dec b = (karr_map dec a)(k := None)"
proof -
  obtain i where i: "pos k a = Some i" "i \<in> occupied a" "dec (keys a ! i) = k" "i < length (children a)"
    using found[OF assms] .
  let ?b = "Karr (keys a) ((children a)[i := None]) (compactCount a) (count a - 1)"
  have occ: "occupied ?b = occupied a - {i}" using i(2,4) by (auto simp: occupied_def nth_list_update)
  then have ok': "karr_ok C ?b"
    using ok i(2) by (auto simp: karr_ok_def inj_on_diff)
  have "karr_map dec ?b x = Some y \<longleftrightarrow> ((karr_map dec a)(k := None)) x = Some y" for x y
  proof -
    have ch: "children ?b ! j = (if j = i then None else children a ! j)" for j
      using i(4) by (simp add: nth_list_update)
    have ji: "j = i \<longleftrightarrow> dec (keys a ! j) = k" if "j \<in> occupied a" for j
      using key_unique[OF ok i(2) that] i(3) by metis
    show ?thesis
    proof (cases "x = k")
      case True
      have "\<not> (\<exists>j \<in> occupied a - {i}. dec (keys a ! j) = k)" using ji by blast
      then show ?thesis unfolding karr_map_Some[OF ok' dec] occ karr.sel True by simp
    next
      case False
      have "karr_map dec ?b x = Some y \<longleftrightarrow> (\<exists>j \<in> occupied a. j \<noteq> i \<and> children a ! j = Some y \<and> dec (keys a ! j) = x)"
        unfolding karr_map_Some[OF ok' dec] occ ch unfolding karr.sel by auto
      also have "\<dots> \<longleftrightarrow> (\<exists>j \<in> occupied a. children a ! j = Some y \<and> dec (keys a ! j) = x)"
        using ji False by (intro bex_cong) auto
      finally show ?thesis using karr_map_Some[OF ok dec, of x y] False by simp
    qed
  qed
  then have "karr_map dec ?b = (karr_map dec a)(k := None)" by (rule map_eqI)
  then show ?thesis using i(1) ok' by simp
qed

end

section \<open>\<open>N4\<close>\<close>

lemma find_upt_hit: "find P [0..<m] = Some i \<Longrightarrow> i < m \<and> P i"
  by (auto simp: find_Some_iff)

lemma find_upt_miss: "find P [0..<m] = None \<Longrightarrow> i < m \<Longrightarrow> \<not> P i"
  by (auto simp: find_None_iff)

lemma occupied_bounds:
  "karr_ok C a \<Longrightarrow> i \<in> occupied a \<longleftrightarrow> i < compactCount a \<and> children a ! i \<noteq> None"
  "karr_ok C a \<Longrightarrow> i \<in> occupied a \<longleftrightarrow> i < C \<and> children a ! i \<noteq> None"
  by (auto simp: karr_ok_def occupied_def)

interpretation n4: karr_pos 4 "\<lambda>x. x" "\<lambda>k a. N4_pos k (compactCount a) a"
  by unfold_locales (auto simp: N4_pos_def occupied_bounds(1) dest: find_upt_hit find_upt_miss)

interpretation n4g: karr_pos 4 "\<lambda>x. x" "\<lambda>k a. N4_pos k 4 a"
  by unfold_locales (auto simp: N4_pos_def occupied_bounds(2) dest: find_upt_hit find_upt_miss)

lemma karr_presents:
  assumes "karr_ok C a" "inj dec" "m = compactCount a \<or> m = C"
  shows "presents (map (\<lambda>i. (dec (keys a ! i), children a ! i)) [0..<m]) (karr_map dec a)"
    "distinct (map fst (filter (\<lambda>e. snd e \<noteq> None) (map (\<lambda>i. (dec (keys a ! i), children a ! i)) [0..<m])))"
proof -
  have occ: "i < m \<and> children a ! i \<noteq> None \<longleftrightarrow> i \<in> occupied a" for i
    using assms(3) occupied_bounds[OF assms(1), of i] by auto
  have "(k, Some c) \<in> set (map (\<lambda>i. (dec (keys a ! i), children a ! i)) [0..<m]) \<longleftrightarrow>
      (\<exists>i. (i < m \<and> children a ! i \<noteq> None) \<and> children a ! i = Some c \<and> dec (keys a ! i) = k)" for k c
    by (auto simp: image_iff) (metis atLeastLessThan_iff le0)
  then show "presents (map (\<lambda>i. (dec (keys a ! i), children a ! i)) [0..<m]) (karr_map dec a)"
    unfolding occ using karr_map_Some[OF assms(1,2)] by (auto simp: presents_def)
  have "map fst (filter (\<lambda>e. snd e \<noteq> None) (map (\<lambda>i. (dec (keys a ! i), children a ! i)) [0..<m]))
      = map (\<lambda>i. dec (keys a ! i)) (filter (\<lambda>i. children a ! i \<noteq> None) [0..<m])"
    by (simp add: filter_map o_def)
  moreover have "set (filter (\<lambda>i. children a ! i \<noteq> None) [0..<m]) \<subseteq> occupied a" using occ by auto
  moreover have "inj_on (\<lambda>i. dec (keys a ! i)) (occupied a)"
    using assms(1,2) by (auto simp: karr_ok_def inj_on_def dest: injD)
  ultimately show "distinct (map fst (filter (\<lambda>e. snd e \<noteq> None) (map (\<lambda>i. (dec (keys a ! i), children a ! i)) [0..<m])))"
    by (simp add: distinct_map inj_on_subset)
qed

lemma karr_children_mem:
  assumes "karr_ok C a" "inj dec"
  shows "Some c \<in> set (map (\<lambda>i. children a ! i) [0..<C]) \<longleftrightarrow> (\<exists>k. karr_map dec a k = Some c)"
proof -
  have "Some c \<in> set (map (\<lambda>i. children a ! i) [0..<C]) \<longleftrightarrow> (\<exists>i \<in> occupied a. children a ! i = Some c)"
    using occupied_bounds(2)[OF assms(1)] unfolding in_set_conv_nth by (auto simp del: set_map)
  then show ?thesis using karr_map_Some[OF assms] by blast
qed

interpretation layout4: art_node "karr_ok 4" "karr_map (\<lambda>x. x)" 4 compactCount count N4_new N4_insert
  N4_getChild N4_change N4_remove N4_entries N4_getSmallestChild N4_getLargestChild
  N4_getAnyChild N4_getAnyChildReverse N4_getChildren
proof
  fix n :: "'b karr" and k :: u8 and c :: 'b
  have id: "inj (\<lambda>x :: u8. x)" by (simp add: inj_def)
  show "karr_ok 4 (N4_new :: 'b karr) \<and> karr_map (\<lambda>x. x) (N4_new :: 'b karr) = Map.empty \<and> compactCount (N4_new :: 'b karr) = 0"
    unfolding N4_new_def using karr_new(1)[of 4] karr_new(2)[of "\<lambda>x. x" 4] by simp
  assume ok: "karr_ok 4 n"
  note pres = karr_presents[OF ok id]
  show "karr_map (\<lambda>x. x) n k = None \<Longrightarrow> compactCount n < 4 \<Longrightarrow> \<exists>n'. N4_insert k c n = (True, n') \<and> karr_ok 4 n' \<and>
      karr_map (\<lambda>x. x) n' = (karr_map (\<lambda>x. x) n)(k \<mapsto> c) \<and> compactCount n' = Suc (compactCount n)"
    using karr_insert[OF ok id, of "\<lambda>x. x" k _ c] by (simp add: N4_insert_def)
  show "N4_getChild k n = karr_map (\<lambda>x. x) n k"
    unfolding N4_getChild_def using n4g.at[OF ok] by simp
  show "karr_map (\<lambda>x. x) n k \<noteq> None \<Longrightarrow> \<exists>n'. N4_change k c n = Some n' \<and> karr_ok 4 n' \<and>
      karr_map (\<lambda>x. x) n' = (karr_map (\<lambda>x. x) n)(k \<mapsto> c)"
    unfolding N4_change_def by (rule n4.change[OF ok])
  show "karr_map (\<lambda>x. x) n k \<noteq> None \<Longrightarrow> \<exists>n'. N4_remove k n = Some n' \<and> karr_ok 4 n' \<and>
      karr_map (\<lambda>x. x) n' = (karr_map (\<lambda>x. x) n)(k := None)"
    unfolding N4_remove_def by (rule n4.remove[OF ok])
  show "distinct (map fst (N4_entries n)) \<and> map_of (N4_entries n) = karr_map (\<lambda>x. x) n"
    using karr_ents_distinct[OF ok id] by (simp add: karr_map_def karr_ents_def N4_entries_def)
  show "count n = card (dom (karr_map (\<lambda>x. x) n))" by (rule karr_count[OF ok id])
  show "least_from k (karr_map (\<lambda>x. x) n) (N4_getSmallestChild k n)" for k
    unfolding N4_getSmallestChild_def using smallest_loop_ok[OF pres(1)] by simp
  show "greatest_upto k (karr_map (\<lambda>x. x) n) (N4_getLargestChild k n)" for k
    unfolding N4_getLargestChild_def using largest_loop_ok[OF pres(1)] by simp
  show "karr_map (\<lambda>x. x) n \<noteq> Map.empty \<Longrightarrow> \<exists>k c. karr_map (\<lambda>x. x) n k = Some c \<and> N4_getAnyChild P n = Some c" for P
    unfolding N4_getAnyChild_def by (rule anyChild_ok) (auto simp only: karr_children_mem[OF ok id])
  show "karr_map (\<lambda>x. x) n \<noteq> Map.empty \<Longrightarrow> \<exists>k c. karr_map (\<lambda>x. x) n k = Some c \<and> N4_getAnyChildReverse P n = Some c" for P
    unfolding N4_getAnyChildReverse_def by (rule anyChild_ok) (auto simp only: set_rev karr_children_mem[OF ok id])
  show "lists_map s e (karr_map (\<lambda>x. x) n) (N4_getChildren s e n)" for s e
    unfolding N4_getChildren_def using children_between_ok[OF pres(1,2)] by simp
qed

section \<open>\<open>N16\<close>\<close>

lemma flipSign_flipSign [simp]: "flipSign (flipSign x) = x"
  by (simp add: flipSign_def xor.assoc)

lemma inj_flipSign: "inj flipSign"
  by (metis flipSign_flipSign injI)

lemma bit_movemask [mask_simps]:
  "bit (movemask_cmpeq b v) i \<longleftrightarrow> i < 16 \<and> i < length v \<and> v ! i = b"
  by (auto simp: movemask_cmpeq_def bit_horner_sum_bit_word_iff)

lemma bit_low_mask: "n \<le> 16 \<Longrightarrow> bit (push_bit n 1 - 1 :: u32) i \<longleftrightarrow> i < n"
  using bit_mask_iff[where 'a = u32, of n i] by (auto simp: mask_eq_exp_minus_1 push_bit_of_1)

lemma scanBits_hit: "scanBits w P = Some p \<Longrightarrow> bit w p \<and> P p"
proof (induction w P rule: scanBits.induct)
  case (1 w P)
  show ?case
  proof (cases "w = 0")
    case True
    then show ?thesis using 1(2) by (simp add: scanBits.simps)
  next
    case False
    let ?q = "ctz w"
    have q: "bit w ?q" using bsf_props(1)[OF False] by (simp add: ctz_def)
    show ?thesis
    proof (cases "P ?q")
      case True
      then show ?thesis using 1(2) False q by (simp add: scanBits.simps[of w])
    next
      case nP: False
      then have "bit (w XOR push_bit ?q 1) p \<and> P p"
        using 1 False by (simp add: scanBits.simps[of w] Let_def)
      then show ?thesis using xor_set_bit[OF q] by (simp add: bit_and_iff)
    qed
  qed
qed

lemma scanBits_miss: "scanBits w P = None \<Longrightarrow> bit w p \<Longrightarrow> \<not> P p"
proof (induction w P rule: scanBits.induct)
  case (1 w P)
  have nz: "w \<noteq> 0" using 1(3) by auto
  let ?q = "ctz w"
  have q: "bit w ?q" using bsf_props(1)[OF nz] by (simp add: ctz_def)
  have nP: "\<not> P ?q" "scanBits (w XOR push_bit ?q 1) P = None"
    using 1(2) nz by (auto simp: scanBits.simps[of w] Let_def split: if_splits)
  show ?case
  proof (cases "p = ?q")
    case False
    then have "bit (w XOR push_bit ?q 1) p"
      using 1(3) bit_imp_le_length[OF 1(3)] unfolding xor_set_bit[OF q] by (simp add: bit_and_iff mask_simps)
    then show ?thesis using 1(1)[OF nz refl nP(1,2)] by simp
  qed (use nP in simp)
qed

lemma movemask_pos:
  assumes "karr_ok 16 a" "m \<le> 16"
  shows "bit (movemask_cmpeq (flipSign k) (keys a) AND (push_bit m 1 - 1)) i \<longleftrightarrow> i < m \<and> flipSign (keys a ! i) = k"
proof -
  have "length (keys a) = 16" using assms(1) by (simp add: karr_ok_def)
  moreover have "keys a ! i = flipSign k \<longleftrightarrow> flipSign (keys a ! i) = k" by auto
  ultimately show ?thesis using assms(2) unfolding bit_and_iff bit_movemask bit_low_mask[OF assms(2)] by auto
qed

interpretation n16: karr_pos 16 flipSign N16_getChildPos
proof
  fix a :: "'a karr" and k i
  assume ok: "karr_ok 16 a"
  have m: "compactCount a \<le> 16" using ok by (simp add: karr_ok_def)
  show "N16_getChildPos k a = Some i \<Longrightarrow> i \<in> occupied a \<and> flipSign (keys a ! i) = k"
    unfolding N16_getChildPos_def occupied_bounds(1)[OF ok]
    by (drule scanBits_hit) (simp add: movemask_pos[OF ok m] del: push_bit_of_1)
  show "flipSign (keys a ! i) \<noteq> k" if "N16_getChildPos k a = None" "i \<in> occupied a"
    using that scanBits_miss movemask_pos[OF ok m, of k i]
    unfolding N16_getChildPos_def occupied_bounds(1)[OF ok] by blast
qed (rule inj_flipSign)

interpretation n16g: karr_pos 16 flipSign
  "\<lambda>k a. scanBits (movemask_cmpeq (flipSign k) (keys a) AND (push_bit 16 1 - 1))
     (\<lambda>pos. children a ! pos \<noteq> None \<and> keys a ! pos = flipSign k)"
proof
  fix a :: "'a karr" and k i
  assume ok: "karr_ok 16 a"
  let ?s = "scanBits (movemask_cmpeq (flipSign k) (keys a) AND (push_bit 16 1 - 1))
     (\<lambda>pos. children a ! pos \<noteq> None \<and> keys a ! pos = flipSign k)"
  show "?s = Some i \<Longrightarrow> i \<in> occupied a \<and> flipSign (keys a ! i) = k"
    unfolding occupied_bounds(2)[OF ok]
    by (drule scanBits_hit) (metis movemask_pos[OF ok le_refl])
  show "flipSign (keys a ! i) \<noteq> k" if s: "?s = None" and i: "i \<in> occupied a"
  proof
    assume "flipSign (keys a ! i) = k"
    then have "bit (movemask_cmpeq (flipSign k) (keys a) AND (push_bit 16 1 - 1)) i" "keys a ! i = flipSign k"
      "children a ! i \<noteq> None"
      using movemask_pos[OF ok le_refl, of k i] i unfolding occupied_bounds(2)[OF ok] by auto
    then show False using scanBits_miss[OF s] by blast
  qed
qed (rule inj_flipSign)

interpretation layout16: art_node "karr_ok 16" "karr_map flipSign" 16 compactCount count N16_new N16_insert
  N16_getChild N16_change "\<lambda>k a. (case N16_remove k True a of Some r \<Rightarrow> r | None \<Rightarrow> None)" N16_entries
  N16_getSmallestChild N16_getLargestChild N16_getAnyChild N16_getAnyChildReverse N16_getChildren
proof
  fix n :: "'b karr" and k :: u8 and c :: 'b
  show "karr_ok 16 (N16_new :: 'b karr) \<and> karr_map flipSign (N16_new :: 'b karr) = Map.empty \<and> compactCount (N16_new :: 'b karr) = 0"
    unfolding N16_new_def using karr_new(1)[of 16] karr_new(2)[of flipSign 16] by simp
  assume ok: "karr_ok 16 n"
  note pres = karr_presents[OF ok inj_flipSign]
  show "karr_map flipSign n k = None \<Longrightarrow> compactCount n < 16 \<Longrightarrow> \<exists>n'. N16_insert k c n = (True, n') \<and> karr_ok 16 n' \<and>
      karr_map flipSign n' = (karr_map flipSign n)(k \<mapsto> c) \<and> compactCount n' = Suc (compactCount n)"
    using karr_insert[OF ok inj_flipSign, of flipSign k _ c] by (simp add: N16_insert_def)
  show "N16_getChild k n = karr_map flipSign n k"
    unfolding N16_getChild_def by (rule n16g.at[OF ok])
  show "karr_map flipSign n k \<noteq> None \<Longrightarrow> \<exists>n'. N16_change k c n = Some n' \<and> karr_ok 16 n' \<and>
      karr_map flipSign n' = (karr_map flipSign n)(k \<mapsto> c)"
    unfolding N16_change_def by (rule n16.change[OF ok])
  show "karr_map flipSign n k \<noteq> None \<Longrightarrow> \<exists>n'. (case N16_remove k True n of Some r \<Rightarrow> r | None \<Rightarrow> None) = Some n' \<and>
      karr_ok 16 n' \<and> karr_map flipSign n' = (karr_map flipSign n)(k := None)"
    using n16.remove[OF ok, of k] by (auto simp: N16_remove_def split: option.splits)
  show "distinct (map fst (N16_entries n)) \<and> map_of (N16_entries n) = karr_map flipSign n"
    using karr_ents_distinct[OF ok inj_flipSign] by (simp add: karr_map_def karr_ents_def N16_entries_def)
  show "count n = card (dom (karr_map flipSign n))" by (rule karr_count[OF ok inj_flipSign])
  show "least_from k (karr_map flipSign n) (N16_getSmallestChild k n)" for k
    unfolding N16_getSmallestChild_def by (rule smallest_loop_ok[OF pres(1)]) simp
  show "greatest_upto k (karr_map flipSign n) (N16_getLargestChild k n)" for k
    unfolding N16_getLargestChild_def by (rule largest_loop_ok[OF pres(1)]) simp
  show "karr_map flipSign n \<noteq> Map.empty \<Longrightarrow> \<exists>k c. karr_map flipSign n k = Some c \<and> N16_getAnyChild P n = Some c" for P
    unfolding N16_getAnyChild_def by (rule anyChild_ok) (auto simp only: karr_children_mem[OF ok inj_flipSign])
  show "karr_map flipSign n \<noteq> Map.empty \<Longrightarrow> \<exists>k c. karr_map flipSign n k = Some c \<and> N16_getAnyChildReverse P n = Some c" for P
    unfolding N16_getAnyChildReverse_def by (rule anyChild_ok) (auto simp only: set_rev karr_children_mem[OF ok inj_flipSign])
  show "lists_map s e (karr_map flipSign n) (N16_getChildren s e n)" for s e
    unfolding N16_getChildren_def by (rule children_between_ok[OF pres(1,2)]) simp_all
qed

end
