(* ===== verification/ArtWide.thy ===== *)
theory ArtWide
  imports ArtLayouts
begin

text \<open>
  The two layouts that index their children by the byte, \<open>N48\<close> and \<open>N256\<close>, as
  interpretations of the contract \<open>art_node\<close>.
\<close>

section \<open>Children indexed by the byte\<close>

text \<open>\<open>N48\<close> and \<open>N256\<close> give the child of byte \<open>i\<close> directly, as \<open>f i\<close> below.\<close>

lemma unat_u8: "unat (k :: u8) < 256"
  using unsigned_less[of k] by simp

lemma unat_u8_eq [simp]: "unat (j :: u8) = unat k \<longleftrightarrow> j = k"
  by (auto intro: unsigned_word_eqI)

lemma byte_lists:
  fixes f :: "nat \<Rightarrow> 'c option" and a b :: nat
  assumes "b \<le> 256"
  defines "xs \<equiv> List.map_filter (\<lambda>i. map_option (Pair (word_of_nat i :: u8)) (f i)) [a..<b]"
  shows "distinct (map fst xs)" "sorted (map fst xs)"
    "(k, c) \<in> set xs \<longleftrightarrow> a \<le> unat k \<and> unat k < b \<and> f (unat k) = Some c"
proof -
  have un: "unat (word_of_nat i :: u8) = i" if "i < b" for i
    using that assms(1) by (simp add: unat_of_nat)
  let ?is = "filter (\<lambda>i. f i \<noteq> None) [a..<b]"
  have fst: "map fst xs = map (word_of_nat :: nat \<Rightarrow> u8) ?is" unfolding xs_def map_fst_map_filter ..
  have "map unat (map fst xs) = ?is" unfolding fst map_map by (rule map_idI) (auto simp: un)
  then have "sorted (map unat (map fst xs))" "distinct (map unat (map fst xs))"
    by (simp_all add: sorted_wrt_filter)
  then show "distinct (map fst xs)" by (metis distinct_map)
  from \<open>sorted (map unat (map fst xs))\<close> show "sorted (map fst xs)"
    by (simp add: sorted_map word_le_nat_alt)
  show "(k, c) \<in> set xs \<longleftrightarrow> a \<le> unat k \<and> unat k < b \<and> f (unat k) = Some c"
    unfolding xs_def set_map_filter_opt using un by (auto intro!: bexI[of _ "unat k"])
qed

lemma byte_between:
  "lists_map s e (\<lambda>k :: u8. f (unat k))
     (List.map_filter (\<lambda>i. map_option (Pair (word_of_nat i)) (f i)) [unat s..<Suc (unat e)])"
proof -
  have "Suc (unat e) \<le> 256" using unat_u8[of e] by simp
  note lists = byte_lists[OF this, where f = f and a = "unat s"]
  from lists show ?thesis
    unfolding lists_map_def by (auto simp: word_le_nat_alt less_Suc_eq_le)
qed

lemma byte_entries:
  fixes f :: "nat \<Rightarrow> 'c option"
  defines "xs \<equiv> List.map_filter (\<lambda>i. map_option (Pair (word_of_nat i :: u8)) (f i)) [0..<256]"
  shows "distinct (map fst xs) \<and> map_of xs = (\<lambda>k :: u8. f (unat k))"
proof -
  have d: "distinct (map fst xs)" unfolding xs_def by (rule byte_lists) simp
  have mem: "(k, c) \<in> set xs \<longleftrightarrow> 0 \<le> unat k \<and> unat k < 256 \<and> f (unat k) = Some c" for k c
    unfolding xs_def by (rule byte_lists(3)) simp
  have "map_of xs k = Some c \<longleftrightarrow> f (unat k) = Some c" for k c
    using map_of_eq_Some_iff[OF d, of k c] mem[of k c] unat_u8[of k] by (simp only: zero_le simp_thms)
  then have "map_of xs = (\<lambda>k :: u8. f (unat k))" by (intro map_eqI) simp
  with d show ?thesis ..
qed

lemma find_upt_Some:
  "find P [a..<b] = Some i \<Longrightarrow> a \<le> i \<and> i < b \<and> P i \<and> (\<forall>j. a \<le> j \<and> j < i \<longrightarrow> \<not> P j)"
proof (induction "b - a" arbitrary: a)
  case (Suc n)
  then have "a < b" by simp
  with Suc have "find P [Suc a..<b] = Some i \<Longrightarrow> \<not> P a \<Longrightarrow> ?case"
    by (metis Suc_diff_Suc Suc_leD diff_Suc_Suc le_antisym nat.inject not_less_eq_eq)
  with Suc.prems \<open>a < b\<close> show ?case by (auto simp: upt_conv_Cons split: if_splits)
qed simp

lemma find_upt_rev_Some:
  "find P (rev [0..<b]) = Some i \<Longrightarrow> i < b \<and> P i \<and> (\<forall>j. i < j \<and> j < b \<longrightarrow> \<not> P j)"
  by (induction b) (auto simp: less_Suc_eq split: if_splits)

lemma byte_smallest:
  "least_from s (\<lambda>k :: u8. f (unat k)) (case find (\<lambda>i. f i \<noteq> None) [unat s..<256] of Some i \<Rightarrow> f i | None \<Rightarrow> None)"
proof (cases "find (\<lambda>i. f i \<noteq> None) [unat s..<256]")
  case None
  then have "f (unat k) = None" if "s \<le> k" for k :: u8
    using that unat_u8[of k] by (auto simp: find_None_iff word_le_nat_alt)
  then show ?thesis using None by (simp add: least_from_def)
next
  case (Some i)
  from find_upt_Some[OF this] have i: "unat s \<le> i" "i < 256" "f i \<noteq> None"
    and before: "\<And>j. unat s \<le> j \<Longrightarrow> j < i \<Longrightarrow> f j = None" by auto
  then have "unat (word_of_nat i :: u8) = i" by (simp add: unat_of_nat)
  then show ?thesis unfolding least_from_def Some using i before
    by (intro disjI2 exI[of _ "word_of_nat i"]) (auto simp: word_le_nat_alt word_less_nat_alt)
qed

lemma byte_largest:
  "greatest_upto e (\<lambda>k :: u8. f (unat k))
     (case find (\<lambda>i. f i \<noteq> None) (rev [0..<Suc (unat e)]) of Some i \<Rightarrow> f i | None \<Rightarrow> None)"
proof (cases "find (\<lambda>i. f i \<noteq> None) (rev [0..<Suc (unat e)])")
  case None
  then have "f (unat k) = None" if "k \<le> e" for k :: u8
    using that unfolding find_None_iff by (auto simp del: upt_Suc simp: word_le_nat_alt less_Suc_eq_le)
  then show ?thesis using None by (simp add: greatest_upto_def)
next
  case (Some i)
  from find_upt_rev_Some[OF this] have i: "i \<le> unat e" "f i \<noteq> None"
    and after: "\<And>j. i < j \<Longrightarrow> j \<le> unat e \<Longrightarrow> f j = None" by auto
  have "unat (word_of_nat i :: u8) = i" using i(1) unat_u8[of e] by (simp add: unat_of_nat)
  then show ?thesis unfolding greatest_upto_def Some using i after
    by (intro disjI2 exI[of _ "word_of_nat i"]) (auto simp: word_le_nat_alt word_less_nat_alt)
qed

lemma Some_in_upt: "Some c \<in> set (map f [0..<n]) \<longleftrightarrow> (\<exists>i < n. f i = Some c)"
  by (force simp: image_iff)

section \<open>\<open>N48\<close>\<close>

definition indexed :: "'c karr48 \<Rightarrow> nat set" where
  "indexed a = {i. i < 256 \<and> childIndex a ! i \<noteq> emptyMarker}"

abbreviation child_slot :: "'c karr48 \<Rightarrow> nat \<Rightarrow> nat" where
  "child_slot a i \<equiv> unat (childIndex a ! i)"

definition ok48 :: "'c karr48 \<Rightarrow> bool" where
  "ok48 a \<longleftrightarrow> length (childIndex a) = 256 \<and> length (children48 a) = 48 \<and> compactCount48 a \<le> 48 \<and>
     child_slot a ` indexed a = {j. j < 48 \<and> children48 a ! j \<noteq> None} \<and>
     child_slot a ` indexed a \<subseteq> {..<compactCount48 a} \<and>
     inj_on (child_slot a) (indexed a) \<and> count48 a = card (indexed a)"

abbreviation map48 :: "'c karr48 \<Rightarrow> u8 \<Rightarrow> 'c option" where
  "map48 a \<equiv> (\<lambda>k. N48_child a (unat k))"

lemma ok48_D:
  assumes "ok48 a" "i \<in> indexed a"
  shows "child_slot a i < 48" "children48 a ! child_slot a i \<noteq> None" "child_slot a i < compactCount48 a"
    "N48_child a i = children48 a ! child_slot a i"
proof -
  have "child_slot a i \<in> {j. j < 48 \<and> children48 a ! j \<noteq> None}" "child_slot a i \<in> {..<compactCount48 a}"
    using assms unfolding ok48_def by (metis imageI, blast)
  then show "child_slot a i < 48" "children48 a ! child_slot a i \<noteq> None" "child_slot a i < compactCount48 a" by auto
  show "N48_child a i = children48 a ! child_slot a i" using assms(2) by (simp add: N48_child_def indexed_def)
qed

lemma map48_dom:
  assumes "ok48 a"
  shows "map48 a k \<noteq> None \<longleftrightarrow> unat k \<in> indexed a"
  using ok48_D[OF assms, of "unat k"] unat_u8[of k] by (auto simp: N48_child_def indexed_def Let_def split: if_splits)

lemma N48_children_mem:
  assumes "ok48 a"
  shows "Some c \<in> set (map (\<lambda>i. children48 a ! i) [0..<48]) \<longleftrightarrow> (\<exists>k. map48 a k = Some c)"
proof
  assume "Some c \<in> set (map (\<lambda>i. children48 a ! i) [0..<48])"
  then obtain j where j: "j < 48" "children48 a ! j = Some c" unfolding Some_in_upt by blast
  then have "j \<in> child_slot a ` indexed a" using assms unfolding ok48_def by auto
  then obtain i where i: "i \<in> indexed a" "j = child_slot a i" by auto
  then have "unat (word_of_nat i :: u8) = i" by (simp add: indexed_def unat_of_nat)
  then show "\<exists>k. map48 a k = Some c" using ok48_D(4)[OF assms i(1)] i j by (intro exI[of _ "word_of_nat i"]) simp
next
  assume "\<exists>k. map48 a k = Some c"
  then obtain k where k: "map48 a k = Some c" ..
  with map48_dom[OF assms, of k] have "unat k \<in> indexed a" by simp
  with ok48_D[OF assms this] k show "Some c \<in> set (map (\<lambda>i. children48 a ! i) [0..<48])"
    unfolding Some_in_upt by auto
qed

lemma N48_count:
  assumes "ok48 a"
  shows "count48 a = card (dom (map48 a))"
proof -
  have "indexed a = unat ` dom (map48 a)"
  proof (intro set_eqI iffI)
    fix i assume i: "i \<in> indexed a"
    then have "unat (word_of_nat i :: u8) = i" by (simp add: indexed_def unat_of_nat)
    with i show "i \<in> unat ` dom (map48 a)" using map48_dom[OF assms, of "word_of_nat i"] by (metis domIff imageI)
  qed (use map48_dom[OF assms] in auto)
  moreover have "card (unat ` dom (map48 a)) = card (dom (map48 a))" by (intro card_image inj_onI unsigned_word_eqI)
  ultimately show ?thesis using assms unfolding ok48_def by simp
qed

lemma ok48_count_le:
  assumes "ok48 a"
  shows "count48 a \<le> 48"
proof -
  have "card (child_slot a ` indexed a) = card (indexed a)" using assms by (intro card_image) (simp add: ok48_def)
  moreover have "child_slot a ` indexed a \<subseteq> {..<48}" using ok48_D(1)[OF assms] by auto
  ultimately show ?thesis using card_mono[of "{..<48 :: nat}" "child_slot a ` indexed a"] assms by (simp add: ok48_def)
qed

lemma N48_insert_ok:
  assumes ok: "ok48 a" and new: "map48 a k = None" and room: "compactCount48 a < 48"
  shows "\<exists>b. N48_insert k c a = (True, b) \<and> ok48 b \<and> map48 b = (map48 a)(k \<mapsto> c) \<and>
    compactCount48 b = Suc (compactCount48 a)"
proof -
  let ?n = "compactCount48 a"
  define b where "b = Karr48 ((childIndex a)[unat k := word_of_nat ?n]) ((children48 a)[?n := Some c]) (?n + 1) (count48 a + 1)"
  have len: "length (childIndex a) = 256" "length (children48 a) = 48" using ok by (auto simp: ok48_def)
  have un: "unat (word_of_nat ?n :: u8) = ?n" "(word_of_nat ?n :: u8) \<noteq> emptyMarker"
  proof -
    show "unat (word_of_nat ?n :: u8) = ?n" using room by (simp add: unat_of_nat)
    then show "(word_of_nat ?n :: u8) \<noteq> emptyMarker" using room by (auto simp: emptyMarker_def)
  qed
  have ni: "unat k \<notin> indexed a" using map48_dom[OF ok, of k] new by simp
  have ix: "childIndex b ! i = (if i = unat k then word_of_nat ?n else childIndex a ! i)" if "i < 256" for i
    using that len by (simp add: b_def nth_list_update)
  have ch: "children48 b ! i = (if i = ?n then Some c else children48 a ! i)" if "i < 48" for i
    using that len by (simp add: b_def nth_list_update)
  have ib: "indexed b = insert (unat k) (indexed a)"
    using ix un unat_u8[of k] by (auto simp: indexed_def split: if_splits)
  have sl: "child_slot b i = (if i = unat k then ?n else child_slot a i)" if "i < 256" for i
    using ix[OF that] un by simp
  have low: "child_slot a i < ?n" if "i \<in> indexed a" for i using ok48_D(3)[OF ok that] .
  have lt: "i < 256" if "i \<in> indexed b" for i using that by (simp add: indexed_def)
  have img: "child_slot b ` indexed b = insert ?n (child_slot a ` indexed a)"
    unfolding ib using sl ni unat_u8[of k] by (auto simp: indexed_def image_iff)
  have "ok48 b"
    unfolding ok48_def
  proof (intro conjI)
    show "child_slot b ` indexed b = {j. j < 48 \<and> children48 b ! j \<noteq> None}"
      unfolding img using ok room by (auto simp: ok48_def ch)
    show "inj_on (child_slot b) (indexed b)"
    proof (rule inj_onI)
      fix x y assume *: "x \<in> indexed b" "y \<in> indexed b" "child_slot b x = child_slot b y"
      have "inj_on (child_slot a) (indexed a)" using ok by (simp add: ok48_def)
      then show "x = y" using * sl[OF lt[OF *(1)]] sl[OF lt[OF *(2)]] low
        unfolding ib by (metis inj_onD insertE less_irrefl)
    qed
    have "finite (indexed a)" by (simp add: indexed_def)
    moreover have "count48 b = Suc (count48 a)" by (simp add: b_def)
    ultimately show "count48 b = card (indexed b)" using ok ni unfolding ib by (simp add: ok48_def)
    show "child_slot b ` indexed b \<subseteq> {..<compactCount48 b}" unfolding img using low by (auto simp: b_def less_Suc_eq)
  qed (use len room in \<open>auto simp: b_def\<close>)
  moreover have "map48 b = (map48 a)(k \<mapsto> c)"
  proof
    fix j
    show "map48 b j = ((map48 a)(k \<mapsto> c)) j"
    proof (cases "j = k")
      case False
      then have "unat j \<noteq> unat k" by simp
      then show ?thesis using False ix[OF unat_u8] ch ok48_D(1)[OF ok, of "unat j"] low[of "unat j"] unat_u8[of j]
        by (auto simp: N48_child_def Let_def indexed_def)
    qed (use un ix[OF unat_u8] ch[OF room] in \<open>simp add: N48_child_def\<close>)
  qed
  moreover have "N48_insert k c a = (True, b)" "compactCount48 b = Suc ?n" using room by (auto simp: N48_insert_def b_def)
  ultimately show ?thesis by blast
qed

lemma N48_change_ok:
  assumes ok: "ok48 a" and k: "map48 a k \<noteq> None"
  shows "\<exists>b. N48_change k c a = Some b \<and> ok48 b \<and> map48 b = (map48 a)(k \<mapsto> c)"
proof -
  have ki: "unat k \<in> indexed a" using map48_dom[OF ok] k by simp
  let ?j = "child_slot a (unat k)"
  let ?b = "Karr48 (childIndex a) ((children48 a)[?j := Some c]) (compactCount48 a) (count48 a)"
  have j: "?j < 48" "children48 a ! ?j \<noteq> None" using ok48_D[OF ok ki] by auto
  have len: "length (children48 a) = 48" using ok by (simp add: ok48_def)
  have ch: "children48 ?b ! i = (if i = ?j then Some c else children48 a ! i)" for i
    using j len by (simp add: nth_list_update)
  have ib: "indexed ?b = indexed a" by (simp add: indexed_def)
  have eq: "{i. i < 48 \<and> (children48 a)[?j := Some c] ! i \<noteq> None} = {i. i < 48 \<and> children48 a ! i \<noteq> None}"
    using ch j by auto
  from ok have "ok48 ?b" unfolding ok48_def ib karr48.sel length_list_update eq .
  moreover have "map48 ?b = (map48 a)(k \<mapsto> c)"
  proof
    fix x
    have inj: "inj_on (child_slot a) (indexed a)" using ok by (simp add: ok48_def)
    have "child_slot a (unat x) = ?j \<longleftrightarrow> x = k" if "unat x \<in> indexed a"
      using inj_onD[OF inj _ that ki] by auto
    then show "map48 ?b x = ((map48 a)(k \<mapsto> c)) x"
      using ki unat_u8[of x] by (auto simp: N48_child_def Let_def ch[simplified] indexed_def)
  qed
  moreover have "N48_change k c a = Some ?b" using ki by (simp add: N48_change_def indexed_def)
  ultimately show ?thesis by blast
qed

lemma N48_remove_ok:
  assumes ok: "ok48 a" and k: "map48 a k \<noteq> None"
  shows "\<exists>b. N48_remove k True a = Some (Some b) \<and> ok48 b \<and> map48 b = (map48 a)(k := None)"
proof -
  have ki: "unat k \<in> indexed a" using map48_dom[OF ok] k by simp
  let ?j = "child_slot a (unat k)"
  define b where "b = Karr48 ((childIndex a)[unat k := emptyMarker]) ((children48 a)[?j := None]) (compactCount48 a) (count48 a - 1)"
  have len: "length (childIndex a) = 256" "length (children48 a) = 48" using ok by (auto simp: ok48_def)
  have j: "?j < 48" using ok48_D[OF ok ki] by auto
  have ix: "childIndex b ! i = (if i = unat k then emptyMarker else childIndex a ! i)" if "i < 256" for i
    using that len by (simp add: b_def nth_list_update)
  have ch: "children48 b ! i = (if i = ?j then None else children48 a ! i)" for i
    using j len by (simp add: b_def nth_list_update)
  have ib: "indexed b = indexed a - {unat k}" using ix by (auto simp: indexed_def split: if_splits)
  have inj: "inj_on (child_slot a) (indexed a)" using ok by (simp add: ok48_def)
  have sl: "child_slot b i = child_slot a i" if "i \<in> indexed b" for i
    using that ix[of i] unfolding ib by (auto simp: indexed_def)
  have img: "child_slot b ` indexed b = child_slot a ` indexed a - {?j}"
  proof -
    have "child_slot b ` indexed b = child_slot a ` indexed b" using sl by (rule image_cong[OF refl])
    also have "\<dots> = child_slot a ` indexed a - child_slot a ` {unat k}"
      unfolding ib using inj_on_image_set_diff[OF inj, of "indexed a" "{unat k}"] ki by simp
    finally show ?thesis by simp
  qed
  have "ok48 b"
    unfolding ok48_def
  proof (intro conjI)
    show "child_slot b ` indexed b = {i. i < 48 \<and> children48 b ! i \<noteq> None}"
      unfolding img ch using ok by (auto simp: ok48_def)
    have "inj_on (child_slot a) (indexed b)" using inj unfolding ib by (rule inj_on_diff)
    then show "inj_on (child_slot b) (indexed b)" by (subst inj_on_cong[OF sl])
    have "finite (indexed a)" by (simp add: indexed_def)
    moreover have "count48 b = count48 a - 1" by (simp add: b_def)
    ultimately show "count48 b = card (indexed b)" using ok ki unfolding ib by (simp add: ok48_def)
    show "child_slot b ` indexed b \<subseteq> {..<compactCount48 b}" unfolding img using ok by (auto simp: ok48_def b_def)
  qed (use len ok in \<open>auto simp: b_def ok48_def\<close>)
  moreover have "map48 b = (map48 a)(k := None)"
  proof
    fix x
    have "child_slot a (unat x) = ?j \<longleftrightarrow> x = k" if "unat x \<in> indexed a"
      using inj_onD[OF inj _ that ki] by auto
    then show "map48 b x = ((map48 a)(k := None)) x"
      using ix[OF unat_u8, of x] ki unat_u8[of x] by (auto simp: N48_child_def Let_def ch indexed_def)
  qed
  moreover have "N48_remove k True a = Some (Some b)" using ki by (simp add: N48_remove_def indexed_def b_def)
  ultimately show ?thesis by blast
qed

interpretation layout48: art_node ok48 map48 48 compactCount48 count48 N48_new N48_insert
  N48_getChild N48_change "\<lambda>k a. (case N48_remove k True a of Some r \<Rightarrow> r | None \<Rightarrow> None)" N48_entries
  N48_getSmallestChild N48_getLargestChild N48_getAnyChild N48_getAnyChildReverse N48_getChildren
proof
  fix n :: "'a karr48" and k :: u8 and c :: 'a
  have "indexed (N48_new :: 'a karr48) = {}" by (auto simp: indexed_def N48_new_def)
  then show "ok48 (N48_new :: 'a karr48) \<and> map48 (N48_new :: 'a karr48) = Map.empty \<and> compactCount48 (N48_new :: 'a karr48) = 0"
    by (auto simp: ok48_def N48_new_def N48_child_def unat_u8 fun_eq_iff)
  assume ok: "ok48 n"
  show "map48 n k = None \<Longrightarrow> compactCount48 n < 48 \<Longrightarrow> \<exists>n'. N48_insert k c n = (True, n') \<and> ok48 n' \<and>
      map48 n' = (map48 n)(k \<mapsto> c) \<and> compactCount48 n' = Suc (compactCount48 n)"
    by (rule N48_insert_ok[OF ok])
  show "N48_getChild k n = map48 n k" by (simp add: N48_getChild_def N48_child_def Let_def)
  show "map48 n k \<noteq> None \<Longrightarrow> \<exists>n'. N48_change k c n = Some n' \<and> ok48 n' \<and> map48 n' = (map48 n)(k \<mapsto> c)"
    by (rule N48_change_ok[OF ok])
  show "map48 n k \<noteq> None \<Longrightarrow> \<exists>n'. (case N48_remove k True n of Some r \<Rightarrow> r | None \<Rightarrow> None) = Some n' \<and>
      ok48 n' \<and> map48 n' = (map48 n)(k := None)"
    using N48_remove_ok[OF ok, of k] by auto
  show "distinct (map fst (N48_entries n)) \<and> map_of (N48_entries n) = map48 n"
    unfolding N48_entries_def by (rule byte_entries)
  show "count48 n = card (dom (map48 n))" by (rule N48_count[OF ok])
  show "least_from k (map48 n) (N48_getSmallestChild k n)" for k
    unfolding N48_getSmallestChild_def by (rule byte_smallest)
  show "greatest_upto k (map48 n) (N48_getLargestChild k n)" for k
    unfolding N48_getLargestChild_def by (rule byte_largest)
  show "map48 n \<noteq> Map.empty \<Longrightarrow> \<exists>k c. map48 n k = Some c \<and> N48_getAnyChild P n = Some c" for P
    unfolding N48_getAnyChild_def by (rule anyChild_ok[OF N48_children_mem[OF ok]])
  show "map48 n \<noteq> Map.empty \<Longrightarrow> \<exists>k c. map48 n k = Some c \<and> N48_getAnyChildReverse P n = Some c" for P
    unfolding N48_getAnyChildReverse_def by (rule anyChild_ok) (simp only: set_rev N48_children_mem[OF ok])
  show "lists_map s e (map48 n) (N48_getChildren s e n)" for s e
    unfolding N48_getChildren_def by (rule byte_between)
qed

section \<open>\<open>N256\<close>\<close>

abbreviation map256 :: "'c karr256 \<Rightarrow> u8 \<Rightarrow> 'c option" where
  "map256 a \<equiv> (\<lambda>k. children256 a ! unat k)"

definition ok256 :: "'c karr256 \<Rightarrow> bool" where
  "ok256 a \<longleftrightarrow> length (children256 a) = 256 \<and> count256 a = card (dom (map256 a))"

lemma map256_upd:
  "length cs = 256 \<Longrightarrow> (\<lambda>j :: u8. cs[unat k := v] ! unat j) = (\<lambda>j. cs ! unat j)(k := v)"
  using unat_u8 by (auto simp: fun_eq_iff nth_list_update)

lemma N256_children_mem:
  "Some c \<in> set (map (\<lambda>i. children256 a ! i) [0..<256]) \<longleftrightarrow> (\<exists>k. map256 a k = Some c)"
proof -
  have "unat (word_of_nat i :: u8) = i" if "i < 256" for i using that by (simp add: unat_of_nat)
  then show ?thesis unfolding Some_in_upt using unat_u8 by metis
qed

interpretation layout256: art_node ok256 map256 256 count256 count256 N256_new N256_insert
  N256_getChild "\<lambda>k c a. Some (N256_change k c a)" "\<lambda>k a. N256_remove k True a" N256_entries
  N256_getSmallestChild N256_getLargestChild N256_getAnyChild N256_getAnyChildReverse N256_getChildren
proof
  fix n :: "'a karr256" and k :: u8 and c :: 'a
  show "ok256 (N256_new :: 'a karr256) \<and> map256 (N256_new :: 'a karr256) = Map.empty \<and> count256 (N256_new :: 'a karr256) = 0"
    by (auto simp: ok256_def N256_new_def unat_u8 fun_eq_iff)
  assume ok: "ok256 n"
  then have len: "length (children256 n) = 256" and cnt: "count256 n = card (dom (map256 n))" by (auto simp: ok256_def)
  have fin: "finite (dom (map256 n))" by simp
  show "map256 n k = None \<Longrightarrow> count256 n < 256 \<Longrightarrow> \<exists>n'. N256_insert k c n = (True, n') \<and> ok256 n' \<and>
      map256 n' = (map256 n)(k \<mapsto> c) \<and> count256 n' = Suc (count256 n)"
    using len cnt by (auto simp: N256_insert_def ok256_def map256_upd domIff)
  show "N256_getChild k n = map256 n k" by (simp add: N256_getChild_def)
  show "map256 n k \<noteq> None \<Longrightarrow> \<exists>n'. Some (N256_change k c n) = Some n' \<and> ok256 n' \<and> map256 n' = (map256 n)(k \<mapsto> c)"
    using len cnt by (auto simp: N256_change_def ok256_def map256_upd insert_absorb domI)
  show "map256 n k \<noteq> None \<Longrightarrow> \<exists>n'. N256_remove k True n = Some n' \<and>
      ok256 n' \<and> map256 n' = (map256 n)(k := None)"
    using len cnt by (auto simp: N256_remove_def ok256_def map256_upd domI)
  show "distinct (map fst (N256_entries n)) \<and> map_of (N256_entries n) = map256 n"
    unfolding N256_entries_def by (rule byte_entries)
  show "count256 n = card (dom (map256 n))" by (rule cnt)
  show "least_from k (map256 n) (N256_getSmallestChild k n)" for k
    unfolding N256_getSmallestChild_def by (rule byte_smallest)
  show "greatest_upto k (map256 n) (N256_getLargestChild k n)" for k
    unfolding N256_getLargestChild_def by (rule byte_largest)
  show "map256 n \<noteq> Map.empty \<Longrightarrow> \<exists>k c. map256 n k = Some c \<and> N256_getAnyChild P n = Some c" for P
    unfolding N256_getAnyChild_def by (rule anyChild_ok[OF N256_children_mem])
  show "map256 n \<noteq> Map.empty \<Longrightarrow> \<exists>k c. map256 n k = Some c \<and> N256_getAnyChildReverse P n = Some c" for P
    unfolding N256_getAnyChildReverse_def by (rule anyChild_ok) (simp only: set_rev N256_children_mem)
  show "lists_map s e (map256 n) (N256_getChildren s e n)" for s e
    unfolding N256_getChildren_def by (rule byte_between)
qed

end
