(* ===== verification/ArtN.thy ===== *)
theory ArtN
  imports ArtWide
begin

text \<open>
  The dispatch over the four layouts, \<open>lib/ARTROWEX/N.cpp\<close>: reading and changing a child,
  inserting with growth and compaction, removing with shrinking. A node whose layout changes is
  a new node that the caller stores in the parent; the constructor of \<open>cont\<close> is what
  \<open>getType\<close> reads from the version word.
\<close>

section \<open>Definitions\<close>

datatype 'c cont = N4 "'c karr" | N16 "'c karr" | N48 "'c karr48" | N256 "'c karr256"

definition N_getChild :: "u8 \<Rightarrow> 'c cont \<Rightarrow> 'c option" where
  "N_getChild k node = (case node of N4 n \<Rightarrow> N4_getChild k n | N16 n \<Rightarrow> N16_getChild k n
     | N48 n \<Rightarrow> N48_getChild k n | N256 n \<Rightarrow> N256_getChild k n)"

definition N_change :: "u8 \<Rightarrow> 'c \<Rightarrow> 'c cont \<Rightarrow> 'c cont option" where
  "N_change key val node = (case node of N4 n \<Rightarrow> map_option N4 (N4_change key val n)
     | N16 n \<Rightarrow> map_option N16 (N16_change key val n)
     | N48 n \<Rightarrow> map_option N48 (N48_change key val n)
     | N256 n \<Rightarrow> Some (N256 (N256_change key val n)))"

definition N_getCount :: "'c cont \<Rightarrow> nat" where
  "N_getCount node = (case node of N4 n \<Rightarrow> count n | N16 n \<Rightarrow> count n | N48 n \<Rightarrow> count48 n | N256 n \<Rightarrow> count256 n)"

definition N_getAnyChild :: "('c \<Rightarrow> bool) \<Rightarrow> 'c cont \<Rightarrow> 'c option" where
  "N_getAnyChild isLeaf node = (case node of N4 n \<Rightarrow> N4_getAnyChild isLeaf n | N16 n \<Rightarrow> N16_getAnyChild isLeaf n
     | N48 n \<Rightarrow> N48_getAnyChild isLeaf n | N256 n \<Rightarrow> N256_getAnyChild isLeaf n)"

definition N_getAnyChildReverse :: "('c \<Rightarrow> bool) \<Rightarrow> 'c cont \<Rightarrow> 'c option" where
  "N_getAnyChildReverse isLeaf node = (case node of N4 n \<Rightarrow> N4_getAnyChildReverse isLeaf n
     | N16 n \<Rightarrow> N16_getAnyChildReverse isLeaf n | N48 n \<Rightarrow> N48_getAnyChildReverse isLeaf n
     | N256 n \<Rightarrow> N256_getAnyChildReverse isLeaf n)"

definition N_getSecondChild :: "u8 \<Rightarrow> 'c cont \<Rightarrow> ('c \<times> u8) option" where
  "N_getSecondChild key node = (case node of N4 n \<Rightarrow> N4_getSecondChild key n | _ \<Rightarrow> None)"

definition N_getChildren :: "u8 \<Rightarrow> u8 \<Rightarrow> 'c cont \<Rightarrow> (u8 \<times> 'c) list" where
  "N_getChildren start end' node = (case node of N4 n \<Rightarrow> N4_getChildren start end' n
     | N16 n \<Rightarrow> N16_getChildren start end' n | N48 n \<Rightarrow> N48_getChildren start end' n
     | N256 n \<Rightarrow> N256_getChildren start end' n)"

definition N_getSmallestChild :: "u8 \<Rightarrow> 'c cont \<Rightarrow> 'c option" where
  "N_getSmallestChild start node = (case node of N4 n \<Rightarrow> N4_getSmallestChild start n
     | N16 n \<Rightarrow> N16_getSmallestChild start n | N48 n \<Rightarrow> N48_getSmallestChild start n
     | N256 n \<Rightarrow> N256_getSmallestChild start n)"

definition N_getLargestChild :: "u8 \<Rightarrow> 'c cont \<Rightarrow> 'c option" where
  "N_getLargestChild end' node = (case node of N4 n \<Rightarrow> N4_getLargestChild end' n
     | N16 n \<Rightarrow> N16_getLargestChild end' n | N48 n \<Rightarrow> N48_getLargestChild end' n
     | N256 n \<Rightarrow> N256_getLargestChild end' n)"

text \<open>\<open>copyTo\<close> inserts every child into the other node and ignores the result of \<open>insert\<close>.\<close>

definition copyTo :: "(u8 \<Rightarrow> 'c \<Rightarrow> 'n \<Rightarrow> bool \<times> 'n) \<Rightarrow> (u8 \<times> 'c) list \<Rightarrow> 'n \<Rightarrow> 'n" where
  "copyTo insert' xs n = fold (\<lambda>(k, c) t. snd (insert' k c t)) xs n"

text \<open>The node is changed in place, or another one takes its place in the parent.\<close>

datatype 'c placed = InPlace "'c cont" | Replaced "'c cont"

primrec placed_cont :: "'c placed \<Rightarrow> 'c cont" where
  "placed_cont (InPlace n) = n"
| "placed_cont (Replaced n) = n"

text \<open>
  The templates \<open>insertGrow\<close>, \<open>insertCompact\<close> and \<open>removeAndShrink\<close> take the operations of
  the layouts they are instantiated with.
\<close>

definition insertGrow :: "(u8 \<Rightarrow> 'c \<Rightarrow> 'n \<Rightarrow> bool \<times> 'n) \<Rightarrow> ('n \<Rightarrow> 'c cont) \<Rightarrow> ('n \<Rightarrow> (u8 \<times> 'c) list) \<Rightarrow>
    (u8 \<Rightarrow> 'c \<Rightarrow> 'b \<Rightarrow> bool \<times> 'b) \<Rightarrow> 'b \<Rightarrow> ('b \<Rightarrow> 'c cont) \<Rightarrow> u8 \<Rightarrow> 'c \<Rightarrow> 'n \<Rightarrow> 'c placed" where
  "insertGrow insert' curN entries insertBig newBig biggerN key val n =
     (let (done, n') = insert' key val n in
      if done then InPlace (curN n')
      else let nBig = copyTo insertBig (entries n) newBig in
           Replaced (biggerN (snd (insertBig key val nBig))))"

definition insertCompact :: "(u8 \<Rightarrow> 'c \<Rightarrow> 'n \<Rightarrow> bool \<times> 'n) \<Rightarrow> ('n \<Rightarrow> 'c cont) \<Rightarrow> ('n \<Rightarrow> (u8 \<times> 'c) list) \<Rightarrow>
    'n \<Rightarrow> u8 \<Rightarrow> 'c \<Rightarrow> 'n \<Rightarrow> 'c placed" where
  "insertCompact insert' curN entries new key val n =
     (let nNew = copyTo insert' (entries n) new in
      Replaced (curN (snd (insert' key val nNew))))"

definition N_insert :: "u8 \<Rightarrow> 'c \<Rightarrow> 'c cont \<Rightarrow> 'c placed" where
  "N_insert key val node = (case node of
     N4 n \<Rightarrow> if compactCount n = 4 \<and> count n \<le> 3
       then insertCompact N4_insert N4 N4_entries N4_new key val n
       else insertGrow N4_insert N4 N4_entries N16_insert N16_new N16 key val n
   | N16 n \<Rightarrow> if compactCount n = 16 \<and> count n \<le> 14
       then insertCompact N16_insert N16 N16_entries N16_new key val n
       else insertGrow N16_insert N16 N16_entries N48_insert N48_new N48 key val n
   | N48 n \<Rightarrow> if compactCount48 n = 48 \<and> count48 n \<noteq> 48
       then insertCompact N48_insert N48 N48_entries N48_new key val n
       else insertGrow N48_insert N48 N48_entries N256_insert N256_new N256 key val n
   | N256 n \<Rightarrow> InPlace (N256 (snd (N256_insert key val n))))"

text \<open>
  \<open>remove key force n\<close> is \<open>None\<close> on a failed assertion and \<open>Some None\<close> when it returns false;
  a null parent forces the removal.
\<close>

definition removeAndShrink :: "(u8 \<Rightarrow> bool \<Rightarrow> 'n \<Rightarrow> 'n option option) \<Rightarrow> ('n \<Rightarrow> 'c cont) \<Rightarrow> ('n \<Rightarrow> (u8 \<times> 'c) list) \<Rightarrow>
    (u8 \<Rightarrow> 'c \<Rightarrow> 'b \<Rightarrow> bool \<times> 'b) \<Rightarrow> 'b \<Rightarrow> ('b \<Rightarrow> 'c cont) \<Rightarrow> u8 \<Rightarrow> bool \<Rightarrow> 'n \<Rightarrow> 'c placed option" where
  "removeAndShrink remove' curN entries insertSmall newSmall smallerN key noParent n =
     (case remove' key noParent n of
        None \<Rightarrow> None
      | Some (Some n') \<Rightarrow> Some (InPlace (curN n'))
      | Some None \<Rightarrow> (case remove' key True n of
          Some (Some n') \<Rightarrow> Some (Replaced (smallerN (copyTo insertSmall (entries n') newSmall)))
        | _ \<Rightarrow> None))"

definition N_remove :: "u8 \<Rightarrow> bool \<Rightarrow> 'c cont \<Rightarrow> 'c placed option" where
  "N_remove key noParent node = (case node of
     N4 n \<Rightarrow> map_option (\<lambda>n'. InPlace (N4 n')) (N4_remove key n)
   | N16 n \<Rightarrow> removeAndShrink N16_remove N16 N16_entries N4_insert N4_new N4 key noParent n
   | N48 n \<Rightarrow> removeAndShrink N48_remove N48 N48_entries N16_insert N16_new N16 key noParent n
   | N256 n \<Rightarrow> removeAndShrink (\<lambda>k f n. Some (N256_remove k f n)) N256 N256_entries N48_insert N48_new N48 key noParent n)"

section \<open>What a node stores\<close>

fun cont_ok :: "'c cont \<Rightarrow> bool" where
  "cont_ok (N4 n) = karr_ok 4 n"
| "cont_ok (N16 n) = karr_ok 16 n"
| "cont_ok (N48 n) = ok48 n"
| "cont_ok (N256 n) = ok256 n"

fun cmap :: "'c cont \<Rightarrow> u8 \<Rightarrow> 'c option" where
  "cmap (N4 n) = karr_map (\<lambda>x. x) n"
| "cmap (N16 n) = karr_map flipSign n"
| "cmap (N48 n) = map48 n"
| "cmap (N256 n) = map256 n"

lemma N_getChild_ok: "cont_ok n \<Longrightarrow> N_getChild k n = cmap n k"
  by (cases n) (simp_all add: N_getChild_def layout4.get_ok layout16.get_ok layout48.get_ok layout256.get_ok)

lemma N_change_ok:
  "cont_ok n \<Longrightarrow> cmap n k \<noteq> None \<Longrightarrow> \<exists>n'. N_change k c n = Some n' \<and> cont_ok n' \<and> cmap n' = (cmap n)(k \<mapsto> c)"
  using layout4.chg_ok[of _ k c] layout16.chg_ok[of _ k c] layout48.chg_ok[of _ k c] layout256.chg_ok[of _ k c]
  by (cases n) (fastforce simp: N_change_def)+

lemma N_getCount_ok: "cont_ok n \<Longrightarrow> N_getCount n = card (dom (cmap n))"
  by (cases n) (simp_all add: N_getCount_def layout4.cnt_ok layout16.cnt_ok layout48.cnt_ok layout256.cnt_ok)

lemma N_getSmallestChild_ok: "cont_ok n \<Longrightarrow> least_from s (cmap n) (N_getSmallestChild s n)"
  by (cases n) (simp_all add: N_getSmallestChild_def layout4.smallest_ok layout16.smallest_ok
      layout48.smallest_ok layout256.smallest_ok)

lemma N_getLargestChild_ok: "cont_ok n \<Longrightarrow> greatest_upto e (cmap n) (N_getLargestChild e n)"
  by (cases n) (simp_all add: N_getLargestChild_def layout4.largest_ok layout16.largest_ok
      layout48.largest_ok layout256.largest_ok)

lemma N_getAnyChild_ok:
  "cont_ok n \<Longrightarrow> cmap n \<noteq> Map.empty \<Longrightarrow> \<exists>k c. cmap n k = Some c \<and> N_getAnyChild P n = Some c"
  by (cases n) (simp_all add: N_getAnyChild_def layout4.any_ok layout16.any_ok layout48.any_ok layout256.any_ok)

lemma N_getAnyChildReverse_ok:
  "cont_ok n \<Longrightarrow> cmap n \<noteq> Map.empty \<Longrightarrow> \<exists>k c. cmap n k = Some c \<and> N_getAnyChildReverse P n = Some c"
  by (cases n) (simp_all add: N_getAnyChildReverse_def layout4.anyR_ok layout16.anyR_ok layout48.anyR_ok layout256.anyR_ok)

lemma N_getChildren_ok: "cont_ok n \<Longrightarrow> lists_map s e (cmap n) (N_getChildren s e n)"
  by (cases n) (simp_all add: N_getChildren_def layout4.between_ok layout16.between_ok
      layout48.between_ok layout256.between_ok)

section \<open>Insertion\<close>

lemma copyTo_copy:
  "copyTo N4_insert = layout4.copy" "copyTo N16_insert = layout16.copy"
  "copyTo N48_insert = layout48.copy" "copyTo N256_insert = layout256.copy"
  by (intro ext; simp add: copyTo_def layout4.copy_def layout16.copy_def layout48.copy_def layout256.copy_def)+

lemma cmap_full: "cont_ok (n :: 'c cont) \<Longrightarrow> cmap n k = None \<Longrightarrow> card (dom (cmap n)) < 256"
  using psubset_card_mono[of "UNIV :: u8 set" "dom (cmap n)"] by (auto simp: domIff card_word)

lemma N4_insert_full: "compactCount n = 4 \<Longrightarrow> N4_insert k c n = (False, n)"
  "compactCount n = 16 \<Longrightarrow> N16_insert k c n = (False, n)" "compactCount48 m = 48 \<Longrightarrow> N48_insert k c m = (False, m)"
  by (simp_all add: N4_insert_def N16_insert_def N48_insert_def)

lemma karr_count_le: "karr_ok C a \<Longrightarrow> count a \<le> C"
  using card_mono[of "{..<compactCount a}" "occupied a"] by (simp add: karr_ok_def)

lemma N_insert_ok:
  assumes "cont_ok n" "cmap n k = None"
  shows "cont_ok (placed_cont (N_insert k c n)) \<and> cmap (placed_cont (N_insert k c n)) = (cmap n)(k \<mapsto> c)"
proof (cases n)
  case (N4 a)
  then have ok: "karr_ok 4 a" and k: "karr_map (\<lambda>x. x) a k = None" using assms by simp_all
  note ents = layout4.ents_ok[OF ok] layout4.length_ents[OF ok] layout4.cnt_ok[OF ok]
  have le: "compactCount a \<le> 4" "count a \<le> 4" using ok karr_count_le[OF ok] by (simp_all add: karr_ok_def)
  consider "compactCount a = 4" "count a \<le> 3" | "compactCount a = 4" "count a = 4" | "compactCount a < 4"
    using le by linarith
  then show ?thesis
  proof cases
    case 1
    then show ?thesis
      using layout4.copy_insert[of "N4_entries a" k c] ents k
      by (simp add: N4 N_insert_def insertCompact_def copyTo_copy)
  next
    case 2
    then show ?thesis
      using layout16.copy_insert[of "N4_entries a" k c] ents k
      by (simp add: N4 N_insert_def insertGrow_def copyTo_copy N4_insert_full)
  next
    case 3
    then show ?thesis using layout4.ins_ok[OF ok k 3, of c] by (auto simp: N4 N_insert_def insertGrow_def)
  qed
next
  case (N16 a)
  then have ok: "karr_ok 16 a" and k: "karr_map flipSign a k = None" using assms by simp_all
  note ents = layout16.ents_ok[OF ok] layout16.length_ents[OF ok] layout16.cnt_ok[OF ok]
  have le: "compactCount a \<le> 16" "count a \<le> 16" using ok karr_count_le[OF ok] by (simp_all add: karr_ok_def)
  consider "compactCount a = 16" "count a \<le> 14" | "compactCount a = 16" "14 < count a" | "compactCount a < 16"
    using le by linarith
  then show ?thesis
  proof cases
    case 1
    then show ?thesis
      using layout16.copy_insert[of "N16_entries a" k c] ents k
      by (simp add: N16 N_insert_def insertCompact_def copyTo_copy)
  next
    case 2
    then show ?thesis
      using layout48.copy_insert[of "N16_entries a" k c] ents k le
      by (simp add: N16 N_insert_def insertGrow_def copyTo_copy N4_insert_full)
  next
    case 3
    then show ?thesis using layout16.ins_ok[OF ok k 3, of c] by (auto simp: N16 N_insert_def insertGrow_def)
  qed
next
  case (N48 a)
  then have ok: "ok48 a" and k: "map48 a k = None" using assms by simp_all
  note ents = layout48.ents_ok[OF ok] layout48.length_ents[OF ok] layout48.cnt_ok[OF ok]
  have le: "compactCount48 a \<le> 48" "count48 a \<le> 48" using ok48_count_le[OF ok] ok by (auto simp: ok48_def)
  consider "compactCount48 a = 48" "count48 a \<noteq> 48" | "compactCount48 a = 48" "count48 a = 48" | "compactCount48 a < 48"
    using le by linarith
  then show ?thesis
  proof cases
    case 1
    then show ?thesis
      using layout48.copy_insert[of "N48_entries a" k c] ents k le
      by (simp add: N48 N_insert_def insertCompact_def copyTo_copy)
  next
    case 2
    then show ?thesis
      using layout256.copy_insert[of "N48_entries a" k c] ents k
      by (simp add: N48 N_insert_def insertGrow_def copyTo_copy N4_insert_full)
  next
    case 3
    then show ?thesis using layout48.ins_ok[OF ok k 3, of c] by (auto simp: N48 N_insert_def insertGrow_def)
  qed
next
  case (N256 a)
  then have "count256 a < 256" using cmap_full[OF assms] layout256.cnt_ok[of a] assms by simp
  then show ?thesis using layout256.ins_ok[of a k c] assms by (auto simp: N256 N_insert_def)
qed

section \<open>Removal\<close>

lemma shrink_copy:
  assumes "distinct (map fst xs)" "map_of xs = m" "card (dom m) \<le> 48"
  shows "card (dom m) \<le> 4 \<Longrightarrow> cont_ok (N4 (layout4.copy xs N4_new)) \<and> cmap (N4 (layout4.copy xs N4_new)) = m"
    and "card (dom m) \<le> 16 \<Longrightarrow> cont_ok (N16 (layout16.copy xs N16_new)) \<and> cmap (N16 (layout16.copy xs N16_new)) = m"
    and "cont_ok (N48 (layout48.copy xs N48_new)) \<and> cmap (N48 (layout48.copy xs N48_new)) = m"
proof -
  have "length xs = card (dom m)"
    using assms(1,2) by (metis dom_map_of_conv_image_fst distinct_card length_map list.set_map)
  then show "card (dom m) \<le> 4 \<Longrightarrow> cont_ok (N4 (layout4.copy xs N4_new)) \<and> cmap (N4 (layout4.copy xs N4_new)) = m"
    "card (dom m) \<le> 16 \<Longrightarrow> cont_ok (N16 (layout16.copy xs N16_new)) \<and> cmap (N16 (layout16.copy xs N16_new)) = m"
    "cont_ok (N48 (layout48.copy xs N48_new)) \<and> cmap (N48 (layout48.copy xs N48_new)) = m"
    using layout4.copy_all[OF assms(1)] layout16.copy_all[OF assms(1)] layout48.copy_all[OF assms(1)] assms by simp_all
qed

text \<open>The refused and the forced removal of a layout that can shrink.\<close>

lemma remove_refused:
  "N16_remove k f a = (if count a = 3 \<and> \<not> f then Some None else N16_remove k True a)"
  "N48_remove k f b = (if count48 b = 12 \<and> \<not> f then Some None else N48_remove k True b)"
  "N256_remove k f d = (if count256 d = 37 \<and> \<not> f then None else N256_remove k True d)"
  by (simp_all add: N16_remove_def N48_remove_def N256_remove_def)

lemma N16_forced: "karr_ok 16 a \<Longrightarrow> karr_map flipSign a k \<noteq> None \<Longrightarrow>
  \<exists>a'. N16_remove k True a = Some (Some a') \<and> karr_ok 16 a' \<and> karr_map flipSign a' = (karr_map flipSign a)(k := None)"
  using layout16.del_ok[of a k] by (auto split: option.splits)

lemma N_remove_ok:
  assumes "cont_ok n" "cmap n k \<noteq> None"
  shows "\<exists>r. N_remove k noParent n = Some r \<and> cont_ok (placed_cont r) \<and> cmap (placed_cont r) = (cmap n)(k := None)"
proof (cases n)
  case (N4 a)
  then show ?thesis using layout4.del_ok[of a k] assms by (auto simp: N_remove_def)
next
  case (N16 a)
  with assms obtain a' where a': "N16_remove k True a = Some (Some a')" "karr_ok 16 a'"
    "karr_map flipSign a' = (karr_map flipSign a)(k := None)" using N16_forced by fastforce
  have "card (dom (karr_map flipSign a')) \<le> 4" if "count a = 3"
    using that layout16.cnt_ok[of a] assms N16 by (auto simp: a'(3) intro: order.trans[OF card_Diff1_le])
  then show ?thesis
    using a' shrink_copy(1)[of "N16_entries a'" "karr_map flipSign a'"] layout16.ents_ok[OF a'(2)]
    by (auto simp: N16 N_remove_def removeAndShrink_def remove_refused(1)[of k noParent] copyTo_copy)
next
  case (N48 a)
  with assms obtain a' where a': "N48_remove k True a = Some (Some a')" "ok48 a'" "map48 a' = (map48 a)(k := None)"
    using N48_remove_ok by fastforce
  have "card (dom (map48 a')) \<le> 16" if "count48 a = 12"
    using that layout48.cnt_ok[of a] assms N48 by (auto simp: a'(3) intro: order.trans[OF card_Diff1_le])
  then show ?thesis
    using a' shrink_copy(2)[of "N48_entries a'" "map48 a'"] layout48.ents_ok[OF a'(2)]
    by (auto simp: N48 N_remove_def removeAndShrink_def remove_refused(2)[of k noParent] copyTo_copy)
next
  case (N256 a)
  with assms obtain a' where a': "N256_remove k True a = Some a'" "ok256 a'" "map256 a' = (map256 a)(k := None)"
    using layout256.del_ok[of a k] by fastforce
  have "card (dom (map256 a')) \<le> 48" if "count256 a = 37"
    using that layout256.cnt_ok[of a] assms N256 by (auto simp: a'(3) intro: order.trans[OF card_Diff1_le])
  then show ?thesis
    using a' shrink_copy(3)[of "N256_entries a'" "map256 a'"] layout256.ents_ok[OF a'(2)]
    by (auto simp: N256 N_remove_def removeAndShrink_def remove_refused(3)[of k noParent] copyTo_copy)
qed

text \<open>Without a parent the removal stays in place; so do insertions into an \<open>N256\<close> node.\<close>

lemma N_remove_root: "N_remove k True (N256 a) = Some (InPlace (N256 a')) \<longleftrightarrow> N256_remove k True a = Some a'"
  by (auto simp: N_remove_def removeAndShrink_def N256_remove_def)

text \<open>The one other child of an \<open>N4\<close> node with two children.\<close>

lemma N_getSecondChild_ok:
  assumes ok: "cont_ok n" and two: "card (dom (cmap n)) = 2" and k: "cmap n k \<noteq> None" and n4: "n = N4 a"
  shows "\<exists>k2 c2. N_getSecondChild k n = Some (c2, k2) \<and> k2 \<noteq> k \<and> cmap n = (cmap n |` {k})(k2 \<mapsto> c2)"
proof -
  have ka: "karr_ok 4 a" using ok n4 by simp
  have id: "inj (\<lambda>x :: u8. x)" by simp
  have m: "cmap n = karr_map (\<lambda>x. x) a" by (simp add: n4)
  obtain j where j: "j \<noteq> k" "dom (cmap n) = {k, j}"
    using two k unfolding card_2_iff by (metis domIff doubleton_eq_iff insertE singletonD)
  then obtain d where d: "cmap n j = Some d" by (metis domD insertI1 insert_commute)
  then obtain i where i: "i \<in> occupied a" "children a ! i = Some d" "keys a ! i = j"
    using karr_map_Some[OF ka id] m by auto
  let ?P = "\<lambda>i. children a ! i \<noteq> None \<and> keys a ! i \<noteq> k"
  have "?P i" "i < compactCount a" using i j occupied_bounds(1)[OF ka] by auto
  then obtain i' where i': "find ?P [0..<compactCount a] = Some i'"
    by (cases "find ?P [0..<compactCount a]") (auto simp: find_None_iff)
  then have "?P i'" "i' < compactCount a" by (auto dest: find_upt_hit)
  then obtain c where c: "children a ! i' = Some c" "i' \<in> occupied a" using occupied_bounds(1)[OF ka, of i'] by auto
  then have "cmap n (keys a ! i') = Some c" unfolding m using karr_map_Some[OF ka id] by blast
  then have ij: "keys a ! i' = j" "c = d" using j d \<open>?P i'\<close> by (auto simp: domI dest: arg_cong[of _ _ "\<lambda>A. keys a ! i' \<in> A"])
  have "cmap n = (cmap n |` {k})(j \<mapsto> d)"
    using j d by (auto simp: fun_eq_iff restrict_map_def)
  moreover have "N_getSecondChild k n = Some (d, j)"
    using i' c ij by (simp add: N_getSecondChild_def n4 N4_getSecondChild_def)
  ultimately show ?thesis using j(1) by blast
qed

section \<open>The layout fits the number of children\<close>

text \<open>
  The least number of children of a node other than the root; a node with two children has
  the layout \<open>N4\<close>, which \<open>getSecondChild\<close> asserts.
\<close>

fun min_children :: "'c cont \<Rightarrow> nat" where
  "min_children (N4 n) = 2"
| "min_children (N16 n) = 3"
| "min_children (N48 n) = 12"
| "min_children (N256 n) = 37"

definition fits :: "'c cont \<Rightarrow> bool" where
  "fits n \<longleftrightarrow> min_children n \<le> card (dom (cmap n))"

lemma card_insert_dom: "m k = None \<Longrightarrow> card (dom (m(k \<mapsto> c))) = Suc (card (dom (m :: u8 \<rightharpoonup> 'c)))"
  by (simp add: card_insert_if domIff)

lemma card_remove_dom: "m k \<noteq> None \<Longrightarrow> card (dom (m(k := None))) = card (dom (m :: u8 \<rightharpoonup> 'c)) - 1"
  by (simp add: domIff)

lemma N_insert_fits:
  assumes "cont_ok n" "cmap n k = None" "fits n"
  shows "fits (placed_cont (N_insert k c n))"
proof -
  have "min_children (placed_cont (N_insert k c n)) \<le> Suc (N_getCount n)"
    using assms(3) N_getCount_ok[OF assms(1)]
    by (cases n) (auto simp: fits_def N_insert_def insertGrow_def insertCompact_def N_getCount_def N4_insert_def
        N16_insert_def N48_insert_def Let_def)
  then show ?thesis
    using N_insert_ok[OF assms(1,2), of c] N_getCount_ok[OF assms(1)] assms(2)
    by (simp add: fits_def card_insert_dom del: dom_fun_upd)
qed

lemma N_remove_fits:
  assumes "cont_ok n" "cmap n k \<noteq> None" "fits n" "N_getCount n \<noteq> 2" "N_remove k False n = Some r"
  shows "fits (placed_cont r)"
proof -
  have "min_children (placed_cont r) \<le> N_getCount n - 1"
    using assms(3-5) N_getCount_ok[OF assms(1)]
    by (cases n) (auto simp: fits_def N_remove_def removeAndShrink_def N_getCount_def N16_remove_def N48_remove_def
        N256_remove_def split: option.splits if_splits)
  then show ?thesis
    using N_remove_ok[OF assms(1,2), of False] N_getCount_ok[OF assms(1)] assms(2,5)
    by (auto simp: fits_def card_remove_dom simp del: dom_fun_upd)
qed

lemma fits_two: "fits n \<Longrightarrow> card (dom (cmap n)) = 2 \<Longrightarrow> \<exists>a. n = N4 a"
  by (cases n) (auto simp: fits_def)

lemma N_change_layout: "N_change k c n = Some n' \<Longrightarrow> min_children n' = min_children n"
  by (cases n) (auto simp: N_change_def)

lemma N_change_fits:
  assumes "cont_ok n" "cmap n k \<noteq> None" "fits n" "N_change k c n = Some n'"
  shows "fits n'"
proof -
  have "cmap n' = (cmap n)(k \<mapsto> c)" using N_change_ok[OF assms(1,2), of c] assms(4) by auto
  then have "dom (cmap n') = dom (cmap n)" using assms(2) by (auto simp: domIff)
  then show ?thesis using assms(3) N_change_layout[OF assms(4)] by (simp add: fits_def)
qed

section \<open>Properties\<close>

text \<open>A node with the children 10 and 20 under the bytes 1 and 2.\<close>

definition two_node :: "nat cont" where
  "two_node = N4 (snd (N4_insert 2 20 (snd (N4_insert 1 10 N4_new))))"

lemma two_node_ok: "cont_ok two_node" "cmap two_node = [1 \<mapsto> 10, 2 \<mapsto> 20]" "fits two_node"
proof -
  have n: "karr_ok 4 (N4_new :: nat karr)" "karr_map (\<lambda>x. x) (N4_new :: nat karr) = Map.empty" "compactCount (N4_new :: nat karr) = 0"
    using layout4.new_ok by blast+
  obtain a where a: "N4_insert 1 (10 :: nat) N4_new = (True, a)" "karr_ok 4 a" "karr_map (\<lambda>x. x) a = [1 \<mapsto> 10]" "compactCount a = 1"
    using layout4.ins_ok[OF n(1), of 1 10] n(2,3) by auto
  obtain a' where a': "N4_insert 2 (20 :: nat) a = (True, a')" "karr_ok 4 a'" "karr_map (\<lambda>x. x) a' = [1 \<mapsto> 10, 2 \<mapsto> 20]"
    using layout4.ins_ok[OF a(2), of 2 20] a(3,4) by auto
  show "cont_ok two_node" "cmap two_node = [1 \<mapsto> 10, 2 \<mapsto> 20]" using a a' by (simp_all add: two_node_def)
  then show "fits two_node" by (simp add: fits_def) (simp add: two_node_def)
qed

text \<open>Inserting a child under a free byte, in any of the four layouts and also when the node is
  compacted or grows into the next layout, yields a well-formed node with the old children and
  the new one, whose layout fits the number of its children.\<close>

theorem N_insert_correct:
  assumes "cont_ok n" "cmap n k = None" "fits n"
  shows "cont_ok (placed_cont (N_insert k c n)) \<and> cmap (placed_cont (N_insert k c n)) = (cmap n)(k \<mapsto> c) \<and>
    fits (placed_cont (N_insert k c n))"
  using N_insert_ok[OF assms(1,2)] N_insert_fits[OF assms] by blast

theorem N_insert_correct_witness: "cmap (placed_cont (N_insert 3 30 two_node)) = [1 \<mapsto> 10, 2 \<mapsto> 20, 3 \<mapsto> 30]"
  using N_insert_correct[OF two_node_ok(1) _ two_node_ok(3), of 3 30] two_node_ok(2) by simp

text \<open>Removing a child that is there from a node with more than two children does not fail an assertion, and
  leaves a well-formed node with the other children, shrunk to the smaller layout when it falls
  below the threshold.\<close>

theorem N_remove_correct:
  assumes "cont_ok n" "cmap n k \<noteq> None" "fits n" "N_getCount n \<noteq> 2"
  shows "\<exists>r. N_remove k False n = Some r \<and> cont_ok (placed_cont r) \<and> cmap (placed_cont r) = (cmap n)(k := None) \<and>
    fits (placed_cont r)"
  using N_remove_ok[OF assms(1,2), of False] N_remove_fits[OF assms] by blast

text \<open>The same node with a third child.\<close>

definition three_node :: "nat cont" where
  "three_node = placed_cont (N_insert 3 30 two_node)"

lemma three_node_ok: "cont_ok three_node" "cmap three_node = [1 \<mapsto> 10, 2 \<mapsto> 20, 3 \<mapsto> 30]" "fits three_node"
  "N_getCount three_node = 3"
proof -
  show ok: "cont_ok three_node" "cmap three_node = [1 \<mapsto> 10, 2 \<mapsto> 20, 3 \<mapsto> 30]"
    using N_insert_ok[OF two_node_ok(1), of 3 30] two_node_ok(2) by (simp_all add: three_node_def)
  show "fits three_node" unfolding three_node_def
    by (rule N_insert_fits[OF two_node_ok(1) _ two_node_ok(3)]) (simp add: two_node_ok(2))
  show "N_getCount three_node = 3" using N_getCount_ok[OF ok(1)] ok(2) by simp
qed

theorem N_remove_correct_witness:
  "\<exists>r. N_remove 2 False three_node = Some r \<and> cmap (placed_cont r) = [1 \<mapsto> 10, 3 \<mapsto> 30]"
proof -
  have "cmap three_node 2 \<noteq> None" "N_getCount three_node \<noteq> 2" by (simp_all add: three_node_ok)
  from N_remove_correct[OF three_node_ok(1) this(1) three_node_ok(3) this(2)] show ?thesis
    by (auto simp: three_node_ok(2) fun_eq_iff)
qed

end
