(* ===== verification/ArtWord.thy ===== *)
theory ArtWord
  imports HL_Prelude
begin

text \<open>
  The words of a radix tree node, \<open>lib/ARTROWEX/N.cpp\<close>: the 64-bit word that holds the type, the
  version, the lock bit and the obsolete bit, and the tag that tells a leaf from an inner node.
  The word is used concurrently; its accesses are the steps of a machine.
\<close>

section \<open>The version word\<close>

datatype NTypes = TN4 | TN16 | TN48 | TN256

primrec NTypes_code :: "NTypes \<Rightarrow> u64" where
  "NTypes_code TN4 = 0"
| "NTypes_code TN16 = 1"
| "NTypes_code TN48 = 2"
| "NTypes_code TN256 = 3"

definition convertTypeToVersion :: "NTypes \<Rightarrow> u64" where
  "convertTypeToVersion type = push_bit 62 (NTypes_code type)"

definition setType :: "NTypes \<Rightarrow> u64 \<Rightarrow> u64" where
  "setType type typeVersionLockObsolete = typeVersionLockObsolete + convertTypeToVersion type"

text \<open>The constructor: version 1, unlocked, not obsolete.\<close>

definition N_word :: "NTypes \<Rightarrow> u64" where
  "N_word type = setType type 4"

definition getType :: "u64 \<Rightarrow> NTypes" where
  "getType typeVersionLockObsolete =
     (let code = drop_bit 62 typeVersionLockObsolete in
      if code = 0 then TN4 else if code = 1 then TN16 else if code = 2 then TN48 else TN256)"

definition isLocked :: "u64 \<Rightarrow> bool" where
  "isLocked version \<longleftrightarrow> version AND 2 = 2"

definition isObsolete :: "u64 \<Rightarrow> bool" where
  "isObsolete version \<longleftrightarrow> version AND 1 = 1"

text \<open>
  One round of \<open>writeLockOrRestart\<close> on the value it has loaded: it spins while the node is
  locked, gives up on an obsolete node, and else tries to store the locked word.
\<close>

datatype lock_try = Spin | NeedRestart | Acquired u64

definition writeLockOrRestart :: "u64 \<Rightarrow> lock_try" where
  "writeLockOrRestart version =
     (if isLocked version then Spin else if isObsolete version then NeedRestart else Acquired (version + 2))"

text \<open>\<open>lockVersionOrRestart\<close> compares the version read earlier with the word.\<close>

definition lockVersionOrRestart :: "u64 \<Rightarrow> u64 \<Rightarrow> lock_try" where
  "lockVersionOrRestart version word =
     (if isLocked version \<or> isObsolete version then NeedRestart
      else if word = version then Acquired (version + 2) else NeedRestart)"

definition N_writeUnlock :: "u64 \<Rightarrow> u64" where
  "N_writeUnlock word = word + 2"

definition writeUnlockObsolete :: "u64 \<Rightarrow> u64" where
  "writeUnlockObsolete word = word + 3"

definition readUnlockOrRestart :: "u64 \<Rightarrow> u64 \<Rightarrow> bool" where
  "readUnlockOrRestart startRead word \<longleftrightarrow> startRead = word"

section \<open>Bits\<close>

definition is_free :: "u64 \<Rightarrow> bool" where
  "is_free w \<longleftrightarrow> \<not> isLocked w \<and> \<not> isObsolete w"

lemma bit_odd: "bit (w :: u64) n \<longleftrightarrow> odd (unat w div 2 ^ n)"
  by (simp add: bit_unsigned_iff flip: bit_iff_odd)

lemma low_bits: "isLocked w \<longleftrightarrow> unat w mod 4 \<in> {2, 3}" "isObsolete w \<longleftrightarrow> unat w mod 4 \<in> {1, 3}"
proof -
  have two: "bit (2 :: u64) n \<longleftrightarrow> n = 1" for n using bit_exp_iff[of 1 n, where 'a = u64] by auto
  have "bit w 1" if "w AND 2 = 2" using that bit_and_iff[of w 2 1] by (simp add: two)
  moreover have "w AND 2 = 2" if "bit w 1" by (rule bit_word_eqI) (use that two in \<open>auto simp only: bit_and_iff\<close>)
  ultimately have "w AND 2 = 2 \<longleftrightarrow> bit w 1" by blast
  moreover have "w AND 1 = 1 \<longleftrightarrow> bit w 0" by (simp add: and_one_eq mod2_eq_if bit_0)
  moreover have "odd (x div 2 ^ 1) \<longleftrightarrow> x mod 4 \<in> {2, 3}" "odd (x div 2 ^ 0) \<longleftrightarrow> x mod 4 \<in> {1, 3}" for x :: nat
    by (simp_all, presburger+)
  ultimately show "isLocked w \<longleftrightarrow> unat w mod 4 \<in> {2, 3}" "isObsolete w \<longleftrightarrow> unat w mod 4 \<in> {1, 3}"
    unfolding isLocked_def isObsolete_def bit_odd by simp_all
qed

lemma unat_add_mod4: "unat (w + v :: u64) mod 4 = (unat w mod 4 + unat v mod 4) mod 4"
proof -
  have "(4 :: nat) dvd 2 ^ 64" by simp
  then show ?thesis by (simp add: unat_word_ariths mod_mod_cancel mod_add_eq)
qed

lemma is_free_low: "is_free w \<longleftrightarrow> unat w mod 4 = 0"
proof -
  have "unat w mod 4 < 4" by simp
  then show ?thesis unfolding is_free_def low_bits by auto
qed

lemma lock_word:
  assumes "is_free w"
  shows "isLocked (w + 2)" "\<not> isObsolete (w + 2)" "is_free (N_writeUnlock (w + 2))"
    "isObsolete (writeUnlockObsolete (w + 2))" "\<not> isLocked (writeUnlockObsolete (w + 2))"
proof -
  have w: "unat w mod 4 = 0" using assms is_free_low by simp
  then have "unat (w + 2) mod 4 = 2" "unat (w + 2 + 2) mod 4 = 0" "unat (w + 2 + 3) mod 4 = 1"
    using unat_add_mod4[of w 2] unat_add_mod4[of "w + 2" 2] unat_add_mod4[of "w + 2" 3] by simp_all
  then show "isLocked (w + 2)" "\<not> isObsolete (w + 2)" "is_free (N_writeUnlock (w + 2))"
    "isObsolete (writeUnlockObsolete (w + 2))" "\<not> isLocked (writeUnlockObsolete (w + 2))"
    unfolding is_free_low low_bits N_writeUnlock_def writeUnlockObsolete_def by simp_all
qed

lemma lock_free:
  "is_free w \<Longrightarrow> writeLockOrRestart w = Acquired (w + 2)" "is_free w \<Longrightarrow> lockVersionOrRestart w w = Acquired (w + 2)"
  by (auto simp: writeLockOrRestart_def lockVersionOrRestart_def is_free_def)

lemma N_word_free: "is_free (N_word t)"
  by (cases t) (simp_all add: N_word_def setType_def convertTypeToVersion_def is_free_def isLocked_def isObsolete_def)

section \<open>The type bits\<close>

text \<open>
  The version occupies 60 bits below the type; each round of locking and unlocking adds one to
  it. The type is readable as long as the version has not overflowed.
\<close>

lemma unat_type: "unat (convertTypeToVersion t) = unat (NTypes_code t) * 2 ^ 62"
  by (cases t) (simp_all add: convertTypeToVersion_def)

lemma code_le: "unat (NTypes_code t) \<le> 3"
  by (cases t) simp_all

text \<open>A thread locks the node and unlocks it again.\<close>

definition lockRound :: "u64 \<Rightarrow> u64" where
  "lockRound w = (case writeLockOrRestart w of Acquired w' \<Rightarrow> N_writeUnlock w' | _ \<Rightarrow> w)"

definition rounds :: "nat \<Rightarrow> u64 \<Rightarrow> u64" where
  "rounds n = (lockRound ^^ n)"

lemma lockRound_free: "is_free w \<Longrightarrow> lockRound w = w + 4 \<and> is_free (lockRound w)"
  using lock_word(3)[of w] by (simp add: lockRound_def writeLockOrRestart_def is_free_def N_writeUnlock_def)

lemma rounds_add:
  assumes "is_free w"
  shows "rounds n w = w + word_of_nat (4 * n) \<and> is_free (rounds n w)"
proof (induction n)
  case (Suc n)
  then show ?case using lockRound_free[of "rounds n w"] by (auto simp: rounds_def algebra_simps)
qed (simp add: rounds_def assms)

lemma unat_rounds:
  assumes "n < 2 ^ 60 - 1"
  shows "unat (rounds n (N_word t)) = unat (NTypes_code t) * 2 ^ 62 + 4 * Suc n"
proof -
  have "unat (NTypes_code t) * 2 ^ 62 + 4 * Suc n < 2 ^ 64"
    using code_le[of t] assms by simp
  moreover have "rounds n (N_word t) = word_of_nat (unat (NTypes_code t) * 2 ^ 62 + 4 * Suc n)"
    using arg_cong[OF unat_type[of t], of "word_of_nat :: nat \<Rightarrow> u64"] rounds_add[OF N_word_free, of n t]
    by (simp add: N_word_def setType_def algebra_simps)
  ultimately show ?thesis by (simp only: unat_of_nat) (simp add: take_bit_nat_eq_self)
qed

lemma getType_unat: "getType w = (if unat w div 2 ^ 62 = 0 then TN4 else if unat w div 2 ^ 62 = 1 then TN16
    else if unat w div 2 ^ 62 = 2 then TN48 else TN256)"
proof -
  have "drop_bit 62 w = c \<longleftrightarrow> unat w div 2 ^ 62 = unat c" for c
    by (metis drop_bit_nat_def unat_drop_bit_eq unsigned_word_eqI)
  then show ?thesis by (simp add: getType_def)
qed

lemma getType_rounds:
  assumes "n < 2 ^ 60 - 1"
  shows "getType (rounds n (N_word t)) = t"
proof -
  have "(unat (NTypes_code t) * 2 ^ 62 + 4 * Suc n) div 2 ^ 62 = unat (NTypes_code t)"
    using assms by simp
  then show ?thesis unfolding getType_unat unat_rounds[OF assms] by (cases t) simp_all
qed

section \<open>The lock as a machine\<close>

text \<open>
  Threads share the word of one node. A thread that locks the node does so with a compare and
  exchange, so the value it has tested is the value of the word at that step; \<open>owner\<close> is the
  thread that holds the lock.
\<close>

record node_lock =
  word :: u64
  owner :: "nat option"

inductive lock_step :: "node_lock \<Rightarrow> node_lock \<Rightarrow> bool" where
  lock: "writeLockOrRestart (word s) = Acquired w \<Longrightarrow> lock_step s \<lparr>word = w, owner = Some t\<rparr>"
| lock_version: "lockVersionOrRestart v (word s) = Acquired w \<Longrightarrow> lock_step s \<lparr>word = w, owner = Some t\<rparr>"
| unlock: "owner s = Some t \<Longrightarrow> lock_step s \<lparr>word = N_writeUnlock (word s), owner = None\<rparr>"
| unlock_obsolete: "owner s = Some t \<Longrightarrow> lock_step s \<lparr>word = writeUnlockObsolete (word s), owner = None\<rparr>"

inductive lock_run :: "NTypes \<Rightarrow> node_lock \<Rightarrow> bool" for type where
  fresh: "lock_run type \<lparr>word = N_word type, owner = None\<rparr>"
| more: "lock_run type s \<Longrightarrow> lock_step s s' \<Longrightarrow> lock_run type s'"

inductive_cases lock_stepE: "lock_step s s'"

definition node_lock_inv :: "node_lock \<Rightarrow> bool" where
  "node_lock_inv s \<longleftrightarrow> (case owner s of
     None \<Rightarrow> \<not> isLocked (word s)
   | Some t \<Rightarrow> \<exists>w. is_free w \<and> word s = w + 2)"

lemma acquired:
  "writeLockOrRestart v = Acquired w \<Longrightarrow> is_free v \<and> w = v + 2"
  "lockVersionOrRestart v x = Acquired w \<Longrightarrow> is_free x \<and> v = x \<and> w = x + 2"
  by (auto simp: writeLockOrRestart_def lockVersionOrRestart_def is_free_def split: if_splits)

lemma lock_run_inv: "lock_run type s \<Longrightarrow> node_lock_inv s"
proof (induction rule: lock_run.induct)
  case fresh
  then show ?case using N_word_free by (simp add: node_lock_inv_def is_free_def)
next
  case (more s s')
  from more.hyps(2) show ?case
  proof (rule lock_stepE)
    fix t assume s': "s' = \<lparr>word = N_writeUnlock (word s), owner = None\<rparr>" and t: "owner s = Some t"
    from more.IH t obtain w where "is_free w" "word s = w + 2" by (auto simp: node_lock_inv_def)
    then show ?case using lock_word(3)[of w] s' by (simp add: node_lock_inv_def is_free_def)
  next
    fix t assume s': "s' = \<lparr>word = writeUnlockObsolete (word s), owner = None\<rparr>" and t: "owner s = Some t"
    from more.IH t obtain w where "is_free w" "word s = w + 2" by (auto simp: node_lock_inv_def)
    then show ?case using lock_word(5)[of w] s' by (simp add: node_lock_inv_def)
  next
    fix w t assume s': "s' = \<lparr>word = w, owner = Some t\<rparr>" and w: "writeLockOrRestart (word s) = Acquired w"
    then show ?case using acquired(1)[OF w] by (auto simp: node_lock_inv_def)
  next
    fix v w t assume s': "s' = \<lparr>word = w, owner = Some t\<rparr>" and w: "lockVersionOrRestart v (word s) = Acquired w"
    then show ?case using acquired(2)[OF w] by (auto simp: node_lock_inv_def)
  qed
qed

section \<open>Leaves\<close>

definition isLeaf :: "u64 \<Rightarrow> bool" where
  "isLeaf n \<longleftrightarrow> n AND push_bit 63 1 = push_bit 63 1"

definition setLeaf :: "u64 \<Rightarrow> u64" where
  "setLeaf tid = tid OR push_bit 63 1"

definition getLeaf :: "u64 \<Rightarrow> u64" where
  "getLeaf n = n AND (push_bit 63 1 - 1)"

lemma bit_high: "bit (push_bit 63 1 :: u64) n \<longleftrightarrow> n = 63" "bit (push_bit 63 1 - 1 :: u64) n \<longleftrightarrow> n < 63"
proof -
  show "bit (push_bit 63 1 :: u64) n \<longleftrightarrow> n = 63" unfolding push_bit_of_1 bit_exp_iff by auto
  have "(push_bit 63 1 - 1 :: u64) = mask 63" by (simp add: mask_eq_exp_minus_1)
  then show "bit (push_bit 63 1 - 1 :: u64) n \<longleftrightarrow> n < 63" by (simp only: bit_mask_iff) auto
qed

lemma isLeaf_bit: "isLeaf n \<longleftrightarrow> bit n 63"
proof
  assume "isLeaf n"
  then have "bit (n AND push_bit 63 1) 63" unfolding isLeaf_def by (simp only: bit_high)
  then show "bit n 63" by (simp only: bit_and_iff)
next
  assume "bit n 63"
  then show "isLeaf n" unfolding isLeaf_def
    by (intro bit_word_eqI) (auto simp only: bit_and_iff bit_high)
qed

lemma leaf_tag:
  shows "isLeaf (setLeaf tid)" "\<not> bit tid 63 \<Longrightarrow> getLeaf (setLeaf tid) = tid"
proof -
  show "isLeaf (setLeaf tid)" unfolding isLeaf_bit setLeaf_def by (simp only: bit_or_iff bit_high simp_thms)
  assume nt: "\<not> bit tid 63"
  have "n < 63" if "bit tid n" for n
  proof -
    have "n < 64" using bit_imp_le_length[OF that] by simp
    moreover have "n \<noteq> 63" using nt that by auto
    ultimately show ?thesis by linarith
  qed
  then show "getLeaf (setLeaf tid) = tid" unfolding getLeaf_def setLeaf_def
    by (intro bit_word_eqI) (auto simp only: bit_and_iff bit_or_iff bit_high)
qed

lemma no_tag: "tid < 2 ^ 63 \<longleftrightarrow> \<not> bit (tid :: u64) 63"
proof -
  have "tid < 2 ^ 63 \<longleftrightarrow> unat tid div 2 ^ 63 = 0" unfolding div_eq_0_iff by (simp add: word_less_nat_alt)
  also have "\<dots> \<longleftrightarrow> \<not> bit tid 63"
  proof -
    have "unat tid < 2 * 2 ^ 63" using unsigned_less[of tid, where 'a = nat] by simp
    then have "unat tid div 2 ^ 63 < 2" by (rule less_mult_imp_div_less)
    then show ?thesis unfolding bit_odd by (auto elim: oddE)
  qed
  finally show ?thesis .
qed

section \<open>Properties\<close>

text \<open>C22. The type of a node can be read from its version word, and the node is unlocked and
  not obsolete, after any number of completed rounds of locking and unlocking that the 60-bit
  version can count.\<close>

theorem node_type_survives:
  assumes "n < 2 ^ 60 - 1"
  shows "getType (rounds n (N_word t)) = t \<and> is_free (rounds n (N_word t))"
  using getType_rounds[OF assms] unat_rounds[OF assms, of t] by (simp add: is_free_low)

theorem node_type_survives_witness:
  "(3 :: nat) < 2 ^ 60 - 1 \<and> getType (rounds 3 (N_word TN48)) = TN48 \<and> is_free (rounds 3 (N_word TN48))"
  using node_type_survives[of 3 TN48] by simp

text \<open>C21. In every run of threads over the version word of a node the lock bit is set exactly while
  a thread owns the node; and once the node is obsolete, nobody can lock it again.\<close>

theorem node_lock_exclusive:
  assumes "lock_run type s"
  shows "(isLocked (word s) \<longleftrightarrow> owner s \<noteq> None) \<and> (isObsolete (word s) \<longrightarrow> (\<nexists>s'. lock_step s s'))"
proof -
  have inv: "node_lock_inv s" by (rule lock_run_inv[OF assms])
  then have "isLocked (word s) \<longleftrightarrow> owner s \<noteq> None"
    using lock_word(1) by (auto simp: node_lock_inv_def split: option.splits)
  moreover have "\<not> isObsolete (word s)" if "lock_step s s'" for s'
    using that inv acquired lock_word(2)
    by cases (fastforce simp: node_lock_inv_def is_free_def)+
  ultimately show ?thesis by blast
qed

text \<open>A run in which a thread locks a new node and unlocks it as obsolete.\<close>

lemma obsolete_run: "lock_run TN4 \<lparr>word = writeUnlockObsolete 6, owner = None\<rparr>"
proof -
  have "N_word TN4 = 4" by (simp add: N_word_def setType_def convertTypeToVersion_def)
  then have "lock_run TN4 \<lparr>word = 4, owner = None\<rparr>" using lock_run.fresh[of TN4] by simp
  moreover have "writeLockOrRestart 4 = Acquired 6"
    by (simp add: writeLockOrRestart_def isLocked_def isObsolete_def)
  ultimately have "lock_run TN4 \<lparr>word = 6, owner = Some 1\<rparr>"
    using lock_run.more lock_step.lock by fastforce
  moreover have "lock_step \<lparr>word = 6, owner = Some 1\<rparr> \<lparr>word = writeUnlockObsolete 6, owner = None\<rparr>"
    using lock_step.unlock_obsolete[of "\<lparr>word = 6, owner = Some 1\<rparr>" 1] by simp
  ultimately show ?thesis by (rule lock_run.more)
qed

theorem node_lock_exclusive_witness:
  "isObsolete (writeUnlockObsolete 6) \<and> (\<nexists>s'. lock_step \<lparr>word = writeUnlockObsolete 6, owner = None\<rparr> s')"
  using node_lock_exclusive[OF obsolete_run]
  by (simp add: writeUnlockObsolete_def isObsolete_def)

text \<open>A value below \<open>2^63\<close>, as every address in user space is, survives being stored as a
  tagged leaf, and the tag tells the leaf from an untagged pointer.\<close>

theorem leaf_tag_roundtrip:
  assumes "tid < 2 ^ 63"
  shows "isLeaf (setLeaf tid) \<and> getLeaf (setLeaf tid) = tid \<and> \<not> isLeaf tid"
  using assms leaf_tag[of tid] unfolding no_tag isLeaf_bit by blast

theorem leaf_tag_roundtrip_witness: "isLeaf (setLeaf 4096) \<and> getLeaf (setLeaf 4096) = 4096 \<and> \<not> isLeaf 4096"
  by (rule leaf_tag_roundtrip) simp

end
