(* ===== verification/ArtKey.thy ===== *)
theory ArtKey
  imports HL_Prelude
begin

text \<open>
  The keys of the radix tree, \<open>lib/ARTROWEX/Key.h\<close>, and the compressed path a node stores,
  \<open>N::setPrefix\<close> and \<open>N::addPrefixBefore\<close>. A key is the list of its bytes; an integer key is stored
  with its most significant byte first, so that the order of the bytes is the order of the integers.
\<close>

section \<open>Keys\<close>

text \<open>The bytes of a word in memory, least significant first, and the word of given bytes.\<close>

definition bytes_le :: "u64 \<Rightarrow> u8 list" where
  "bytes_le w = map (\<lambda>i. ucast (drop_bit (8 * i) w)) [0..<8]"

definition word_le :: "u8 list \<Rightarrow> u64" where
  "word_le bs = word_of_nat (horner_sum unat 256 bs)"

definition bswap64 :: "u64 \<Rightarrow> u64" where
  "bswap64 w = word_le (rev (bytes_le w))"

definition Key_setInt :: "u64 \<Rightarrow> u8 list" where
  "Key_setInt k = bytes_le (bswap64 k)"

text \<open>\<open>operator[]\<close> asserts that the index is in range.\<close>

definition key_at :: "u8 list \<Rightarrow> nat \<Rightarrow> u8 option" where
  "key_at k i = (if i < length k then Some (k ! i) else None)"

definition Key_eq :: "u8 list \<Rightarrow> u8 list \<Rightarrow> bool" where
  "Key_eq a b \<longleftrightarrow> length b = length a \<and> take (length a) b = a"

text \<open>\<open>operator<\<close>; the loop ends without a \<open>return\<close> when one key is a prefix of the other.\<close>

fun Key_less :: "u8 list \<Rightarrow> u8 list \<Rightarrow> bool option" where
  "Key_less (x # data) (y # k) =
     (if y < x then Some False else if x < y then Some True else Key_less data k)"
| "Key_less _ _ = None"

lemma Key_eq_iff [simp]: "Key_eq a b \<longleftrightarrow> a = b"
  by (auto simp: Key_eq_def)

subsection \<open>Bytes and numbers\<close>

fun be_val :: "u8 list \<Rightarrow> nat" where
  "be_val [] = 0"
| "be_val (x # xs) = unat x * 256 ^ length xs + be_val xs"

lemma unat_byte: "unat (b :: u8) < 256"
  using unsigned_less[of b, where 'a = nat] by simp

lemma horner_bound: "horner_sum unat 256 (bs :: u8 list) < (256 :: nat) ^ length bs"
proof (induction bs)
  case (Cons b bs)
  have "unat b + 256 * horner_sum unat 256 bs < 256 + 256 * horner_sum unat 256 bs"
    using unat_byte[of b] by simp
  also have "\<dots> \<le> 256 * 256 ^ length bs" using Cons by simp
  finally show ?case by simp
qed simp

lemma horner_nth:
  "i < length bs \<Longrightarrow> horner_sum unat 256 (bs :: u8 list) div (256 :: nat) ^ i mod 256 = unat (bs ! i)"
proof (induction bs arbitrary: i)
  case (Cons b bs)
  have b: "unat b < 256" by (rule unat_byte)
  show ?case
  proof (cases i)
    case (Suc j)
    have "(unat b + 256 * horner_sum unat 256 bs) div 256 ^ Suc j = horner_sum unat 256 bs div (256 :: nat) ^ j"
      using b by (simp add: div_mult2_eq)
    then show ?thesis using Cons Suc by simp
  qed (use b in simp)
qed simp

lemma unat_byte_of: "unat (ucast (drop_bit (8 * i) w) :: u8) = unat (w :: u64) div 256 ^ i mod 256"
proof -
  have "(2 :: nat) ^ (8 * i) = 256 ^ i" by (simp add: power_mult)
  then show ?thesis by (simp add: unsigned_ucast_eq unat_drop_bit_eq drop_bit_nat_def take_bit_nat_def)
qed

lemma length_bytes_le [simp]: "length (bytes_le w) = 8"
  by (simp add: bytes_le_def)

lemma unat_bytes_le: "i < 8 \<Longrightarrow> unat (bytes_le w ! i) = unat w div 256 ^ i mod 256"
  by (simp add: bytes_le_def unat_byte_of del: upt_Suc)

lemma bytes_word_le: "length bs = 8 \<Longrightarrow> bytes_le (word_le bs) = bs"
proof (rule nth_equalityI)
  fix i assume bs: "length bs = 8" and "i < length (bytes_le (word_le bs))"
  then have i: "i < 8" by simp
  have "horner_sum unat 256 bs < (2 :: nat) ^ 64" using horner_bound[of bs] bs by simp
  then have "unat (word_le bs) = horner_sum unat 256 bs"
    unfolding word_le_def by (simp add: unat_of_nat take_bit_nat_eq_self)
  then have "unat (bytes_le (word_le bs) ! i) = unat (bs ! i)"
    using i bs horner_nth[of i bs] by (simp add: unat_bytes_le)
  then show "bytes_le (word_le bs) ! i = bs ! i" by (rule unsigned_word_eqI)
qed simp

lemma Key_setInt_rev: "Key_setInt k = rev (bytes_le k)"
  unfolding Key_setInt_def bswap64_def by (rule bytes_word_le) simp

lemma length_Key_setInt [simp]: "length (Key_setInt k) = 8"
  by (simp add: Key_setInt_rev)

lemma be_val_snoc: "be_val (xs @ [x]) = be_val xs * 256 + unat x"
  by (induction xs) (auto simp: algebra_simps)

lemma be_val_rev: "be_val (rev bs) = horner_sum unat 256 bs"
  by (induction bs) (simp_all add: be_val_snoc)

lemma horner_digits:
  "horner_sum unat 256 (map (\<lambda>i. ucast (drop_bit (8 * i) w) :: u8) [0..<n]) = unat (w :: u64) mod 256 ^ n"
proof (induction n)
  case (Suc n)
  then show ?case
    by (simp add: horner_sum_append unat_byte_of mod_mult2_eq mult.commute[of _ "256 ^ n"])
qed simp

lemma be_val_Key_setInt: "be_val (Key_setInt k) = unat k"
  unfolding Key_setInt_rev be_val_rev bytes_le_def horner_digits
  using unsigned_less[of k, where 'a = nat] by simp

lemma be_val_bound: "be_val xs < 256 ^ length xs"
  using horner_bound[of "rev xs"] be_val_rev[of "rev xs"] by simp

lemma Key_less_be_val:
  "length a = length b \<Longrightarrow> Key_less a b = (if a = b then None else Some (be_val a < be_val b))"
proof (induction a b rule: list_induct2)
  case (Cons x xs y ys)
  have lt: "be_val (p # ps) < be_val (q # qs)" if "p < q" "length ps = length qs" for p q ps qs
  proof -
    have "be_val (p # ps) < (unat p + 1) * 256 ^ length ps" using be_val_bound[of ps] by simp
    also have "\<dots> \<le> unat q * 256 ^ length ps" using that(1) by (intro mult_right_mono) (auto simp: word_less_nat_alt)
    finally show ?thesis using that(2) by simp
  qed
  consider "x < y" | "y < x" | "x = y" by fastforce
  then show ?case
  proof cases
    case 1
    then show ?thesis using lt[OF 1 Cons.hyps] by (simp add: less_imp_not_less less_imp_neq)
  next
    case 2
    then show ?thesis using lt[OF 2 Cons.hyps[symmetric]] by auto
  next
    case 3
    then show ?thesis using Cons by simp
  qed
qed simp

lemma inj_Key_setInt: "Key_setInt a = Key_setInt b \<longleftrightarrow> a = b"
  using be_val_Key_setInt by (metis unsigned_word_eqI)

section \<open>Prefixes\<close>

definition maxStoredPrefixLength :: nat where
  "maxStoredPrefixLength = 4"

text \<open>
  The length of the compressed path and its first four bytes. Bytes the code leaves
  uninitialised are \<open>0\<close> here; no operation reads them.
\<close>

datatype prefix = Prefix (prefixCount: nat) (pbytes: "u8 list")

definition memcpy :: "nat \<Rightarrow> u8 list \<Rightarrow> u8 list \<Rightarrow> u8 list" where
  "memcpy off src dst = take off dst @ src @ drop (off + length src) dst"

definition setPrefix :: "u8 list \<Rightarrow> nat \<Rightarrow> prefix" where
  "setPrefix bs len =
     (if 0 < len then Prefix len (memcpy 0 (take (min len maxStoredPrefixLength) bs) [0, 0, 0, 0])
      else Prefix 0 [0, 0, 0, 0])"

definition addPrefixBefore :: "prefix \<Rightarrow> prefix \<Rightarrow> u8 \<Rightarrow> prefix" where
  "addPrefixBefore p nodeP key =
     (let prefixCopyCount = min maxStoredPrefixLength (prefixCount nodeP + 1);
          b1 = memcpy prefixCopyCount
                 (take (min (prefixCount p) (maxStoredPrefixLength - prefixCopyCount)) (pbytes p)) (pbytes p);
          b2 = memcpy 0 (take (min prefixCopyCount (prefixCount nodeP)) (pbytes nodeP)) b1;
          b3 = (if prefixCount nodeP < maxStoredPrefixLength then b2[prefixCopyCount - 1 := key] else b2)
      in Prefix (prefixCount p + (prefixCount nodeP + 1)) b3)"

text \<open>A prefix stores a path when it has its length and its first bytes.\<close>

definition stores :: "prefix \<Rightarrow> u8 list \<Rightarrow> bool" where
  "stores p path \<longleftrightarrow> prefixCount p = length path \<and> length (pbytes p) = 4 \<and>
     take (length path) (pbytes p) = take 4 path"

lemma stores_nth: "stores p path \<Longrightarrow> i < length path \<Longrightarrow> i < 4 \<Longrightarrow> pbytes p ! i = path ! i"
  unfolding stores_def by (metis nth_take)

lemma setPrefix_stores:
  assumes "len \<le> length path" "take (min len 4) bs = take (min len 4) path" "min len 4 \<le> length bs"
  shows "stores (setPrefix bs len) (take len path)"
proof -
  have "length (take (min len 4) bs) = min len 4" using assms(3) by simp
  then show ?thesis using assms
    by (auto simp: stores_def setPrefix_def memcpy_def maxStoredPrefixLength_def min_def split: if_splits)
qed

lemma addPrefixBefore_bytes:
  assumes "length bs = 4" "length ns = 4" "d < 4"
  shows "pbytes (addPrefixBefore (Prefix c bs) (Prefix d ns) key) =
    take d ns @ key # take (min c (3 - d)) bs @ drop (Suc d + min c (3 - d)) bs"
proof -
  define m where "m = min c (3 - d)"
  define b1 where "b1 = take (Suc d) bs @ take m bs @ drop (Suc d + m) bs"
  have m: "m \<le> 3 - d" and l: "length (take m bs) = m" using assms by (auto simp: m_def)
  have b1: "memcpy (Suc d) (take m bs) bs = b1" unfolding memcpy_def b1_def l ..
  have "length (take d ns) = d" using assms by simp
  then have b2: "memcpy 0 (take d ns) b1 = take d ns @ drop d b1" by (simp add: memcpy_def)
  have "d < length bs" using assms by simp
  then have "drop d b1 = bs ! d # take m bs @ drop (Suc d + m) bs"
    unfolding b1_def using assms by (simp add: take_Suc_conv_app_nth)
  then have "(take d ns @ drop d b1)[d := key] = take d ns @ key # take m bs @ drop (Suc d + m) bs"
    using \<open>length (take d ns) = d\<close> by (simp add: list_update_append)
  moreover have "min 4 (d + 1) = Suc d" "min (Suc d) d = d" "4 - Suc d = 3 - d" using assms by auto
  ultimately show ?thesis
    using assms(3) b1 b2 by (simp add: addPrefixBefore_def maxStoredPrefixLength_def Let_def m_def[symmetric])
qed

lemma addPrefixBefore_stores:
  assumes p: "stores p path" and n: "stores nodeP npath"
  shows "stores (addPrefixBefore p nodeP key) (npath @ key # path)"
proof -
  let ?r = "addPrefixBefore p nodeP key"
  obtain c bs where pp: "p = Prefix c bs" by (cases p)
  obtain d ns where nn: "nodeP = Prefix d ns" by (cases nodeP)
  have bs: "length bs = 4" "c = length path" "take c bs = take 4 path" using p by (auto simp: pp stores_def)
  have ns: "length ns = 4" "d = length npath" "take d ns = take 4 npath" using n by (auto simp: nn stores_def)
  have cnt: "prefixCount ?r = length npath + Suc (length path)"
    using bs ns by (simp add: addPrefixBefore_def pp nn Let_def)
  show ?thesis
  proof (cases "d < 4")
    case True
    let ?m = "min c (3 - d)"
    have b: "pbytes ?r = npath @ key # take ?m bs @ drop (Suc d + ?m) bs"
      using addPrefixBefore_bytes[OF bs(1) ns(1) True] True ns by (simp add: pp nn)
    have "take c (take ?m bs @ drop (Suc d + ?m) bs) = take (3 - d) path"
    proof (cases "c \<le> 3 - d")
      case le: True
      then show ?thesis using bs by (simp add: min_absorb1)
    next
      case False
      then have "take (3 - d) bs = take (3 - d) (take c bs)" by (simp add: min_absorb1)
      then show ?thesis using False True bs(1,3) by (simp add: min_absorb2)
    qed
    moreover have "4 - d = Suc (3 - d)" using True by simp
    ultimately show ?thesis unfolding stores_def cnt b using True bs ns by simp
  next
    case False
    then show ?thesis unfolding stores_def cnt using bs ns
      by (simp add: addPrefixBefore_def memcpy_def maxStoredPrefixLength_def pp nn Let_def)
  qed
qed

section \<open>Properties\<close>

text \<open>C23. Storing an integer as a key and reading its bytes with the most significant one first
  gives the integer back; so two integers have the same key only if they are equal, and comparing
  the keys with \<open>operator<\<close> compares the integers (and runs off the end on equal keys).\<close>

theorem Key_setInt_order:
  "be_val (Key_setInt a) = unat a \<and> (Key_eq (Key_setInt a) (Key_setInt b) \<longleftrightarrow> a = b) \<and>
   Key_less (Key_setInt a) (Key_setInt b) = (if a = b then None else Some (a < b))"
  using Key_less_be_val[of "Key_setInt a" "Key_setInt b"]
  by (simp add: be_val_Key_setInt inj_Key_setInt word_less_nat_alt)

text \<open>Putting the path of a removed parent and the byte of the surviving child before the
  path of that child yields a prefix that stores the joined path, also when either path is longer
  than the four bytes a node holds.\<close>

theorem addPrefixBefore_joins:
  assumes "stores p path" "stores nodeP npath"
  shows "stores (addPrefixBefore p nodeP key) (npath @ key # path)"
  using addPrefixBefore_stores[OF assms] .

theorem addPrefixBefore_joins_witness:
  "stores (addPrefixBefore (setPrefix [7, 8, 9] 3) (setPrefix [1, 2] 2) 5) [1, 2, 5, 7, 8, 9]"
  using addPrefixBefore_joins[of "setPrefix [7, 8, 9] 3" "[7, 8, 9]" "setPrefix [1, 2] 2" "[1, 2]" 5]
  by (simp add: stores_def setPrefix_def memcpy_def maxStoredPrefixLength_def)

end
