(* ===== verification/ArtTree.thy ===== *)
theory ArtTree
  imports ArtN ArtWord ArtKey
begin

text \<open>
  The concurrent radix tree, \<open>lib/ARTROWEX/Tree.cpp\<close>. A node is a value: its version word, its
  level, its prefix and its children. An operation here is one pass of the code's retry loop by
  a thread that nobody disturbs: it takes the locks the code takes, so the version words
  change as in the code, and it ends in \<open>Restart\<close> where the code jumps to \<open>restart\<close>. The
  result \<open>None\<close> stands for a call that does not return: a failed assertion, a null pointer that is
  followed, or a lock that nobody releases. The function \<open>loadKey\<close> that the tree is built with
  is a parameter.
\<close>

section \<open>Nodes\<close>

datatype art = Leaf u64 | Inner u64 nat prefix "art cont"

primrec art_isLeaf :: "art \<Rightarrow> bool" where
  "art_isLeaf (Leaf tid) = True"
| "art_isLeaf (Inner v l p c) = False"

type_synonym loadKey = "u64 \<Rightarrow> u8 list"

definition leaf :: "u64 \<Rightarrow> art" where
  "leaf tid = Leaf (getLeaf (setLeaf tid))"

fun cont_type :: "'c cont \<Rightarrow> NTypes" where
  "cont_type (N4 n) = TN4"
| "cont_type (N16 n) = TN16"
| "cont_type (N48 n) = TN48"
| "cont_type (N256 n) = TN256"

definition new_node :: "nat \<Rightarrow> prefix \<Rightarrow> art cont \<Rightarrow> art" where
  "new_node level p c = Inner (N_word (cont_type c)) level p c"

definition Tree_new :: art where
  "Tree_new = new_node 0 (setPrefix [] 0) (N256 N256_new)"

text \<open>\<open>getAnyChildTid\<close>, its mirror image, and the walks to the smallest and the largest leaf.\<close>

partial_function (option) getAnyChildTid :: "art \<Rightarrow> u64 option" where
  "getAnyChildTid n = (case n of Leaf tid \<Rightarrow> None
     | Inner v l p c \<Rightarrow> (case N_getAnyChild art_isLeaf c of None \<Rightarrow> None
         | Some (Leaf tid) \<Rightarrow> Some tid
         | Some n' \<Rightarrow> getAnyChildTid n'))"

partial_function (option) getAnyChildTidReverse :: "art \<Rightarrow> u64 option" where
  "getAnyChildTidReverse n = (case n of Leaf tid \<Rightarrow> None
     | Inner v l p c \<Rightarrow> (case N_getAnyChildReverse art_isLeaf c of None \<Rightarrow> None
         | Some (Leaf tid) \<Rightarrow> Some tid
         | Some n' \<Rightarrow> getAnyChildTidReverse n'))"

partial_function (option) smallestLeaf :: "art \<Rightarrow> u64 option" where
  "smallestLeaf n = (case n of Leaf tid \<Rightarrow> Some tid
     | Inner v l p c \<Rightarrow> (case N_getSmallestChild 0 c of None \<Rightarrow> None | Some n' \<Rightarrow> smallestLeaf n'))"

partial_function (option) largestLeaf :: "art \<Rightarrow> u64 option" where
  "largestLeaf n = (case n of Leaf tid \<Rightarrow> Some tid
     | Inner v l p c \<Rightarrow> (case N_getLargestChild 255 c of None \<Rightarrow> None | Some n' \<Rightarrow> largestLeaf n'))"

declare getAnyChildTid.simps [code] getAnyChildTidReverse.simps [code] smallestLeaf.simps [code] largestLeaf.simps [code]

section \<open>Comparing a key with a prefix\<close>

datatype CheckPrefixResult = CP_Match | CP_NoMatch | CP_OptimisticMatch

function checkPrefix_loop :: "prefix \<Rightarrow> u8 list \<Rightarrow> nat \<Rightarrow> nat \<Rightarrow> nat option" where
  "checkPrefix_loop p k i level =
     (if i < min (prefixCount p) maxStoredPrefixLength
      then if pbytes p ! i \<noteq> k ! level then None else checkPrefix_loop p k (i + 1) (level + 1)
      else Some level)"
  by pat_completeness auto

termination by (relation "measure (\<lambda>(p, k, i, l). maxStoredPrefixLength - i)") auto

declare checkPrefix_loop.simps [simp del]

definition checkPrefix :: "nat \<Rightarrow> prefix \<Rightarrow> u8 list \<Rightarrow> nat \<Rightarrow> CheckPrefixResult \<times> nat" where
  "checkPrefix nodeLevel p k level =
     (if length k \<le> nodeLevel then (CP_NoMatch, level)
      else if prefixCount p + level < nodeLevel then (CP_OptimisticMatch, nodeLevel)
      else if 0 < prefixCount p
      then (case checkPrefix_loop p k (level + prefixCount p - nodeLevel) level of
              None \<Rightarrow> (CP_NoMatch, level)
            | Some level' \<Rightarrow>
                if maxStoredPrefixLength < prefixCount p
                then (CP_OptimisticMatch, level' + (prefixCount p - maxStoredPrefixLength))
                else (CP_Match, level'))
      else (CP_Match, level))"

datatype CheckPrefixPessimisticResult = CPP_Match nat | CPP_NoMatch nat u8 "u8 list" | CPP_SkippedLevel

text \<open>
  \<open>kt\<close> is the key of some leaf below the node, which the loop loads when it needs bytes of the prefix that
  the node does not store; \<open>CPP_NoMatch\<close> carries the level of the mismatch, the byte of the node
  there and the bytes of the prefix after it.
\<close>

function pessimistic_loop :: "prefix \<Rightarrow> u8 list option \<Rightarrow> u8 list \<Rightarrow> nat \<Rightarrow> nat \<Rightarrow> nat \<Rightarrow> CheckPrefixPessimisticResult option" where
  "pessimistic_loop p kt k prevLevel i level =
     (if i < prefixCount p then
        (case (if maxStoredPrefixLength \<le> i then Option.bind kt (\<lambda>kt. key_at kt level) else Some (pbytes p ! i)) of
           None \<Rightarrow> None
         | Some curKey \<Rightarrow>
             (case key_at k level of
                None \<Rightarrow> None
              | Some kb \<Rightarrow>
                  if curKey \<noteq> kb then
                    (if maxStoredPrefixLength < prefixCount p then
                       map_option (CPP_NoMatch level curKey) (Option.bind kt (\<lambda>kt.
                         those (map (\<lambda>j. key_at kt (level + j + 1))
                           [0..<min (prefixCount p - (level - prevLevel) - 1) maxStoredPrefixLength])))
                     else Some (CPP_NoMatch level curKey (map (\<lambda>j. pbytes p ! (i + j + 1)) [0..<prefixCount p - i - 1])))
                  else pessimistic_loop p kt k prevLevel (i + 1) (level + 1)))
      else Some (CPP_Match level))"
  by pat_completeness auto

termination by (relation "measure (\<lambda>(p, kt, k, pl, i, l). prefixCount p - i)") auto

declare pessimistic_loop.simps [simp del]

definition checkPrefixPessimistic :: "loadKey \<Rightarrow> art \<Rightarrow> nat \<Rightarrow> prefix \<Rightarrow> u8 list \<Rightarrow> nat \<Rightarrow> CheckPrefixPessimisticResult option" where
  "checkPrefixPessimistic loadKey n nodeLevel p k level =
     (if prefixCount p + level < nodeLevel then Some CPP_SkippedLevel
      else if 0 < prefixCount p
      then pessimistic_loop p (map_option loadKey (getAnyChildTid n)) k level (level + prefixCount p - nodeLevel) level
      else Some (CPP_Match level))"

datatype PCCompareResults = PC_Smaller | PC_Equal | PC_Bigger | PC_SkippedLevel

function compare_loop :: "prefix \<Rightarrow> u8 list option \<Rightarrow> u8 list \<Rightarrow> nat \<Rightarrow> nat \<Rightarrow> (PCCompareResults \<times> nat) option" where
  "compare_loop p kt k i level =
     (if i < prefixCount p then
        (case (if maxStoredPrefixLength \<le> i then Option.bind kt (\<lambda>kt. key_at kt level) else Some (pbytes p ! i)) of
           None \<Rightarrow> None
         | Some curKey \<Rightarrow>
             let kLevel = (if level < length k then k ! level else 0) in
             if curKey < kLevel then Some (PC_Smaller, level)
             else if kLevel < curKey then Some (PC_Bigger, level)
             else compare_loop p kt k (i + 1) (level + 1))
      else Some (PC_Equal, level))"
  by pat_completeness auto

termination by (relation "measure (\<lambda>(p, kt, k, i, l). prefixCount p - i)") auto

declare compare_loop.simps [simp del]

definition checkPrefixCompare :: "loadKey \<Rightarrow> art \<Rightarrow> nat \<Rightarrow> prefix \<Rightarrow> u8 list \<Rightarrow> nat \<Rightarrow> (PCCompareResults \<times> nat) option" where
  "checkPrefixCompare loadKey n nodeLevel p k level =
     (if prefixCount p + level < nodeLevel then Some (PC_SkippedLevel, level)
      else if 0 < prefixCount p
      then compare_loop p (map_option loadKey (getAnyChildTid n)) k (level + prefixCount p - nodeLevel) level
      else Some (PC_Equal, level))"

section \<open>Lookup\<close>

definition checkKey :: "loadKey \<Rightarrow> u64 \<Rightarrow> u8 list \<Rightarrow> u64" where
  "checkKey loadKey tid k = (if Key_eq k (loadKey tid) then tid else 0)"

lemma checkPrefix_loop_level: "checkPrefix_loop p k i l = Some l' \<Longrightarrow> l \<le> l'"
proof (induction p k i l rule: checkPrefix_loop.induct)
  case (1 p k i l)
  then show ?case
    by (cases "i < min (prefixCount p) maxStoredPrefixLength") (fastforce simp: checkPrefix_loop.simps[of p k i l] split: if_splits)+
qed

lemma checkPrefix_level: "checkPrefix nl p k l = (r, l') \<Longrightarrow> l \<le> l'"
  by (auto simp: checkPrefix_def split: if_splits option.splits dest: checkPrefix_loop_level)

function lookup_loop :: "loadKey \<Rightarrow> u8 list \<Rightarrow> art \<Rightarrow> nat \<Rightarrow> bool \<Rightarrow> u64 option" where
  "lookup_loop loadKey k (Leaf tid) level opt = None"
| "lookup_loop loadKey k (Inner v nodeLevel p c) level optimisticPrefixMatch =
     (let (r, level') = checkPrefix nodeLevel p k level in
      if r = CP_NoMatch then Some 0
      else if length k \<le> level' then Some 0
      else let opt = optimisticPrefixMatch \<or> r = CP_OptimisticMatch in
           (case N_getChild (k ! level') c of
              None \<Rightarrow> Some 0
            | Some (Leaf tid) \<Rightarrow>
                if level' < length k - 1 \<or> opt then Some (checkKey loadKey tid k) else Some tid
            | Some (Inner v' l' p' c') \<Rightarrow> lookup_loop loadKey k (Inner v' l' p' c') (level' + 1) opt))"
  by pat_completeness auto

termination
  by (relation "measure (\<lambda>(lk, k, n, l, opt). length k - l)") (auto dest!: sym[of "(_, _)"] checkPrefix_level)

declare lookup_loop.simps [simp del]

definition Tree_lookup :: "loadKey \<Rightarrow> art \<Rightarrow> u8 list \<Rightarrow> u64 option" where
  "Tree_lookup loadKey root k = lookup_loop loadKey k root 0 False"

section \<open>Insertion\<close>

text \<open>
  What a pass does to a subtree: it restarts (leaving the subtree as given), or finishes and
  leaves the subtree in place, or wants its parent to store another node instead, where the second
  argument is the subtree if the parent cannot be locked. The list holds the nodes handed to
  \<open>markNodeForDeletion\<close>.
\<close>

datatype pass_result = Restart art | Stay art "art list" | Swap art art "art list"

text \<open>The lock of a node that nobody else holds, around an action on the locked word.\<close>

definition with_lock :: "u64 \<Rightarrow> (u64 \<Rightarrow> pass_result option) \<Rightarrow> art \<Rightarrow> pass_result option" where
  "with_lock v act n = (case lockVersionOrRestart v v of Acquired v' \<Rightarrow> act v' | _ \<Rightarrow> Some (Restart n))"

text \<open>
  The result of a pass over the child of \<open>Inner v l p c\<close> under \<open>key\<close>: the parent is locked and
  changed where the pass replaced the child.
\<close>

definition in_parent :: "u64 \<Rightarrow> nat \<Rightarrow> prefix \<Rightarrow> art cont \<Rightarrow> u8 \<Rightarrow> pass_result \<Rightarrow> pass_result option" where
  "in_parent v l p c key r = (case r of
     Restart child \<Rightarrow> map_option (\<lambda>c'. Restart (Inner v l p c')) (N_change key child c)
   | Stay child retired \<Rightarrow> map_option (\<lambda>c'. Stay (Inner v l p c') retired) (N_change key child c)
   | Swap child old retired \<Rightarrow> (case writeLockOrRestart v of
        Spin \<Rightarrow> None
      | NeedRestart \<Rightarrow> map_option (\<lambda>c'. Restart (Inner v l p c')) (N_change key old c)
      | Acquired v' \<Rightarrow> map_option (\<lambda>c'. Stay (Inner (N_writeUnlock v') l p c') retired) (N_change key child c)))"

text \<open>A new node with two children.\<close>

definition new_N4 :: "nat \<Rightarrow> prefix \<Rightarrow> u8 \<Rightarrow> art \<Rightarrow> u8 \<Rightarrow> art \<Rightarrow> art" where
  "new_N4 level p k1 n1 k2 n2 =
     new_node level p (N4 (snd (N4_insert k2 n2 (snd (N4_insert k1 n1 N4_new)))))"

text \<open>The number of bytes two keys share from a level on.\<close>

function sharedLength :: "u8 list \<Rightarrow> u8 list \<Rightarrow> nat \<Rightarrow> nat option" where
  "sharedLength key k i =
     (case (key_at key i, key_at k i) of
        (Some a, Some b) \<Rightarrow> if a = b then map_option Suc (sharedLength key k (i + 1)) else Some 0
      | _ \<Rightarrow> None)"
  by pat_completeness auto

termination
  by (relation "measure (\<lambda>(key, k, i). length k - i)") (auto simp: key_at_def split: if_splits)

declare sharedLength.simps [simp del]

definition placed_outcome :: "u64 \<Rightarrow> nat \<Rightarrow> prefix \<Rightarrow> art cont \<Rightarrow> art placed \<Rightarrow> pass_result" where
  "placed_outcome v' l p c r = (case r of
     InPlace c' \<Rightarrow> Stay (Inner (N_writeUnlock v') l p c') []
   | Replaced c' \<Rightarrow> Swap (new_node l p c') (Inner (N_writeUnlock v') l p c) [Inner (writeUnlockObsolete v') l p c])"

text \<open>The branch of \<open>insert\<close> that splits the prefix of a node.\<close>

definition insert_split :: "u64 \<Rightarrow> u64 \<Rightarrow> nat \<Rightarrow> prefix \<Rightarrow> art cont \<Rightarrow> u8 list \<Rightarrow> nat \<Rightarrow> nat \<Rightarrow> u8 \<Rightarrow> u8 list \<Rightarrow> pass_result option" where
  "insert_split tid v nodeLevel p c k level nextLevel nonMatchingKey remainingPrefix =
     (case key_at k nextLevel of
        None \<Rightarrow> None
      | Some kb \<Rightarrow> with_lock v (\<lambda>v'.
          let prefi = Prefix (nextLevel - level) (pbytes p);
              node = Inner (N_writeUnlock v') nodeLevel
                (setPrefix remainingPrefix (prefixCount p - ((nextLevel - level) + 1))) c
          in Some (Swap (new_N4 nextLevel prefi kb (leaf tid) nonMatchingKey node) (Inner (N_writeUnlock v') nodeLevel p c) []))
          (Inner v nodeLevel p c))"

text \<open>The branch of \<open>insert\<close> that meets a leaf under the byte \<open>nodeKey\<close> at \<open>level\<close>.\<close>

definition insert_leaf :: "loadKey \<Rightarrow> u64 \<Rightarrow> u64 \<Rightarrow> nat \<Rightarrow> prefix \<Rightarrow> art cont \<Rightarrow> u8 list \<Rightarrow> nat \<Rightarrow> u8 \<Rightarrow> u64 \<Rightarrow> pass_result option" where
  "insert_leaf loadKey tid v nodeLevel p c k level nodeKey t =
     with_lock v (\<lambda>v'.
       let key = loadKey t in
       if Key_eq key k
       then map_option (\<lambda>c'. Stay (Inner (N_writeUnlock v') nodeLevel p c') []) (N_change nodeKey (leaf tid) c)
       else if length key \<le> level + 1 then None
       else (case sharedLength key k (level + 1) of
           None \<Rightarrow> None
         | Some prefixLength \<Rightarrow>
             (case (key_at k (level + 1 + prefixLength), key_at key (level + 1 + prefixLength)) of
                (Some a, Some b) \<Rightarrow>
                  let n4 = new_N4 (level + 1 + prefixLength) (setPrefix (drop (level + 1) k) prefixLength) a (leaf tid) b (Leaf t)
                  in map_option (\<lambda>c'. Stay (Inner (N_writeUnlock v') nodeLevel p c') []) (N_change nodeKey n4 c)
              | _ \<Rightarrow> None)))
       (Inner v nodeLevel p c)"

lemma pessimistic_level: "pessimistic_loop p kt k pl i l = Some (CPP_Match l') \<Longrightarrow> l \<le> l'"
proof (induction p kt k pl i l rule: pessimistic_loop.induct)
  case (1 p kt k pl i l)
  then show ?case
    by (subst (asm) (2) pessimistic_loop.simps) (fastforce split: if_splits option.splits)
qed

lemma checkPrefixPessimistic_level: "checkPrefixPessimistic lk n nl p k l = Some (CPP_Match l') \<Longrightarrow> l \<le> l'"
  by (auto simp: checkPrefixPessimistic_def split: if_splits dest: pessimistic_level)

function insert_pass :: "loadKey \<Rightarrow> u8 list \<Rightarrow> u64 \<Rightarrow> art \<Rightarrow> nat \<Rightarrow> pass_result option" where
  "insert_pass loadKey k tid (Leaf t) level = None"
| "insert_pass loadKey k tid (Inner v nodeLevel p c) level =
     (case checkPrefixPessimistic loadKey (Inner v nodeLevel p c) nodeLevel p k level of
        None \<Rightarrow> None
      | Some CPP_SkippedLevel \<Rightarrow> Some (Restart (Inner v nodeLevel p c))
      | Some (CPP_NoMatch nextLevel nonMatchingKey remainingPrefix) \<Rightarrow>
          insert_split tid v nodeLevel p c k level nextLevel nonMatchingKey remainingPrefix
      | Some (CPP_Match level') \<Rightarrow>
          if length k \<le> level' then None
          else (case N_getChild (k ! level') c of
              None \<Rightarrow> with_lock v (\<lambda>v'. Some (placed_outcome v' nodeLevel p c (N_insert (k ! level') (leaf tid) c)))
                        (Inner v nodeLevel p c)
            | Some (Leaf t) \<Rightarrow> insert_leaf loadKey tid v nodeLevel p c k level' (k ! level') t
            | Some (Inner v2 l2 p2 c2) \<Rightarrow>
                Option.bind (insert_pass loadKey k tid (Inner v2 l2 p2 c2) (level' + 1)) (in_parent v nodeLevel p c (k ! level'))))"
  by pat_completeness auto

termination
  by (relation "measure (\<lambda>(lk, k, t, n, l). length k - l)") (auto dest!: checkPrefixPessimistic_level)

declare insert_pass.simps [simp del]

text \<open>
  A pass over the root. The root is never replaced: it has no prefix and is an \<open>N256\<close> node; a
  replacement would follow the null pointer of its parent.
\<close>

definition at_root :: "pass_result option \<Rightarrow> pass_result option" where
  "at_root r = (case r of Some (Swap n old retired) \<Rightarrow> None | _ \<Rightarrow> r)"

definition Tree_insert :: "loadKey \<Rightarrow> art \<Rightarrow> u8 list \<Rightarrow> u64 \<Rightarrow> pass_result option" where
  "Tree_insert loadKey root k tid = at_root (insert_pass loadKey k tid root 0)"

section \<open>Removal\<close>

text \<open>The branch of \<open>remove\<close> that meets the leaf to remove.\<close>

definition remove_leaf :: "u64 \<Rightarrow> nat \<Rightarrow> prefix \<Rightarrow> art cont \<Rightarrow> bool \<Rightarrow> u8 \<Rightarrow> pass_result option" where
  "remove_leaf v nodeLevel p c isRoot nodeKey =
     with_lock v (\<lambda>v'.
       let unlocked = Inner (N_writeUnlock v') nodeLevel p c;
           retired = [Inner (writeUnlockObsolete v') nodeLevel p c] in
       if \<not> isRoot \<and> N_getCount c = 1 then None
       else if N_getCount c = 2 \<and> \<not> isRoot
       then (case N_getSecondChild nodeKey c of
               None \<Rightarrow> None
             | Some (Leaf t2, k2) \<Rightarrow> Some (Swap (Leaf t2) unlocked retired)
             | Some (Inner v2 l2 p2 c2, k2) \<Rightarrow>
                 (case lockVersionOrRestart v2 v2 of
                    Acquired v2' \<Rightarrow>
                      (case N_change k2 (Inner (N_writeUnlock v2') l2 p2 c2) c of
                         None \<Rightarrow> None
                       | Some c' \<Rightarrow>
                           Some (Swap (Inner (N_writeUnlock v2') l2 (addPrefixBefore p2 p k2) c2)
                             (Inner (N_writeUnlock v') nodeLevel p c') retired))
                  | _ \<Rightarrow> Some (Restart unlocked)))
       else map_option (placed_outcome v' nodeLevel p c) (N_remove nodeKey isRoot c))
       (Inner v nodeLevel p c)"

function remove_pass :: "u8 list \<Rightarrow> u64 \<Rightarrow> bool \<Rightarrow> art \<Rightarrow> nat \<Rightarrow> pass_result option" where
  "remove_pass k tid isRoot (Leaf t) level = None"
| "remove_pass k tid isRoot (Inner v nodeLevel p c) level =
     (let (r, level') = checkPrefix nodeLevel p k level;
          unchanged = (if isObsolete v then Restart (Inner v nodeLevel p c) else Stay (Inner v nodeLevel p c) []) in
      if r = CP_NoMatch then Some unchanged
      else if length k \<le> level' then None
      else (case N_getChild (k ! level') c of
          None \<Rightarrow> Some unchanged
        | Some (Leaf t) \<Rightarrow>
            if t \<noteq> tid
            then with_lock v (\<lambda>v'. Some (Stay (Inner (N_writeUnlock v') nodeLevel p c) [])) (Inner v nodeLevel p c)
            else remove_leaf v nodeLevel p c isRoot (k ! level')
        | Some (Inner v2 l2 p2 c2) \<Rightarrow>
            Option.bind (remove_pass k tid False (Inner v2 l2 p2 c2) (level' + 1)) (in_parent v nodeLevel p c (k ! level'))))"
  by pat_completeness auto

termination
  by (relation "measure (\<lambda>(k, t, isRoot, n, l). length k - l)") (auto dest!: sym[of "(_, _)"] checkPrefix_level)

declare remove_pass.simps [simp del]

definition Tree_remove :: "art \<Rightarrow> u8 list \<Rightarrow> u64 \<Rightarrow> pass_result option" where
  "Tree_remove root k tid = at_root (remove_pass k tid True root 0)"

section \<open>The neighbour of a key\<close>

definition lookupNext_end :: "u8 list \<Rightarrow> art cont \<Rightarrow> nat \<Rightarrow> u64 option" where
  "lookupNext_end start c level =
     (let startLevel = (if level < length start then start ! level else 0) in
      case N_getLargestChild startLevel c of
        Some child \<Rightarrow> largestLeaf child
      | None \<Rightarrow> Option.bind (N_getSmallestChild startLevel c) smallestLeaf)"

partial_function (option) lookupNext_loop :: "loadKey \<Rightarrow> u8 list \<Rightarrow> art \<Rightarrow> nat \<Rightarrow> u64 option" where
  "lookupNext_loop loadKey start node level = (case node of
     Leaf tid \<Rightarrow> Some tid
   | Inner v l p c \<Rightarrow>
       (case checkPrefixCompare loadKey node l p start level of
          None \<Rightarrow> None
        | Some (PC_Equal, level') \<Rightarrow>
            (case N_getChild (if level' < length start then start ! level' else 0) c of
               None \<Rightarrow> lookupNext_end start c level'
             | Some childNode \<Rightarrow> lookupNext_loop loadKey start childNode (level' + 1))
        | Some (PC_Bigger, level') \<Rightarrow> smallestLeaf node
        | Some (PC_Smaller, level') \<Rightarrow> largestLeaf node
        | Some (PC_SkippedLevel, level') \<Rightarrow> lookupNext_end start c level'))"

declare lookupNext_loop.simps [code]

definition Tree_lookupNext :: "loadKey \<Rightarrow> art \<Rightarrow> u8 list \<Rightarrow> u64 option" where
  "Tree_lookupNext loadKey root start = lookupNext_loop loadKey start root 0"

end
