(* ===== verification/ArtInv.thy ===== *)
theory ArtInv
  imports ArtTree
begin

text \<open>
  The invariant of the radix tree, the keys below a node, and what the comparisons of a key with the
  prefix of a node return in a tree that satisfies the invariant.
\<close>

section \<open>The invariant\<close>

text \<open>
  \<open>pre\<close> is the path from the root to the node, \<open>q\<close> the compressed path of the node. All keys have
  the length \<open>K\<close>. The root keeps the layout \<open>N256\<close> and has no prefix; every other inner node
  has at least two children, in a layout that fits their number.
\<close>

inductive art_ok :: "loadKey \<Rightarrow> nat \<Rightarrow> bool \<Rightarrow> u8 list \<Rightarrow> art \<Rightarrow> bool" for lk K where
  leaf: "length (lk tid) = K \<Longrightarrow> take (length pre) (lk tid) = pre \<Longrightarrow> art_ok lk K False pre (Leaf tid)"
| inner: "is_free v \<Longrightarrow> cont_ok c \<Longrightarrow> stores p q \<Longrightarrow> l = length pre + length q \<Longrightarrow> l < K \<Longrightarrow>
    (if isRoot then pre = [] \<and> q = [] \<and> (\<exists>a. c = N256 a) else fits c) \<Longrightarrow>
    (\<And>k ch. cmap c k = Some ch \<Longrightarrow> art_ok lk K False (pre @ q @ [k]) ch) \<Longrightarrow>
    art_ok lk K isRoot pre (Inner v l p c)"

inductive leaf_of :: "u64 \<Rightarrow> art \<Rightarrow> bool" where
  here: "leaf_of tid (Leaf tid)"
| below: "cmap c k = Some ch \<Longrightarrow> leaf_of tid ch \<Longrightarrow> leaf_of tid (Inner v l p c)"

definition tids :: "art \<Rightarrow> u64 set" where
  "tids t = {tid. leaf_of tid t}"

inductive_cases art_okE: "art_ok lk K r pre (Inner v l p c)"
inductive_cases art_ok_leafE: "art_ok lk K r pre (Leaf tid)"
inductive_simps leaf_of_Leaf: "leaf_of tid (Leaf t)"
inductive_simps leaf_of_Inner: "leaf_of tid (Inner v l p c)"

lemma tids_Leaf [simp]: "tids (Leaf t) = {t}"
  by (auto simp: tids_def leaf_of_Leaf)

lemma tids_Inner: "tids (Inner v l p c) = (\<Union>ch \<in> ran (cmap c). tids ch)"
  by (auto simp: tids_def leaf_of_Inner ran_def)

lemma tids_Inner_iff: "tid \<in> tids (Inner v l p c) \<longleftrightarrow> (\<exists>k ch. cmap c k = Some ch \<and> tid \<in> tids ch)"
  by (auto simp: tids_Inner ran_def)

lemma tids_below: "cmap c k = Some ch \<Longrightarrow> tid \<in> tids ch \<Longrightarrow> tid \<in> tids (Inner v l p c)"
  by (auto simp: tids_Inner_iff)

lemma take_prefix: "take (length (a @ b)) x = a @ b \<Longrightarrow> take (length a) x = a"
  using append_take_drop_id[of "length (a @ b)" x] by (metis append_eq_conv_conj append.assoc)

text \<open>The keys below a node start with its path.\<close>

lemma art_ok_path:
  assumes "art_ok lk K r pre t" "tid \<in> tids t"
  shows "length (lk tid) = K \<and> take (length pre) (lk tid) = pre"
  using assms
proof (induction rule: art_ok.induct)
  case (inner v c p q l pre isRoot)
  from inner.prems obtain k ch where ch: "cmap c k = Some ch" "tid \<in> tids ch" by (auto simp: tids_Inner_iff)
  from inner.IH[OF this] have "take (length (pre @ q @ [k])) (lk tid) = pre @ q @ [k]" "length (lk tid) = K" by auto
  then show ?case using take_prefix by blast
qed simp

lemma art_ok_length: "art_ok lk K r pre t \<Longrightarrow> tid \<in> tids t \<Longrightarrow> length (lk tid) = K"
  using art_ok_path by blast

text \<open>A key below the child under \<open>k\<close>.\<close>

lemma child_path:
  assumes "art_ok lk K False (pre @ q @ [k]) ch" "tid \<in> tids ch"
  shows "\<exists>rest. lk tid = pre @ q @ k # rest" "lk tid ! (length pre + length q) = k"
    "take (length pre + length q) (lk tid) = pre @ q"
proof -
  have "take (length (pre @ q @ [k])) (lk tid) = pre @ q @ [k]" using art_ok_path[OF assms] by blast
  then obtain rest where lk: "lk tid = (pre @ q @ [k]) @ rest" by (metis append_take_drop_id)
  then show "\<exists>rest. lk tid = pre @ q @ k # rest" by auto
  show "lk tid ! (length pre + length q) = k" "take (length pre + length q) (lk tid) = pre @ q"
    using lk by (simp_all add: nth_append)
qed

definition children_ok :: "loadKey \<Rightarrow> nat \<Rightarrow> u8 list \<Rightarrow> u8 list \<Rightarrow> art cont \<Rightarrow> bool" where
  "children_ok lk K pre q c \<longleftrightarrow> (\<forall>k ch. cmap c k = Some ch \<longrightarrow> art_ok lk K False (pre @ q @ [k]) ch)"

lemma children_okD: "children_ok lk K pre q c \<Longrightarrow> cmap c k = Some ch \<Longrightarrow> art_ok lk K False (pre @ q @ [k]) ch"
  by (simp add: children_ok_def)

lemma children_okI: "(\<And>k ch. cmap c k = Some ch \<Longrightarrow> art_ok lk K False (pre @ q @ [k]) ch) \<Longrightarrow> children_ok lk K pre q c"
  by (simp add: children_ok_def)

text \<open>Distinct leaves have distinct keys.\<close>

lemma art_ok_inj:
  assumes "art_ok lk K r pre t" "x \<in> tids t" "y \<in> tids t" "lk x = lk y"
  shows "x = y"
  using assms
proof (induction rule: art_ok.induct)
  case (inner v c p q l pre isRoot)
  from inner.prems obtain k ch k' ch' where ch: "cmap c k = Some ch" "x \<in> tids ch"
    and ch': "cmap c k' = Some ch'" "y \<in> tids ch'" by (auto simp: tids_Inner_iff)
  have "k = k'" using child_path(2)[OF inner.hyps(7)[OF ch(1)] ch(2)]
      child_path(2)[OF inner.hyps(7)[OF ch'(1)] ch'(2)] inner.prems(3) by simp
  then show ?case using inner.IH ch ch' inner.prems(3) by auto
qed simp

lemma fits_nonempty: "fits c \<Longrightarrow> cmap c \<noteq> Map.empty"
  by (cases c) (auto simp: fits_def)

lemma art_ok_nonempty: "art_ok lk K r pre t \<Longrightarrow> \<not> r \<Longrightarrow> tids t \<noteq> {}"
proof (induction rule: art_ok.induct)
  case (inner v c p q l pre isRoot)
  then have "cmap c \<noteq> Map.empty" using fits_nonempty[of c] by simp
  then obtain k ch where "cmap c k = Some ch" by (meson ext option.exhaust)
  then show ?case using inner.IH by (fastforce simp: tids_Inner_iff)
qed simp

lemma getAnyChildTid_ok:
  assumes "art_ok lk K False pre (Inner v l p c)"
  shows "\<exists>tid \<in> tids (Inner v l p c). getAnyChildTid (Inner v l p c) = Some tid"
  using assms
proof (induction "False" pre "Inner v l p c" arbitrary: v l p c rule: art_ok.induct)
  case (inner v c p q l pre)
  obtain k ch where ch: "cmap c k = Some ch" "N_getAnyChild art_isLeaf c = Some ch"
    using N_getAnyChild_ok[OF inner.hyps(2) fits_nonempty, of art_isLeaf] inner.hyps(6) by auto
  show ?case
  proof (cases ch)
    case (Leaf tid)
    then show ?thesis using ch tids_below[OF ch(1), of tid] by (simp add: getAnyChildTid.simps)
  next
    case (Inner v' l' p' c')
    with inner.hyps(8) ch(1) have "\<exists>tid \<in> tids ch. getAnyChildTid ch = Some tid" by blast
    then show ?thesis
      using ch tids_below[OF ch(1)] Inner by (subst getAnyChildTid.simps) auto
  qed
qed

section \<open>Prefix comparisons\<close>

lemma checkPrefix_loop_ok:
  assumes "stores p q" "i \<le> min (length q) 4"
  shows "checkPrefix_loop p k i (level + i) =
    (if \<forall>j. i \<le> j \<and> j < min (length q) 4 \<longrightarrow> q ! j = k ! (level + j) then Some (level + min (length q) 4) else None)"
  using assms(2)
proof (induction "4 - i" arbitrary: i)
  case 0
  then have "i = min (length q) 4" by simp
  then show ?case using assms(1) by (subst checkPrefix_loop.simps) (auto simp: stores_def maxStoredPrefixLength_def)
next
  case (Suc n)
  show ?case
  proof (cases "i < min (length q) 4")
    case True
    have b: "pbytes p ! i = q ! i" using stores_nth[OF assms(1)] True by simp
    have all: "(\<forall>j. i \<le> j \<and> j < min (length q) 4 \<longrightarrow> q ! j = k ! (level + j)) \<longleftrightarrow>
        q ! i = k ! (level + i) \<and> (\<forall>j. Suc i \<le> j \<and> j < min (length q) 4 \<longrightarrow> q ! j = k ! (level + j))"
      using True by (metis Suc_le_eq le_eq_less_or_eq)
    show ?thesis using True b Suc.hyps(1)[of "Suc i"] Suc.hyps(2) assms(1) all
      by (subst checkPrefix_loop.simps) (auto simp: stores_def maxStoredPrefixLength_def)
  next
    case False
    then show ?thesis using Suc.prems assms(1)
      by (subst checkPrefix_loop.simps) (auto simp: stores_def maxStoredPrefixLength_def)
  qed
qed

lemma checkPrefix_ok:
  assumes "stores p q" "l = length pre + length q" "l < length k"
  shows "checkPrefix l p k (length pre) =
    (if \<forall>j < min (length q) 4. q ! j = k ! (length pre + j)
     then (if 4 < length q then CP_OptimisticMatch else CP_Match, l) else (CP_NoMatch, length pre))"
proof (cases "length q = 0")
  case True
  then show ?thesis using assms by (auto simp: checkPrefix_def stores_def)
next
  case False
  have "prefixCount p = length q" using assms(1) by (simp add: stores_def)
  then show ?thesis
    using assms(2,3) False checkPrefix_loop_ok[OF assms(1), of 0 k "length pre"]
    by (auto simp: checkPrefix_def maxStoredPrefixLength_def min_def)
qed

text \<open>
  The pessimistic comparison finds the first byte where the key leaves the compressed path;
  \<open>kt\<close> is a key that runs along the whole path.
\<close>

lemma those_map_Some: "(\<And>x. x \<in> set xs \<Longrightarrow> f x = Some (g x)) \<Longrightarrow> those (map f xs) = Some (map g xs)"
  by (induction xs) auto

lemma pessimistic_loop_ok:
  assumes st: "stores p q" and k: "pl + length q < length k"
    and kt: "\<And>j. j < length q \<Longrightarrow> 4 < length q \<Longrightarrow> kt = Some key \<and> key_at key (pl + j) = Some (q ! j)"
    and i: "i \<le> length q"
  shows "(\<forall>j. i \<le> j \<and> j < length q \<longrightarrow> q ! j = k ! (pl + j)) \<and>
      pessimistic_loop p kt k pl i (pl + i) = Some (CPP_Match (pl + length q)) \<or>
    (\<exists>m rem. i \<le> m \<and> m < length q \<and> (\<forall>j. i \<le> j \<and> j < m \<longrightarrow> q ! j = k ! (pl + j)) \<and> q ! m \<noteq> k ! (pl + m) \<and>
      pessimistic_loop p kt k pl i (pl + i) = Some (CPP_NoMatch (pl + m) (q ! m) rem) \<and>
      stores (setPrefix rem (length q - Suc m)) (drop (Suc m) q))"
  using i
proof (induction "length q - i" arbitrary: i)
  case 0
  then have "i = length q" by simp
  then show ?case using st by (subst (1 2) pessimistic_loop.simps) (auto simp: stores_def)
next
  case (Suc n)
  then have i: "i < length q" by simp
  have cnt: "prefixCount p = length q" using st by (simp add: stores_def)
  have cur: "(if maxStoredPrefixLength \<le> i then Option.bind kt (\<lambda>kt. key_at kt (pl + i)) else Some (pbytes p ! i)) = Some (q ! i)"
    using kt[OF i] stores_nth[OF st i] i by (auto simp: maxStoredPrefixLength_def)
  have kb: "key_at k (pl + i) = Some (k ! (pl + i))" using k i by (simp add: key_at_def)
  show ?case
  proof (cases "q ! i = k ! (pl + i)")
    case True
    have step: "pessimistic_loop p kt k pl i (pl + i) = pessimistic_loop p kt k pl (Suc i) (pl + Suc i)"
      using i cnt cur kb True by (subst pessimistic_loop.simps) simp
    have all: "(\<forall>j. i \<le> j \<and> j < b \<longrightarrow> q ! j = k ! (pl + j)) \<longleftrightarrow> (\<forall>j. Suc i \<le> j \<and> j < b \<longrightarrow> q ! j = k ! (pl + j))" for b
      using True by (metis Suc_leD Suc_leI le_neq_implies_less)
    have "n = length q - Suc i" "Suc i \<le> length q" using Suc.hyps(2) i by auto
    from Suc.hyps(1)[OF this] show ?thesis unfolding step all by (meson Suc_leD)
  next
    case False
    define rem where "rem = take (min (length q - Suc i) 4) (drop (Suc i) q)"
    have "stores (setPrefix rem (length q - Suc i)) (take (length q - Suc i) (drop (Suc i) q))"
      by (rule setPrefix_stores) (auto simp: rem_def)
    then have st': "stores (setPrefix rem (length q - Suc i)) (drop (Suc i) q)" by simp
    have "pessimistic_loop p kt k pl i (pl + i) = Some (CPP_NoMatch (pl + i) (q ! i) rem)"
    proof (cases "4 < length q")
      case long: True
      have "those (map (\<lambda>j. key_at key (pl + i + j + 1)) [0..<min (length q - i - 1) 4]) =
          Some (map (\<lambda>j. q ! (Suc i + j)) [0..<min (length q - i - 1) 4])"
      proof (rule those_map_Some)
        fix j assume "j \<in> set [0..<min (length q - i - 1) 4]"
        then have "Suc i + j < length q" by auto
        from kt[OF this long] show "key_at key (pl + i + j + 1) = Some (q ! (Suc i + j))" by (simp add: algebra_simps)
      qed
      also have "map (\<lambda>j. q ! (Suc i + j)) [0..<min (length q - i - 1) 4] = rem"
        by (rule nth_equalityI) (auto simp: rem_def)
      finally show ?thesis using i cnt cur kb False long kt[OF i]
        by (subst pessimistic_loop.simps) (simp add: maxStoredPrefixLength_def)
    next
      case short: False
      have "map (\<lambda>j. pbytes p ! (i + j + 1)) [0..<length q - i - 1] = rem"
        using short by (intro nth_equalityI) (auto simp: rem_def stores_nth[OF st])
      then show ?thesis using i cnt cur kb False short
        by (subst pessimistic_loop.simps) (simp add: maxStoredPrefixLength_def)
    qed
    then show ?thesis using False i st' by (intro disjI2 exI[of _ i] exI[of _ rem]) auto
  qed
qed

text \<open>On a node of the tree: the key follows the path, or it leaves it after \<open>m\<close> bytes.\<close>

lemma nth_prefix: "take (length q) (drop n k) = q \<longleftrightarrow> (\<forall>j < length q. q ! j = k ! (n + j))" if "n + length q \<le> length k"
proof
  assume eq: "take (length q) (drop n k) = q"
  show "\<forall>j < length q. q ! j = k ! (n + j)"
  proof (intro allI impI)
    fix j assume j: "j < length q"
    have "q ! j = take (length q) (drop n k) ! j" using eq by simp
    then show "q ! j = k ! (n + j)" using that j by simp
  qed
next
  assume "\<forall>j < length q. q ! j = k ! (n + j)"
  then show "take (length q) (drop n k) = q" using that by (intro nth_equalityI) auto
qed

lemma checkPrefixPessimistic_ok:
  assumes ok: "art_ok lk K r pre (Inner v l p c)" and st: "stores p q" and l: "l = length pre + length q"
    and chs: "children_ok lk K pre q c"
    and root: "r \<longrightarrow> q = []" and k: "length k = K" "l < K"
  shows "take (length q) (drop (length pre) k) = q \<and>
      checkPrefixPessimistic lk (Inner v l p c) l p k (length pre) = Some (CPP_Match l) \<or>
    (\<exists>m rem. m < length q \<and> take m (drop (length pre) k) = take m q \<and> q ! m \<noteq> k ! (length pre + m) \<and>
      checkPrefixPessimistic lk (Inner v l p c) l p k (length pre) = Some (CPP_NoMatch (length pre + m) (q ! m) rem) \<and>
      stores (setPrefix rem (length q - Suc m)) (drop (Suc m) q))"
  supply ch = children_okD[OF chs]
proof (cases "q = []")
  case True
  then show ?thesis using st l by (auto simp: checkPrefixPessimistic_def stores_def)
next
  case False
  then have "\<not> r" using root by blast
  then obtain tid where tid: "tid \<in> tids (Inner v l p c)" "getAnyChildTid (Inner v l p c) = Some tid"
    using getAnyChildTid_ok[of lk K pre v l p c] ok by auto
  then obtain b ch' where b: "cmap c b = Some ch'" "tid \<in> tids ch'" by (auto simp: tids_Inner_iff)
  then obtain rest where "lk tid = pre @ q @ b # rest" using child_path(1)[OF ch] by blast
  then have path: "key_at (lk tid) (length pre + j) = Some (q ! j)" if "j < length q" for j
    using that by (simp add: key_at_def nth_append)
  have cnt: "prefixCount p = length q" using st by (simp add: stores_def)
  have c: "checkPrefixPessimistic lk (Inner v l p c) l p k (length pre) =
      pessimistic_loop p (Some (lk tid)) k (length pre) 0 (length pre + 0)"
    using False l cnt tid(2) by (simp add: checkPrefixPessimistic_def)
  have pre_m: "(\<forall>j. 0 \<le> j \<and> j < m \<longrightarrow> q ! j = k ! (length pre + j)) \<longleftrightarrow> take m (drop (length pre) k) = take m q"
    if "m \<le> length q" for m
    using nth_prefix[of "length pre" "take m q" k] that k l by simp
  show ?thesis
    using pessimistic_loop_ok[OF st, of "length pre" k "Some (lk tid)" "lk tid" 0] path k l
    unfolding c using pre_m[of "length q"] pre_m[OF less_imp_le] by fastforce
qed

end
