(* ===== verification/ArtLookup.thy ===== *)
theory ArtLookup
  imports ArtInv
begin

text \<open>
  Lookups in the radix tree: the exact lookup, which may skip bytes of a compressed path and checks the key
  at the leaf, and the lookup of a neighbour, which the search layer uses.
\<close>

section \<open>Exact lookup\<close>

text \<open>A key below the node under \<open>k\<close> lies under the byte of \<open>k\<close> at the level of the node.\<close>

lemma on_path:
  assumes chs: "children_ok lk K pre q c"
    and tid: "tid \<in> tids (Inner v l p c)"
  obtains b rest ch' where "cmap c b = Some ch'" "tid \<in> tids ch'" "lk tid = pre @ q @ b # rest"
proof -
  note ch = children_okD[OF chs]
  obtain b ch' where b: "cmap c b = Some ch'" "tid \<in> tids ch'" using tid by (auto simp: tids_Inner_iff)
  then show ?thesis using child_path(1)[OF ch[OF b(1)] b(2)] that by blast
qed

lemma lookup_loop_hit:
  assumes "art_ok lk K r pre t" "length k = K" "tid \<in> tids t" "lk tid = k" "\<not> art_isLeaf t"
  shows "lookup_loop lk k t (length pre) opt = Some tid"
  using assms
proof (induction arbitrary: opt rule: art_ok.induct)
  case (inner v c p q l pre isRoot)
  obtain b rest ch where b: "cmap c b = Some ch" "tid \<in> tids ch" "lk tid = pre @ q @ b # rest"
    by (rule on_path[OF children_okI[OF inner.hyps(7)] inner.prems(2)])
  have "\<forall>j < min (length q) 4. q ! j = k ! (length pre + j)" "k ! l = b"
    using b(3) inner.prems(3) inner.hyps(4) by (auto simp: nth_append)
  moreover have "l < length k" using inner by simp
  ultimately have cp: "checkPrefix l p k (length pre) = (if 4 < length q then CP_OptimisticMatch else CP_Match, l)" "k ! l = b"
    using checkPrefix_ok[OF inner.hyps(3,4)] by auto
  have child: "N_getChild b c = Some ch" using N_getChild_ok[OF inner.hyps(2)] b(1) by simp
  show ?case
  proof (cases ch)
    case (Leaf t)
    then show ?thesis using cp child b(2) \<open>l < length k\<close> inner.prems(3)
      by (simp add: lookup_loop.simps checkKey_def)
  next
    case (Inner v2 l2 p2 c2)
    have "lookup_loop lk k ch (length (pre @ q @ [b])) opt' = Some tid" for opt'
      using inner.IH[OF b(1) inner.prems(1) b(2) inner.prems(3)] Inner by simp
    moreover have "length (pre @ q @ [b]) = l + 1" using inner.hyps(4) by simp
    ultimately show ?thesis using cp child \<open>l < length k\<close> by (subst lookup_loop.simps) (simp add: Inner)
  qed
qed simp

lemma lookup_loop_miss:
  assumes "art_ok lk K r pre t" "length k = K" "\<And>tid. tid \<in> tids t \<Longrightarrow> lk tid \<noteq> k" "\<not> art_isLeaf t"
    "\<not> opt \<Longrightarrow> take (length pre) k = pre"
  shows "lookup_loop lk k t (length pre) opt = Some 0"
  using assms
proof (induction arbitrary: opt rule: art_ok.induct)
  case (inner v c p q l pre isRoot)
  have lk: "l < length k" using inner by simp
  note cp = checkPrefix_ok[OF inner.hyps(3,4) lk]
  show ?case
  proof (cases "\<forall>j < min (length q) 4. q ! j = k ! (length pre + j)")
    case False
    then have "checkPrefix l p k (length pre) = (CP_NoMatch, length pre)" unfolding cp by (rule if_not_P)
    then show ?thesis by (simp add: lookup_loop.simps)
  next
    case True
    note cp = cp[unfolded if_P[OF True]]
    let ?opt = "opt \<or> 4 < length q"
    have path: "take l k = pre @ q" if "\<not> ?opt"
    proof -
      have "take (length q) (drop (length pre) k) = q"
        using True that nth_prefix[of "length pre" q k] lk inner.hyps(4) by simp
      then show ?thesis using inner.prems(4) that by (simp add: inner.hyps(4) take_add)
    qed
    show ?thesis
    proof (cases "cmap c (k ! l)")
      case None
      then show ?thesis using cp N_getChild_ok[OF inner.hyps(2), of "k ! l"] lk by (simp add: lookup_loop.simps)
    next
      case (Some ch)
      then have child: "N_getChild (k ! l) c = Some ch" using N_getChild_ok[OF inner.hyps(2)] by simp
      have sub: "lk tid \<noteq> k" if "tid \<in> tids ch" for tid using inner.prems(2)[OF tids_below[OF Some that]] .
      have ext: "take (length (pre @ q @ [k ! l])) k = pre @ q @ [k ! l]" if "\<not> ?opt"
        using path[OF that] lk by (simp add: inner.hyps(4) take_Suc_conv_app_nth)
      show ?thesis
      proof (cases ch)
        case (Leaf t)
        have "lk t \<noteq> k" using sub Leaf by simp
        moreover have "l < length k - 1 \<or> ?opt"
        proof (rule ccontr)
          assume n: "\<not> (l < length k - 1 \<or> ?opt)"
          then have "length k = l + 1" using lk by linarith
          then have "k = pre @ q @ [k ! l]" using ext n by (simp add: inner.hyps(4))
          moreover have "take (length (pre @ q @ [k ! l])) (lk t) = pre @ q @ [k ! l]" "length (lk t) = K"
            using art_ok_path[OF inner.hyps(7)[OF Some], of t] Leaf by auto
          ultimately have "lk t = k" using inner.prems(1) by (metis take_all order.refl)
          then show False using \<open>lk t \<noteq> k\<close> by simp
        qed
        ultimately show ?thesis using cp child Leaf lk by (auto simp: lookup_loop.simps checkKey_def)
      next
        case (Inner v2 l2 p2 c2)
        have "lookup_loop lk k ch (length (pre @ q @ [k ! l])) ?opt = Some 0"
          by (rule inner.IH[OF Some inner.prems(1) sub _ ext]) (simp_all add: Inner)
        moreover have "length (pre @ q @ [k ! l]) = l + 1" using inner.hyps(4) by simp
        ultimately show ?thesis using cp child lk Inner
          by (subst lookup_loop.simps) (cases "4 < length q"; simp)
      qed
    qed
  qed
qed simp

section \<open>Order of the keys\<close>

lemma be_val_append: "be_val (xs @ ys) = be_val xs * 256 ^ length ys + be_val ys"
  by (induction xs) (auto simp: algebra_simps power_add)

lemma be_val_inj: "length a = length b \<Longrightarrow> be_val a = be_val b \<Longrightarrow> a = b"
proof (induction a b rule: list_induct2)
  case (Cons x xs y ys)
  have d: "(unat z * 256 ^ length zs + be_val zs) div 256 ^ length zs = unat z" for z :: u8 and zs
    using be_val_bound[of zs] by simp
  have "unat x = unat y" using d[of x xs] d[of y ys] Cons.prems Cons.hyps by (metis be_val.simps(2))
  then have "x = y" by (rule unsigned_word_eqI)
  then show ?case using Cons by simp
qed simp

lemma be_val_less:
  assumes "a < b" "length xs = length ys"
  shows "be_val (pre @ a # xs) < be_val (pre @ b # ys)"
proof -
  have "be_val (a # xs) < (unat a + 1) * 256 ^ length xs" using be_val_bound[of xs] by simp
  also have "\<dots> \<le> unat b * 256 ^ length xs" using assms(1) by (intro mult_right_mono) (auto simp: word_less_nat_alt)
  finally show ?thesis using assms(2) by (simp add: be_val_append)
qed

lemma child_order:
  assumes "art_ok lk K False (pre @ q @ [b]) ch" "art_ok lk K False (pre @ q @ [b']) ch'"
    "y \<in> tids ch" "x \<in> tids ch'" "b < b'"
  shows "be_val (lk y) < be_val (lk x)"
proof -
  obtain ry rx where k: "lk y = pre @ q @ b # ry" "lk x = pre @ q @ b' # rx"
    using child_path(1)[OF assms(1,3)] child_path(1)[OF assms(2,4)] by blast
  have "length (lk y) = length (lk x)" using art_ok_length[OF assms(1,3)] art_ok_length[OF assms(2,4)] by simp
  then show ?thesis using be_val_less[OF assms(5), of ry rx "pre @ q"] k by simp
qed

section \<open>The neighbour of a key\<close>

lemma smallestLeaf_ok:
  assumes "art_ok lk K r pre t" "\<not> r"
  shows "\<exists>tid \<in> tids t. smallestLeaf t = Some tid \<and> (\<forall>x \<in> tids t. be_val (lk tid) \<le> be_val (lk x))"
  using assms
proof (induction rule: art_ok.induct)
  case (leaf tid pre)
  then show ?case by (simp add: smallestLeaf.simps)
next
  case (inner v c p q l pre isRoot)
  obtain b ch where b: "cmap c b = Some ch" "N_getSmallestChild 0 c = Some ch" "\<And>j. j < b \<Longrightarrow> cmap c j = None"
    using N_getSmallestChild_ok[OF inner.hyps(2), of 0] fits_nonempty[of c] inner.hyps(6) inner.prems
    by (force simp: least_from_def)
  then obtain tid where tid: "tid \<in> tids ch" "smallestLeaf ch = Some tid" "\<forall>x \<in> tids ch. be_val (lk tid) \<le> be_val (lk x)"
    using inner.IH by blast
  have "be_val (lk tid) \<le> be_val (lk x)" if x: "cmap c b' = Some ch'" "x \<in> tids ch'" for x b' ch'
  proof (cases "b' = b")
    case False
    then have "b < b'" using b(3)[of b'] x(1) by (metis not_less_iff_gr_or_eq option.distinct(1))
    from child_order[OF inner.hyps(7)[OF b(1)] inner.hyps(7)[OF x(1)] tid(1) x(2) this] show ?thesis by simp
  qed (use tid(3) x b(1) in simp)
  then show ?case using tid b by (subst smallestLeaf.simps) (auto simp: tids_Inner_iff intro!: bexI[of _ tid])
qed

lemma largestLeaf_ok:
  assumes "art_ok lk K r pre t" "\<not> r"
  shows "\<exists>tid \<in> tids t. largestLeaf t = Some tid \<and> (\<forall>x \<in> tids t. be_val (lk x) \<le> be_val (lk tid))"
  using assms
proof (induction rule: art_ok.induct)
  case (leaf tid pre)
  then show ?case by (simp add: largestLeaf.simps)
next
  case (inner v c p q l pre isRoot)
  obtain b ch where b: "cmap c b = Some ch" "N_getLargestChild 255 c = Some ch" "\<And>j. b < j \<Longrightarrow> cmap c j = None"
    using N_getLargestChild_ok[OF inner.hyps(2), of 255] fits_nonempty[of c] inner.hyps(6) inner.prems
    by (force simp: greatest_upto_def u8_le_255)
  then obtain tid where tid: "tid \<in> tids ch" "largestLeaf ch = Some tid" "\<forall>x \<in> tids ch. be_val (lk x) \<le> be_val (lk tid)"
    using inner.IH by blast
  have "be_val (lk x) \<le> be_val (lk tid)" if x: "cmap c b' = Some ch'" "x \<in> tids ch'" for x b' ch'
  proof (cases "b' = b")
    case False
    then have "b' < b" using b(3)[of b'] x(1) by (metis not_less_iff_gr_or_eq option.distinct(1))
    from child_order[OF inner.hyps(7)[OF x(1)] inner.hyps(7)[OF b(1)] x(2) tid(1) this] show ?thesis by simp
  qed (use tid(3) x b(1) in simp)
  then show ?case using tid b by (subst largestLeaf.simps) (auto simp: tids_Inner_iff intro!: bexI[of _ tid])
qed

text \<open>
  A stored leaf with no other stored key between its key and the given one, the given one
  included: the key itself if it is stored, else a predecessor or a successor.
\<close>

definition nearest :: "loadKey \<Rightarrow> u64 set \<Rightarrow> u8 list \<Rightarrow> u64 \<Rightarrow> bool" where
  "nearest lk S k r \<longleftrightarrow> r \<in> S \<and> (\<forall>x \<in> S.
     \<not> (be_val k \<le> be_val (lk x) \<and> be_val (lk x) < be_val (lk r)) \<and>
     \<not> (be_val (lk r) < be_val (lk x) \<and> be_val (lk x) \<le> be_val k))"

lemma compare_loop_ok:
  assumes st: "stores p q" and k: "pl + length q < length k"
    and kt: "\<And>j. j < length q \<Longrightarrow> 4 < length q \<Longrightarrow> kt = Some key \<and> key_at key (pl + j) = Some (q ! j)"
    and i: "i \<le> length q"
  shows "(\<forall>j. i \<le> j \<and> j < length q \<longrightarrow> q ! j = k ! (pl + j)) \<and>
      compare_loop p kt k i (pl + i) = Some (PC_Equal, pl + length q) \<or>
    (\<exists>m. i \<le> m \<and> m < length q \<and> (\<forall>j. i \<le> j \<and> j < m \<longrightarrow> q ! j = k ! (pl + j)) \<and> q ! m \<noteq> k ! (pl + m) \<and>
      compare_loop p kt k i (pl + i) = Some (if q ! m < k ! (pl + m) then PC_Smaller else PC_Bigger, pl + m))"
  using i
proof (induction "length q - i" arbitrary: i)
  case 0
  then have "i = length q" by simp
  then show ?case using st by (subst (1 2) compare_loop.simps) (auto simp: stores_def)
next
  case (Suc n)
  then have i: "i < length q" by simp
  have cnt: "prefixCount p = length q" using st by (simp add: stores_def)
  have cur: "(if maxStoredPrefixLength \<le> i then Option.bind kt (\<lambda>kt. key_at kt (pl + i)) else Some (pbytes p ! i)) = Some (q ! i)"
    using kt[OF i] stores_nth[OF st i] i by (auto simp: maxStoredPrefixLength_def)
  have kb: "pl + i < length k" using k i by simp
  show ?case
  proof (cases "q ! i = k ! (pl + i)")
    case True
    have step: "compare_loop p kt k i (pl + i) = compare_loop p kt k (Suc i) (pl + Suc i)"
      using i cnt cur kb True by (subst compare_loop.simps) simp
    have all: "(\<forall>j. i \<le> j \<and> j < b \<longrightarrow> q ! j = k ! (pl + j)) \<longleftrightarrow> (\<forall>j. Suc i \<le> j \<and> j < b \<longrightarrow> q ! j = k ! (pl + j))" for b
      using True by (metis Suc_leD Suc_leI le_neq_implies_less)
    have "n = length q - Suc i" "Suc i \<le> length q" using Suc.hyps(2) i by auto
    from Suc.hyps(1)[OF this] show ?thesis unfolding step all by (meson Suc_leD)
  next
    case False
    then have "compare_loop p kt k i (pl + i) = Some (if q ! i < k ! (pl + i) then PC_Smaller else PC_Bigger, pl + i)"
      using i cnt cur kb by (subst compare_loop.simps) auto
    then show ?thesis using False i by (intro disjI2 exI[of _ i]) auto
  qed
qed

lemma checkPrefixCompare_ok:
  assumes ok: "art_ok lk K r pre (Inner v l p c)" and st: "stores p q" and l: "l = length pre + length q"
    and chs: "children_ok lk K pre q c"
    and root: "r \<longrightarrow> q = []" and k: "length k = K" "l < K"
  shows "take (length q) (drop (length pre) k) = q \<and>
      checkPrefixCompare lk (Inner v l p c) l p k (length pre) = Some (PC_Equal, l) \<or>
    (\<exists>m. m < length q \<and> take m (drop (length pre) k) = take m q \<and> q ! m \<noteq> k ! (length pre + m) \<and>
      checkPrefixCompare lk (Inner v l p c) l p k (length pre) =
        Some (if q ! m < k ! (length pre + m) then PC_Smaller else PC_Bigger, length pre + m))"
  supply ch = children_okD[OF chs]
proof (cases "q = []")
  case True
  then show ?thesis using st l by (auto simp: checkPrefixCompare_def stores_def)
next
  case False
  then have "\<not> r" using root by blast
  then obtain tid where tid: "tid \<in> tids (Inner v l p c)" "getAnyChildTid (Inner v l p c) = Some tid"
    using getAnyChildTid_ok[of lk K pre v l p c] ok by auto
  obtain b rest ch' where "lk tid = pre @ q @ b # rest" by (rule on_path[OF chs tid(1)])
  then have path: "key_at (lk tid) (length pre + j) = Some (q ! j)" if "j < length q" for j
    using that by (simp add: key_at_def nth_append)
  have cnt: "prefixCount p = length q" using st by (simp add: stores_def)
  have c: "checkPrefixCompare lk (Inner v l p c) l p k (length pre) =
      compare_loop p (Some (lk tid)) k 0 (length pre + 0)"
    using False l cnt tid(2) by (simp add: checkPrefixCompare_def)
  have pre_m: "(\<forall>j. 0 \<le> j \<and> j < m \<longrightarrow> q ! j = k ! (length pre + j)) \<longleftrightarrow> take m (drop (length pre) k) = take m q"
    if "m \<le> length q" for m
    using nth_prefix[of "length pre" "take m q" k] that k l by simp
  show ?thesis
    using compare_loop_ok[OF st, of "length pre" k "Some (lk tid)" "lk tid" 0] path k l
    unfolding c using pre_m[of "length q"] pre_m[OF less_imp_le] by fastforce
qed

text \<open>A key that leaves the path of a node at byte \<open>m\<close> lies on one side of all keys below it.\<close>

lemma off_path_order:
  assumes chs: "children_ok lk K pre q c"
    and k: "length k = K" "take (length pre) k = pre" "take m (drop (length pre) k) = take m q" "length pre + length q < K"
    and m: "m < length q" and x: "x \<in> tids (Inner v l p c)"
  shows "q ! m < k ! (length pre + m) \<Longrightarrow> be_val (lk x) < be_val k"
    and "k ! (length pre + m) < q ! m \<Longrightarrow> be_val k < be_val (lk x)"
proof -
  note ch = children_okD[OF chs]
  obtain b rest ch' where b: "cmap c b = Some ch'" "x \<in> tids ch'" "lk x = pre @ q @ b # rest" by (rule on_path[OF chs x])
  have lx: "lk x = (pre @ take m q) @ q ! m # (drop (Suc m) q @ b # rest)"
    using b(3) id_take_nth_drop[OF m] by simp
  have "k = take (length pre + m) k @ k ! (length pre + m) # drop (Suc (length pre + m)) k"
    using k m by (intro id_take_nth_drop) simp
  moreover have "take (length pre + m) k = pre @ take m q" using k by (simp add: take_add)
  ultimately have lk: "k = (pre @ take m q) @ k ! (length pre + m) # drop (Suc (length pre + m)) k" by simp
  have "length (lk x) = K" by (rule art_ok_length[OF ch[OF b(1)] b(2)])
  then have len: "length (drop (Suc (length pre + m)) k) = length (drop (Suc m) q @ b # rest)"
    using lx k m by simp
  show "q ! m < k ! (length pre + m) \<Longrightarrow> be_val (lk x) < be_val k"
    using be_val_less[OF _ len[symmetric]] lx lk by metis
  show "k ! (length pre + m) < q ! m \<Longrightarrow> be_val k < be_val (lk x)"
    using be_val_less[OF _ len] lx lk by metis
qed

text \<open>A key that follows the path of a node, against the keys below a child under another byte.\<close>

lemma on_path_order:
  assumes chs: "children_ok lk K pre q c"
    and k: "length k = K" "take l k = pre @ q" "l = length pre + length q" "l < K"
    and x: "cmap c b = Some ch'" "x \<in> tids ch'"
  shows "b < k ! l \<Longrightarrow> be_val (lk x) < be_val k" and "k ! l < b \<Longrightarrow> be_val k < be_val (lk x)"
proof -
  note ch = children_okD[OF chs]
  obtain rest where lx: "lk x = (pre @ q) @ b # rest" using child_path(1)[OF ch[OF x(1)] x(2)] by auto
  have lk: "k = (pre @ q) @ k ! l # drop (Suc l) k" using id_take_nth_drop[of l k] k by simp
  have "length (lk x) = K" by (rule art_ok_length[OF ch[OF x(1)] x(2)])
  then have len: "length rest = length (drop (Suc l) k)" using lx k by simp
  show "b < k ! l \<Longrightarrow> be_val (lk x) < be_val k" using be_val_less[OF _ len] lx lk by metis
  show "k ! l < b \<Longrightarrow> be_val k < be_val (lk x)" using be_val_less[OF _ len[symmetric]] lx lk by metis
qed

lemma lookupNext_end_ok:
  assumes cok: "cont_ok c" and chs: "children_ok lk K pre q c"
    and k: "length k = K" "take l k = pre @ q" "l = length pre + length q" "l < K"
    and none: "cmap c (k ! l) = None" and ne: "cmap c \<noteq> Map.empty"
  shows "\<exists>r. lookupNext_end k c l = Some r \<and> nearest lk (tids (Inner v l p c)) k r"
  supply ch = children_okD[OF chs]
proof (cases "N_getLargestChild (k ! l) c")
  case (Some ch')
  then obtain b where b: "b \<le> k ! l" "cmap c b = Some ch'" "\<And>j. b < j \<Longrightarrow> j \<le> k ! l \<Longrightarrow> cmap c j = None"
    using N_getLargestChild_ok[OF cok, of "k ! l"] by (auto simp: greatest_upto_def)
  then have "b < k ! l" using none by (metis le_neq_trans option.distinct(1))
  obtain r where r: "r \<in> tids ch'" "largestLeaf ch' = Some r" "\<forall>x \<in> tids ch'. be_val (lk x) \<le> be_val (lk r)"
    using largestLeaf_ok[OF ch[OF b(2)]] by auto
  have rk: "be_val (lk r) < be_val k" using on_path_order(1)[OF chs k b(2) r(1) \<open>b < k ! l\<close>] by simp
  have "be_val (lk x) \<le> be_val (lk r) \<or> be_val k < be_val (lk x)" if x: "cmap c b' = Some ch2" "x \<in> tids ch2" for x b' ch2
  proof -
    consider "b' = b" | "b' < b" | "k ! l < b'" using b(3)[of b'] x(1) by (metis not_le not_less_iff_gr_or_eq option.distinct(1))
    then show ?thesis
    proof cases
      case 1 then show ?thesis using r(3) x b(2) by simp
    next
      case 2 then show ?thesis using child_order[OF ch[OF x(1)] ch[OF b(2)] x(2) r(1)] by simp
    next
      case 3 then show ?thesis using on_path_order(2)[OF chs k x] by simp
    qed
  qed
  then have "nearest lk (tids (Inner v l p c)) k r"
    using rk r(1) b(2) by (fastforce simp: nearest_def tids_Inner_iff)
  moreover have "lookupNext_end k c l = Some r" using Some r(2) k by (simp add: lookupNext_end_def)
  ultimately show ?thesis by blast
next
  case None
  then have low: "cmap c j = None" if "j \<le> k ! l" for j
    using N_getLargestChild_ok[OF cok, of "k ! l"] that by (auto simp: greatest_upto_def)
  obtain j0 ch0 where "cmap c j0 = Some ch0" using ne by (meson ext option.exhaust)
  moreover from this have "k ! l \<le> j0" using low[of j0] by (metis nle_le option.distinct(1))
  ultimately obtain b ch' where b: "k ! l \<le> b" "cmap c b = Some ch'" "N_getSmallestChild (k ! l) c = Some ch'"
    "\<And>j. k ! l \<le> j \<Longrightarrow> j < b \<Longrightarrow> cmap c j = None"
    using N_getSmallestChild_ok[OF cok, of "k ! l"] by (fastforce simp: least_from_def)
  then have "k ! l < b" using none by (metis le_neq_trans option.distinct(1))
  obtain r where r: "r \<in> tids ch'" "smallestLeaf ch' = Some r" "\<forall>x \<in> tids ch'. be_val (lk r) \<le> be_val (lk x)"
    using smallestLeaf_ok[OF ch[OF b(2)]] by auto
  have rk: "be_val k < be_val (lk r)" using on_path_order(2)[OF chs k b(2) r(1) \<open>k ! l < b\<close>] by simp
  have "be_val (lk r) \<le> be_val (lk x)" if x: "cmap c b' = Some ch2" "x \<in> tids ch2" for x b' ch2
  proof -
    consider "b' = b" | "b < b'" using b(4)[of b'] low[of b'] x(1) by (metis nle_le not_less_iff_gr_or_eq option.distinct(1))
    then show ?thesis
    proof cases
      case 1 then show ?thesis using r(3) x b(2) by simp
    next
      case 2 then show ?thesis using child_order[OF ch[OF b(2)] ch[OF x(1)] r(1) x(2)] by simp
    qed
  qed
  then have "nearest lk (tids (Inner v l p c)) k r"
    using rk r(1) b(2) by (fastforce simp: nearest_def tids_Inner_iff)
  moreover have "lookupNext_end k c l = Some r" using None b(3) r(2) k by (simp add: lookupNext_end_def)
  ultimately show ?thesis by blast
qed

text \<open>What is nearest below the child on the path is nearest below the node.\<close>

lemma nearest_child:
  assumes chs: "children_ok lk K pre q c"
    and k: "length k = K" "take l k = pre @ q" "l = length pre + length q" "l < K"
    and b: "cmap c (k ! l) = Some ch'" and r: "nearest lk (tids ch') k r"
  shows "nearest lk (tids (Inner v l p c)) k r"
proof -
  note ch = children_okD[OF chs]
  have rin: "r \<in> tids ch'" using r by (simp add: nearest_def)
  have "\<not> (be_val k \<le> be_val (lk x) \<and> be_val (lk x) < be_val (lk r)) \<and>
      \<not> (be_val (lk r) < be_val (lk x) \<and> be_val (lk x) \<le> be_val k)"
    if x: "cmap c b' = Some ch2" "x \<in> tids ch2" for x b' ch2
  proof -
    consider "b' = k ! l" | "b' < k ! l" | "k ! l < b'" by fastforce
    then show ?thesis
    proof cases
      case 1 then show ?thesis using r x b by (auto simp: nearest_def)
    next
      case 2
      then show ?thesis using on_path_order(1)[OF chs k x] child_order[OF ch[OF x(1)] ch[OF b] x(2) rin] by simp
    next
      case 3
      then show ?thesis using on_path_order(2)[OF chs k x] child_order[OF ch[OF b] ch[OF x(1)] rin x(2)] by simp
    qed
  qed
  then show ?thesis using rin b by (fastforce simp: nearest_def tids_Inner_iff)
qed

lemma lookupNext_loop_ok:
  assumes "art_ok lk K r pre t" "length k = K" "take (length pre) k = pre" "tids t \<noteq> {}"
  shows "\<exists>x. lookupNext_loop lk k t (length pre) = Some x \<and> nearest lk (tids t) k x"
  using assms
proof (induction rule: art_ok.induct)
  case (leaf tid pre)
  then show ?case by (simp add: lookupNext_loop.simps nearest_def)
next
  case (inner v c p q l pre isRoot)
  note ch = inner.hyps(7)
  have chs: "children_ok lk K pre q c" by (rule children_okI[OF ch])
  have ok: "art_ok lk K isRoot pre (Inner v l p c)" using inner.hyps by (rule art_ok.inner)
  have ne: "cmap c \<noteq> Map.empty" using inner.prems(3) by (auto simp: tids_Inner)
  have rq: "isRoot \<longrightarrow> q = []" using inner.hyps(6) by simp
  note cpc = checkPrefixCompare_ok[OF ok inner.hyps(3,4) chs rq inner.prems(1) inner.hyps(5)]
  from cpc show ?case
  proof (elim disjE conjE exE)
    assume q: "take (length q) (drop (length pre) k) = q"
      and e: "checkPrefixCompare lk (Inner v l p c) l p k (length pre) = Some (PC_Equal, l)"
    have path: "take l k = pre @ q" using q inner.prems(2) inner.hyps(4) by (simp add: take_add)
    note kk = inner.prems(1) path inner.hyps(4,5)
    show ?case
    proof (cases "cmap c (k ! l)")
      case None
      from lookupNext_end_ok[OF inner.hyps(2) chs kk None ne] show ?thesis
        using e None N_getChild_ok[OF inner.hyps(2)] inner.prems(1) inner.hyps(5)
        by (subst lookupNext_loop.simps) simp
    next
      case (Some ch')
      have "take (length (pre @ q @ [k ! l])) k = pre @ q @ [k ! l]"
        using path inner.prems(1) inner.hyps(4,5) by (simp add: take_Suc_conv_app_nth)
      moreover have "tids ch' \<noteq> {}" using art_ok_nonempty[OF ch[OF Some]] by simp
      ultimately obtain x where x: "lookupNext_loop lk k ch' (length (pre @ q @ [k ! l])) = Some x" "nearest lk (tids ch') k x"
        using inner.IH[OF Some inner.prems(1)] by blast
      have "length (pre @ q @ [k ! l]) = l + 1" using inner.hyps(4) by simp
      then have "lookupNext_loop lk k (Inner v l p c) (length pre) = Some x"
        using e Some N_getChild_ok[OF inner.hyps(2)] inner.prems(1) inner.hyps(5) x(1)
        by (subst lookupNext_loop.simps) simp
      then show ?thesis using nearest_child[OF chs kk Some x(2)] by blast
    qed
  next
    fix m assume m: "m < length q" "take m (drop (length pre) k) = take m q" "q ! m \<noteq> k ! (length pre + m)"
      and e: "checkPrefixCompare lk (Inner v l p c) l p k (length pre) =
        Some (if q ! m < k ! (length pre + m) then PC_Smaller else PC_Bigger, length pre + m)"
    have nr: "\<not> isRoot" using m(1) rq by auto
    have lt: "length pre + length q < K" using inner.hyps(4,5) by simp
    note off = off_path_order[OF chs inner.prems(1,2) m(2) lt m(1)]
    show ?case
    proof (cases "q ! m < k ! (length pre + m)")
      case True
      obtain x where x: "x \<in> tids (Inner v l p c)" "largestLeaf (Inner v l p c) = Some x"
        "\<forall>y \<in> tids (Inner v l p c). be_val (lk y) \<le> be_val (lk x)" using largestLeaf_ok[OF ok nr] by blast
      have "nearest lk (tids (Inner v l p c)) k x"
        using x off(1)[OF _ True, where v = v and l = l and p = p] by (fastforce simp: nearest_def)
      then show ?thesis using e True x(2) by (subst lookupNext_loop.simps) simp
    next
      case False
      then have gt: "k ! (length pre + m) < q ! m" using m(3) by simp
      obtain x where x: "x \<in> tids (Inner v l p c)" "smallestLeaf (Inner v l p c) = Some x"
        "\<forall>y \<in> tids (Inner v l p c). be_val (lk x) \<le> be_val (lk y)" using smallestLeaf_ok[OF ok nr] by blast
      have "nearest lk (tids (Inner v l p c)) k x"
        using x off(2)[OF _ gt, where v = v and l = l and p = p] by (fastforce simp: nearest_def)
      then show ?thesis using e False x(2) by (subst lookupNext_loop.simps) simp
    qed
  qed
qed

end
