(* ===== verification/ArtInsert.thy ===== *)
theory ArtInsert
  imports ArtLookup
begin

text \<open>
  Insertion into the radix tree keeps the invariant, never restarts when nobody interferes, and
  adds the leaf in place of a leaf with the same key.
\<close>

section \<open>Nodes\<close>

definition inner_ok :: "loadKey \<Rightarrow> nat \<Rightarrow> bool \<Rightarrow> u8 list \<Rightarrow> u8 list \<Rightarrow> u64 \<Rightarrow> nat \<Rightarrow> prefix \<Rightarrow> art cont \<Rightarrow> bool" where
  "inner_ok lk K r pre q v l p c \<longleftrightarrow> is_free v \<and> cont_ok c \<and> stores p q \<and> l = length pre + length q \<and> l < K \<and>
     (if r then pre = [] \<and> q = [] \<and> (\<exists>a. c = N256 a) else fits c) \<and> children_ok lk K pre q c"

lemma art_ok_Inner: "art_ok lk K r pre (Inner v l p c) \<longleftrightarrow> (\<exists>q. inner_ok lk K r pre q v l p c)"
proof
  assume "art_ok lk K r pre (Inner v l p c)"
  then show "\<exists>q. inner_ok lk K r pre q v l p c" by (rule art_okE) (auto simp: inner_ok_def children_ok_def)
next
  assume "\<exists>q. inner_ok lk K r pre q v l p c"
  then obtain q where q: "inner_ok lk K r pre q v l p c" ..
  then show "art_ok lk K r pre (Inner v l p c)"
    unfolding inner_ok_def by (intro art_ok.inner[where q = q]) (auto dest: children_okD)
qed

lemma inner_okD:
  assumes "inner_ok lk K r pre q v l p c"
  shows "is_free v" "cont_ok c" "stores p q" "l = length pre + length q" "l < K" "children_ok lk K pre q c"
    "\<not> r \<Longrightarrow> fits c" "r \<Longrightarrow> \<exists>a. c = N256 a" "r \<longrightarrow> q = []"
    "cmap c b = Some ch \<Longrightarrow> art_ok lk K False (pre @ q @ [b]) ch"
  using assms unfolding inner_ok_def by (auto dest: children_okD)

lemma node_byte:
  assumes "inner_ok lk K r pre q v l p c" "cmap c b = Some ch" "x \<in> tids ch"
  shows "lk x ! l = b"
  using child_path(2)[OF inner_okD(10)[OF assms(1,2)] assms(3)] inner_okD(4)[OF assms(1)] by simp

text \<open>Storing a child under a byte, in a new word and a new container.\<close>

lemma node_upd:
  assumes ok: "inner_ok lk K r pre q v l p c" and c': "cont_ok c'" "cmap c' = (cmap c)(b \<mapsto> ch')"
    and ch': "art_ok lk K False (pre @ q @ [b]) ch'" and v': "is_free v'"
    and lay: "if r then \<exists>a. c' = N256 a else fits c'"
  shows "inner_ok lk K r pre q v' l p c' \<and>
    tids (Inner v' l p c') = {x \<in> tids (Inner v l p c). lk x ! l \<noteq> b} \<union> tids ch'"
proof
  show "inner_ok lk K r pre q v' l p c'"
    using ok c' ch' v' lay by (auto simp: inner_ok_def children_ok_def)
  have "x \<in> tids (Inner v' l p c') \<longleftrightarrow> (\<exists>j d. j \<noteq> b \<and> cmap c j = Some d \<and> x \<in> tids d) \<or> x \<in> tids ch'" for x
    by (auto simp: tids_Inner_iff c'(2) split: if_splits)
  moreover have "(\<exists>j d. j \<noteq> b \<and> cmap c j = Some d \<and> x \<in> tids d) \<longleftrightarrow> x \<in> tids (Inner v l p c) \<and> lk x ! l \<noteq> b" for x
    using node_byte[OF ok] by (fastforce simp: tids_Inner_iff)
  ultimately show "tids (Inner v' l p c') = {x \<in> tids (Inner v l p c). lk x ! l \<noteq> b} \<union> tids ch'" by blast
qed

lemma node_change:
  assumes ok: "inner_ok lk K r pre q v l p c" and b: "cmap c b \<noteq> None"
    and ch': "art_ok lk K False (pre @ q @ [b]) ch'" and v': "is_free v'"
  shows "\<exists>c'. N_change b ch' c = Some c' \<and> inner_ok lk K r pre q v' l p c' \<and>
    tids (Inner v' l p c') = {x \<in> tids (Inner v l p c). lk x ! l \<noteq> b} \<union> tids ch'"
proof -
  obtain c' where c': "N_change b ch' c = Some c'" "cont_ok c'" "cmap c' = (cmap c)(b \<mapsto> ch')"
    using N_change_ok[OF inner_okD(2)[OF ok] b] by blast
  have "if r then \<exists>a. c' = N256 a else fits c'"
    using c'(1) inner_okD(7,8)[OF ok] N_change_fits[OF inner_okD(2)[OF ok] b _ c'(1)] by (auto simp: N_change_def)
  from node_upd[OF ok c'(2,3) ch' v' this] c'(1) show ?thesis by blast
qed

text \<open>The lock of a free node, taken and released.\<close>

lemma relock: "is_free v \<Longrightarrow> is_free (N_writeUnlock (v + 2))"
  by (rule lock_word(3))

lemma with_lock_free: "is_free v \<Longrightarrow> with_lock v act n = act (v + 2)"
  by (simp add: with_lock_def lock_free)

lemma new_N4_ok:
  assumes "k1 \<noteq> k2" "art_ok lk K False (pre @ q @ [k1]) n1" "art_ok lk K False (pre @ q @ [k2]) n2"
    "stores p q" "l = length pre + length q" "l < K"
  shows "art_ok lk K False pre (new_N4 l p k1 n1 k2 n2) \<and> tids (new_N4 l p k1 n1 k2 n2) = tids n1 \<union> tids n2"
proof -
  define c where "c = N4 (snd (N4_insert k2 n2 (snd (N4_insert k1 n1 N4_new))))"
  obtain a where a: "N4_insert k1 n1 N4_new = (True, a)" "karr_ok 4 a" "karr_map (\<lambda>x. x) a = [k1 \<mapsto> n1]" "compactCount a = 1"
  proof -
    have n: "karr_ok 4 (N4_new :: art karr)" "karr_map (\<lambda>x. x) (N4_new :: art karr) = Map.empty" "compactCount (N4_new :: art karr) = 0"
      using layout4.new_ok by blast+
    show ?thesis using layout4.ins_ok[OF n(1), of k1 n1] n(2,3) that by auto
  qed
  obtain a' where a': "N4_insert k2 n2 a = (True, a')" "karr_ok 4 a'" "karr_map (\<lambda>x. x) a' = [k1 \<mapsto> n1, k2 \<mapsto> n2]"
    using layout4.ins_ok[OF a(2), of k2 n2] a(3,4) assms(1) by auto
  have c: "cont_ok c" "cmap c = [k1 \<mapsto> n1, k2 \<mapsto> n2]" "c = N4 a'" using a a' by (simp_all add: c_def)
  have "fits c" using assms(1) c by (simp add: fits_def)
  moreover have "children_ok lk K pre q c" using assms(2,3) c(2) by (auto simp: children_ok_def)
  ultimately have "inner_ok lk K False pre q (N_word TN4) l p c" using c assms N_word_free by (simp add: inner_ok_def)
  moreover have "new_N4 l p k1 n1 k2 n2 = Inner (N_word TN4) l p c" using a a' by (simp add: new_N4_def new_node_def c_def)
  moreover have "tids (Inner (N_word TN4) l p c) = tids n1 \<union> tids n2"
    using assms(1) c(2) by (auto simp: tids_Inner_iff split: if_splits)
  ultimately show ?thesis by (auto simp: art_ok_Inner)
qed

section \<open>The set of leaves after an insertion\<close>

definition ins_set :: "loadKey \<Rightarrow> u8 list \<Rightarrow> u64 \<Rightarrow> u64 set \<Rightarrow> u64 set" where
  "ins_set lk k tid S = insert tid {x \<in> S. lk x \<noteq> k}"

lemma ins_set_child:
  assumes ok: "inner_ok lk K r pre q v l p c" and b: "cmap c (k ! l) = Some ch"
  shows "{x \<in> tids (Inner v l p c). lk x ! l \<noteq> k ! l} \<union> ins_set lk k tid (tids ch) = ins_set lk k tid (tids (Inner v l p c))"
proof -
  have "x \<in> tids ch \<longleftrightarrow> x \<in> tids (Inner v l p c) \<and> lk x ! l = k ! l" for x
    using node_byte[OF ok] b by (fastforce simp: tids_Inner_iff)
  then show ?thesis by (auto simp: ins_set_def)
qed

lemma ins_set_none:
  assumes ok: "inner_ok lk K r pre q v l p c" and b: "cmap c (k ! l) = None"
  shows "{x \<in> tids (Inner v l p c). lk x ! l \<noteq> k ! l} \<union> {tid} = ins_set lk k tid (tids (Inner v l p c))"
proof -
  have "lk x ! l \<noteq> k ! l" if "x \<in> tids (Inner v l p c)" for x
    using node_byte[OF ok] b that by (fastforce simp: tids_Inner_iff)
  then show ?thesis by (auto simp: ins_set_def)
qed

text \<open>What a pass over a subtree must achieve.\<close>

definition retired_ok :: "art list \<Rightarrow> bool" where
  "retired_ok ns \<longleftrightarrow> (\<forall>n \<in> set ns. \<exists>v l p c. n = Inner v l p c \<and> isObsolete v \<and> \<not> isLocked v)"

fun pass_ok :: "loadKey \<Rightarrow> nat \<Rightarrow> bool \<Rightarrow> u8 list \<Rightarrow> u64 set \<Rightarrow> pass_result \<Rightarrow> bool" where
  "pass_ok lk K r pre S (Restart t) = False"
| "pass_ok lk K r pre S (Stay t ns) = (art_ok lk K r pre t \<and> \<not> art_isLeaf t \<and> tids t = S \<and> retired_ok ns)"
| "pass_ok lk K r pre S (Swap t old ns) = (\<not> r \<and> art_ok lk K r pre t \<and> tids t = S \<and> retired_ok ns)"

lemma retired_Nil [simp]: "retired_ok []"
  by (simp add: retired_ok_def)

lemma retired_one: "is_free v \<Longrightarrow> retired_ok [Inner (writeUnlockObsolete (v + 2)) l p c]"
  using lock_word(4,5) by (simp add: retired_ok_def)

text \<open>Passing the result of a pass over a child on to the parent.\<close>

lemma in_parent_ok:
  assumes ok: "inner_ok lk K r pre q v l p c" and b: "cmap c b \<noteq> None"
    and o: "pass_ok lk K False (pre @ q @ [b]) T res"
  shows "\<exists>o'. in_parent v l p c b res = Some o' \<and>
    pass_ok lk K r pre ({x \<in> tids (Inner v l p c). lk x ! l \<noteq> b} \<union> T) o'"
proof (cases res)
  case (Restart t)
  then show ?thesis using o by simp
next
  case (Stay t ns)
  then have t: "art_ok lk K False (pre @ q @ [b]) t" "tids t = T" "retired_ok ns" using o by auto
  from node_change[OF ok b t(1) inner_okD(1)[OF ok]] show ?thesis
    using t by (auto simp: Stay in_parent_def art_ok_Inner)
next
  case (Swap t old ns)
  then have t: "art_ok lk K False (pre @ q @ [b]) t" "tids t = T" "retired_ok ns" using o by auto
  from node_change[OF ok b t(1) relock[OF inner_okD(1)[OF ok]]] show ?thesis
    using t lock_free(1)[OF inner_okD(1)[OF ok]] by (auto simp: Swap in_parent_def art_ok_Inner)
qed

section \<open>The branches of a pass\<close>

lemma leaf_ok:
  assumes "tid < 2 ^ 63"
  shows "leaf tid = Leaf tid"
  using assms leaf_tag(2)[of tid] unfolding leaf_def no_tag by simp

lemma insert_split_ok:
  assumes ok: "inner_ok lk K False pre q v l p c" and m: "m < length q" "take m (drop (length pre) k) = take m q"
    "q ! m \<noteq> k ! (length pre + m)" and rem: "stores (setPrefix rem (length q - Suc m)) (drop (Suc m) q)"
    and k: "length k = K" "take (length pre) k = pre" "lk tid = k" and tid: "tid < 2 ^ 63"
  shows "\<exists>o'. insert_split tid v l p c k (length pre) (length pre + m) (q ! m) rem = Some o' \<and>
    pass_ok lk K False pre (ins_set lk k tid (tids (Inner v l p c))) o'"
proof -
  note d = inner_okD[OF ok]
  let ?n = "length pre + m"
  have n: "?n < K" using d(4,5) m(1) by simp
  have path: "take ?n k = pre @ take m q" using k(2) m(2) by (simp add: take_add)
  let ?node = "Inner (N_writeUnlock (v + 2)) l (setPrefix rem (prefixCount p - Suc m)) c"
  have cnt: "prefixCount p = length q" using d(3) by (simp add: stores_def)
  have split: "take m q @ q ! m # drop (Suc m) q = q" using id_take_nth_drop[OF m(1)] by simp
  have "inner_ok lk K False (pre @ take m q @ [q ! m]) (drop (Suc m) q) (N_writeUnlock (v + 2)) l (setPrefix rem (prefixCount p - Suc m)) c"
    unfolding inner_ok_def
  proof (intro conjI)
    show "children_ok lk K (pre @ take m q @ [q ! m]) (drop (Suc m) q) c"
    proof (rule children_okI)
      fix b ch assume "cmap c b = Some ch"
      moreover have "(pre @ take m q @ [q ! m]) @ drop (Suc m) q @ [b] = pre @ q @ [b]"
        using arg_cong[OF split, of "\<lambda>z. pre @ z @ [b]"] by simp
      ultimately show "art_ok lk K False ((pre @ take m q @ [q ! m]) @ drop (Suc m) q @ [b]) ch" using d(10) by metis
    qed
    show "l = length (pre @ take m q @ [q ! m]) + length (drop (Suc m) q)" using d(4) m(1) by simp
  qed (use d rem cnt relock in auto)
  then have node: "art_ok lk K False (pre @ take m q @ [q ! m]) ?node" by (auto simp: art_ok_Inner)
  have new: "art_ok lk K False (pre @ take m q @ [k ! ?n]) (Leaf tid)"
  proof (rule art_ok.leaf)
    have "take (Suc ?n) k = pre @ take m q @ [k ! ?n]" using path n k(1) by (simp add: take_Suc_conv_app_nth)
    then show "take (length (pre @ take m q @ [k ! ?n])) (lk tid) = pre @ take m q @ [k ! ?n]" using k(3) m(1) by simp
  qed (use k in simp)
  have "take m (pbytes p) = take m (take 4 q)"
    using d(3) m(1) unfolding stores_def by (metis less_imp_le min.absorb1 take_take)
  then have st: "stores (Prefix m (pbytes p)) (take m q)"
    using d(3) m(1) by (simp add: stores_def min.commute)
  have "?n = length pre + length (take m q)" using m(1) by simp
  note n4 = new_N4_ok[OF m(3)[symmetric] new node st this n]
  have "lk x \<noteq> k" if x: "x \<in> tids (Inner v l p c)" for x
  proof -
    obtain b rest ch where "lk x = pre @ q @ b # rest" by (rule on_path[OF d(6) x])
    then have "lk x ! ?n = q ! m" using m(1) by (simp add: nth_append)
    then show ?thesis using m(3) by auto
  qed
  then have "ins_set lk k tid (tids (Inner v l p c)) = {tid} \<union> tids ?node" by (auto simp: ins_set_def tids_Inner)
  moreover have "key_at k ?n = Some (k ! ?n)" using n k(1) by (simp add: key_at_def)
  ultimately show ?thesis
    using n4 leaf_ok[OF tid] by (simp add: insert_split_def with_lock_free[OF d(1)])
qed

lemma sharedLength_ok:
  assumes "length key = length k" "i \<le> length k" "take i key = take i k" "key \<noteq> k"
  shows "\<exists>n. sharedLength key k i = Some n \<and> i + n < length k \<and> key ! (i + n) \<noteq> k ! (i + n) \<and>
    take n (drop i key) = take n (drop i k)"
  using assms
proof (induction "length k - i" arbitrary: i)
  case 0
  then show ?case by simp
next
  case (Suc n)
  then have i: "i < length k" by simp
  show ?case
  proof (cases "key ! i = k ! i")
    case True
    then have "take (Suc i) key = take (Suc i) k" using Suc.prems i by (simp add: take_Suc_conv_app_nth)
    then obtain m where m: "sharedLength key k (Suc i) = Some m" "Suc i + m < length k" "key ! (Suc i + m) \<noteq> k ! (Suc i + m)"
      "take m (drop (Suc i) key) = take m (drop (Suc i) k)"
    proof -
      have "n = length k - Suc i" "Suc i \<le> length k" using Suc.hyps(2) i by auto
      from Suc.hyps(1)[OF this(1) Suc.prems(1) this(2) _ Suc.prems(4)] \<open>take (Suc i) key = take (Suc i) k\<close> that
      show ?thesis by blast
    qed
    have "take (Suc m) (drop i key) = take (Suc m) (drop i k)"
      using True m(4) i Suc.prems(1) Cons_nth_drop_Suc[of i key] Cons_nth_drop_Suc[of i k] by (metis take_Suc_Cons)
    then show ?thesis using m i True Suc.prems(1)
      by (subst sharedLength.simps) (auto simp: key_at_def intro!: exI[of _ "Suc m"])
  next
    case False
    then show ?thesis using i Suc.prems(1) by (subst sharedLength.simps) (simp add: key_at_def)
  qed
qed

lemma insert_leaf_ok:
  assumes ok: "inner_ok lk K r pre q v l p c" and b: "cmap c (k ! l) = Some (Leaf t)"
    and k: "length k = K" "take l k = pre @ q" "lk tid = k" and tid: "tid < 2 ^ 63"
  shows "\<exists>o'. insert_leaf lk tid v l p c k l (k ! l) t = Some o' \<and>
    pass_ok lk K r pre (ins_set lk k tid (tids (Inner v l p c))) o'"
proof -
  note d = inner_okD[OF ok]
  note free = relock[OF d(1)]
  note kids = ins_set_child[OF ok b, of tid]
  have path: "take (Suc l) k = pre @ q @ [k ! l]" using k d(5) by (simp add: take_Suc_conv_app_nth)
  have t: "length (lk t) = K" "take (length (pre @ q @ [k ! l])) (lk t) = pre @ q @ [k ! l]"
    using art_ok_path[OF d(10)[OF b], of t] by auto
  have l: "length (pre @ q @ [k ! l]) = Suc l" using d(4) by simp
  have some: "cmap c (k ! l) \<noteq> None" using b by simp
  show ?thesis
  proof (cases "lk t = k")
    case True
    have "art_ok lk K False (pre @ q @ [k ! l]) (Leaf tid)"
      using k path l by (intro art_ok.leaf) simp_all
    from node_change[OF ok some this free] show ?thesis
      using True kids leaf_ok[OF tid] with_lock_free[OF d(1)]
      by (auto simp: insert_leaf_def art_ok_Inner ins_set_def)
  next
    case False
    have "take (Suc l) (lk t) = take (Suc l) k" "length (lk t) = length k" "Suc l \<le> length k"
      using t l path k(1) d(5) by auto
    from sharedLength_ok[OF this(2,3,1) False]
    obtain n where n: "sharedLength (lk t) k (Suc l) = Some n" "Suc l + n < length k" "lk t ! (Suc l + n) \<noteq> k ! (Suc l + n)"
      "take n (drop (Suc l) (lk t)) = take n (drop (Suc l) k)" by blast
    let ?q = "take n (drop (Suc l) k)" and ?pre = "pre @ q @ [k ! l]"
    have len: "length (?pre @ ?q @ [x]) = Suc (Suc l + n)" for x using l n(2) by simp
    have st: "stores (setPrefix (drop (Suc l) k) n) ?q"
      using n(2) by (intro setPrefix_stores) auto
    have n1: "art_ok lk K False (?pre @ ?q @ [k ! (Suc l + n)]) (Leaf tid)"
    proof (rule art_ok.leaf)
      have "take (Suc l + n) k = ?pre @ ?q" unfolding take_add path by simp
      then have "take (Suc (Suc l + n)) k = ?pre @ ?q @ [k ! (Suc l + n)]"
        using take_Suc_conv_app_nth[OF n(2)] by simp
      then show "take (length (?pre @ ?q @ [k ! (Suc l + n)])) (lk tid) = ?pre @ ?q @ [k ! (Suc l + n)]"
        by (simp only: len k(3))
    qed (use k in simp)
    have n2: "art_ok lk K False (?pre @ ?q @ [lk t ! (Suc l + n)]) (Leaf t)"
    proof (rule art_ok.leaf)
      have "take (Suc l + n) (lk t) = ?pre @ ?q" unfolding take_add n(4) t(2)[unfolded l] by simp
      moreover have "Suc l + n < length (lk t)" using n(2) t(1) k(1) by simp
      ultimately have "take (Suc (Suc l + n)) (lk t) = ?pre @ ?q @ [lk t ! (Suc l + n)]"
        by (simp add: take_Suc_conv_app_nth)
      then show "take (length (?pre @ ?q @ [lk t ! (Suc l + n)])) (lk t) = ?pre @ ?q @ [lk t ! (Suc l + n)]"
        by (simp only: len)
    qed (rule t)
    have le: "Suc l + n = length ?pre + length ?q" using l n(2) by simp
    have lt: "Suc l + n < K" using n(2) k(1) by simp
    note n4 = new_N4_ok[OF n(3)[symmetric] n1 n2 st le lt, unfolded tids_Leaf]
    have "key_at k (Suc l + n) = Some (k ! (Suc l + n))" "key_at (lk t) (Suc l + n) = Some (lk t ! (Suc l + n))"
      using n(2) k(1) t(1) by (simp_all add: key_at_def)
    moreover have "ins_set lk k tid {t} = {tid} \<union> {t}" using False by (auto simp: ins_set_def)
    ultimately show ?thesis
      using node_change[OF ok some conjunct1[OF n4] free] n4 False n(1,2) kids leaf_ok[OF tid] with_lock_free[OF d(1)] t(1) k(1)
      by (auto simp: insert_leaf_def art_ok_Inner)
  qed
qed

lemma insert_none_ok:
  assumes ok: "inner_ok lk K r pre q v l p c" and b: "cmap c (k ! l) = None"
    and k: "length k = K" "take l k = pre @ q" "lk tid = k"
  shows "pass_ok lk K r pre (ins_set lk k tid (tids (Inner v l p c)))
    (placed_outcome (v + 2) l p c (N_insert (k ! l) (Leaf tid) c))"
proof -
  note d = inner_okD[OF ok]
  let ?c' = "placed_cont (N_insert (k ! l) (Leaf tid) c)"
  have c': "cont_ok ?c'" "cmap ?c' = (cmap c)(k ! l \<mapsto> Leaf tid)" using N_insert_ok[OF d(2) b] by auto
  have "take (length (pre @ q @ [k ! l])) k = pre @ q @ [k ! l]"
    using k d(4,5) by (simp add: take_Suc_conv_app_nth)
  then have lf: "art_ok lk K False (pre @ q @ [k ! l]) (Leaf tid)" using k by (intro art_ok.leaf) simp_all
  have lay: "if r then \<exists>a. ?c' = N256 a else fits ?c'"
    using d(7,8) N_insert_fits[OF d(2) b] by (auto simp: N_insert_def)
  have root: "\<not> r" if "N_insert (k ! l) (Leaf tid) c = Replaced n" for n
    using that d(8) by (auto simp: N_insert_def)
  have upd: "inner_ok lk K r pre q v' l p ?c' \<and> tids (Inner v' l p ?c') = ins_set lk k tid (tids (Inner v l p c))" if "is_free v'" for v'
    using node_upd[OF ok c' lf that lay] ins_set_none[OF ok b, of tid] by simp
  show ?thesis
  proof (cases "N_insert (k ! l) (Leaf tid) c")
    case (InPlace n)
    then show ?thesis using upd[OF relock[OF d(1)]] by (auto simp: placed_outcome_def art_ok_Inner)
  next
    case (Replaced n)
    then show ?thesis using upd[OF N_word_free] root retired_one[OF d(1)]
      by (auto simp: placed_outcome_def art_ok_Inner new_node_def)
  qed
qed

section \<open>The whole pass\<close>

lemma insert_pass_ok:
  assumes "art_ok lk K r pre t" "\<not> art_isLeaf t" "length k = K" "take (length pre) k = pre" "lk tid = k" "tid < 2 ^ 63"
  shows "\<exists>o'. insert_pass lk k tid t (length pre) = Some o' \<and> pass_ok lk K r pre (ins_set lk k tid (tids t)) o'"
  using assms
proof (induction rule: art_ok.induct)
  case (inner v c p q l pre isRoot)
  have aok: "art_ok lk K isRoot pre (Inner v l p c)" using inner.hyps by (rule art_ok.inner)
  have ok: "inner_ok lk K isRoot pre q v l p c" using inner.hyps by (auto simp: inner_ok_def intro: children_okI)
  note d = inner_okD[OF ok] and k = inner.prems(2,3,4) and tid = inner.prems(5)
  from checkPrefixPessimistic_ok[OF aok d(3,4,6,9) k(1) d(5)] show ?case
  proof (elim disjE conjE exE)
    fix m rem assume m: "m < length q" "take m (drop (length pre) k) = take m q" "q ! m \<noteq> k ! (length pre + m)"
      and e: "checkPrefixPessimistic lk (Inner v l p c) l p k (length pre) = Some (CPP_NoMatch (length pre + m) (q ! m) rem)"
      and rem: "stores (setPrefix rem (length q - Suc m)) (drop (Suc m) q)"
    have nr: "\<not> isRoot" using m(1) d(9) by auto
    with ok have ok': "inner_ok lk K False pre q v l p c" by simp
    from insert_split_ok[OF ok' m rem k tid] show ?case using nr e by (simp add: insert_pass.simps)
  next
    assume q: "take (length q) (drop (length pre) k) = q"
      and e: "checkPrefixPessimistic lk (Inner v l p c) l p k (length pre) = Some (CPP_Match l)"
    have path: "take l k = pre @ q" using q k(2) d(4) by (simp add: take_add)
    have lt: "l < length k" using d(5) k(1) by simp
    show ?case
    proof (cases "cmap c (k ! l)")
      case None
      then show ?thesis
        using insert_none_ok[OF ok None k(1) path k(3)] e lt N_getChild_ok[OF d(2)] leaf_ok[OF tid] with_lock_free[OF d(1)]
        by (simp add: insert_pass.simps)
    next
      case (Some ch)
      then have child: "N_getChild (k ! l) c = Some ch" using N_getChild_ok[OF d(2)] by simp
      show ?thesis
      proof (cases ch)
        case (Leaf t)
        then show ?thesis using insert_leaf_ok[OF ok _ k(1) path k(3) tid] Some e lt child by (simp add: insert_pass.simps)
      next
        case (Inner v2 l2 p2 c2)
        have "take (length (pre @ q @ [k ! l])) k = pre @ q @ [k ! l]" "length (pre @ q @ [k ! l]) = l + 1"
          using path lt d(4) by (simp_all add: take_Suc_conv_app_nth)
        then obtain res where res: "insert_pass lk k tid ch (l + 1) = Some res"
          "pass_ok lk K False (pre @ q @ [k ! l]) (ins_set lk k tid (tids ch)) res"
          using inner.IH[OF Some _ k(1) _ k(3) tid] Inner by auto
        from in_parent_ok[OF ok _ res(2)] Some obtain o' where "in_parent v l p c (k ! l) res = Some o'"
          "pass_ok lk K isRoot pre (ins_set lk k tid (tids (Inner v l p c))) o'"
          using ins_set_child[OF ok Some, of tid] by auto
        then show ?thesis using e lt child Inner res(1) by (subst insert_pass.simps) simp
      qed
    qed
  qed
qed simp

end
