(* ===== verification/ArtRemove.thy ===== *)
theory ArtRemove
  imports ArtInsert
begin

text \<open>
  Removal from the radix tree keeps the invariant, never restarts when nobody interferes, and removes
  exactly the given leaf; a node left with one child is merged into that child.
\<close>

lemma node_del:
  assumes ok: "inner_ok lk K r pre q v l p c" and c': "cont_ok c'" "cmap c' = (cmap c)(b := None)"
    and v': "is_free v'" and lay: "if r then \<exists>a. c' = N256 a else fits c'"
  shows "inner_ok lk K r pre q v' l p c' \<and> tids (Inner v' l p c') = {x \<in> tids (Inner v l p c). lk x ! l \<noteq> b}"
proof
  show "inner_ok lk K r pre q v' l p c'"
    using ok c' v' lay by (auto simp: inner_ok_def children_ok_def split: if_splits)
  have "x \<in> tids (Inner v' l p c') \<longleftrightarrow> (\<exists>j d. j \<noteq> b \<and> cmap c j = Some d \<and> x \<in> tids d)" for x
    by (auto simp: tids_Inner_iff c'(2) split: if_splits)
  moreover have "(\<exists>j d. j \<noteq> b \<and> cmap c j = Some d \<and> x \<in> tids d) \<longleftrightarrow> x \<in> tids (Inner v l p c) \<and> lk x ! l \<noteq> b" for x
    using node_byte[OF ok] by (fastforce simp: tids_Inner_iff)
  ultimately show "tids (Inner v' l p c') = {x \<in> tids (Inner v l p c). lk x ! l \<noteq> b}" by blast
qed

lemma node_without:
  assumes ok: "inner_ok lk K r pre q v l p c" and b: "cmap c b = Some (Leaf tid)"
  shows "{x \<in> tids (Inner v l p c). lk x ! l \<noteq> b} = tids (Inner v l p c) - {tid}"
proof -
  have "lk x ! l = b \<longleftrightarrow> x = tid" if "x \<in> tids (Inner v l p c)" for x
  proof
    assume x: "lk x ! l = b"
    from that obtain j d where j: "cmap c j = Some d" "x \<in> tids d" by (auto simp: tids_Inner_iff)
    with node_byte[OF ok j] x b show "x = tid" by simp
  next
    assume "x = tid"
    then show "lk x ! l = b" using node_byte[OF ok b] by simp
  qed
  then show ?thesis by blast
qed

section \<open>Merging a node into its last child\<close>

lemma second_path:
  assumes ok: "inner_ok lk K False pre q v l p c" and c2: "cmap c k2 = Some (Inner v2 l2 p2 c2)" and v': "is_free v'"
  shows "art_ok lk K False pre (Inner v' l2 (addPrefixBefore p2 p k2) c2)"
proof -
  from inner_okD(10)[OF ok c2] obtain q2 where q2: "inner_ok lk K False (pre @ q @ [k2]) q2 v2 l2 p2 c2"
    by (auto simp: art_ok_Inner)
  have "stores (addPrefixBefore p2 p k2) (q @ k2 # q2)"
    by (rule addPrefixBefore_stores[OF inner_okD(3)[OF q2] inner_okD(3)[OF ok]])
  moreover have "children_ok lk K pre (q @ k2 # q2) c2"
    using inner_okD(6)[OF q2] by (simp add: children_ok_def)
  ultimately have "inner_ok lk K False pre (q @ k2 # q2) v' l2 (addPrefixBefore p2 p k2) c2"
    using inner_okD(1,2,4,5,7)[OF q2] v' by (simp add: inner_ok_def)
  then show ?thesis by (auto simp: art_ok_Inner)
qed

lemma leaf_up:
  assumes "art_ok lk K False (pre @ q @ [k2]) (Leaf t)"
  shows "art_ok lk K False pre (Leaf t)"
  using assms take_prefix[of pre "q @ [k2]" "lk t"] by (auto elim!: art_ok_leafE intro!: art_ok.leaf)

lemma tids_two:
  assumes ok: "inner_ok lk K r pre q v l p c" and b: "cmap c b = Some (Leaf tid)"
    and two: "cmap c = (cmap c |` {b})(k2 \<mapsto> c2)" "k2 \<noteq> b"
  shows "tids (Inner v l p c) - {tid} = tids c2"
proof -
  have c2: "cmap c k2 = Some c2" by (subst two(1)) simp
  have "j = b \<or> j = k2" if "cmap c j = Some d" for j d
    using that by (subst (asm) two(1)) (auto simp: restrict_map_def split: if_splits)
  then have "tids (Inner v l p c) = {tid} \<union> tids c2" using b c2 by (fastforce simp: tids_Inner_iff)
  moreover have "tid \<notin> tids c2" using node_byte[OF ok b] node_byte[OF ok c2] two(2) by auto
  ultimately show ?thesis by auto
qed

lemma remove_leaf_ok:
  assumes ok: "inner_ok lk K r pre q v l p c" and b: "cmap c b = Some (Leaf tid)"
  shows "\<exists>o'. remove_leaf v l p c r b = Some o' \<and> pass_ok lk K r pre (tids (Inner v l p c) - {tid}) o'"
proof -
  note d = inner_okD[OF ok]
  note free = relock[OF d(1)] and cnt = N_getCount_ok[OF d(2)]
  have some: "cmap c b \<noteq> None" using b by simp
  have c1: "2 \<le> N_getCount c" if "\<not> r" using d(7)[OF that] cnt by (cases c) (auto simp: fits_def)
  show ?thesis
  proof (cases "N_getCount c = 2 \<and> \<not> r")
    case True
    then obtain a where a: "c = N4 a" using fits_two d(7) cnt by metis
    have two: "card (dom (cmap c)) = 2" using True cnt by simp
    obtain k2 c2 where c2: "N_getSecondChild b c = Some (c2, k2)" "k2 \<noteq> b" "cmap c = (cmap c |` {b})(k2 \<mapsto> c2)"
      using N_getSecondChild_ok[OF d(2) two some a] by blast
    have at2: "cmap c k2 = Some c2" by (subst c2(3)) simp
    note tids2 = tids_two[OF ok b c2(3,2)] and ok2 = d(10)[OF at2]
    have ok': "inner_ok lk K False pre q v l p c" using ok True by simp
    show ?thesis
    proof (cases c2)
      case (Leaf t)
      then show ?thesis using True c2(1) tids2 leaf_up[of lk K pre q k2 t] ok2 retired_one[OF d(1)]
        by (simp add: remove_leaf_def with_lock_free[OF d(1)])
    next
      case (Inner v2 l2 p2 cc)
      have f2: "is_free v2" using ok2 by (auto simp: Inner art_ok_Inner inner_ok_def)
      obtain c' where "N_change k2 (Inner (N_writeUnlock (v2 + 2)) l2 p2 cc) c = Some c'"
        using N_change_ok[OF d(2), of k2] at2 by fastforce
      moreover have "art_ok lk K False pre (Inner (N_writeUnlock (v2 + 2)) l2 (addPrefixBefore p2 p k2) cc)"
        using second_path[OF ok' at2[unfolded Inner] relock[OF f2]] .
      moreover have "tids (Inner (N_writeUnlock (v2 + 2)) l2 (addPrefixBefore p2 p k2) cc) = tids c2"
        by (simp add: Inner tids_Inner)
      ultimately show ?thesis using True c2(1) tids2 retired_one[OF d(1)] lock_free(2)[OF f2]
        by (simp add: remove_leaf_def with_lock_free[OF d(1)] Inner)
    qed
  next
    case False
    obtain res where res: "N_remove b r c = Some res" "cont_ok (placed_cont res)" "cmap (placed_cont res) = (cmap c)(b := None)"
      using N_remove_ok[OF d(2) some] by blast
    have root: "\<exists>a. res = InPlace (N256 a)" if r
      using res(1) d(8)[OF that] that by (auto simp: N_remove_def removeAndShrink_def N256_remove_def)
    have lay: "if r then \<exists>a. placed_cont res = N256 a else fits (placed_cont res)"
      using root N_remove_fits[OF d(2) some d(7), of res] res(1) False by auto
    have upd: "inner_ok lk K r pre q v' l p (placed_cont res) \<and>
        tids (Inner v' l p (placed_cont res)) = tids (Inner v l p c) - {tid}" if "is_free v'" for v'
      using node_del[OF ok res(2,3) that lay] node_without[OF ok b] by simp
    have "pass_ok lk K r pre (tids (Inner v l p c) - {tid}) (placed_outcome (v + 2) l p c res)"
    proof (cases res)
      case (InPlace n)
      then show ?thesis using upd[OF free] by (auto simp: placed_outcome_def art_ok_Inner)
    next
      case (Replaced n)
      then show ?thesis using upd[OF N_word_free] root retired_one[OF d(1)]
        by (auto simp: placed_outcome_def art_ok_Inner new_node_def)
    qed
    moreover have "\<not> (\<not> r \<and> N_getCount c = 1)" using c1 by auto
    ultimately show ?thesis using False res(1)
      by (auto simp: remove_leaf_def with_lock_free[OF d(1)] Let_def)
  qed
qed

section \<open>The whole pass\<close>

lemma remove_pass_ok:
  assumes "art_ok lk K r pre t" "\<not> art_isLeaf t" "length k = K" "lk tid = k"
  shows "\<exists>o'. remove_pass k tid r t (length pre) = Some o' \<and> pass_ok lk K r pre (tids t - {tid}) o'"
  using assms
proof (induction rule: art_ok.induct)
  case (inner v c p q l pre isRoot)
  have aok: "art_ok lk K isRoot pre (Inner v l p c)" using inner.hyps by (rule art_ok.inner)
  have ok: "inner_ok lk K isRoot pre q v l p c" using inner.hyps by (auto simp: inner_ok_def intro: children_okI)
  note d = inner_okD[OF ok] and k = inner.prems(2,3)
  have lt: "l < length k" using d(5) k(1) by simp
  have nob: "\<not> isObsolete v" using d(1) by (simp add: is_free_def)
  note cp = checkPrefix_ok[OF d(3,4) lt]
  have here: "(\<forall>j < min (length q) 4. q ! j = k ! (length pre + j)) \<and> (\<exists>ch. cmap c (k ! l) = Some ch \<and> tid \<in> tids ch)"
    if tid: "tid \<in> tids (Inner v l p c)"
  proof -
    obtain b rest ch where "cmap c b = Some ch" "tid \<in> tids ch" "lk tid = pre @ q @ b # rest" by (rule on_path[OF d(6) tid])
    then show ?thesis using k(2) d(4) by (auto simp: nth_append)
  qed
  have same: "pass_ok lk K isRoot pre (tids (Inner v l p c) - {tid}) (Stay (Inner v' l p c) [])"
    if "tid \<notin> tids (Inner v l p c)" "is_free v'" for v'
    using that ok by (auto simp: art_ok_Inner inner_ok_def tids_Inner)
  show ?case
  proof (cases "\<forall>j < min (length q) 4. q ! j = k ! (length pre + j)")
    case False
    then have "checkPrefix l p k (length pre) = (CP_NoMatch, length pre)" unfolding cp by (rule if_not_P)
    then show ?thesis using same[OF _ d(1)] here False nob by (auto simp: remove_pass.simps)
  next
    case True
    note cp = cp[unfolded if_P[OF True]]
    show ?thesis
    proof (cases "cmap c (k ! l)")
      case None
      then show ?thesis using cp lt N_getChild_ok[OF d(2)] same[OF _ d(1)] here nob by (auto simp: remove_pass.simps)
    next
      case (Some ch)
      then have child: "N_getChild (k ! l) c = Some ch" using N_getChild_ok[OF d(2)] by simp
      show ?thesis
      proof (cases ch)
        case (Leaf t)
        show ?thesis
        proof (cases "t = tid")
          case True
          then show ?thesis using remove_leaf_ok[OF ok, of "k ! l" tid] Some Leaf cp lt child by (simp add: remove_pass.simps)
        next
          case False
          then have "tid \<notin> tids (Inner v l p c)" using here Some Leaf by auto
          from same[OF this relock[OF d(1)]] show ?thesis
            using False Leaf cp lt child with_lock_free[OF d(1)] by (simp add: remove_pass.simps)
        qed
      next
        case (Inner v2 l2 p2 c2)
        have len: "length (pre @ q @ [k ! l]) = l + 1" using d(4) by simp
        obtain res where res: "remove_pass k tid False ch (l + 1) = Some res"
          "pass_ok lk K False (pre @ q @ [k ! l]) (tids ch - {tid}) res"
          using inner.IH[OF Some _ k] Inner len by auto
        have "{x \<in> tids (Inner v l p c). lk x ! l \<noteq> k ! l} \<union> (tids ch - {tid}) = tids (Inner v l p c) - {tid}"
          using node_byte[OF ok] Some k(2) by (fastforce simp: tids_Inner_iff)
        with in_parent_ok[OF ok _ res(2)] Some obtain o' where "in_parent v l p c (k ! l) res = Some o'"
          "pass_ok lk K isRoot pre (tids (Inner v l p c) - {tid}) o'" by auto
        then show ?thesis using cp lt child Inner res(1) by (subst remove_pass.simps) simp
      qed
    qed
  qed
qed simp

end
