(* ===== verification/ArtTheorems.thy ===== *)
theory ArtTheorems
  imports ArtRemove
begin

text \<open>
  The contract of the radix tree as an index from keys to leaves, and its operations as an
  interpretation of it.
\<close>

section \<open>The contract\<close>

locale leaf_index =
  fixes lk :: loadKey and K :: nat and inv :: "'t \<Rightarrow> bool" and leaves :: "'t \<Rightarrow> u64 set" and empty :: 't
    and ins :: "'t \<Rightarrow> u8 list \<Rightarrow> u64 \<Rightarrow> 't option" and del :: "'t \<Rightarrow> u8 list \<Rightarrow> u64 \<Rightarrow> 't option"
    and near :: "'t \<Rightarrow> u8 list \<Rightarrow> u64 option"
  assumes empty_ok: "0 < K \<Longrightarrow> inv empty \<and> leaves empty = {}"
    and ins_ok: "inv t \<Longrightarrow> length (lk tid) = K \<Longrightarrow> tid < 2 ^ 63 \<Longrightarrow>
      \<exists>t'. ins t (lk tid) tid = Some t' \<and> inv t' \<and> leaves t' = ins_set lk (lk tid) tid (leaves t)"
    and del_ok: "inv t \<Longrightarrow> length (lk tid) = K \<Longrightarrow>
      \<exists>t'. del t (lk tid) tid = Some t' \<and> inv t' \<and> leaves t' = leaves t - {tid}"
    and near_ok: "inv t \<Longrightarrow> length k = K \<Longrightarrow> leaves t \<noteq> {} \<Longrightarrow> \<exists>r. near t k = Some r \<and> nearest lk (leaves t) k r"
    and key_inj: "inv t \<Longrightarrow> x \<in> leaves t \<Longrightarrow> y \<in> leaves t \<Longrightarrow> lk x = lk y \<Longrightarrow> x = y"
    and key_len: "inv t \<Longrightarrow> x \<in> leaves t \<Longrightarrow> length (lk x) = K"
begin

text \<open>A stored key is its own neighbour.\<close>

lemma near_exact:
  assumes "inv t" "x \<in> leaves t"
  shows "near t (lk x) = Some x"
proof -
  obtain r where r: "near t (lk x) = Some r" "nearest lk (leaves t) (lk x) r"
    using near_ok[OF assms(1) key_len[OF assms]] assms(2) by blast
  then have "r \<in> leaves t" "be_val (lk r) = be_val (lk x)"
    using assms(2) by (auto simp: nearest_def not_less intro!: antisym)
  then have "lk r = lk x" using be_val_inj key_len[OF assms(1)] assms(2) by metis
  then show ?thesis using r(1) key_inj[OF assms(1) \<open>r \<in> leaves t\<close> assms(2)] by simp
qed

text \<open>A fresh key adds one leaf.\<close>

lemma ins_card:
  assumes "inv t" "length (lk tid) = K" "tid < 2 ^ 63" "finite (leaves t)" "\<And>x. x \<in> leaves t \<Longrightarrow> lk x \<noteq> lk tid"
  shows "\<exists>t'. ins t (lk tid) tid = Some t' \<and> inv t' \<and> leaves t' = insert tid (leaves t) \<and>
    card (leaves t') = Suc (card (leaves t))"
proof -
  obtain t' where t': "ins t (lk tid) tid = Some t'" "inv t'" "leaves t' = ins_set lk (lk tid) tid (leaves t)"
    using ins_ok[OF assms(1-3)] by blast
  have "leaves t' = insert tid (leaves t)" using assms(5) t'(3) by (auto simp: ins_set_def)
  moreover have "tid \<notin> leaves t" using assms(5) by blast
  ultimately show ?thesis using t' assms(4) by simp
qed

end

section \<open>The tree\<close>

definition root_ok :: "loadKey \<Rightarrow> nat \<Rightarrow> art \<Rightarrow> bool" where
  "root_ok lk K t \<longleftrightarrow> art_ok lk K True [] t"

definition pass_tree :: "pass_result option \<Rightarrow> art option" where
  "pass_tree r = (case r of Some (Stay t ns) \<Rightarrow> Some t | _ \<Rightarrow> None)"

lemma root_not_leaf: "root_ok lk K t \<Longrightarrow> \<not> art_isLeaf t"
  by (auto simp: root_ok_def elim: art_ok.cases)

lemma Tree_new_ok:
  assumes "0 < K"
  shows "root_ok lk K Tree_new \<and> tids Tree_new = {}"
proof -
  have n: "ok256 (N256_new :: art karr256)" "map256 (N256_new :: art karr256) = Map.empty" using layout256.new_ok by blast+
  have "inner_ok lk K True [] [] (N_word TN256) 0 (setPrefix [] 0) (N256 N256_new)"
    using n assms N_word_free by (simp add: inner_ok_def children_ok_def stores_def setPrefix_def)
  then show ?thesis using n(2) by (auto simp: root_ok_def Tree_new_def new_node_def art_ok_Inner tids_Inner)
qed

lemma at_root_ok: "pass_ok lk K True [] S r \<Longrightarrow> at_root (Some r) = Some r \<and>
    (\<exists>t ns. r = Stay t ns \<and> root_ok lk K t \<and> tids t = S \<and> retired_ok ns)"
  by (cases r) (auto simp: at_root_def root_ok_def)

lemma Tree_insert_ok:
  assumes "root_ok lk K t" "length (lk tid) = K" "tid < 2 ^ 63"
  shows "\<exists>t' ns. Tree_insert lk t (lk tid) tid = Some (Stay t' ns) \<and> root_ok lk K t' \<and>
    tids t' = ins_set lk (lk tid) tid (tids t) \<and> retired_ok ns"
  using insert_pass_ok[of lk K True "[]" t "lk tid" tid] assms root_not_leaf[OF assms(1)] at_root_ok
  by (fastforce simp: Tree_insert_def root_ok_def)

lemma Tree_remove_ok:
  assumes "root_ok lk K t" "length (lk tid) = K"
  shows "\<exists>t' ns. Tree_remove t (lk tid) tid = Some (Stay t' ns) \<and> root_ok lk K t' \<and> tids t' = tids t - {tid} \<and> retired_ok ns"
  using remove_pass_ok[of lk K True "[]" t "lk tid" tid] assms root_not_leaf[OF assms(1)] at_root_ok
  by (fastforce simp: Tree_remove_def root_ok_def)

interpretation rowex: leaf_index lk K "root_ok lk K" tids Tree_new
  "\<lambda>t k tid. pass_tree (Tree_insert lk t k tid)" "\<lambda>t k tid. pass_tree (Tree_remove t k tid)" "Tree_lookupNext lk"
  for lk K
proof
  fix t :: art and tid x y :: u64 and k :: "u8 list"
  show "0 < K \<Longrightarrow> root_ok lk K Tree_new \<and> tids Tree_new = {}" by (rule Tree_new_ok)
  assume t: "root_ok lk K t"
  show "length (lk tid) = K \<Longrightarrow> tid < 2 ^ 63 \<Longrightarrow> \<exists>t'. pass_tree (Tree_insert lk t (lk tid) tid) = Some t' \<and>
      root_ok lk K t' \<and> tids t' = ins_set lk (lk tid) tid (tids t)"
    using Tree_insert_ok[OF t, of tid] by (auto simp: pass_tree_def)
  show "length (lk tid) = K \<Longrightarrow> \<exists>t'. pass_tree (Tree_remove t (lk tid) tid) = Some t' \<and>
      root_ok lk K t' \<and> tids t' = tids t - {tid}"
    using Tree_remove_ok[OF t, of tid] by (auto simp: pass_tree_def)
  show "length k = K \<Longrightarrow> tids t \<noteq> {} \<Longrightarrow> \<exists>r. Tree_lookupNext lk t k = Some r \<and> nearest lk (tids t) k r"
    using lookupNext_loop_ok[of lk K True "[]" t k] t by (simp add: Tree_lookupNext_def root_ok_def)
  show "x \<in> tids t \<Longrightarrow> y \<in> tids t \<Longrightarrow> lk x = lk y \<Longrightarrow> x = y"
    using t art_ok_inj unfolding root_ok_def by blast
  show "x \<in> tids t \<Longrightarrow> length (lk x) = K" using t art_ok_length unfolding root_ok_def by blast
qed

section \<open>Properties\<close>

text \<open>C16. \<open>Tree::insert\<close> on any tree that satisfies the invariant finishes in one pass, without a
  restart and without following a null pointer. The tree keeps its invariant (path compression,
  layouts that fit the number of children, unlocked nodes), holds the new leaf, has lost the leaf
  with the same key if there was one, and every node given to the garbage list is marked obsolete.\<close>

theorem Tree_insert_correct:
  assumes "root_ok lk K t" "length (lk tid) = K" "tid < 2 ^ 63"
  shows "\<exists>t' ns. Tree_insert lk t (lk tid) tid = Some (Stay t' ns) \<and> root_ok lk K t' \<and>
    tids t' = insert tid {x \<in> tids t. lk x \<noteq> lk tid} \<and> retired_ok ns"
  using Tree_insert_ok[OF assms] by (simp add: ins_set_def)

text \<open>The tree that holds the one leaf 3, with the address as the key.\<close>

definition one_tree :: art where
  "one_tree = the (pass_tree (Tree_insert Key_setInt Tree_new (Key_setInt 3) 3))"

lemma one_tree_ok: "root_ok Key_setInt 8 one_tree" "tids one_tree = {3}"
  using rowex.ins_ok[of Key_setInt 8 Tree_new 3] Tree_new_ok[of 8 Key_setInt]
  by (auto simp: one_tree_def ins_set_def)

theorem Tree_insert_correct_witness:
  "\<exists>t' ns. Tree_insert Key_setInt one_tree (Key_setInt 700) 700 = Some (Stay t' ns) \<and> tids t' = {3, 700}"
  using Tree_insert_correct[OF one_tree_ok(1), of 700] one_tree_ok(2) inj_Key_setInt[of 3 700] by auto

text \<open>C17. \<open>Tree::remove\<close> on any tree that satisfies the invariant finishes in one pass and removes
  exactly the given leaf; nothing happens if it is not there. The invariant holds afterwards, also
  where a node shrinks or is merged into its last child.\<close>

theorem Tree_remove_correct:
  assumes "root_ok lk K t" "length (lk tid) = K"
  shows "\<exists>t' ns. Tree_remove t (lk tid) tid = Some (Stay t' ns) \<and> root_ok lk K t' \<and>
    tids t' = tids t - {tid} \<and> retired_ok ns"
  using Tree_remove_ok[OF assms] .

theorem Tree_remove_correct_witness:
  "\<exists>t' ns. Tree_remove one_tree (Key_setInt 3) 3 = Some (Stay t' ns) \<and> tids t' = {}"
  using Tree_remove_correct[OF one_tree_ok(1), of 3] one_tree_ok(2) by auto

text \<open>\<open>Tree::lookup\<close> returns the leaf with the given key, or 0 if there is none, although it
  skips the bytes of a compressed path that a node does not store.\<close>

theorem Tree_lookup_correct:
  assumes "root_ok lk K t" "length k = K"
  shows "Tree_lookup lk t k = Some (if \<exists>x \<in> tids t. lk x = k then (THE x. x \<in> tids t \<and> lk x = k) else 0)"
proof (cases "\<exists>x \<in> tids t. lk x = k")
  case True
  then obtain x where x: "x \<in> tids t" "lk x = k" by blast
  then have "(THE x. x \<in> tids t \<and> lk x = k) = x" using rowex.key_inj[OF assms(1)] by blast
  then show ?thesis
    using x lookup_loop_hit[of lk K True "[]" t k x False] assms root_not_leaf[OF assms(1)]
    by (auto simp: Tree_lookup_def root_ok_def)
next
  case False
  then show ?thesis
    using lookup_loop_miss[of lk K True "[]" t k False] assms root_not_leaf[OF assms(1)]
    by (auto simp: Tree_lookup_def root_ok_def)
qed

theorem Tree_lookup_correct_witness: "Tree_lookup Key_setInt one_tree (Key_setInt 4) = Some 0"
  using Tree_lookup_correct[OF one_tree_ok(1), of "Key_setInt 4"] one_tree_ok(2) inj_Key_setInt[of 3 4] by simp

text \<open>C18. \<open>Tree::lookupNext\<close> on a tree with at least one leaf returns a leaf of the tree such that no
  stored key lies between its key and the given one; if the given key is stored, it returns the
  leaf with that key.\<close>

theorem Tree_lookupNext_correct:
  assumes "root_ok lk K t" "length k = K" "tids t \<noteq> {}"
  shows "\<exists>r. Tree_lookupNext lk t k = Some r \<and> r \<in> tids t \<and>
    (\<forall>x \<in> tids t. \<not> (be_val k \<le> be_val (lk x) \<and> be_val (lk x) < be_val (lk r)) \<and>
       \<not> (be_val (lk r) < be_val (lk x) \<and> be_val (lk x) \<le> be_val k)) \<and>
    (\<forall>x \<in> tids t. lk x = k \<longrightarrow> r = x)"
proof -
  obtain r where r: "Tree_lookupNext lk t k = Some r" "nearest lk (tids t) k r" using rowex.near_ok[OF assms] by blast
  moreover have "r = x" if "x \<in> tids t" "lk x = k" for x
    using rowex.near_exact[OF assms(1) that(1)] that(2) r(1) by simp
  ultimately show ?thesis by (auto simp: nearest_def)
qed

theorem Tree_lookupNext_correct_witness: "Tree_lookupNext Key_setInt one_tree (Key_setInt 900) = Some 3"
  using Tree_lookupNext_correct[OF one_tree_ok(1), of "Key_setInt 900"] one_tree_ok(2) by auto

end
