(* ===== verification/SearchLayer.thy ===== *)
theory SearchLayer
  imports ArtTheorems
begin

text \<open>
  The search layer, class \<open>ArtRowexIndex\<close> of \<open>SearchLayer.h\<close>: a radix tree from the smallest key of a
  list node to the address of the node. The tree reads the key of a leaf from the memory at its
  address; \<open>keyAt\<close> is that memory.
\<close>

section \<open>Definitions\<close>

record ArtRowexIndex =
  curMin :: Key_t
  idx :: art
  numInserts :: u32

definition SL_new :: ArtRowexIndex where
  "SL_new = \<lparr>curMin = ULLONG_MAX, idx = Tree_new, numInserts = 0\<rparr>"

text \<open>The function that the constructor gives to the tree.\<close>

definition SL_loadKey :: "(u64 \<Rightarrow> Key_t) \<Rightarrow> loadKey" where
  "SL_loadKey keyAt tid = Key_setInt (keyAt tid)"

definition SL_insert :: "(u64 \<Rightarrow> Key_t) \<Rightarrow> Key_t \<Rightarrow> u64 \<Rightarrow> ArtRowexIndex \<Rightarrow> ArtRowexIndex option" where
  "SL_insert keyAt k ptr s =
     (case pass_tree (Tree_insert (SL_loadKey keyAt) (idx s) (Key_setInt k) ptr) of
        None \<Rightarrow> None
      | Some t \<Rightarrow> Some (s\<lparr>idx := t, curMin := (if k < curMin s then k else curMin s), numInserts := numInserts s + 1\<rparr>))"

definition SL_remove :: "Key_t \<Rightarrow> u64 \<Rightarrow> ArtRowexIndex \<Rightarrow> ArtRowexIndex option" where
  "SL_remove k ptr s =
     (case pass_tree (Tree_remove (idx s) (Key_setInt k) ptr) of
        None \<Rightarrow> None
      | Some t \<Rightarrow> Some (s\<lparr>idx := t, numInserts := numInserts s - 1\<rparr>))"

text \<open>The result 0 is the null pointer.\<close>

definition SL_lookup :: "(u64 \<Rightarrow> Key_t) \<Rightarrow> Key_t \<Rightarrow> ArtRowexIndex \<Rightarrow> u64 option" where
  "SL_lookup keyAt k s =
     (if k \<le> curMin s then Some 0 else Tree_lookupNext (SL_loadKey keyAt) (idx s) (Key_setInt k))"

definition SL_isEmpty :: "ArtRowexIndex \<Rightarrow> bool" where
  "SL_isEmpty s \<longleftrightarrow> numInserts s < 2"

definition SL_size :: "ArtRowexIndex \<Rightarrow> u32" where
  "SL_size s = numInserts s"

section \<open>The map a search layer holds\<close>

definition sl_inv :: "(u64 \<Rightarrow> Key_t) \<Rightarrow> ArtRowexIndex \<Rightarrow> bool" where
  "sl_inv keyAt s \<longleftrightarrow> root_ok (SL_loadKey keyAt) 8 (idx s) \<and> (\<forall>x \<in> tids (idx s). curMin s \<le> keyAt x)"

definition sl_map :: "(u64 \<Rightarrow> Key_t) \<Rightarrow> ArtRowexIndex \<Rightarrow> Key_t \<rightharpoonup> u64" where
  "sl_map keyAt s k = (if \<exists>x \<in> tids (idx s). keyAt x = k then Some (THE x. x \<in> tids (idx s) \<and> keyAt x = k) else None)"

text \<open>The counter counts the leaves.\<close>

definition sl_counted :: "ArtRowexIndex \<Rightarrow> bool" where
  "sl_counted s \<longleftrightarrow> numInserts s = word_of_nat (card (tids (idx s)))"

lemma SL_loadKey_simps [simp]: "length (SL_loadKey keyAt x) = 8" "SL_loadKey keyAt x = SL_loadKey keyAt y \<longleftrightarrow> keyAt x = keyAt y"
  "be_val (SL_loadKey keyAt x) = unat (keyAt x)"
  by (simp_all add: SL_loadKey_def inj_Key_setInt be_val_Key_setInt)

lemma sl_map_Some:
  assumes "sl_inv keyAt s"
  shows "sl_map keyAt s k = Some x \<longleftrightarrow> x \<in> tids (idx s) \<and> keyAt x = k"
proof -
  have inj: "x = y" if "x \<in> tids (idx s)" "y \<in> tids (idx s)" "keyAt x = keyAt y" for x y
    using assms that rowex.key_inj[of "SL_loadKey keyAt" 8 "idx s" x y] by (simp add: sl_inv_def)
  then have "(THE x. x \<in> tids (idx s) \<and> keyAt x = k) = y" if "y \<in> tids (idx s)" "keyAt y = k" for y
    using that by blast
  then show ?thesis unfolding sl_map_def using inj by auto
qed

lemma sl_key_inj: "sl_inv keyAt s \<Longrightarrow> x \<in> tids (idx s) \<Longrightarrow> y \<in> tids (idx s) \<Longrightarrow> keyAt x = keyAt y \<Longrightarrow> x = y"
  using rowex.key_inj[of "SL_loadKey keyAt" 8 "idx s" x y] by (simp add: sl_inv_def)

lemma sl_map_None:
  assumes "sl_inv keyAt s"
  shows "sl_map keyAt s k = None \<longleftrightarrow> (\<forall>x \<in> tids (idx s). keyAt x \<noteq> k)"
  by (auto simp: sl_map_def)

lemma SL_new_ok: "sl_inv keyAt SL_new \<and> sl_map keyAt SL_new = Map.empty \<and> sl_counted SL_new"
  using Tree_new_ok[of 8 "SL_loadKey keyAt"] by (auto simp: sl_inv_def SL_new_def sl_map_def sl_counted_def)

lemma SL_insert_ok:
  assumes inv: "sl_inv keyAt s" and p: "keyAt p = k" "p < 2 ^ 63"
  shows "\<exists>s'. SL_insert keyAt k p s = Some s' \<and> sl_inv keyAt s' \<and> sl_map keyAt s' = (sl_map keyAt s)(k \<mapsto> p) \<and>
    (sl_counted s \<and> sl_map keyAt s k = None \<longrightarrow> sl_counted s')"
proof -
  let ?lk = "SL_loadKey keyAt"
  have root: "root_ok ?lk 8 (idx s)" using inv by (simp add: sl_inv_def)
  have kk: "Key_setInt k = ?lk p" by (simp add: SL_loadKey_def p)
  obtain t where t: "pass_tree (Tree_insert ?lk (idx s) (Key_setInt k) p) = Some t" "root_ok ?lk 8 t"
      "tids t = ins_set ?lk (?lk p) p (tids (idx s))"
    using rowex.ins_ok[OF root _ p(2)] unfolding kk by auto
  have tid: "x \<in> tids t \<longleftrightarrow> x = p \<or> x \<in> tids (idx s) \<and> keyAt x \<noteq> k" for x using t(3) p by (auto simp: ins_set_def)
  let ?s = "s\<lparr>idx := t, curMin := (if k < curMin s then k else curMin s), numInserts := numInserts s + 1\<rparr>"
  have inv': "sl_inv keyAt ?s" using inv t(2) tid p by (force simp: sl_inv_def)
  have "sl_map keyAt ?s x = Some y \<longleftrightarrow> ((sl_map keyAt s)(k \<mapsto> p)) x = Some y" for x y
    using sl_map_Some[OF inv] p by (auto simp: sl_map_Some[OF inv'] tid)
  then have "sl_map keyAt ?s = (sl_map keyAt s)(k \<mapsto> p)" by (rule map_eqI)
  moreover have "sl_counted ?s" if "sl_counted s" "sl_map keyAt s k = None"
  proof -
    have "tids t = insert p (tids (idx s))" "p \<notin> tids (idx s)" using tid that(2) p sl_map_None[OF inv] by auto
    then show ?thesis using that(1) by (simp add: sl_counted_def)
  qed
  ultimately show ?thesis using t(1) inv' by (auto simp: SL_insert_def)
qed

lemma SL_remove_ok:
  assumes inv: "sl_inv keyAt s" and p: "keyAt p = k"
  shows "\<exists>s'. SL_remove k p s = Some s' \<and> sl_inv keyAt s' \<and>
    sl_map keyAt s' = (if sl_map keyAt s k = Some p then (sl_map keyAt s)(k := None) else sl_map keyAt s) \<and>
    (sl_counted s \<and> sl_map keyAt s k = Some p \<longrightarrow> sl_counted s')"
proof -
  let ?lk = "SL_loadKey keyAt"
  have root: "root_ok ?lk 8 (idx s)" using inv by (simp add: sl_inv_def)
  have kk: "Key_setInt k = ?lk p" by (simp add: SL_loadKey_def p)
  obtain t where t: "pass_tree (Tree_remove (idx s) (Key_setInt k) p) = Some t" "root_ok ?lk 8 t" "tids t = tids (idx s) - {p}"
    using rowex.del_ok[OF root] unfolding kk by auto
  let ?s = "s\<lparr>idx := t, numInserts := numInserts s - 1\<rparr>"
  have inv': "sl_inv keyAt ?s" using inv t by (auto simp: sl_inv_def)
  have "sl_map keyAt ?s x = Some y \<longleftrightarrow>
      (if sl_map keyAt s k = Some p then (sl_map keyAt s)(k := None) else sl_map keyAt s) x = Some y" for x y
  proof (cases "p \<in> tids (idx s)")
    case True
    then have "sl_map keyAt s k = Some p" using sl_map_Some[OF inv] p by simp
    moreover have "y \<noteq> p \<longleftrightarrow> x \<noteq> k" if "y \<in> tids (idx s)" "keyAt y = x"
      using that sl_key_inj[OF inv _ True, of y] p by auto
    ultimately show ?thesis using sl_map_Some[OF inv] t(3) by (auto simp: sl_map_Some[OF inv'])
  next
    case False
    then have "sl_map keyAt s k \<noteq> Some p" "tids t = tids (idx s)" using sl_map_Some[OF inv] t(3) by auto
    then show ?thesis using sl_map_Some[OF inv, of x y] by (simp add: sl_map_Some[OF inv'])
  qed
  then have "sl_map keyAt ?s = (if sl_map keyAt s k = Some p then (sl_map keyAt s)(k := None) else sl_map keyAt s)"
    by (rule map_eqI)
  moreover have "sl_counted ?s" if c: "sl_counted s" "sl_map keyAt s k = Some p"
  proof -
    have "p \<in> tids (idx s)" using c(2) sl_map_Some[OF inv] by simp
    then have "card (tids (idx s)) = Suc (card (tids t))" using t(3) card_Suc_Diff1[of "tids (idx s)" p] by simp
    then show ?thesis using c(1) by (simp add: sl_counted_def)
  qed
  ultimately show ?thesis using t(1) inv' by (auto simp: SL_remove_def)
qed

lemma SL_nonempty: "sl_counted s \<Longrightarrow> \<not> SL_isEmpty s \<Longrightarrow> tids (idx s) \<noteq> {}"
  by (auto simp: sl_counted_def SL_isEmpty_def)

lemma SL_nearest:
  assumes "sl_inv keyAt s" "sl_counted s" "\<not> SL_isEmpty s"
  shows "\<exists>r. SL_lookup keyAt k s = Some r \<and>
    (if k \<le> curMin s then r = 0
     else r \<in> ran (sl_map keyAt s) \<and>
       (\<forall>j \<in> dom (sl_map keyAt s). \<not> (k \<le> j \<and> j < keyAt r) \<and> \<not> (keyAt r < j \<and> j \<le> k)))"
proof (cases "k \<le> curMin s")
  case True
  then show ?thesis by (simp add: SL_lookup_def)
next
  case False
  have root: "root_ok (SL_loadKey keyAt) 8 (idx s)" using assms(1) by (simp add: sl_inv_def)
  obtain r where r: "Tree_lookupNext (SL_loadKey keyAt) (idx s) (Key_setInt k) = Some r"
      "nearest (SL_loadKey keyAt) (tids (idx s)) (Key_setInt k) r"
    using rowex.near_ok[OF root _ SL_nonempty[OF assms(2,3)], of "Key_setInt k"] by auto
  have "r \<in> ran (sl_map keyAt s)" using r(2) sl_map_Some[OF assms(1), of "keyAt r" r] by (auto simp: nearest_def ran_def)
  moreover have "\<not> (k \<le> j \<and> j < keyAt r) \<and> \<not> (keyAt r < j \<and> j \<le> k)" if "j \<in> dom (sl_map keyAt s)" for j
    using that r(2) sl_map_Some[OF assms(1)]
    by (auto simp: nearest_def be_val_Key_setInt word_le_nat_alt word_less_nat_alt)
  ultimately show ?thesis using False r(1) by (simp add: SL_lookup_def)
qed

section \<open>Properties\<close>

text \<open>C24. A lookup in a search layer that is not empty compares the key with \<open>curMin\<close>, the smallest key ever inserted. For a key that is not above it, and so for
  that key itself even while it is stored, it returns the null pointer, contrary to the comment over \<open>lookup\<close>; the index then starts at the head of the
  list. For any other key it returns a stored pointer such that no other stored key lies between the key of its node and
  the given key; if the given key is stored, its own pointer.\<close>

theorem SL_lookup_correct:
  assumes "sl_inv keyAt s" "sl_counted s" "\<not> SL_isEmpty s"
  shows "\<exists>r. SL_lookup keyAt k s = Some r \<and>
    (if k \<le> curMin s then r = 0
     else r \<in> ran (sl_map keyAt s) \<and>
       (\<forall>j \<in> dom (sl_map keyAt s). \<not> (k \<le> j \<and> j < keyAt r) \<and> \<not> (keyAt r < j \<and> j \<le> k)) \<and>
       (\<forall>x. sl_map keyAt s k = Some x \<longrightarrow> r = x))"
proof -
  obtain r where r: "SL_lookup keyAt k s = Some r" "if k \<le> curMin s then r = 0 else r \<in> ran (sl_map keyAt s) \<and>
       (\<forall>j \<in> dom (sl_map keyAt s). \<not> (k \<le> j \<and> j < keyAt r) \<and> \<not> (keyAt r < j \<and> j \<le> k))"
    using SL_nearest[OF assms] by blast
  have "r = x" if "r \<in> ran (sl_map keyAt s)" "sl_map keyAt s k = Some x"
    "\<forall>j \<in> dom (sl_map keyAt s). \<not> (k \<le> j \<and> j < keyAt r) \<and> \<not> (keyAt r < j \<and> j \<le> k)" for x
  proof -
    have "k \<in> dom (sl_map keyAt s)" using that(2) by blast
    then have "keyAt r = k" using that(3) by (meson linorder_less_linear order_refl)
    moreover have "\<exists>j. sl_map keyAt s j = Some r" using that(1) by (simp add: ran_def)
    ultimately have "sl_map keyAt s k = Some r" using sl_map_Some[OF assms(1)] by metis
    then show ?thesis using that(2) by simp
  qed
  then show ?thesis using r by (intro exI[of _ r]) auto
qed

text \<open>A search layer over memory where every address holds its own value, with the keys 3 and 9.\<close>

definition sl_demo :: ArtRowexIndex where
  "sl_demo = the (SL_insert id 9 9 (the (SL_insert id 3 3 SL_new)))"

lemma sl_demo_ok: "sl_inv id sl_demo" "sl_counted sl_demo" "sl_map id sl_demo = [3 \<mapsto> 3, 9 \<mapsto> 9]"
    "curMin sl_demo = 3" "\<not> SL_isEmpty sl_demo"
proof -
  obtain s1 where s1: "SL_insert id 3 3 SL_new = Some s1" "sl_inv id s1" "sl_map id s1 = [3 \<mapsto> 3]" "sl_counted s1"
    using SL_insert_ok[of id SL_new 3 3] SL_new_ok[of id] by auto
  obtain s2 where s2: "SL_insert id 9 9 s1 = Some s2" "sl_inv id s2" "sl_map id s2 = [3 \<mapsto> 3, 9 \<mapsto> 9]" "sl_counted s2"
    using SL_insert_ok[OF s1(2), of 9 9] s1(3,4) by auto
  have c: "curMin s1 = 3" "numInserts s1 = 1"
    using s1(1) by (auto simp: SL_insert_def SL_new_def split: option.splits)
  then have "curMin s2 = 3" "numInserts s2 = 2" using s2(1) by (auto simp: SL_insert_def split: option.splits)
  then show "sl_inv id sl_demo" "sl_counted sl_demo" "sl_map id sl_demo = [3 \<mapsto> 3, 9 \<mapsto> 9]"
    "curMin sl_demo = 3" "\<not> SL_isEmpty sl_demo"
    using s1 s2 by (simp_all add: sl_demo_def SL_isEmpty_def)
qed

theorem SL_lookup_correct_witness: "SL_lookup id 9 sl_demo = Some 9 \<and> SL_lookup id 3 sl_demo = Some 0"
  using SL_lookup_correct[OF sl_demo_ok(1,2,5), of 9] SL_lookup_correct[OF sl_demo_ok(1,2,5), of 3]
  by (auto simp: sl_demo_ok(3,4) ran_def split: if_splits)

end
