(* ===== verification/Replication.thy ===== *)
theory Replication
  imports SearchLayer ListRefinement
begin

text \<open>
  How the search layers follow the data list, \<open>Combiner.h\<close> and \<open>WorkerThread.cpp\<close>: the combiner
  thread drains the logs of all threads into one merged log and hands it to the queue of every
  worker thread; each worker applies the merged logs to the search layer of its NUMA node; the
  combiner frees a merged log when all workers are done with it.
\<close>

section \<open>Definitions\<close>

subsection \<open>The queue between the combiner and a worker\<close>

text \<open>
  \<open>boost::lockfree::spsc_queue\<close> is not part of the repository: its operations are a parameter.
\<close>

record ('a, 'q) spsc_ops =
  sp_push :: "'a \<Rightarrow> 'q \<Rightarrow> bool \<times> 'q"
  sp_front :: "'q \<Rightarrow> 'a"
  sp_pop :: "'q \<Rightarrow> 'q"
  sp_avail :: "'q \<Rightarrow> nat"

text \<open>
  What its documentation promises: a bounded queue in first-in first-out order whose \<open>push\<close> returns
  false and does nothing when it is full.
\<close>

locale spsc_queue =
  fixes Q :: "('a, 'q) spsc_ops" and cap :: nat and items :: "'q \<Rightarrow> 'a list"
  assumes push_room: "length (items q) < cap \<Longrightarrow> fst (sp_push Q x q) \<and> items (snd (sp_push Q x q)) = items q @ [x]"
    and push_full: "\<not> length (items q) < cap \<Longrightarrow> \<not> fst (sp_push Q x q) \<and> items (snd (sp_push Q x q)) = items q"
    and front: "items q \<noteq> [] \<Longrightarrow> sp_front Q q = hd (items q)"
    and pop: "items q \<noteq> [] \<Longrightarrow> items (sp_pop Q q) = tl (items q)"
    and avail: "sp_avail Q q = length (items q)"
begin

lemma push_cases: "items (snd (sp_push Q x q)) = items q \<or> items (snd (sp_push Q x q)) = items q @ [x]"
  using push_room[of q x] push_full[of q x] by blast

end

subsection \<open>Worker threads\<close>

record 'q WorkerThread =
  workQueue :: 'q
  workerThreadId :: nat
  activeNuma :: nat
  logDoneCount :: u64
  freeQueue :: "(u64 \<times> addr) list"
  opcount :: u64

definition WorkerThread_new :: "'q \<Rightarrow> nat \<Rightarrow> nat \<Rightarrow> 'q WorkerThread" where
  "WorkerThread_new q i n = \<lparr>workQueue = q, workerThreadId = i, activeNuma = n, logDoneCount = 0, freeQueue = [], opcount = 0\<rparr>"

text \<open>
  The loop of \<open>applyOperation\<close> over a merged log: \<open>h\<close> is the hash the worker is responsible for,
  \<open>c\<close> its \<open>logDoneCount\<close>. The search layer gets the address of the list node as a 64-bit word.
\<close>

fun apply_ops :: "(u64 \<Rightarrow> Key_t) \<Rightarrow> nat \<Rightarrow> u8 \<Rightarrow> u64 \<Rightarrow> Key_t OpPtr list \<Rightarrow> ArtRowexIndex \<times> (u64 \<times> addr) list \<times> u64 \<times> bool \<Rightarrow>
    (ArtRowexIndex \<times> (u64 \<times> addr) list \<times> u64 \<times> bool) option" where
  "apply_ops keyAt i h c [] st = Some st"
| "apply_ops keyAt i h c (p # oplog) (sl, fq, cnt, ret) =
     (let e = snd p in
      if hash e \<noteq> h then apply_ops keyAt i h c oplog (sl, fq, cnt, ret)
      else (case op e of
          OpInsert \<Rightarrow> (case SL_insert keyAt (key e) (word_of_nat (listNodePtr e)) sl of
              None \<Rightarrow> None
            | Some sl' \<Rightarrow> apply_ops keyAt i h c oplog (sl', fq, cnt + 1, ret))
        | OpRemove \<Rightarrow> (case SL_remove (key e) (word_of_nat (listNodePtr e)) sl of
              None \<Rightarrow> None
            | Some sl' \<Rightarrow>
                if i = 0 then apply_ops keyAt i h c oplog (sl', fq @ [(c, listNodePtr e)], cnt + 1, True)
                else apply_ops keyAt i h c oplog (sl', fq, cnt + 1, ret))))"

text \<open>
  Merged logs live in memory; \<open>mlogs\<close> maps the ones that are allocated to their entries, and
  reading a log that has been deleted is the result \<open>None\<close>.
\<close>

definition applyOperation :: "(nat, 'q) spsc_ops \<Rightarrow> (u64 \<Rightarrow> Key_t) \<Rightarrow> (nat \<rightharpoonup> Key_t OpPtr list) \<Rightarrow> 'q WorkerThread \<Rightarrow> ArtRowexIndex \<Rightarrow>
    (bool \<times> 'q WorkerThread \<times> ArtRowexIndex) option" where
  "applyOperation Q keyAt mlogs w sl =
     (case mlogs (sp_front Q (workQueue w)) of
        None \<Rightarrow> None
      | Some oplog \<Rightarrow>
          (case apply_ops keyAt (workerThreadId w) (word_of_nat (workerThreadId w div activeNuma w)) (logDoneCount w) oplog
                  (sl, freeQueue w, opcount w, False) of
             None \<Rightarrow> None
           | Some (sl', fq, cnt, ret) \<Rightarrow>
               Some (ret, w\<lparr>workQueue := sp_pop Q (workQueue w), logDoneCount := logDoneCount w + 1, freeQueue := fq, opcount := cnt\<rparr>, sl')))"

definition isWorkQueueEmpty :: "(nat, 'q) spsc_ops \<Rightarrow> 'q WorkerThread \<Rightarrow> bool" where
  "isWorkQueueEmpty Q w \<longleftrightarrow> sp_avail Q (workQueue w) = 0"

fun free_loop :: "u64 \<Rightarrow> (u64 \<times> addr) list \<Rightarrow> (addr \<rightharpoonup> ListNode) \<Rightarrow> (u64 \<times> addr) list \<times> (addr \<rightharpoonup> ListNode)" where
  "free_loop removeCount [] ns = ([], ns)"
| "free_loop removeCount ((c, p) # q) ns =
     (if c < removeCount then free_loop removeCount q (ns(p := None)) else ((c, p) # q, ns))"

definition freeListNodes :: "u64 \<Rightarrow> 'q WorkerThread \<Rightarrow> (addr \<rightharpoonup> ListNode) \<Rightarrow> ('q WorkerThread \<times> (addr \<rightharpoonup> ListNode)) option" where
  "freeListNodes removeCount w ns =
     (if workerThreadId w \<noteq> 0 then None
      else let (fq, ns') = free_loop removeCount (freeQueue w) ns in Some (w\<lparr>freeQueue := fq\<rparr>, ns'))"

subsection \<open>The combiner thread\<close>

text \<open>
  A merged log is named by the number of its allocation. \<open>sls\<close> are the search layers, one for each
  NUMA node.
\<close>

record 'q system =
  heap :: hstate
  logQueue :: "(u64 \<times> nat) list"
  doneCountCombiner :: u64
  combinerSplits :: nat
  mlogs :: "nat \<rightharpoonup> Key_t OpPtr list"
  mlogAllocs :: nat
  workers :: "'q WorkerThread list"
  sls :: "ArtRowexIndex list"

definition drainLog :: "nat \<Rightarrow> nat \<Rightarrow> Key_t OpPtr list \<times> hstate \<Rightarrow> Key_t OpPtr list \<times> hstate" where
  "drainLog qnum t st = (let (m, h) = st; log = getOpLog t h in
     (m @ getQ qnum log, h\<lparr>oplogs := (oplogs h)(t \<mapsto> resetQ qnum log)\<rparr>))"

text \<open>
  \<open>combineLogs\<close>; \<open>threads\<close> are the threads in the order of the set of logs. The vector holds pointers, so
  \<open>std::sort\<close> orders it by their addresses.
\<close>

definition combineLogs :: "nat list \<Rightarrow> 'q system \<Rightarrow> nat option \<times> 'q system" where
  "combineLogs threads s =
     (let h = (heap s)\<lparr>curQ := curQ (heap s) + 1\<rparr>;
          qnum = unat ((curQ h - 1) mod 2);
          (m, h') = fold (drainLog qnum) threads ([], h);
          mergedLog = sort_key fst m;
          s1 = s\<lparr>heap := h', combinerSplits := combinerSplits s + length mergedLog\<rparr>
      in if mergedLog \<noteq> []
         then (Some (mlogAllocs s), s1\<lparr>logQueue := logQueue s @ [(doneCountCombiner s, mlogAllocs s)],
                 doneCountCombiner := doneCountCombiner s + 1,
                 mlogs := (mlogs s)(mlogAllocs s \<mapsto> mergedLog), mlogAllocs := mlogAllocs s + 1\<rparr>)
         else (None, s1))"

text \<open>One round of the loop of \<open>broadcastMergedLog\<close>; the result of \<open>push\<close> is ignored.\<close>

definition pushLog :: "(nat, 'q) spsc_ops \<Rightarrow> nat \<Rightarrow> nat \<Rightarrow> 'q system \<Rightarrow> 'q system" where
  "pushLog Q mergedLog i s = (let w = workers s ! i in
     s\<lparr>workers := (workers s)[i := w\<lparr>workQueue := snd (sp_push Q mergedLog (workQueue w))\<rparr>]\<rparr>)"

definition broadcastMergedLog :: "(nat, 'q) spsc_ops \<Rightarrow> nat \<Rightarrow> 'q system \<Rightarrow> 'q system" where
  "broadcastMergedLog Q mergedLog s = fold (pushLog Q mergedLog) [0..<length (workers s)] s"

definition minDoneCount :: "'q WorkerThread list \<Rightarrow> u64" where
  "minDoneCount ws = fold (\<lambda>w m. if logDoneCount w < m then logDoneCount w else m) ws ULLONG_MAX"

fun freeLogs_loop :: "u64 \<Rightarrow> (u64 \<times> nat) list \<Rightarrow> (nat \<rightharpoonup> Key_t OpPtr list) \<Rightarrow> (u64 \<times> nat) list \<times> (nat \<rightharpoonup> Key_t OpPtr list)" where
  "freeLogs_loop m [] ml = ([], ml)"
| "freeLogs_loop m ((c, l) # q) ml = (if c < m then freeLogs_loop m q (ml(l := None)) else ((c, l) # q, ml))"

definition freeMergedLogs :: "bool \<Rightarrow> 'q system \<Rightarrow> u64 \<times> 'q system" where
  "freeMergedLogs force s =
     (if \<not> force \<and> length (logQueue s) < 100 then (0, s)
      else let m = minDoneCount (workers s);
               (q, ml) = freeLogs_loop m (logQueue s) (mlogs s)
           in (m, s\<lparr>logQueue := q, mlogs := ml\<rparr>))"

definition mergedLogsToBeFreed :: "'q system \<Rightarrow> bool" where
  "mergedLogsToBeFreed s \<longleftrightarrow> logQueue s = []"

subsection \<open>All threads together\<close>

text \<open>
  What the combiner thread is doing: between its operations, or in the loop of
  \<open>broadcastMergedLog\<close> before its push to worker \<open>i\<close>.
\<close>

datatype combiner_pc = Between | Broadcasting nat nat

text \<open>
  The steps of all threads: a user thread logs a change of the list; the combiner drains the logs,
  pushes the merged log to one worker after the other and frees merged logs; a worker applies the
  log at the front of its queue. The log stays at the front of its queue while it is applied.
\<close>

inductive rstep :: "(nat, 'q) spsc_ops \<Rightarrow> (u64 \<Rightarrow> Key_t) \<Rightarrow> combiner_pc \<times> 'q system \<Rightarrow> combiner_pc \<times> 'q system \<Rightarrow> bool"
  for Q keyAt where
  Log: "rstep Q keyAt (c, s) (c, s\<lparr>heap := enqPerThreadLog t o' k h p (heap s)\<rparr>)"
| Combine: "distinct threads \<Longrightarrow> set threads = dom (oplogs (heap s)) \<Longrightarrow> combineLogs threads s = (Some l, s') \<Longrightarrow>
    rstep Q keyAt (Between, s) (Broadcasting l 0, s')"
| CombineNone: "distinct threads \<Longrightarrow> set threads = dom (oplogs (heap s)) \<Longrightarrow> combineLogs threads s = (None, s') \<Longrightarrow>
    rstep Q keyAt (Between, s) (Between, s')"
| Push: "i < length (workers s) \<Longrightarrow> rstep Q keyAt (Broadcasting l i, s) (Broadcasting l (Suc i), pushLog Q l i s)"
| Pushed: "rstep Q keyAt (Broadcasting l (length (workers s)), s) (Between, s)"
| Free: "rstep Q keyAt (Between, s) (Between, snd (freeMergedLogs force s))"
| Apply: "i < length (workers s) \<Longrightarrow> n = workerThreadId (workers s ! i) mod activeNuma (workers s ! i) \<Longrightarrow> n < length (sls s) \<Longrightarrow>
    \<not> isWorkQueueEmpty Q (workers s ! i) \<Longrightarrow> applyOperation Q keyAt (mlogs s) (workers s ! i) (sls s ! n) = Some (ret, w', sl') \<Longrightarrow>
    rstep Q keyAt (c, s) (c, s\<lparr>workers := (workers s)[i := w'], sls := (sls s)[n := sl']\<rparr>)"

text \<open>The queue that user threads fill.\<close>

definition fillQ :: "hstate \<Rightarrow> nat" where
  "fillQ h = unat (curQ h mod 2)"

definition system_new :: "hstate \<Rightarrow> 'q \<Rightarrow> nat \<Rightarrow> 'q system" where
  "system_new h q numa = \<lparr>heap = h, logQueue = [], doneCountCombiner = 0, combinerSplits = 0, mlogs = Map.empty,
     mlogAllocs = 0, workers = map (\<lambda>i. WorkerThread_new q i numa) [0..<numa * WORKER_THREAD_PER_NUMA],
     sls = replicate numa SL_new\<rparr>"

section \<open>Draining the logs\<close>

lemma getOpLog_upd [simp]: "getOpLog t (h\<lparr>oplogs := (oplogs h)(t' \<mapsto> l)\<rparr>) = (if t = t' then l else getOpLog t h)"
  by (simp add: getOpLog_def)

lemma getQ_resetQ: "getQ q (resetQ q' l) = (if (q = 0) = (q' = 0) then [] else getQ q l)"
  by (simp add: resetQ_def)

lemma drain_all:
  assumes "distinct threads"
  shows "fst (fold (drainLog q) threads (m, h)) = m @ concat (map (\<lambda>t. getQ q (getOpLog t h)) threads) \<and>
    (\<forall>t. getOpLog t (snd (fold (drainLog q) threads (m, h))) = (if t \<in> set threads then resetQ q (getOpLog t h) else getOpLog t h)) \<and>
    curQ (snd (fold (drainLog q) threads (m, h))) = curQ h"
  using assms
proof (induction threads arbitrary: m h)
  case (Cons t threads)
  let ?h = "h\<lparr>oplogs := (oplogs h)(t \<mapsto> resetQ q (getOpLog t h))\<rparr>"
  have "getOpLog t' ?h = getOpLog t' h" if "t' \<in> set threads" for t' using that Cons.prems by auto
  then have eq: "map (\<lambda>t. getQ q (getOpLog t ?h)) threads = map (\<lambda>t. getQ q (getOpLog t h)) threads" by simp
  have "drainLog q t (m, h) = (m @ getQ q (getOpLog t h), ?h)" by (simp add: drainLog_def Let_def)
  then show ?case using Cons.IH[of "m @ getQ q (getOpLog t h)" ?h, unfolded eq] Cons.prems by auto
qed simp

lemma sort_key_Nil_iff [simp]: "sort_key f xs = [] \<longleftrightarrow> xs = []"
  by (metis length_0_conv length_sort)

lemma fillQ_flip: "curQ h' = curQ h + 1 \<Longrightarrow> fillQ h' = 1 - fillQ h"
  by (simp add: fillQ_def mod_2_eq_odd)

lemma combineLogs_ok:
  assumes "distinct threads" "combineLogs threads s = (r, s')"
  defines "all \<equiv> concat (map (\<lambda>t. getQ (fillQ (heap s)) (getOpLog t (heap s))) threads)"
  shows "(case r of None \<Rightarrow> all = [] \<and> mlogs s' = mlogs s | Some l \<Rightarrow> mlogs s' = (mlogs s)(l \<mapsto> sort_key fst all) \<and> all \<noteq> []) \<and>
    (\<forall>t. getQ (fillQ (heap s)) (getOpLog t (heap s')) =
      (if t \<in> set threads then [] else getQ (fillQ (heap s)) (getOpLog t (heap s)))) \<and>
    (\<forall>t. getQ (1 - fillQ (heap s)) (getOpLog t (heap s')) = getQ (1 - fillQ (heap s)) (getOpLog t (heap s))) \<and>
    curQ (heap s') = curQ (heap s) + 1"
proof -
  let ?h = "(heap s)\<lparr>curQ := curQ (heap s) + 1\<rparr>" and ?q = "fillQ (heap s)"
  have q: "?q < 2" unfolding fillQ_def using unat_mod[of "curQ (heap s)" 2] by simp
  have g: "getOpLog t ?h = getOpLog t (heap s)" for t by (simp add: getOpLog_def)
  have qn: "unat ((curQ ?h - 1) mod 2) = ?q" by (simp add: fillQ_def)
  obtain m h' where f: "fold (drainLog ?q) threads ([], ?h) = (m, h')" by fastforce
  note d = drain_all[OF assms(1), of ?q "[]" ?h, unfolded f g]
  have m: "m = all" using d by (simp add: all_def)
  have "heap s' = h' \<and> (case r of None \<Rightarrow> all = [] \<and> mlogs s' = mlogs s
      | Some l \<Rightarrow> mlogs s' = (mlogs s)(l \<mapsto> sort_key fst all) \<and> all \<noteq> [])"
    using assms(2) f unfolding combineLogs_def Let_def qn by (auto simp: m split: if_splits)
  moreover have "(1 - ?q = 0) = (\<not> (?q = 0))" using q by auto
  ultimately show ?thesis using d by (auto simp: getQ_resetQ)
qed

lemma combineLogs_id: "combineLogs threads s = (Some l, s') \<Longrightarrow> l = mlogAllocs s \<and> mlogAllocs s' = Suc l \<and> workers s' = workers s"
  by (auto simp: combineLogs_def Let_def split: if_splits prod.splits)

section \<open>Merged logs are alive while they are queued\<close>

text \<open>
  The merged logs that are allocated carry consecutive numbers, and every worker is done with all
  logs below the first of them. A worker at which a push has not arrived yet has a smaller limit.
\<close>

definition lim :: "combiner_pc \<Rightarrow> nat \<Rightarrow> nat \<Rightarrow> nat" where
  "lim c n j = (case c of Between \<Rightarrow> n | Broadcasting l i \<Rightarrow> if j < i then n else n - 1)"

lemma lim_le: "lim c n j \<le> n"
  by (auto simp: lim_def split: combiner_pc.splits)

definition worker_ok :: "('q \<Rightarrow> nat list) \<Rightarrow> nat \<Rightarrow> nat \<Rightarrow> 'q WorkerThread \<Rightarrow> bool" where
  "worker_ok items lo hi w \<longleftrightarrow> lo \<le> unat (logDoneCount w) \<and> sorted_wrt (<) (items (workQueue w)) \<and>
     set (items (workQueue w)) \<subseteq> {unat (logDoneCount w)..<hi} \<and>
     unat (logDoneCount w) + length (items (workQueue w)) \<le> hi"

definition logs_ok :: "nat \<Rightarrow> combiner_pc \<Rightarrow> 'q system \<Rightarrow> bool" where
  "logs_ok lo c s \<longleftrightarrow> lo \<le> mlogAllocs s \<and> logQueue s = map (\<lambda>i. (word_of_nat i, i)) [lo..<mlogAllocs s] \<and>
     dom (mlogs s) = {lo..<mlogAllocs s} \<and> doneCountCombiner s = word_of_nat (mlogAllocs s) \<and>
     (case c of Between \<Rightarrow> True | Broadcasting l i \<Rightarrow> mlogAllocs s = Suc l \<and> lo \<le> l)"

definition repl_inv :: "('q \<Rightarrow> nat list) \<Rightarrow> combiner_pc \<times> 'q system \<Rightarrow> bool" where
  "repl_inv items cs \<longleftrightarrow> (case cs of (c, s) \<Rightarrow> \<exists>lo. logs_ok lo c s \<and>
     (\<forall>j < length (workers s). worker_ok items lo (lim c (mlogAllocs s) j) (workers s ! j)))"

lemma unat_max_word: "unat ULLONG_MAX = 2 ^ 64 - 1"
  by (simp add: unat_eq_nat_uint uint_word_ariths)

lemma restrict_UNIV [simp]: "m |` UNIV = m"
  by (simp add: restrict_map_def)

lemma freeLogs_loop_ok:
  assumes "hi < 2 ^ 64" "lo \<le> hi"
  shows "\<exists>lo'. lo \<le> lo' \<and> lo' \<le> hi \<and> (lo' = lo \<or> lo' \<le> unat m) \<and> (lo' = hi \<or> unat m \<le> lo') \<and>
    freeLogs_loop m (map (\<lambda>i. (word_of_nat i, i)) [lo..<hi]) ml =
      (map (\<lambda>i. (word_of_nat i, i)) [lo'..<hi], ml |` (- {lo..<lo'}))"
  using assms(2)
proof (induction "hi - lo" arbitrary: lo ml)
  case 0
  then show ?case by (intro exI[of _ lo]) simp
next
  case (Suc d)
  then have lt: "lo < hi" and up: "[lo..<hi] = lo # [Suc lo..<hi]" by (auto simp: upt_rec)
  have u: "unat (word_of_nat lo :: u64) = lo" using lt assms(1) by (simp add: unat_of_nat)
  show ?case
  proof (cases "lo < unat m")
    case True
    obtain lo' where lo': "Suc lo \<le> lo'" "lo' \<le> hi" "lo' = Suc lo \<or> lo' \<le> unat m" "lo' = hi \<or> unat m \<le> lo'"
        "freeLogs_loop m (map (\<lambda>i. (word_of_nat i, i)) [Suc lo..<hi]) (ml(lo := None)) =
          (map (\<lambda>i. (word_of_nat i, i)) [lo'..<hi], (ml(lo := None)) |` (- {Suc lo..<lo'}))"
    proof -
      have "d = hi - Suc lo" "Suc lo \<le> hi" using Suc(2) lt by auto
      then show ?thesis using that Suc(1)[of "Suc lo" "ml(lo := None)"] by blast
    qed
    have "(ml(lo := None)) |` (- {Suc lo..<lo'}) = ml |` (- {lo..<lo'})"
      using lo'(1) by (auto simp: restrict_map_def fun_eq_iff)
    then show ?thesis using lo' True by (intro exI[of _ lo']) (auto simp: up word_less_nat_alt u)
  next
    case False
    then show ?thesis using lt by (intro exI[of _ lo]) (simp add: up word_less_nat_alt u)
  qed
qed

lemma unat_Suc_word: "Suc (unat (x :: u64)) < 2 ^ 64 \<Longrightarrow> unat (x + 1) = Suc (unat x)"
  using unat_add_lem[of x 1] by simp

lemma repl_invI: "logs_ok lo c s \<Longrightarrow>
    (\<And>j. j < length (workers s) \<Longrightarrow> worker_ok items lo (lim c (mlogAllocs s) j) (workers s ! j)) \<Longrightarrow> repl_inv items (c, s)"
  by (auto simp: repl_inv_def)

lemma logs_ok_upd [simp]: "logs_ok lo c (s\<lparr>workers := ws, sls := ls\<rparr>) = logs_ok lo c s"
  by (cases c) (simp_all add: logs_ok_def)

lemma repl_inv_cong:
  assumes "repl_inv items (c, s)" "logQueue s' = logQueue s" "doneCountCombiner s' = doneCountCombiner s"
    "mlogs s' = mlogs s" "mlogAllocs s' = mlogAllocs s" "workers s' = workers s"
  shows "repl_inv items (c, s')"
  using assms by (simp add: repl_inv_def logs_ok_def cong: combiner_pc.case_cong)

lemma repl_inv_combine:
  assumes inv: "repl_inv items (Between, s)" and c: "combineLogs threads s = (r, s')"
  shows "repl_inv items (case r of None \<Rightarrow> Between | Some l \<Rightarrow> Broadcasting l 0, s')"
proof (cases r)
  case None
  then show ?thesis using c by (auto intro!: repl_inv_cong[OF inv] simp: combineLogs_def Let_def split: if_splits prod.splits)
next
  case (Some l)
  then have s': "l = mlogAllocs s" "mlogAllocs s' = Suc l" "workers s' = workers s" "dom (mlogs s') = insert l (dom (mlogs s))"
      "logQueue s' = logQueue s @ [(doneCountCombiner s, l)]" "doneCountCombiner s' = doneCountCombiner s + 1"
    using c by (auto simp: combineLogs_def Let_def split: if_splits prod.splits)
  obtain lo where lo: "logs_ok lo Between s" "\<And>j. j < length (workers s) \<Longrightarrow> worker_ok items lo l (workers s ! j)"
    using inv by (auto simp: repl_inv_def lim_def s'(1))
  have "logs_ok lo (Broadcasting l 0) s'" using lo(1) by (auto simp: logs_ok_def s')
  then show ?thesis using lo(2) Some by (auto intro!: repl_invI simp: lim_def s')
qed

lemma repl_inv_free:
  assumes inv: "repl_inv items (Between, s)" and n: "mlogAllocs s < 2 ^ 64"
  shows "repl_inv items (Between, snd (freeMergedLogs force s))"
proof (cases "\<not> force \<and> length (logQueue s) < 100")
  case True
  then show ?thesis using inv by (simp add: freeMergedLogs_def)
next
  case False
  let ?m = "minDoneCount (workers s)"
  obtain lo where lo: "logs_ok lo Between s" "\<And>j. j < length (workers s) \<Longrightarrow> worker_ok items lo (mlogAllocs s) (workers s ! j)"
    using inv by (auto simp: repl_inv_def lim_def)
  obtain lo' where lo': "lo \<le> lo'" "lo' \<le> mlogAllocs s" "lo' = lo \<or> lo' \<le> unat ?m"
      "freeLogs_loop ?m (logQueue s) (mlogs s) = (map (\<lambda>i. (word_of_nat i, i)) [lo'..<mlogAllocs s], mlogs s |` (- {lo..<lo'}))"
    using freeLogs_loop_ok[OF n, of lo ?m "mlogs s"] lo(1) by (auto simp: logs_ok_def)
  have "unat ?m \<le> unat (logDoneCount (workers s ! j))" if "j < length (workers s)" for j
    using least_le[of logDoneCount "workers s" ULLONG_MAX] that by (simp add: minDoneCount_def word_le_nat_alt)
  then have "worker_ok items lo' (mlogAllocs s) (workers s ! j)" if "j < length (workers s)" for j
    using lo(2)[OF that] lo'(3) that by (fastforce simp: worker_ok_def)
  moreover have "logs_ok lo' Between (s\<lparr>logQueue := map (\<lambda>i. (word_of_nat i, i)) [lo'..<mlogAllocs s], mlogs := mlogs s |` (- {lo..<lo'})\<rparr>)"
    using lo(1) lo' by (auto simp: logs_ok_def)
  ultimately show ?thesis using False lo'(4)
    by (intro repl_invI[of lo']) (auto simp: freeMergedLogs_def lim_def Let_def)
qed

lemma repl_inv_new:
  assumes "items q0 = []"
  shows "repl_inv items (Between, system_new h q0 numa)"
  by (rule repl_invI[of 0]) (auto simp: logs_ok_def system_new_def worker_ok_def WorkerThread_new_def assms)

text \<open>A forced \<open>freeMergedLogs\<close> frees everything exactly if all workers have applied all logs.\<close>

lemma forced_free_iff:
  assumes "repl_inv items (Between, s)" "mlogAllocs s < 2 ^ 64"
  shows "mergedLogsToBeFreed (snd (freeMergedLogs True s)) \<longleftrightarrow> (\<forall>w \<in> set (workers s). unat (logDoneCount w) = mlogAllocs s)"
proof -
  let ?m = "minDoneCount (workers s)" and ?n = "mlogAllocs s"
  obtain lo where lo: "logs_ok lo Between s" "\<And>w. w \<in> set (workers s) \<Longrightarrow> worker_ok items lo ?n w"
    using assms(1) by (auto simp: repl_inv_def lim_def in_set_conv_nth)
  obtain lo' where lo': "lo' \<le> ?n" "lo' = lo \<or> lo' \<le> unat ?m" "lo' = ?n \<or> unat ?m \<le> lo'"
      "fst (freeLogs_loop ?m (logQueue s) (mlogs s)) = map (\<lambda>i. (word_of_nat i, i)) [lo'..<?n]"
  proof -
    have le: "lo \<le> ?n" and lq: "logQueue s = map (\<lambda>i. (word_of_nat i, i)) [lo..<?n]" using lo(1) by (simp_all add: logs_ok_def)
    obtain lo' where "lo' \<le> ?n" "lo' = lo \<or> lo' \<le> unat ?m" "lo' = ?n \<or> unat ?m \<le> lo'"
        "freeLogs_loop ?m (logQueue s) (mlogs s) = (map (\<lambda>i. (word_of_nat i, i)) [lo'..<?n], mlogs s |` (- {lo..<lo'}))"
      using freeLogs_loop_ok[OF assms(2) le, of ?m "mlogs s"] unfolding lq by blast
    then show ?thesis using that[of lo'] by simp
  qed
  have all: "mergedLogsToBeFreed (snd (freeMergedLogs True s)) \<longleftrightarrow> lo' = ?n"
    using lo'(1,4) by (auto simp: mergedLogsToBeFreed_def freeMergedLogs_def Let_def split: prod.splits)
  have le: "unat (logDoneCount w) \<le> ?n" "lo \<le> unat (logDoneCount w)" "?m \<le> logDoneCount w" if "w \<in> set (workers s)" for w
    using lo(2)[OF that] least_le[of logDoneCount "workers s" ULLONG_MAX] that
    by (auto simp: worker_ok_def minDoneCount_def)
  show ?thesis unfolding all
  proof
    assume "lo' = ?n"
    then show "\<forall>w \<in> set (workers s). unat (logDoneCount w) = ?n" using le lo'(2) by (fastforce simp: word_le_nat_alt)
  next
    assume a: "\<forall>w \<in> set (workers s). unat (logDoneCount w) = ?n"
    have "?m = ULLONG_MAX \<or> ?m \<in> logDoneCount ` set (workers s)" unfolding minDoneCount_def by (rule least_in)
    then have "?n \<le> unat ?m" using a assms(2) by (auto simp: unat_max_word)
    then show "lo' = ?n" using lo'(1,3) by linarith
  qed
qed

text \<open>A queue of merged logs.\<close>

locale log_queue = spsc_queue Q cap items
  for Q :: "(nat, 'q) spsc_ops" and cap :: nat and items :: "'q \<Rightarrow> nat list"
begin

lemma worker_ok_push:
  assumes "worker_ok items lo n w"
  shows "worker_ok items lo (Suc n) (w\<lparr>workQueue := snd (sp_push Q n (workQueue w))\<rparr>)"
  using assms push_cases[of n "workQueue w"] by (fastforce simp: worker_ok_def sorted_wrt_append)

lemma inv_push:
  assumes "repl_inv items (Broadcasting l i, s)" "i < length (workers s)"
  shows "repl_inv items (Broadcasting l (Suc i), pushLog Q l i s)"
proof -
  obtain lo where lo: "logs_ok lo (Broadcasting l i) s"
      "\<And>j. j < length (workers s) \<Longrightarrow> worker_ok items lo (lim (Broadcasting l i) (mlogAllocs s) j) (workers s ! j)"
    using assms(1) by (auto simp: repl_inv_def)
  have n: "mlogAllocs s = Suc l" using lo(1) by (simp add: logs_ok_def)
  have "worker_ok items lo (Suc l) ((workers s ! i)\<lparr>workQueue := snd (sp_push Q l (workQueue (workers s ! i)))\<rparr>)"
    using worker_ok_push lo(2)[OF assms(2)] by (simp add: lim_def n)
  then show ?thesis using lo assms(2)
    by (intro repl_invI[of lo]) (auto simp: pushLog_def Let_def logs_ok_def lim_def nth_list_update less_Suc_eq)
qed

lemma applied_worker:
  assumes "applyOperation Q keyAt ml w sl = Some (ret, w', sl')" "\<not> isWorkQueueEmpty Q w"
  shows "items (workQueue w') = tl (items (workQueue w))" "logDoneCount w' = logDoneCount w + 1" "items (workQueue w) \<noteq> []"
proof -
  show ne: "items (workQueue w) \<noteq> []" using assms(2) by (simp add: isWorkQueueEmpty_def avail)
  show "items (workQueue w') = tl (items (workQueue w))" "logDoneCount w' = logDoneCount w + 1"
    using assms(1) pop[OF ne] by (auto simp: applyOperation_def split: option.splits)
qed

lemma worker_ok_apply:
  assumes "applyOperation Q keyAt ml w sl = Some (ret, w', sl')" "\<not> isWorkQueueEmpty Q w"
    "worker_ok items lo hi w" "hi < 2 ^ 64"
  shows "worker_ok items lo hi w'"
proof -
  note w' = applied_worker[OF assms(1,2)]
  obtain x xs where xs: "items (workQueue w) = x # xs" using w'(3) by (cases "items (workQueue w)") auto
  have x: "unat (logDoneCount w) \<le> x" "x < hi" using assms(3) by (auto simp: worker_ok_def xs)
  then have "unat (logDoneCount w + 1) = Suc (unat (logDoneCount w))"
    using assms(4) by (intro unat_Suc_word) linarith
  then show ?thesis using assms(3) x by (fastforce simp: worker_ok_def xs w')
qed

lemma inv_step:
  assumes "rstep Q keyAt cs cs'" "repl_inv items cs" "mlogAllocs (snd cs) < 2 ^ 64"
  shows "repl_inv items cs'"
  using assms
proof (cases rule: rstep.cases)
  case (Log c s t o' k h p)
  then show ?thesis using assms(2) by (auto intro: repl_inv_cong)
next
  case (Combine threads s l s')
  then show ?thesis using repl_inv_combine[of items s threads "Some l"] assms(2) by simp
next
  case (CombineNone threads s s')
  then show ?thesis using repl_inv_combine[of items s threads None] assms(2) by simp
next
  case (Push i s l)
  then show ?thesis using inv_push assms(2) by simp
next
  case (Pushed l s)
  then show ?thesis using assms(2) by (auto simp: repl_inv_def logs_ok_def lim_def)
next
  case (Free s force)
  then show ?thesis using repl_inv_free assms(2,3) by simp
next
  case (Apply i s n ret w' sl' c)
  have "lim c (mlogAllocs s) j < 2 ^ 64" for j
    using assms(3) Apply(1) by (auto simp: lim_def split: combiner_pc.splits)
  then have "worker_ok items lo (lim c (mlogAllocs s) j) (((workers s)[i := w']) ! j)"
    if "j < length (workers s)" "worker_ok items lo (lim c (mlogAllocs s) j) (workers s ! j)" for lo j
    using that worker_ok_apply[OF Apply(7,6)] by (cases "j = i") auto
  moreover obtain lo where "logs_ok lo c s" "\<And>j. j < length (workers s) \<Longrightarrow> worker_ok items lo (lim c (mlogAllocs s) j) (workers s ! j)"
    using assms(2) Apply(1) by (auto simp: repl_inv_def)
  ultimately show ?thesis unfolding Apply(2) by (intro repl_invI[of lo]) simp_all
qed

lemma allocs_mono: "rstep Q keyAt cs cs' \<Longrightarrow> mlogAllocs (snd cs) \<le> mlogAllocs (snd cs') \<and> length (workers (snd cs')) = length (workers (snd cs))"
  by (induction rule: rstep.induct)
    (auto simp: combineLogs_def pushLog_def freeMergedLogs_def Let_def split: if_splits prod.splits)

lemma allocs_reach: "(rstep Q keyAt)\<^sup>*\<^sup>* cs cs' \<Longrightarrow> mlogAllocs (snd cs) \<le> mlogAllocs (snd cs')"
  by (induction rule: rtranclp_induct) (auto dest: allocs_mono)

lemma inv_reach:
  assumes "(rstep Q keyAt)\<^sup>*\<^sup>* cs cs'" "repl_inv items cs" "mlogAllocs (snd cs') < 2 ^ 64"
  shows "repl_inv items cs'"
  using assms
proof (induction rule: rtranclp_induct)
  case (step cs1 cs2)
  then show ?case using allocs_mono[OF step(2)] inv_step[OF step(2)] by auto
qed simp

text \<open>A worker that missed a log never catches up.\<close>

definition behind :: "nat \<Rightarrow> combiner_pc \<times> 'q system \<Rightarrow> bool" where
  "behind j cs \<longleftrightarrow> (let w = workers (snd cs) ! j in j < length (workers (snd cs)) \<and>
     unat (logDoneCount w) + length (items (workQueue w)) < lim (fst cs) (mlogAllocs (snd cs)) j)"

lemma behind_step:
  assumes "rstep Q keyAt cs cs'" "repl_inv items cs" "mlogAllocs (snd cs) < 2 ^ 64" "behind j cs"
  shows "behind j cs'"
  using assms
proof (cases rule: rstep.cases)
  case (Push i s l)
  then show ?thesis using assms(2,4) push_cases[of l "workQueue (workers s ! j)"]
    by (auto simp: behind_def pushLog_def Let_def lim_def repl_inv_def logs_ok_def nth_list_update)
next
  case (Apply i s n ret w' sl' c)
  note w' = applied_worker[OF Apply(7,6)]
  have "unat (logDoneCount w') + length (items (workQueue w')) = unat (logDoneCount (workers s ! j)) + length (items (workQueue (workers s ! j)))"
    if "i = j"
  proof -
    have "lim c (mlogAllocs s) j < 2 ^ 64" using assms(3) Apply(1) by (auto simp: lim_def split: combiner_pc.splits)
    then have "Suc (unat (logDoneCount (workers s ! j))) < 2 ^ 64"
      using assms(4) w'(3) that Apply(1) by (cases "items (workQueue (workers s ! j))") (auto simp: behind_def Let_def)
    then show ?thesis using w' that unat_Suc_word by (cases "items (workQueue (workers s ! j))") auto
  qed
  then show ?thesis using assms(4) Apply(1,2,3) by (cases "i = j") (auto simp: behind_def Let_def)
next
  case (Free s force)
  then show ?thesis using assms(4) by (auto simp: behind_def freeMergedLogs_def Let_def split: prod.splits)
qed (use assms(4) in \<open>auto simp: behind_def Let_def lim_def combineLogs_def split: if_splits prod.splits\<close>)

lemma behind_reach:
  assumes "(rstep Q keyAt)\<^sup>*\<^sup>* cs cs'" "repl_inv items cs" "mlogAllocs (snd cs') < 2 ^ 64" "behind j cs"
  shows "behind j cs'"
  using assms
proof (induction rule: rtranclp_induct)
  case (step cs1 cs2)
  then show ?case using allocs_mono[OF step(2)] inv_reach[OF step(1)] behind_step[OF step(2)] by auto
qed simp

end

end
