(* ===== verification/ReplicationTheorems.thy ===== *)
theory ReplicationTheorems
  imports Replication ListTheorems
begin

text \<open>
  What the replication of the data list promises: no logged change is lost or duplicated by the
  combiner, no worker reads a merged log that has been freed, and a search layer that applies the
  changes in their order holds the anchors of the list. The order is the weak point: merged logs
  are sorted by the addresses of their entries.
\<close>

section \<open>Applying a log\<close>

text \<open>
  A log that fits the anchors \<open>m\<close>: it inserts keys that are not there and removes pointers that
  are, and every pointer leads to memory that starts with the key.
\<close>

fun log_ok :: "(u64 \<Rightarrow> Key_t) \<Rightarrow> u8 \<Rightarrow> (Key_t \<rightharpoonup> addr) \<Rightarrow> Key_t OpPtr list \<Rightarrow> bool" where
  "log_ok keyAt h m [] \<longleftrightarrow> True"
| "log_ok keyAt h m (p # ps) \<longleftrightarrow> (let e = snd p in hash e = h \<and> listNodePtr e < 2 ^ 63 \<and>
     keyAt (word_of_nat (listNodePtr e)) = key e \<and>
     m (key e) = (case op e of OpInsert \<Rightarrow> None | OpRemove \<Rightarrow> Some (listNodePtr e)) \<and> log_ok keyAt h (replay e m) ps)"

definition removals :: "Key_t OpPtr list \<Rightarrow> addr list" where
  "removals ps = map (listNodePtr \<circ> snd) (filter (\<lambda>p. op (snd p) = OpRemove) ps)"

lemma removals_simps [simp]: "removals [] = []"
  "removals (p # ps) = (if op (snd p) = OpRemove then listNodePtr (snd p) # removals ps else removals ps)"
  by (simp_all add: removals_def)

lemma word_of_addr_less: "p < 2 ^ 63 \<Longrightarrow> (word_of_nat p :: u64) < 2 ^ 63"
  by (simp add: word_less_nat_alt unat_of_nat)

lemma apply_ops_ok:
  assumes "sl_inv keyAt sl" "sl_counted sl" "sl_map keyAt sl = map_option word_of_nat \<circ> m" "log_ok keyAt h m ps"
  shows "\<exists>sl' cnt'. apply_ops keyAt i h c ps (sl, fq, cnt, ret) =
      Some (sl', fq @ (if i = 0 then map (Pair c) (removals ps) else []), cnt', ret \<or> i = 0 \<and> removals ps \<noteq> []) \<and>
    sl_inv keyAt sl' \<and> sl_counted sl' \<and> sl_map keyAt sl' = map_option word_of_nat \<circ> fold (replay \<circ> snd) ps m"
  using assms
proof (induction ps arbitrary: sl m fq cnt ret)
  case Nil
  then show ?case by simp
next
  case (Cons p ps)
  define e where "e = snd p"
  have e: "hash e = h" "listNodePtr e < 2 ^ 63" "keyAt (word_of_nat (listNodePtr e)) = key e"
      "m (key e) = (case op e of OpInsert \<Rightarrow> None | OpRemove \<Rightarrow> Some (listNodePtr e))" "log_ok keyAt h (replay e m) ps"
    using Cons.prems(4) unfolding e_def log_ok.simps Let_def by blast+
  show ?case
  proof (cases "op e")
    case OpInsert
    obtain sl' where sl': "SL_insert keyAt (key e) (word_of_nat (listNodePtr e)) sl = Some sl'" "sl_inv keyAt sl'"
        "sl_map keyAt sl' = (sl_map keyAt sl)(key e \<mapsto> word_of_nat (listNodePtr e))" "sl_counted sl'"
      using SL_insert_ok[OF Cons.prems(1) e(3) word_of_addr_less[OF e(2)]] Cons.prems(2,3) e(4) OpInsert by auto
    have "sl_map keyAt sl' = map_option word_of_nat \<circ> replay e m"
      using sl'(3) Cons.prems(3) OpInsert by (auto simp: replay_def)
    from Cons.IH[OF sl'(2,4) this e(5), of fq "cnt + 1" ret] show ?thesis
      using OpInsert sl'(1) e(1) by (cases "i = 0") (simp_all add: e_def[symmetric])
  next
    case OpRemove
    obtain sl' where sl': "SL_remove (key e) (word_of_nat (listNodePtr e)) sl = Some sl'" "sl_inv keyAt sl'"
        "sl_map keyAt sl' = (sl_map keyAt sl)(key e := None)" "sl_counted sl'"
      using SL_remove_ok[OF Cons.prems(1) e(3)] Cons.prems(2,3) e(4) OpRemove by auto
    have "sl_map keyAt sl' = map_option word_of_nat \<circ> replay e m"
      using sl'(3) Cons.prems(3) OpRemove by (auto simp: replay_def)
    note IH = Cons.IH[OF sl'(2,4) this e(5)]
    show ?thesis using IH[of "fq @ [(c, listNodePtr e)]" "cnt + 1" True] IH[of fq "cnt + 1" ret] OpRemove sl'(1) e(1)
      by (cases "i = 0") (simp_all add: e_def[symmetric])
  qed
qed

text \<open>
  A bounded queue as a list, what the properties are tried on; \<open>Oplog.cpp\<close> asks for a capacity of
  10000.
\<close>

definition list_spsc :: "nat \<Rightarrow> ('a, 'a list) spsc_ops" where
  "list_spsc n = \<lparr>sp_push = (\<lambda>x q. if length q < n then (True, q @ [x]) else (False, q)), sp_front = hd, sp_pop = tl, sp_avail = length\<rparr>"

interpretation listq: spsc_queue "list_spsc n" n "\<lambda>q. q" for n
  by unfold_locales (auto simp: list_spsc_def)

interpretation listlogq: log_queue "list_spsc n" n "\<lambda>q. q" for n
  by unfold_locales

section \<open>Properties\<close>

text \<open>C26. One round of \<open>combineLogs\<close> over the logs of all threads takes every entry of the queues that
  were being filled exactly once into the merged log, which is in the order of the addresses of
  its entries; it empties these queues, leaves the other queues alone and makes threads fill those.
  There is no merged log exactly if there was no entry.\<close>

theorem combineLogs_correct:
  assumes "distinct threads" "set threads = dom (oplogs (heap s))" "combineLogs threads s = (r, s')"
  shows "(case r of None \<Rightarrow> (\<forall>t. getQ (fillQ (heap s)) (getOpLog t (heap s)) = []) \<and> mlogs s' = mlogs s
      | Some l \<Rightarrow> \<exists>log. mlogs s' = (mlogs s)(l \<mapsto> log) \<and> log \<noteq> [] \<and> sorted (map fst log) \<and>
          mset log = (\<Sum>t \<in> set threads. mset (getQ (fillQ (heap s)) (getOpLog t (heap s))))) \<and>
    (\<forall>t. getQ (fillQ (heap s)) (getOpLog t (heap s')) = []) \<and>
    (\<forall>t. getQ (1 - fillQ (heap s)) (getOpLog t (heap s')) = getQ (1 - fillQ (heap s)) (getOpLog t (heap s))) \<and>
    fillQ (heap s') = 1 - fillQ (heap s)"
proof -
  let ?f = "\<lambda>t. getQ (fillQ (heap s)) (getOpLog t (heap s))"
  have new: "getQ q (getOpLog t (heap s)) = []" if "t \<notin> set threads" for t q
    using that assms(2) by (auto simp: getOpLog_def dom_def getQ_def Oplog_new_def)
  have "mset (concat (map ?f threads)) = (\<Sum>t \<in> set threads. mset (?f t))"
    using assms(1) by (induction threads) auto
  moreover have "concat (map ?f threads) = [] \<longleftrightarrow> (\<forall>t. ?f t = [])" using new by auto
  moreover note c = combineLogs_ok[OF assms(1,3)]
  moreover have "getQ (fillQ (heap s)) (getOpLog t (heap s')) = []" for t using c new[of t] by simp
  moreover have "fillQ (heap s') = 1 - fillQ (heap s)" using c by (intro fillQ_flip) blast
  ultimately show ?thesis by (cases r) (simp_all only: option.case mset_sort sorted_sort_key, auto)
qed

text \<open>A thread that logs an insertion and then a removal; the second entry gets the lower address.\<close>

definition demo_heap :: hstate where
  "demo_heap = enqPerThreadLog 0 OpRemove 5 0 7 (enqPerThreadLog 0 OpInsert 5 0 7 (boot\<lparr>opmalloc := (\<lambda>i. 100 - i)\<rparr>))"

definition demo_ins :: "Key_t OpPtr" where
  "demo_ins = (100, mk_op OpInsert 5 0 7 0)"

definition demo_rem :: "Key_t OpPtr" where
  "demo_rem = (99, mk_op OpRemove 5 0 7 1)"

definition demo_sys :: "nat list system" where
  "demo_sys = system_new demo_heap [] 1"

definition demo_sys' :: "nat list system" where
  "demo_sys' = snd (combineLogs [0] demo_sys)"

lemma demo_log: "getQ (fillQ (heap demo_sys)) (getOpLog 0 (heap demo_sys)) = [demo_ins, demo_rem]"
    "set [0] = dom (oplogs (heap demo_sys))"
  by (auto simp: demo_sys_def system_new_def demo_heap_def boot_def enqPerThreadLog_def ordo_get_clock_def Let_def
    getOpLog_def fillQ_def enq_def getQ_def setQ_def Oplog_new_def demo_ins_def demo_rem_def mk_op_def split: if_splits)

lemma demo_combine: "combineLogs [0] demo_sys = (Some 0, demo_sys')" "mlogs demo_sys' = [0 \<mapsto> [demo_rem, demo_ins]]"
proof -
  have "mlogAllocs demo_sys = 0" "mlogs demo_sys = Map.empty" by (simp_all add: demo_sys_def system_new_def)
  moreover obtain r s' where c: "combineLogs [0] demo_sys = (r, s')" by fastforce
  moreover have "sort_key fst [demo_ins, demo_rem] = [demo_rem, demo_ins]" by (simp add: demo_ins_def demo_rem_def)
  moreover have "r = Some 0"
  proof (cases r)
    case None
    then show ?thesis using combineLogs_ok[OF _ c] demo_log(1) by simp
  next
    case (Some l)
    then show ?thesis using combineLogs_id[OF c[unfolded Some]] calculation(1) by simp
  qed
  ultimately show "combineLogs [0] demo_sys = (Some 0, demo_sys')" "mlogs demo_sys' = [0 \<mapsto> [demo_rem, demo_ins]]"
    using combineLogs_ok[OF _ c] demo_log(1) by (simp_all add: demo_sys'_def)
qed

theorem combineLogs_correct_witness:
  "distinct [0::nat] \<and> set [0] = dom (oplogs (heap demo_sys)) \<and> combineLogs [0] demo_sys = (Some 0, demo_sys') \<and>
   mset (the (mlogs demo_sys' 0)) = {#demo_ins, demo_rem#} \<and> fillQ (heap demo_sys') = 1 - fillQ (heap demo_sys)"
  using combineLogs_correct[OF _ demo_log(2) demo_combine(1)] demo_combine demo_log by auto

text \<open>C27. In whatever order the threads take their steps, a merged log in the queue of a worker has not
  been freed, as long as fewer than \<open>2^64\<close> merged logs are built: a worker never reads freed memory.\<close>

theorem merged_log_alive:
  assumes "spsc_queue Q cap items" "items q0 = []"
    "(rstep Q keyAt)\<^sup>*\<^sup>* (Between, system_new h q0 numa) (c, s)" "mlogAllocs s < 2 ^ 64" "w \<in> set (workers s)"
  shows "set (items (workQueue w)) \<subseteq> dom (mlogs s) \<and>
    (\<not> isWorkQueueEmpty Q w \<longrightarrow> mlogs s (sp_front Q (workQueue w)) \<noteq> None)"
proof -
  have q: "log_queue Q cap items" using assms(1) by (simp add: log_queue_def)
  have "repl_inv items (c, s)" using log_queue.inv_reach[OF q assms(3) repl_inv_new[of items, OF assms(2)]] assms(4) by simp
  then obtain lo j where "logs_ok lo c s" "worker_ok items lo (lim c (mlogAllocs s) j) w"
    using assms(5) by (auto simp: repl_inv_def in_set_conv_nth)
  then have "set (items (workQueue w)) \<subseteq> {lo..<mlogAllocs s}" "dom (mlogs s) = {lo..<mlogAllocs s}"
    using lim_le[of c "mlogAllocs s" j] by (force simp: logs_ok_def worker_ok_def)+
  then have "set (items (workQueue w)) \<subseteq> dom (mlogs s)" by simp
  moreover have "sp_front Q (workQueue w) \<in> set (items (workQueue w))" if "\<not> isWorkQueueEmpty Q w"
    using that spsc_queue.front[OF assms(1)] spsc_queue.avail[OF assms(1)] by (auto simp: isWorkQueueEmpty_def)
  ultimately show ?thesis by blast
qed

definition demo_pushed :: "nat \<Rightarrow> nat list system" where
  "demo_pushed n = pushLog (list_spsc n) 0 0 demo_sys'"

lemma demo_sys'_sel: "length (workers demo_sys') = 1" "mlogAllocs demo_sys' = 1" "workers demo_sys' = workers demo_sys"
proof -
  show w: "workers demo_sys' = workers demo_sys" and "mlogAllocs demo_sys' = 1" using combineLogs_id[OF demo_combine(1)] by auto
  show "length (workers demo_sys') = 1" unfolding w by (simp add: demo_sys_def system_new_def WORKER_THREAD_PER_NUMA_def)
qed

lemma demo_run: "(rstep (list_spsc n) keyAt)\<^sup>*\<^sup>* (Between, demo_sys) (Broadcasting 0 1, demo_pushed n)"
proof -
  have "rstep (list_spsc n) keyAt (Between, demo_sys) (Broadcasting 0 0, demo_sys')"
    using demo_combine(1) demo_log(2) by (intro rstep.Combine[of "[0]"]) auto
  moreover have "rstep (list_spsc n) keyAt (Broadcasting 0 0, demo_sys') (Broadcasting 0 1, demo_pushed n)"
    using rstep.Push[of 0 demo_sys' "list_spsc n" keyAt 0] by (simp add: demo_pushed_def demo_sys'_sel(1))
  ultimately show ?thesis by simp
qed

lemma demo_pushed_sel: "workers (demo_pushed n) = [(WorkerThread_new [] 0 1)\<lparr>workQueue := if 0 < n then [0] else []\<rparr>]"
    "mlogAllocs (demo_pushed n) = 1" "mlogs (demo_pushed n) = mlogs demo_sys'" "heap (demo_pushed n) = heap demo_sys'"
  using demo_sys'_sel
  by (simp_all add: demo_pushed_def pushLog_def Let_def demo_sys_def system_new_def WorkerThread_new_def list_spsc_def
    WORKER_THREAD_PER_NUMA_def)

lemma demo_run_done: "(rstep (list_spsc n) keyAt)\<^sup>*\<^sup>* (Between, demo_sys) (Between, demo_pushed n)"
proof -
  have "rstep (list_spsc n) keyAt (Broadcasting 0 1, demo_pushed n) (Between, demo_pushed n)"
    using rstep.Pushed[of _ _ 0 "demo_pushed n"] by (simp add: demo_pushed_sel)
  then show ?thesis using demo_run by (rule rtranclp.rtrancl_into_rtrancl[rotated])
qed

theorem merged_log_alive_witness:
  "hd (workers (demo_pushed 10000)) \<in> set (workers (demo_pushed 10000)) \<and> workQueue (hd (workers (demo_pushed 10000))) = [0] \<and>
   mlogs (demo_pushed 10000) (hd (workQueue (hd (workers (demo_pushed 10000))))) \<noteq> None"
  using merged_log_alive[OF listq.spsc_queue_axioms _ demo_run[unfolded demo_sys_def], of 10000 "hd (workers (demo_pushed 10000))"]
  by (simp add: demo_pushed_sel isWorkQueueEmpty_def list_spsc_def)

text \<open>C28. At shutdown the combiner frees merged logs by force until none is left. One round is enough if
  every worker has applied all logs, and only then is one round enough.\<close>

theorem shutdown_frees_iff:
  assumes "spsc_queue Q cap items" "items q0 = []"
    "(rstep Q keyAt)\<^sup>*\<^sup>* (Between, system_new h q0 numa) (Between, s)" "mlogAllocs s < 2 ^ 64"
  shows "mergedLogsToBeFreed (snd (freeMergedLogs True s)) \<longleftrightarrow> (\<forall>w \<in> set (workers s). unat (logDoneCount w) = mlogAllocs s)"
proof -
  have q: "log_queue Q cap items" using assms(1) by (simp add: log_queue_def)
  show ?thesis using forced_free_iff log_queue.inv_reach[OF q assms(3) repl_inv_new[of items, OF assms(2)]] assms(4) by simp
qed

theorem shutdown_frees_iff_witness:
  "(rstep (list_spsc 10000) id)\<^sup>*\<^sup>* (Between, system_new demo_heap [] 1) (Between, demo_pushed 10000) \<and>
   \<not> mergedLogsToBeFreed (snd (freeMergedLogs True (demo_pushed 10000)))"
  using shutdown_frees_iff[OF listq.spsc_queue_axioms _ demo_run_done[unfolded demo_sys_def], of 10000]
    demo_run_done[of 10000 id] by (simp add: demo_pushed_sel WorkerThread_new_def demo_sys_def)

text \<open>C29. A push to a full queue is refused and \<open>broadcastMergedLog\<close> does not look: a worker that missed a
  log stays behind whatever happens later, and the loop that frees the merged logs at shutdown
  never finds them all freed.\<close>

theorem lost_log_blocks_shutdown:
  assumes "spsc_queue Q cap items" "items q0 = []"
    "(rstep Q keyAt)\<^sup>*\<^sup>* (Between, system_new h q0 numa) (Between, s)"
    "j < length (workers s)"
    "unat (logDoneCount (workers s ! j)) + length (items (workQueue (workers s ! j))) < mlogAllocs s"
    "(rstep Q keyAt)\<^sup>*\<^sup>* (Between, s) (Between, s')" "mlogAllocs s' < 2 ^ 64"
  shows "\<not> mergedLogsToBeFreed (snd (freeMergedLogs True s'))"
proof -
  have q: "log_queue Q cap items" using assms(1) by (simp add: log_queue_def)
  note reach = log_queue.inv_reach[OF q]
  have n: "mlogAllocs s < 2 ^ 64" using log_queue.allocs_reach[OF q assms(6)] assms(7) by simp
  have inv: "repl_inv items (Between, s)" using reach[OF assms(3) repl_inv_new[of items, OF assms(2)]] n by simp
  have "log_queue.behind items j (Between, s)"
    using assms(4,5) by (simp add: log_queue.behind_def[OF q] Let_def lim_def)
  then have "log_queue.behind items j (Between, s')" using log_queue.behind_reach[OF q assms(6) inv] assms(7) by simp
  then have "j < length (workers s')" "unat (logDoneCount (workers s' ! j)) < mlogAllocs s'"
    by (simp_all add: log_queue.behind_def[OF q] Let_def lim_def)
  moreover have "repl_inv items (Between, s')" using reach[OF assms(6) inv] assms(7) by simp
  ultimately show ?thesis using forced_free_iff[OF _ assms(7), of items] nth_mem[of j "workers s'"] by auto
qed

lemma enq_nonempty:
  "getQ (fillQ (enqPerThreadLog t o' k h p s)) (getOpLog t (enqPerThreadLog t o' k h p s)) \<noteq> []"
  "dom (oplogs (enqPerThreadLog t o' k h p s)) = insert t (dom (oplogs s))"
  by (simp_all add: fillQ_def enqPerThreadLog_def ordo_get_clock_def Let_def getOpLog_def enq_def)

text \<open>A queue with room for one log only, and a second round of the combiner.\<close>

definition demo_full :: "nat list system" where
  "demo_full = (demo_pushed 1)\<lparr>heap := enqPerThreadLog 0 OpInsert 6 0 8 (heap (demo_pushed 1))\<rparr>"

lemma demo_full_run: "\<exists>s. (rstep (list_spsc 1) keyAt)\<^sup>*\<^sup>* (Between, demo_sys) (Between, s) \<and> mlogAllocs s = 2 \<and>
    workers s = workers (demo_pushed 1)"
proof -
  have d: "dom (oplogs (heap demo_full)) = {0}"
    using demo_log(2) by (auto simp: demo_full_def enq_nonempty demo_pushed_sel demo_sys'_def combineLogs_def Let_def drainLog_def split: prod.splits)
  obtain r s1 where c: "combineLogs [0] demo_full = (r, s1)" by fastforce
  have ne: "getQ (fillQ (heap demo_full)) (getOpLog 0 (heap demo_full)) \<noteq> []" by (simp add: demo_full_def enq_nonempty)
  have r: "r = Some 1" using combineLogs_ok[OF _ c] ne combineLogs_id[of "[0]" demo_full _ s1] c
    by (cases r) (auto simp: demo_full_def demo_pushed_sel)
  have s1: "mlogAllocs s1 = 2" "workers s1 = workers (demo_pushed 1)"
    using combineLogs_id[OF c[unfolded r]] by (auto simp: demo_full_def)
  have same: "pushLog (list_spsc 1) 1 0 s1 = s1" by (simp add: pushLog_def Let_def s1 demo_pushed_sel list_spsc_def)
  have "rstep (list_spsc 1) keyAt (Between, demo_pushed 1) (Between, demo_full)" unfolding demo_full_def by (rule rstep.Log)
  moreover have "rstep (list_spsc 1) keyAt (Between, demo_full) (Broadcasting 1 0, s1)"
    using c r d by (intro rstep.Combine[of "[0]"]) auto
  moreover have "rstep (list_spsc 1) keyAt (Broadcasting 1 0, s1) (Broadcasting 1 1, s1)"
    using rstep.Push[of 0 s1 "list_spsc 1" keyAt 1] same by (simp add: s1 demo_pushed_sel)
  moreover have "rstep (list_spsc 1) keyAt (Broadcasting 1 1, s1) (Between, s1)"
    using rstep.Pushed[of _ _ 1 s1] by (simp add: s1 demo_pushed_sel)
  ultimately have "(rstep (list_spsc 1) keyAt)\<^sup>*\<^sup>* (Between, demo_sys) (Between, s1)"
    using demo_run_done[of 1 keyAt] by (meson rtranclp.rtrancl_into_rtrancl)
  then show ?thesis using s1 by blast
qed

theorem lost_log_blocks_shutdown_witness:
  "\<exists>s. (rstep (list_spsc 1) id)\<^sup>*\<^sup>* (Between, system_new demo_heap [] 1) (Between, s) \<and>
     \<not> mergedLogsToBeFreed (snd (freeMergedLogs True s))"
proof -
  obtain s where s: "(rstep (list_spsc 1) id)\<^sup>*\<^sup>* (Between, demo_sys) (Between, s)" "mlogAllocs s = 2" "workers s = workers (demo_pushed 1)"
    using demo_full_run by blast
  then show ?thesis
    using lost_log_blocks_shutdown[OF listq.spsc_queue_axioms _ s(1)[unfolded demo_sys_def], of 0 s]
    by (auto simp: demo_pushed_sel WorkerThread_new_def demo_sys_def)
qed

text \<open>C25. A worker whose search layer holds the anchors \<open>m\<close> and whose next merged log fits them applies
  the log without fault: afterwards the search layer is well formed, counts its leaves and holds
  the anchors after all changes of the log. The log leaves the queue, the worker counts it as done,
  and the first worker, and no other, remembers the removed nodes with the number of the log and
  says that there were any.\<close>

theorem applyOperation_correct:
  assumes "spsc_queue Q cap items" "items (workQueue w) = l # ls" "ml l = Some log"
    "log_ok keyAt (word_of_nat (workerThreadId w div activeNuma w)) m log"
    "sl_inv keyAt sl" "sl_counted sl" "sl_map keyAt sl = map_option word_of_nat \<circ> m"
  shows "\<exists>w' sl'. applyOperation Q keyAt ml w sl = Some (workerThreadId w = 0 \<and> removals log \<noteq> [], w', sl') \<and>
    sl_inv keyAt sl' \<and> sl_counted sl' \<and> sl_map keyAt sl' = map_option word_of_nat \<circ> fold (replay \<circ> snd) log m \<and>
    items (workQueue w') = ls \<and> logDoneCount w' = logDoneCount w + 1 \<and>
    freeQueue w' = freeQueue w @ (if workerThreadId w = 0 then map (Pair (logDoneCount w)) (removals log) else [])"
proof -
  have "sp_front Q (workQueue w) = l" "items (sp_pop Q (workQueue w)) = ls"
    using spsc_queue.front[OF assms(1), of "workQueue w"] spsc_queue.pop[OF assms(1), of "workQueue w"] assms(2) by simp_all
  moreover obtain sl' cnt' where "apply_ops keyAt (workerThreadId w) (word_of_nat (workerThreadId w div activeNuma w)) (logDoneCount w) log
        (sl, freeQueue w, opcount w, False) =
      Some (sl', freeQueue w @ (if workerThreadId w = 0 then map (Pair (logDoneCount w)) (removals log) else []), cnt',
        workerThreadId w = 0 \<and> removals log \<noteq> [])"
      "sl_inv keyAt sl'" "sl_counted sl'" "sl_map keyAt sl' = map_option word_of_nat \<circ> fold (replay \<circ> snd) log m"
    using apply_ops_ok[OF assms(5,6,7,4), of "workerThreadId w" "logDoneCount w" "freeQueue w" "opcount w" False] by auto
  ultimately show ?thesis using assms(3) by (simp add: applyOperation_def)
qed

theorem applyOperation_correct_witness:
  "\<exists>w' sl'. applyOperation (list_spsc 10000) (\<lambda>_. 5) [0 \<mapsto> [demo_ins, demo_rem]]
       ((WorkerThread_new [] 0 1)\<lparr>workQueue := [0]\<rparr>) SL_new = Some (True, w', sl') \<and>
     sl_map (\<lambda>_. 5) sl' = Map.empty \<and> freeQueue w' = [(0, 7)] \<and> logDoneCount w' = 1"
proof -
  have ok: "log_ok (\<lambda>_. 5) 0 Map.empty [demo_ins, demo_rem]"
    by (simp add: demo_ins_def demo_rem_def mk_op_def replay_def Let_def)
  have f: "fold (replay \<circ> snd) [demo_ins, demo_rem] Map.empty = Map.empty"
    by (simp add: demo_ins_def demo_rem_def mk_op_def replay_def fun_eq_iff)
  show ?thesis
    using applyOperation_correct[OF listq.spsc_queue_axioms, of "(WorkerThread_new [] 0 1)\<lparr>workQueue := [0]\<rparr>" 0 "[]"
        "[0 \<mapsto> [demo_ins, demo_rem]]" "[demo_ins, demo_rem]" "\<lambda>_. 5" Map.empty SL_new 10000] ok SL_new_ok[of "\<lambda>_. 5"]
    unfolding f by (auto simp: WorkerThread_new_def demo_ins_def demo_rem_def mk_op_def comp_def)
qed

text \<open>C30. The merged log is in the order of the addresses of its entries and not of their time stamps.
  When a thread logs the insertion of a node and later its removal, and the entry of the removal
  lies at the lower address, a search layer that applies the merged log keeps a pointer to the
  removed node, although the changes in their order leave none.\<close>

theorem combineLogs_reorders:
  assumes "getQ (fillQ (heap s)) (getOpLog t (heap s)) = [(a1, mk_op OpInsert k h p c1), (a2, mk_op OpRemove k h p c2)]"
    "c1 < c2" "a2 < a1" "keyAt (word_of_nat p) = k" "p < 2 ^ 63" "sl_inv keyAt sl" "sl_map keyAt sl k = None" "m k = None"
  shows "\<exists>l s' sl' st. combineLogs [t] s = (Some l, s') \<and>
    apply_ops keyAt i 0 c (the (mlogs s' l)) (sl, fq, cnt, ret) = Some (sl', st) \<and>
    sl_map keyAt sl' k = Some (word_of_nat p) \<and>
    fold (replay \<circ> snd) (getQ (fillQ (heap s)) (getOpLog t (heap s))) m k = None"
proof -
  obtain r s' where c: "combineLogs [t] s = (r, s')" by fastforce
  have srt: "sort_key fst [(a1, mk_op OpInsert k h p c1), (a2, mk_op OpRemove k h p c2)] =
      [(a2, mk_op OpRemove k h p c2), (a1, mk_op OpInsert k h p c1)]"
    using assms(3) by simp
  obtain l where l: "r = Some l" "mlogs s' l = Some [(a2, mk_op OpRemove k h p c2), (a1, mk_op OpInsert k h p c1)]"
    using combineLogs_ok[OF _ c] assms(1) srt by (cases r) auto
  obtain sl1 where sl1: "SL_remove k (word_of_nat p) sl = Some sl1" "sl_inv keyAt sl1" "sl_map keyAt sl1 k = None"
    using SL_remove_ok[OF assms(6,4)] assms(7) by auto
  obtain sl2 where sl2: "SL_insert keyAt k (word_of_nat p) sl1 = Some sl2" "sl_map keyAt sl2 k = Some (word_of_nat p)"
    using SL_insert_ok[OF sl1(2) assms(4) word_of_addr_less[OF assms(5)]] by auto
  have "hash (mk_op o' k h p c) = 0" for o' c by (simp add: mk_op_def WORKER_THREAD_PER_NUMA_def)
  then show ?thesis using c l sl1 sl2 assms(1) by (auto simp: replay_def)
qed

theorem combineLogs_reorders_witness:
  "\<exists>sl' st. apply_ops (\<lambda>_. 5) 0 0 0 (the (mlogs demo_sys' 0)) (SL_new, [], 0, False) = Some (sl', st) \<and>
     sl_map (\<lambda>_. 5) sl' 5 = Some 7"
  using combineLogs_reorders[of demo_sys 0 100 5 0 7 0 99 1 "\<lambda>_. 5" SL_new Map.empty 0 0 "[]" 0 False]
    demo_log(1) demo_combine(1) SL_new_ok[of "\<lambda>_. 5"] by (auto simp: demo_ins_def demo_rem_def)

end
