(* ===== verification/ThreadLoops.thy ===== *)
theory ThreadLoops
  imports ReplicationTheorems
begin

text \<open>
  The loops of the background threads, \<open>workerThreadExec\<close> and \<open>combinerThreadExec\<close> of
  \<open>HydraList.cpp\<close>: what they do in a round and when they are stopped.
\<close>

section \<open>Definitions\<close>

text \<open>The shared state with the two variables by which the removal of nodes is announced.\<close>

record 'q run =
  sys :: "'q system"
  g_removeDetected :: bool
  g_removeCount :: u64

definition applyAt :: "(nat, 'q) spsc_ops \<Rightarrow> (u64 \<Rightarrow> Key_t) \<Rightarrow> nat \<Rightarrow> 'q system \<Rightarrow> (bool \<times> 'q system) option" where
  "applyAt Q keyAt i s =
     (let w = workers s ! i; n = workerThreadId w mod activeNuma w in
      case applyOperation Q keyAt (mlogs s) w (sls s ! n) of
        None \<Rightarrow> None
      | Some (ret, w', sl') \<Rightarrow> Some (ret, s\<lparr>workers := (workers s)[i := w'], sls := (sls s)[n := sl']\<rparr>))"

text \<open>
  The loop that empties the work queue. Only after the combiner has stopped does a worker look at
  the result of \<open>applyOperation\<close>.
\<close>

partial_function (option) drainQueue :: "(nat, 'q) spsc_ops \<Rightarrow> (u64 \<Rightarrow> Key_t) \<Rightarrow> bool \<Rightarrow> nat \<Rightarrow> 'q run \<Rightarrow> 'q run outcome" where
  "drainQueue Q keyAt combinerStop i st =
     (if isWorkQueueEmpty Q (workers (sys st) ! i) then Some (Inr st)
      else case applyAt Q keyAt i (sys st) of
          None \<Rightarrow> Some (Inl BadAccess)
        | Some (ret, s') \<Rightarrow> drainQueue Q keyAt combinerStop i
            (st\<lparr>sys := s', g_removeDetected := g_removeDetected st \<or> combinerStop \<and> ret\<rparr>))"

definition freeAt :: "u64 \<Rightarrow> nat \<Rightarrow> 'q run \<Rightarrow> fault + 'q run" where
  "freeAt removeCount i st =
     (let s = sys st in
      case freeListNodes removeCount (workers s ! i) (nodes (heap s)) of
        None \<Rightarrow> Inl AssertFail
      | Some (w', ns) \<Rightarrow> Inr (st\<lparr>sys := s\<lparr>workers := (workers s)[i := w'], heap := (heap s)\<lparr>nodes := ns\<rparr>\<rparr>\<rparr>))"

text \<open>One round of a worker; \<open>lastRemoveCount\<close> is never assigned after its initial 0.\<close>

definition worker_round :: "(nat, 'q) spsc_ops \<Rightarrow> (u64 \<Rightarrow> Key_t) \<Rightarrow> nat \<Rightarrow> 'q run \<Rightarrow> 'q run outcome" where
  "worker_round Q keyAt i st =
     (case drainQueue Q keyAt False i st of
        None \<Rightarrow> None
      | Some (Inl e) \<Rightarrow> Some (Inl e)
      | Some (Inr st') \<Rightarrow>
          (let lastRemoveCount = 0 in
           if workerThreadId (workers (sys st') ! i) = 0 \<and> lastRemoveCount \<noteq> g_removeCount st'
           then Some (freeAt (g_removeCount st') i st') else Some (Inr st')))"

definition worker_stop :: "(nat, 'q) spsc_ops \<Rightarrow> (u64 \<Rightarrow> Key_t) \<Rightarrow> nat \<Rightarrow> 'q run \<Rightarrow> 'q run outcome" where
  "worker_stop Q keyAt i st =
     (case drainQueue Q keyAt True i st of
        None \<Rightarrow> None
      | Some (Inl e) \<Rightarrow> Some (Inl e)
      | Some (Inr st') \<Rightarrow>
          if workerThreadId (workers (sys st') ! i) = 0 then Some (freeAt ULLONG_MAX i st') else Some (Inr st'))"

definition combineAndBroadcast :: "(nat, 'q) spsc_ops \<Rightarrow> nat list \<Rightarrow> 'q system \<Rightarrow> 'q system" where
  "combineAndBroadcast Q threads s =
     (case combineLogs threads s of (None, s') \<Rightarrow> s' | (Some mergedLog, s') \<Rightarrow> broadcastMergedLog Q mergedLog s')"

text \<open>
  One round of the combiner. The wait for the grace period changes nothing in this state.
\<close>

definition combiner_round :: "(nat, 'q) spsc_ops \<Rightarrow> nat list \<Rightarrow> 'q run \<Rightarrow> 'q run" where
  "combiner_round Q threads st =
     (let (doneCountWt, s) = freeMergedLogs False (combineAndBroadcast Q threads (sys st)); st' = st\<lparr>sys := s\<rparr> in
      if g_removeDetected st' \<and> doneCountWt \<noteq> 0
      then st'\<lparr>g_removeCount := doneCountWt, g_removeDetected := False\<rparr> else st')"

text \<open>The end of the combiner: twenty more rounds, then it frees until no merged log is left.\<close>

partial_function (option) flushLogs :: "'q system \<Rightarrow> 'q system option" where
  "flushLogs s = (if mergedLogsToBeFreed s then Some s else flushLogs (snd (freeMergedLogs True s)))"

definition combiner_stop :: "(nat, 'q) spsc_ops \<Rightarrow> nat list \<Rightarrow> 'q system \<Rightarrow> 'q system option" where
  "combiner_stop Q threads s = flushLogs ((combineAndBroadcast Q threads ^^ 20) s)"

text \<open>
  The threads while the index is in use. User threads may do anything to the list but free a node.
\<close>

inductive run_step :: "(nat, 'q) spsc_ops \<Rightarrow> (u64 \<Rightarrow> Key_t) \<Rightarrow> 'q run \<Rightarrow> 'q run \<Rightarrow> bool" for Q keyAt where
  User: "dom (nodes (heap (sys st))) \<subseteq> dom (nodes h) \<Longrightarrow> run_step Q keyAt st (st\<lparr>sys := (sys st)\<lparr>heap := h\<rparr>\<rparr>)"
| Combiner: "distinct threads \<Longrightarrow> set threads = dom (oplogs (heap (sys st))) \<Longrightarrow> run_step Q keyAt st (combiner_round Q threads st)"
| Worker: "i < length (workers (sys st)) \<Longrightarrow> worker_round Q keyAt i st = Some (Inr st') \<Longrightarrow> run_step Q keyAt st st'"

section \<open>Draining a queue\<close>

lemma applyAt_same: "applyAt Q keyAt i s = Some (ret, s') \<Longrightarrow> heap s' = heap s \<and> length (workers s') = length (workers s)"
  by (auto simp: applyAt_def Let_def split: option.splits)

definition drained_same :: "bool \<Rightarrow> 'q run \<Rightarrow> fault + 'q run \<Rightarrow> bool" where
  "drained_same stop st y \<longleftrightarrow> (case y of Inl e \<Rightarrow> True | Inr st' \<Rightarrow> heap (sys st') = heap (sys st) \<and>
     g_removeCount st' = g_removeCount st \<and> (\<not> stop \<longrightarrow> g_removeDetected st' = g_removeDetected st))"

lemma drainQueue_same:
  assumes "drainQueue Q keyAt stop i st = Some y"
  shows "drained_same stop st y"
proof (rule drainQueue.raw_induct[where P = "\<lambda>Q keyAt stop i st y. drained_same stop st y", OF _ assms])
  fix f Q keyAt stop i st y
  assume IH: "\<And>Q keyAt stop i st y. f Q keyAt stop i st = Some y \<Longrightarrow> drained_same stop st y"
    and y: "(if isWorkQueueEmpty Q (workers (sys st) ! i) then Some (Inr st)
      else case applyAt Q keyAt i (sys st) of None \<Rightarrow> Some (Inl BadAccess)
        | Some (ret, s') \<Rightarrow> f Q keyAt stop i (st\<lparr>sys := s', g_removeDetected := g_removeDetected st \<or> stop \<and> ret\<rparr>)) = Some y"
  show "drained_same stop st y"
  proof (cases "\<not> isWorkQueueEmpty Q (workers (sys st) ! i) \<and> applyAt Q keyAt i (sys st) \<noteq> None")
    case True
    then obtain ret s' where a: "applyAt Q keyAt i (sys st) = Some (ret, s')" by auto
    let ?st = "st\<lparr>sys := s', g_removeDetected := g_removeDetected st \<or> stop \<and> ret\<rparr>"
    have "f Q keyAt stop i ?st = Some y" using True y a by simp
    from IH[OF this] show ?thesis using applyAt_same[OF a] by (auto simp: drained_same_def split: sum.splits)
  qed (use y in \<open>auto simp: drained_same_def split: if_splits option.splits\<close>)
qed

text \<open>With nobody pushing meanwhile the loop ends, and ends with an empty queue unless it faults.\<close>

lemma drainQueue_returns:
  assumes q: "spsc_queue Q cap items" and i: "i < length (workers (sys st))"
  shows "\<exists>r. drainQueue Q keyAt stop i st = Some r \<and> (\<forall>st'. r = Inr st' \<longrightarrow> isWorkQueueEmpty Q (workers (sys st') ! i))"
  using i
proof (induction "length (items (workQueue (workers (sys st) ! i)))" arbitrary: st)
  case 0
  then have "isWorkQueueEmpty Q (workers (sys st) ! i)" by (simp add: isWorkQueueEmpty_def spsc_queue.avail[OF q])
  then show ?case by (subst drainQueue.simps) simp
next
  case (Suc n)
  have lq: "log_queue Q cap items" using q by (simp add: log_queue_def)
  have ne: "\<not> isWorkQueueEmpty Q (workers (sys st) ! i)" using Suc(2) by (auto simp: isWorkQueueEmpty_def spsc_queue.avail[OF q])
  show ?case
  proof (cases "applyAt Q keyAt i (sys st)")
    case None
    then show ?thesis using ne by (subst drainQueue.simps) simp
  next
    case (Some p)
    obtain ret s' where p: "p = (ret, s')" by (cases p)
    obtain w' sl' n' where w': "applyOperation Q keyAt (mlogs (sys st)) (workers (sys st) ! i) (sls (sys st) ! n') = Some (ret, w', sl')"
        "workers s' = (workers (sys st))[i := w']"
      using Some p by (auto simp: applyAt_def Let_def split: option.splits)
    let ?st = "st\<lparr>sys := s', g_removeDetected := g_removeDetected st \<or> stop \<and> ret\<rparr>"
    have "n = length (items (workQueue (workers (sys ?st) ! i)))" "i < length (workers (sys ?st))"
      using log_queue.applied_worker(1)[OF lq w'(1) ne] Suc(2,3) by (simp_all add: w'(2))
    then show ?thesis using Suc(1)[of ?st] ne Some p by (subst drainQueue.simps) simp
  qed
qed

section \<open>Nodes are not freed while the index is in use\<close>

lemma drainLog_nodes: "nodes (snd (fold (drainLog q) threads (m, h))) = nodes h"
  by (induction threads arbitrary: m h) (simp_all add: drainLog_def Let_def)

lemma combineLogs_nodes: "nodes (heap (snd (combineLogs threads s))) = nodes (heap s)"
  using drainLog_nodes[of _ threads "[]" "(heap s)\<lparr>curQ := curQ (heap s) + 1\<rparr>"]
  by (auto simp: combineLogs_def Let_def split: prod.splits) (metis snd_conv)+

lemma pushLog_heap: "heap (fold (pushLog Q l) is s) = heap s"
  by (induction "is" arbitrary: s) (simp_all add: pushLog_def Let_def)

lemma combineAndBroadcast_nodes: "nodes (heap (combineAndBroadcast Q threads s)) = nodes (heap s)"
  using combineLogs_nodes[of threads s]
  by (auto simp: combineAndBroadcast_def broadcastMergedLog_def pushLog_heap split: prod.splits option.splits)

lemma freeMergedLogs_heap: "heap (snd (freeMergedLogs force s)) = heap s"
  by (simp add: freeMergedLogs_def Let_def split: prod.splits)

section \<open>Properties\<close>

text \<open>C40. While the index is in use, the removal of a node is never announced: \<open>g_removeDetected\<close> is only set by
  workers that are stopping. So the combiner never waits for a grace period, the remove count stays 0,
  and no node that was merged away is freed before the index is destroyed.\<close>

theorem removed_nodes_kept:
  assumes "(run_step Q keyAt)\<^sup>*\<^sup>* st st'" "\<not> g_removeDetected st" "g_removeCount st = 0"
  shows "\<not> g_removeDetected st' \<and> g_removeCount st' = 0 \<and> dom (nodes (heap (sys st))) \<subseteq> dom (nodes (heap (sys st')))"
  using assms
proof (induction rule: rtranclp_induct)
  case (step s1 s2)
  have "\<not> g_removeDetected s2 \<and> g_removeCount s2 = 0 \<and> dom (nodes (heap (sys s1))) \<subseteq> dom (nodes (heap (sys s2)))"
    using step(2)
  proof cases
    case (Combiner threads)
    obtain c x where fm: "freeMergedLogs False (combineAndBroadcast Q threads (sys s1)) = (c, x)" by fastforce
    have "nodes (heap x) = nodes (heap (sys s1))"
      using combineAndBroadcast_nodes[of Q threads "sys s1"] freeMergedLogs_heap[of False "combineAndBroadcast Q threads (sys s1)"] fm by simp
    then show ?thesis using step(3-5) Combiner fm by (simp add: combiner_round_def)
  next
    case (Worker i)
    then obtain s' where s': "drainQueue Q keyAt False i s1 = Some (Inr s')"
      by (auto simp: worker_round_def split: option.splits sum.splits)
    have "s2 = s'" using Worker step(3-5) drainQueue_same[OF s'] s' by (simp add: worker_round_def Let_def drained_same_def)
    then show ?thesis using drainQueue_same[OF s'] step(3-5) by (simp add: drained_same_def)
  qed (use step(3-5) in auto)
  then show ?case using step(3-5) by (meson subset_trans)
qed simp

theorem removed_nodes_kept_witness:
  "(run_step (list_spsc 10000) id)\<^sup>*\<^sup>* \<lparr>sys = demo_sys, g_removeDetected = False, g_removeCount = 0\<rparr>
     (combiner_round (list_spsc 10000) [0] \<lparr>sys = demo_sys, g_removeDetected = False, g_removeCount = 0\<rparr>) \<and>
   g_removeCount (combiner_round (list_spsc 10000) [0] \<lparr>sys = demo_sys, g_removeDetected = False, g_removeCount = 0\<rparr>) = 0"
proof -
  let ?st = "\<lparr>sys = demo_sys, g_removeDetected = False, g_removeCount = 0\<rparr>"
  have r: "(run_step (list_spsc 10000) id)\<^sup>*\<^sup>* ?st (combiner_round (list_spsc 10000) [0] ?st)"
    by (intro r_into_rtranclp run_step.Combiner) (use demo_log(2) in auto)
  then show ?thesis using removed_nodes_kept[OF r] by simp
qed

end
