(* ===== verification/GracePeriod.thy ===== *)
theory GracePeriod
  imports ListTheorems
begin

text \<open>
  When a list node may be freed: the clock comparisons of \<open>ordo_clock.h\<close>, the per-thread data of
  \<open>threadData.h\<close>, and \<open>gracePeriodInit\<close> with \<open>waitForThreads\<close> of \<open>HydraList.cpp\<close>, by which the
  combiner waits until every operation that was running has ended.
\<close>

section \<open>Definitions\<close>

subsection \<open>Clocks\<close>

definition g_ordo_boundary :: u64 where
  "g_ordo_boundary = 0"

definition ordo_lt_clock :: "u64 \<Rightarrow> u64 \<Rightarrow> bool" where
  "ordo_lt_clock t1 t2 \<longleftrightarrow> t1 + g_ordo_boundary < t2"

definition ordo_gt_clock :: "u64 \<Rightarrow> u64 \<Rightarrow> bool" where
  "ordo_gt_clock t1 t2 \<longleftrightarrow> t1 > t2 + g_ordo_boundary"

datatype ordo = ORDO_LESS_THAN | ORDO_GREATER_THAN | ORDO_UNCERTAIN

definition ordo_cmp_clock :: "u64 \<Rightarrow> u64 \<Rightarrow> ordo" where
  "ordo_cmp_clock t1 t2 =
     (if ordo_lt_clock t1 t2 then ORDO_LESS_THAN
      else if ordo_gt_clock t1 t2 then ORDO_GREATER_THAN else ORDO_UNCERTAIN)"

partial_function (option) ordo_new_clock :: "u64 \<Rightarrow> hstate \<Rightarrow> (u64 \<times> hstate) option" where
  "ordo_new_clock t s = (let (new_clk, s') = ordo_get_clock s in
     if ordo_gt_clock new_clk t then Some (new_clk, s') else ordo_new_clock t s')"

subsection \<open>Threads\<close>

record ThreadData =
  threadId :: nat
  localClock :: u64
  finish :: bool
  runCnt :: u64

text \<open>The constructor leaves the clock as the memory holds it.\<close>

definition ThreadData_new :: "nat \<Rightarrow> u64 \<Rightarrow> ThreadData" where
  "ThreadData_new i junk = \<lparr>threadId = i, localClock = junk, finish = False, runCnt = 0\<rparr>"

definition setfinish :: "ThreadData \<Rightarrow> ThreadData" where
  "setfinish td = td\<lparr>finish := True\<rparr>"

definition setLocalClock :: "u64 \<Rightarrow> ThreadData \<Rightarrow> ThreadData" where
  "setLocalClock clk td = td\<lparr>localClock := clk\<rparr>"

definition incrementRunCnt :: "ThreadData \<Rightarrow> ThreadData" where
  "incrementRunCnt td = td\<lparr>runCnt := runCnt td + 1\<rparr>"

definition td_read_lock :: "u64 \<Rightarrow> ThreadData \<Rightarrow> ThreadData" where
  "td_read_lock clk td = incrementRunCnt (setLocalClock clk td)"

definition td_read_unlock :: "ThreadData \<Rightarrow> ThreadData" where
  "td_read_unlock td = incrementRunCnt td"

subsection \<open>The grace period among running threads\<close>

text \<open>
  Where a thread is: outside, with a clock reading, with the reading stored, or inside an operation
  between \<open>read_lock\<close> and \<open>read_unlock\<close>.
\<close>

datatype thread_pc = Outside | HasClock u64 | Stamped | Inside

text \<open>
  Where the combiner is: not in a grace period; in the loop of \<open>gracePeriodInit\<close> before thread \<open>i\<close>;
  there after it found an odd run count; in the loop of \<open>waitForThreads\<close> before the threads still
  to wait for; there after an odd run count; waiting for one thread; done. Erasing the element of a
  set that the loop stands on is undefined behaviour.
\<close>

datatype gp_pc = NoGP | Scan u64 nat "nat list" | ScanOdd u64 nat "nat list"
  | Wait u64 "nat list" | WaitOdd u64 "nat list" | Spin u64 "nat list" | GPDone u64 | Undefined

text \<open>
  \<open>running\<close> is not part of the program: the threads that have been inside the same operation since
  the grace period began.
\<close>

record gp_state =
  now :: u64
  tds :: "ThreadData list"
  pcs :: "thread_pc list"
  gp :: gp_pc
  running :: "nat set"

definition odd_run :: "ThreadData \<Rightarrow> bool" where
  "odd_run td \<longleftrightarrow> runCnt td mod 2 \<noteq> 0"

inductive gstep :: "gp_state \<Rightarrow> gp_state \<Rightarrow> bool" where
  Tick: "now s \<le> c \<Longrightarrow> gstep s (s\<lparr>now := c\<rparr>)"
| ReadClock: "j < length (tds s) \<Longrightarrow> pcs s ! j = Outside \<Longrightarrow> gstep s (s\<lparr>pcs := (pcs s)[j := HasClock (now s)]\<rparr>)"
| Stamp: "j < length (tds s) \<Longrightarrow> pcs s ! j = HasClock c \<Longrightarrow>
    gstep s (s\<lparr>pcs := (pcs s)[j := Stamped], tds := (tds s)[j := setLocalClock c (tds s ! j)]\<rparr>)"
| Enter: "j < length (tds s) \<Longrightarrow> pcs s ! j = Stamped \<Longrightarrow>
    gstep s (s\<lparr>pcs := (pcs s)[j := Inside], tds := (tds s)[j := incrementRunCnt (tds s ! j)]\<rparr>)"
| Leave: "j < length (tds s) \<Longrightarrow> pcs s ! j = Inside \<Longrightarrow>
    gstep s (s\<lparr>pcs := (pcs s)[j := Outside], tds := (tds s)[j := td_read_unlock (tds s ! j)], running := running s - {j}\<rparr>)"
| Unregister: "j < length (tds s) \<Longrightarrow> pcs s ! j = Outside \<Longrightarrow> gstep s (s\<lparr>tds := (tds s)[j := setfinish (tds s ! j)]\<rparr>)"
| Begin: "gp s = NoGP \<or> gp s = GPDone c \<Longrightarrow>
    gstep s (s\<lparr>gp := Scan (now s) 0 [], running := {j. j < length (tds s) \<and> pcs s ! j = Inside}\<rparr>)"
| ScanFinished: "gp s = Scan c i W \<Longrightarrow> i < length (tds s) \<Longrightarrow> finish (tds s ! i) \<Longrightarrow> gstep s (s\<lparr>gp := Undefined\<rparr>)"
| ScanEven: "gp s = Scan c i W \<Longrightarrow> i < length (tds s) \<Longrightarrow> \<not> finish (tds s ! i) \<Longrightarrow> \<not> odd_run (tds s ! i) \<Longrightarrow>
    gstep s (s\<lparr>gp := Scan c (Suc i) W\<rparr>)"
| ScanOddCount: "gp s = Scan c i W \<Longrightarrow> i < length (tds s) \<Longrightarrow> \<not> finish (tds s ! i) \<Longrightarrow> odd_run (tds s ! i) \<Longrightarrow>
    gstep s (s\<lparr>gp := ScanOdd c i W\<rparr>)"
| ScanNewer: "gp s = ScanOdd c i W \<Longrightarrow> ordo_gt_clock (localClock (tds s ! i)) c \<Longrightarrow> gstep s (s\<lparr>gp := Scan c (Suc i) W\<rparr>)"
| ScanOlder: "gp s = ScanOdd c i W \<Longrightarrow> \<not> ordo_gt_clock (localClock (tds s ! i)) c \<Longrightarrow>
    gstep s (s\<lparr>gp := Scan c (Suc i) (W @ [i])\<rparr>)"
| ScanEnd: "gp s = Scan c (length (tds s)) W \<Longrightarrow> gstep s (s\<lparr>gp := Wait c W\<rparr>)"
| WaitEven: "gp s = Wait c (i # W) \<Longrightarrow> \<not> odd_run (tds s ! i) \<Longrightarrow> gstep s (s\<lparr>gp := Wait c W\<rparr>)"
| WaitOddCount: "gp s = Wait c (i # W) \<Longrightarrow> odd_run (tds s ! i) \<Longrightarrow> gstep s (s\<lparr>gp := WaitOdd c (i # W)\<rparr>)"
| WaitNewer: "gp s = WaitOdd c (i # W) \<Longrightarrow> ordo_gt_clock (localClock (tds s ! i)) c \<Longrightarrow> gstep s (s\<lparr>gp := Wait c W\<rparr>)"
| WaitOlder: "gp s = WaitOdd c (i # W) \<Longrightarrow> \<not> ordo_gt_clock (localClock (tds s ! i)) c \<Longrightarrow> gstep s (s\<lparr>gp := Spin c (i # W)\<rparr>)"
| SpinOdd: "gp s = Spin c (i # W) \<Longrightarrow> odd_run (tds s ! i) \<Longrightarrow> gstep s s"
| SpinEven: "gp s = Spin c (i # W) \<Longrightarrow> \<not> odd_run (tds s ! i) \<Longrightarrow> gstep s (s\<lparr>gp := Wait c W\<rparr>)"
| WaitEnd: "gp s = Wait c [] \<Longrightarrow> gstep s (s\<lparr>gp := GPDone c\<rparr>)"

text \<open>Threads that have registered and done nothing yet.\<close>

definition gp_new :: "u64 \<Rightarrow> u64 list \<Rightarrow> gp_state" where
  "gp_new c junk = \<lparr>now = c, tds = map2 ThreadData_new [0..<length junk] junk, pcs = replicate (length junk) Outside,
     gp = NoGP, running = {}\<rparr>"

section \<open>The invariant\<close>

text \<open>A run count is odd exactly inside an operation, and no thread carries a clock from the future.\<close>

definition thread_ok :: "u64 \<Rightarrow> ThreadData \<Rightarrow> thread_pc \<Rightarrow> bool" where
  "thread_ok c td pc \<longleftrightarrow> (odd_run td \<longleftrightarrow> pc = Inside) \<and>
     (case pc of Outside \<Rightarrow> True | HasClock x \<Rightarrow> x \<le> c | Stamped \<Rightarrow> localClock td \<le> c | Inside \<Rightarrow> localClock td \<le> c)"

definition threads_ok :: "gp_state \<Rightarrow> bool" where
  "threads_ok s \<longleftrightarrow> length (pcs s) = length (tds s) \<and> (\<forall>j < length (tds s). thread_ok (now s) (tds s ! j) (pcs s ! j))"

text \<open>A thread that has been running since the beginning is still to be looked at or waited for.\<close>

fun pending :: "gp_pc \<Rightarrow> nat set" where
  "pending (Scan c i W) = {i..} \<union> set W"
| "pending (ScanOdd c i W) = {i..} \<union> set W"
| "pending (Wait c W) = set W"
| "pending (WaitOdd c W) = set W"
| "pending (Spin c W) = set W"
| "pending Undefined = UNIV"
| "pending _ = {}"

fun begun :: "gp_pc \<Rightarrow> u64" where
  "begun (Scan c i W) = c"
| "begun (ScanOdd c i W) = c"
| "begun (Wait c W) = c"
| "begun (WaitOdd c W) = c"
| "begun (Spin c W) = c"
| "begun _ = ULLONG_MAX"

definition running_ok :: "gp_state \<Rightarrow> bool" where
  "running_ok s \<longleftrightarrow> running s \<subseteq> pending (gp s) \<and>
     (\<forall>j \<in> running s. j < length (tds s) \<and> pcs s ! j = Inside \<and> localClock (tds s ! j) \<le> begun (gp s))"

lemma not_newer: "localClock td \<le> c \<Longrightarrow> \<not> ordo_gt_clock (localClock td) c"
  by (simp add: ordo_gt_clock_def g_ordo_boundary_def)

lemma odd_run_simps [simp]: "odd_run (incrementRunCnt td) \<longleftrightarrow> \<not> odd_run td" "odd_run (setLocalClock c td) = odd_run td"
  "odd_run (setfinish td) = odd_run td" "localClock (incrementRunCnt td) = localClock td"
  "localClock (setLocalClock c td) = c" "localClock (setfinish td) = localClock td"
  by (simp_all add: odd_run_def incrementRunCnt_def setLocalClock_def setfinish_def mod_2_eq_odd)

lemma threads_ok_step: "gstep s s' \<Longrightarrow> threads_ok s \<Longrightarrow> threads_ok s'"
proof (induction rule: gstep.induct)
  case (Tick s c)
  then show ?case by (fastforce simp: threads_ok_def thread_ok_def split: thread_pc.splits)
next
  case (Leave j s)
  then show ?case by (auto simp: threads_ok_def thread_ok_def td_read_unlock_def nth_list_update)
next
  case (Unregister j s)
  then show ?case by (auto simp: threads_ok_def thread_ok_def nth_list_update)
qed (auto simp: threads_ok_def thread_ok_def nth_list_update)

lemma thread_okD: "threads_ok s \<Longrightarrow> j < length (tds s) \<Longrightarrow> thread_ok (now s) (tds s ! j) (pcs s ! j)"
  by (simp add: threads_ok_def)

lemma running_odd: "threads_ok s \<Longrightarrow> running_ok s \<Longrightarrow> j \<in> running s \<Longrightarrow> odd_run (tds s ! j)"
  by (auto simp: running_ok_def threads_ok_def thread_ok_def)

lemma running_older: "running_ok s \<Longrightarrow> j \<in> running s \<Longrightarrow> \<not> ordo_gt_clock (localClock (tds s ! j)) (begun (gp s))"
  using not_newer by (auto simp: running_ok_def)

lemma running_ok_step:
  assumes "gstep s s'" "threads_ok s" "running_ok s"
  shows "running_ok s'"
  using assms
proof (induction rule: gstep.induct)
  case (Begin s c)
  then show ?case by (force simp: running_ok_def threads_ok_def thread_ok_def)
next
  case (ScanEven s c i W)
  then have "i \<notin> running s" using running_odd by blast
  then show ?case using ScanEven by (force simp: running_ok_def Suc_le_eq le_less)
next
  case (ScanNewer s c i W)
  then have "i \<notin> running s" using running_older[of s i] by auto
  then show ?case using ScanNewer by (force simp: running_ok_def Suc_le_eq le_less)
next
  case (ScanOlder s c i W)
  then show ?case by (force simp: running_ok_def Suc_le_eq le_less)
next
  case (ScanEnd s c W)
  then show ?case by (force simp: running_ok_def)
next
  case (WaitEven s c i W)
  then have "i \<notin> running s" using running_odd by blast
  then show ?case using WaitEven by (force simp: running_ok_def)
next
  case (WaitNewer s c i W)
  then have "i \<notin> running s" using running_older[of s i] by auto
  then show ?case using WaitNewer by (force simp: running_ok_def)
next
  case (SpinEven s c i W)
  then have "i \<notin> running s" using running_odd by blast
  then show ?case using SpinEven by (force simp: running_ok_def)
qed (auto simp: running_ok_def threads_ok_def nth_list_update)

lemma gp_reach:
  assumes "gstep\<^sup>*\<^sup>* s s'" "threads_ok s" "running_ok s"
  shows "threads_ok s' \<and> running_ok s'"
  using assms by (induction rule: rtranclp_induct) (auto intro: threads_ok_step running_ok_step)

lemma gp_new_ok: "threads_ok (gp_new c junk)" "running_ok (gp_new c junk)"
  by (auto simp: gp_new_def threads_ok_def thread_ok_def running_ok_def ThreadData_new_def odd_run_def)

lemma ordo_gt_clock_less: "ordo_gt_clock c t \<longleftrightarrow> t < c"
  by (simp add: ordo_gt_clock_def g_ordo_boundary_def)

lemma new_clock_hit:
  assumes "t < rdtscp s (clkReads s + i)" "\<And>j. j < i \<Longrightarrow> rdtscp s (clkReads s + j) \<le> t"
  shows "ordo_new_clock t s = Some (rdtscp s (clkReads s + i), s\<lparr>clkReads := clkReads s + i + 1\<rparr>)"
  using assms
proof (induction i arbitrary: s)
  case 0
  then show ?case by (subst ordo_new_clock.simps) (simp add: ordo_get_clock_def ordo_gt_clock_less)
next
  case (Suc i)
  have "\<not> t < rdtscp s (clkReads s)" using Suc.prems(2)[of 0] by simp
  moreover have "rdtscp s (Suc (clkReads s + j)) \<le> t" if "j < i" for j using Suc.prems(2)[of "Suc j"] that by simp
  ultimately show ?case using Suc.IH[of "s\<lparr>clkReads := clkReads s + 1\<rparr>"] Suc.prems(1)
    by (subst ordo_new_clock.simps) (simp add: ordo_get_clock_def ordo_gt_clock_less)
qed

lemma new_clock_only:
  assumes "ordo_new_clock t s = Some y"
  shows "\<exists>i. t < rdtscp s (clkReads s + i)"
proof (rule ordo_new_clock.raw_induct[where P = "\<lambda>t s y. \<exists>i. t < rdtscp s (clkReads s + i)", OF _ assms])
  fix f t s y
  assume IH: "\<And>t s y. f t s = Some y \<Longrightarrow> \<exists>i. t < rdtscp s (clkReads s + i)"
    and y: "(let (new_clk, s') = ordo_get_clock s in if ordo_gt_clock new_clk t then Some (new_clk, s') else f t s') = Some y"
  show "\<exists>i. t < rdtscp s (clkReads s + i)"
  proof (cases "t < rdtscp s (clkReads s)")
    case True
    then show ?thesis by (intro exI[of _ 0]) simp
  next
    case False
    then obtain i where "t < rdtscp s (Suc (clkReads s) + i)"
      using y IH[of t "s\<lparr>clkReads := clkReads s + 1\<rparr>" y] by (auto simp: ordo_get_clock_def ordo_gt_clock_less)
    then show ?thesis by (intro exI[of _ "Suc i"]) simp
  qed
qed

section \<open>Properties\<close>

text \<open>C37. When \<open>waitForThreads\<close> has returned, every operation that was running when the grace period
  began has ended, whatever the threads did meanwhile and whatever clocks they carried, provided
  that clock readings do not go back.\<close>

theorem grace_period_sound:
  assumes "gstep\<^sup>*\<^sup>* (gp_new c0 junk) s" "gp s = GPDone c"
  shows "running s = {}"
  using gp_reach[OF assms(1) gp_new_ok] assms(2) by (simp add: running_ok_def)

text \<open>\<open>ordo_new_clock\<close> returns exactly if the clock passes the given time, and then it returns the
  first reading that does.\<close>

theorem ordo_new_clock_first:
  "ordo_new_clock t s =
     (if \<exists>i. t < rdtscp s (clkReads s + i)
      then let i = LEAST i. t < rdtscp s (clkReads s + i)
           in Some (rdtscp s (clkReads s + i), s\<lparr>clkReads := clkReads s + i + 1\<rparr>)
      else None)"
proof (cases "\<exists>i. t < rdtscp s (clkReads s + i)")
  case True
  then show ?thesis
    using new_clock_hit[OF LeastI_ex[OF True]] not_less_Least[of _ "\<lambda>i. t < rdtscp s (clkReads s + i)"]
    by (simp add: Let_def not_less)
next
  case False
  then show ?thesis using new_clock_only by (cases "ordo_new_clock t s") auto
qed

text \<open>One thread that is inside an operation while a grace period runs.\<close>

definition gp_demo :: gp_state where
  "gp_demo = \<lparr>now = 3, tds = [\<lparr>threadId = 0, localClock = 3, finish = False, runCnt = 2\<rparr>], pcs = [Outside],
     gp = GPDone 3, running = {}\<rparr>"

lemma gp_demo_run: "gstep\<^sup>*\<^sup>* (gp_new 3 [0]) gp_demo"
proof -
  let ?td = "\<lambda>c n. \<lparr>threadId = 0, localClock = c, finish = False, runCnt = n\<rparr>"
  let ?s = "\<lambda>c n p g r. \<lparr>now = 3, tds = [?td c n], pcs = [p], gp = g, running = r\<rparr>"
  have "gp_new 3 [0] = ?s 0 0 Outside NoGP {}" by (simp add: gp_new_def ThreadData_new_def)
  also have "gstep\<^sup>*\<^sup>* \<dots> (?s 0 0 (HasClock 3) NoGP {})" using gstep.ReadClock[of 0 "?s 0 0 Outside NoGP {}"] by simp
  also have "gstep\<^sup>*\<^sup>* \<dots> (?s 3 0 Stamped NoGP {})" using gstep.Stamp[of 0 "?s 0 0 (HasClock 3) NoGP {}" 3] by (simp add: setLocalClock_def)
  also have "gstep\<^sup>*\<^sup>* \<dots> (?s 3 1 Inside NoGP {})" using gstep.Enter[of 0 "?s 3 0 Stamped NoGP {}"] by (simp add: incrementRunCnt_def)
  also have "gstep\<^sup>*\<^sup>* \<dots> (?s 3 1 Inside (Scan 3 0 []) {0})" using gstep.Begin[of "?s 3 1 Inside NoGP {}"] by (simp cong: conj_cong)
  also have "gstep\<^sup>*\<^sup>* \<dots> (?s 3 1 Inside (ScanOdd 3 0 []) {0})"
    using gstep.ScanOddCount[of "?s 3 1 Inside (Scan 3 0 []) {0}" 3 0 "[]"] by (simp add: odd_run_def)
  also have "gstep\<^sup>*\<^sup>* \<dots> (?s 3 1 Inside (Scan 3 1 [0]) {0})"
    using gstep.ScanOlder[of "?s 3 1 Inside (ScanOdd 3 0 []) {0}" 3 0 "[]"] by (simp add: ordo_gt_clock_less)
  also have "gstep\<^sup>*\<^sup>* \<dots> (?s 3 1 Inside (Wait 3 [0]) {0})"
    using gstep.ScanEnd[of "?s 3 1 Inside (Scan 3 1 [0]) {0}" 3 "[0]"] by simp
  also have "gstep\<^sup>*\<^sup>* \<dots> (?s 3 2 Outside (Wait 3 [0]) {})"
    using gstep.Leave[of 0 "?s 3 1 Inside (Wait 3 [0]) {0}"] by (simp add: td_read_unlock_def incrementRunCnt_def)
  also have "gstep\<^sup>*\<^sup>* \<dots> (?s 3 2 Outside (Wait 3 []) {})"
    using gstep.WaitEven[of "?s 3 2 Outside (Wait 3 [0]) {}" 3 0 "[]"] by (simp add: odd_run_def)
  also have "gstep\<^sup>*\<^sup>* \<dots> gp_demo" using gstep.WaitEnd[of "?s 3 2 Outside (Wait 3 []) {}" 3] by (simp add: gp_demo_def)
  finally show ?thesis .
qed

theorem grace_period_sound_witness: "gp gp_demo = GPDone 3 \<and> running gp_demo = {}"
  using grace_period_sound[OF gp_demo_run, of 3] by (simp add: gp_demo_def)

end
