(* ===== verification/HydraList.thy ===== *)
theory HydraList
  imports SearchLayer GracePeriod
begin

text \<open>
  The index itself, class \<open>HydraListImpl\<close> of \<open>HydraList.cpp\<close>: an operation announces itself for the
  grace period, asks the search layer of its NUMA node for a node to start at, and runs on the
  data list from there.
\<close>

section \<open>Definitions\<close>

text \<open>What is local to a thread: its name, the NUMA node it remembers, and its \<open>ThreadData\<close>.\<close>

record thread_local =
  self :: nat
  threadNumaNode :: int
  curThreadData :: "nat option"

record HydraListImpl =
  dl :: hstate
  dlHead :: addr
  perNumaSlPtr :: "ArtRowexIndex list"
  totalNumaActive :: int
  numThreads :: u32
  threadDataSet :: "ThreadData list"

text \<open>The chip number in the auxiliary value of \<open>rdtscp\<close>.\<close>

definition tacc_rdtscp_chip :: "u64 \<Rightarrow> u64" where
  "tacc_rdtscp_chip c = drop_bit 12 (c AND 0xFFF000)"

definition getThreadNuma :: "u64 \<Rightarrow> thread_local \<Rightarrow> HydraListImpl \<Rightarrow> fault + (nat \<times> thread_local)" where
  "getThreadNuma aux tls hl =
     bindE (if threadNumaNode tls = -1
            then (let chip = uint (tacc_rdtscp_chip aux) in if chip > 8 then Inl AssertFail else Inr (tls\<lparr>threadNumaNode := chip\<rparr>))
            else Inr tls)
       (\<lambda>tls'. Inr (if totalNumaActive hl \<le> threadNumaNode tls' then 0 else nat (threadNumaNode tls'), tls'))"

text \<open>
  A search layer reads the key of a node from the first field of the node in memory. Memory that
  holds no node gives \<open>junk\<close>.
\<close>

definition nodeKeyAt :: "Key_t \<Rightarrow> hstate \<Rightarrow> u64 \<Rightarrow> Key_t" where
  "nodeKeyAt junk h p = (case nodes h (unat p) of Some n \<Rightarrow> min_k n | None \<Rightarrow> junk)"

definition getJumpNode :: "Key_t \<Rightarrow> u64 \<Rightarrow> Key_t \<Rightarrow> thread_local \<Rightarrow> HydraListImpl \<Rightarrow> fault + (addr \<times> thread_local)" where
  "getJumpNode junk aux k tls hl =
     bindE (getThreadNuma aux tls hl) (\<lambda>(numaNode, tls').
       if numaNode < length (perNumaSlPtr hl) then
         (let sl = perNumaSlPtr hl ! numaNode in
          if SL_isEmpty sl then Inr (dlHead hl, tls')
          else case SL_lookup (nodeKeyAt junk (dl hl)) k sl of
              None \<Rightarrow> Inl NullDeref
            | Some jumpNode \<Rightarrow> Inr (if jumpNode = 0 then dlHead hl else unat jumpNode, tls'))
       else Inl BadAccess)"

text \<open>The beginning and the end of an operation, between which the thread counts as running.\<close>

definition beginOp :: "thread_local \<Rightarrow> HydraListImpl \<Rightarrow> fault + HydraListImpl" where
  "beginOp tls hl =
     (let (clk, h) = ordo_get_clock (dl hl) in
      case curThreadData tls of
        None \<Rightarrow> Inl NullDeref
      | Some i \<Rightarrow> Inr (hl\<lparr>dl := h, threadDataSet := (threadDataSet hl)[i := td_read_lock clk (threadDataSet hl ! i)]\<rparr>))"

definition endOp :: "thread_local \<Rightarrow> HydraListImpl \<Rightarrow> HydraListImpl" where
  "endOp tls hl = (let i = the (curThreadData tls) in
     hl\<lparr>threadDataSet := (threadDataSet hl)[i := td_read_unlock (threadDataSet hl ! i)]\<rparr>)"

text \<open>An operation of the data list, run from the jump node.\<close>

definition fromJumpNode :: "Key_t \<Rightarrow> u64 \<Rightarrow> Key_t \<Rightarrow> thread_local \<Rightarrow> HydraListImpl \<Rightarrow>
    (ptr \<Rightarrow> hstate \<Rightarrow> ('a \<times> hstate) outcome) \<Rightarrow> ('a \<times> thread_local \<times> HydraListImpl) outcome" where
  "fromJumpNode junk aux k tls hl f =
     (case getJumpNode junk aux k tls hl of
        Inl e \<Rightarrow> Some (Inl e)
      | Inr (jumpNode, tls') \<Rightarrow>
          (case f (Some jumpNode) (dl hl) of
             None \<Rightarrow> None
           | Some (Inl e) \<Rightarrow> Some (Inl e)
           | Some (Inr (r, h)) \<Rightarrow> Some (Inr (r, tls', hl\<lparr>dl := h\<rparr>))))"

definition guarded :: "Key_t \<Rightarrow> u64 \<Rightarrow> Key_t \<Rightarrow> thread_local \<Rightarrow> HydraListImpl \<Rightarrow>
    (ptr \<Rightarrow> hstate \<Rightarrow> ('a \<times> hstate) outcome) \<Rightarrow> ('a \<times> thread_local \<times> HydraListImpl) outcome" where
  "guarded junk aux k tls hl f =
     (case beginOp tls hl of
        Inl e \<Rightarrow> Some (Inl e)
      | Inr hl1 \<Rightarrow>
          (case fromJumpNode junk aux k tls hl1 f of
             None \<Rightarrow> None
           | Some (Inl e) \<Rightarrow> Some (Inl e)
           | Some (Inr (r, tls', hl2)) \<Rightarrow> Some (Inr (r, tls', endOp tls hl2))))"

definition HydraList_insert where
  "HydraList_insert junk aux k v tls hl = guarded junk aux k tls hl (LinkedList_insert getKeyFingerPrint (self tls) k v)"

definition HydraList_update where
  "HydraList_update junk aux k v tls hl = guarded junk aux k tls hl (LinkedList_update getKeyFingerPrint k v)"

definition HydraList_remove where
  "HydraList_remove junk aux k tls hl = guarded junk aux k tls hl (LinkedList_remove getKeyFingerPrint (self tls) k)"

text \<open>\<open>lookup\<close> returns a variable that is only written if the key is found; \<open>val\<close> is what it held.\<close>

definition HydraList_lookup where
  "HydraList_lookup junk aux val k tls hl = guarded junk aux k tls hl (\<lambda>p h.
     case LinkedList_lookup getKeyFingerPrint k p h of
       None \<Rightarrow> None
     | Some (Inl e) \<Rightarrow> Some (Inl e)
     | Some (Inr r) \<Rightarrow> Some (Inr (case r of Some v \<Rightarrow> v | None \<Rightarrow> (val :: Val_t), h)))"

text \<open>\<open>scan\<close> does not announce itself. Its result counts the values it found.\<close>

definition HydraList_scan where
  "HydraList_scan junk aux startKey rng tls hl = fromJumpNode junk aux startKey tls hl (\<lambda>p h.
     case LinkedList_scan startKey rng p h of
       None \<Rightarrow> None
     | Some (Inl e) \<Rightarrow> Some (Inl e)
     | Some (Inr (rv, h')) \<Rightarrow> Some (Inr ((word_of_nat (length rv) :: u64, rv), h')))"

definition registerThread :: "u64 \<Rightarrow> thread_local \<Rightarrow> HydraListImpl \<Rightarrow> thread_local \<times> HydraListImpl" where
  "registerThread junkClock tls hl =
     (tls\<lparr>curThreadData := Some (length (threadDataSet hl))\<rparr>,
      hl\<lparr>numThreads := numThreads hl + 1,
         threadDataSet := threadDataSet hl @ [ThreadData_new (unat (numThreads hl)) junkClock]\<rparr>)"

definition unregisterThread :: "thread_local \<Rightarrow> HydraListImpl \<Rightarrow> HydraListImpl" where
  "unregisterThread tls hl =
     (case curThreadData tls of
        None \<Rightarrow> hl
      | Some i \<Rightarrow> hl\<lparr>threadDataSet := (threadDataSet hl)[i := setfinish (threadDataSet hl ! i)]\<rparr>)"

text \<open>The constructor: an initialised list and a new search layer for each NUMA node.
  The number of sockets is generated for the machine.\<close>

definition HydraListImpl_new :: "nat \<Rightarrow> nat \<Rightarrow> nat \<Rightarrow> hstate \<Rightarrow> fault + HydraListImpl" where
  "HydraListImpl_new NUM_SOCKET t numNuma h = bindE (if numNuma \<le> NUM_SOCKET then LinkedList_initialize t h else Inl AssertFail) (\<lambda>(hd', h').
     Inr \<lparr>dl = h', dlHead = hd', perNumaSlPtr = replicate numNuma SL_new, totalNumaActive = int numNuma,
          numThreads = 0, threadDataSet = []\<rparr>)"

section \<open>The jump node is alive\<close>

text \<open>
  What the index needs of its search layers: they are well formed and hold pointers to nodes of the
  list only. Addresses fit into a word.
\<close>

definition leads_live :: "Key_t \<Rightarrow> Key_t cells \<Rightarrow> HydraListImpl \<Rightarrow> bool" where
  "leads_live junk L hl \<longleftrightarrow> dlHead hl \<in> fst ` set L \<and> (\<forall>a \<in> fst ` set L. a < 2 ^ 64) \<and>
     0 < totalNumaActive hl \<and> length (perNumaSlPtr hl) = nat (totalNumaActive hl) \<and>
     (\<forall>sl \<in> set (perNumaSlPtr hl). sl_inv (nodeKeyAt junk (dl hl)) sl \<and> sl_counted sl \<and>
        ran (sl_map (nodeKeyAt junk (dl hl)) sl) \<subseteq> word_of_nat ` fst ` set L)"

text \<open>A registered thread on a known chip.\<close>

definition thread_ready :: "u64 \<Rightarrow> thread_local \<Rightarrow> HydraListImpl \<Rightarrow> bool" where
  "thread_ready aux tls hl \<longleftrightarrow> (\<exists>i. curThreadData tls = Some i \<and> i < length (threadDataSet hl)) \<and> -1 \<le> threadNumaNode tls \<and>
     (threadNumaNode tls = -1 \<longrightarrow> uint (tacc_rdtscp_chip aux) \<le> 8)"

lemma getThreadNuma_ok:
  assumes "thread_ready aux tls hl" "0 < totalNumaActive hl"
  shows "\<exists>n tls'. getThreadNuma aux tls hl = Inr (n, tls') \<and> n < nat (totalNumaActive hl) \<and> thread_ready aux tls' hl"
proof -
  have "-1 \<le> uint (tacc_rdtscp_chip aux)" using uint_ge_0[of "tacc_rdtscp_chip aux"] by linarith
  then show ?thesis using assms by (auto simp: getThreadNuma_def thread_ready_def Let_def simp del: nat_uint_eq)
qed

lemma getJumpNode_live:
  assumes "thread_ready aux tls hl" "leads_live junk L hl"
  shows "\<exists>a tls'. getJumpNode junk aux k tls hl = Inr (a, tls') \<and> a \<in> fst ` set L \<and> thread_ready aux tls' hl"
proof -
  have total: "0 < totalNumaActive hl" using assms(2) by (simp add: leads_live_def)
  obtain n tls' where n: "getThreadNuma aux tls hl = Inr (n, tls')" "n < length (perNumaSlPtr hl)" "thread_ready aux tls' hl"
    using getThreadNuma_ok[OF assms(1) total] assms(2) by (auto simp: leads_live_def)
  let ?sl = "perNumaSlPtr hl ! n" and ?K = "nodeKeyAt junk (dl hl)"
  have sl: "sl_inv ?K ?sl" "sl_counted ?sl" "ran (sl_map ?K ?sl) \<subseteq> word_of_nat ` fst ` set L"
    using assms(2) nth_mem[OF n(2)] by (auto simp: leads_live_def)
  have hd: "dlHead hl \<in> fst ` set L" using assms(2) by (simp add: leads_live_def)
  show ?thesis
  proof (cases "SL_isEmpty ?sl")
    case True
    then show ?thesis using n hd by (simp add: getJumpNode_def Let_def)
  next
    case False
    from SL_nearest[OF sl(1,2) False, of k] obtain r where r: "SL_lookup ?K k ?sl = Some r" "r = 0 \<or> r \<in> ran (sl_map ?K ?sl)"
      by (auto split: if_splits)
    have "unat r \<in> fst ` set L" if "r \<noteq> 0"
    proof -
      have "r \<in> word_of_nat ` fst ` set L" using r(2) that sl(3) by blast
      then obtain a where "a \<in> fst ` set L" "r = word_of_nat a" by blast
      moreover have "a < 2 ^ 64" using calculation(1) assms(2) unfolding leads_live_def by blast
      ultimately show ?thesis by (simp add: unat_of_nat)
    qed
    then show ?thesis using n hd r(1) False by (simp add: getJumpNode_def Let_def)
  qed
qed

text \<open>
  An operation that works from every live node works from the jump node. Reading the clock does
  not concern the list, and afterwards the thread counts as outside again.
\<close>

definition ran_once :: "thread_local \<Rightarrow> HydraListImpl \<Rightarrow> HydraListImpl \<Rightarrow> bool" where
  "ran_once tls hl hl' \<longleftrightarrow> (let i = the (curThreadData tls); td = threadDataSet hl ! i in
     hl' = hl\<lparr>dl := dl hl', threadDataSet := (threadDataSet hl)[i := td\<lparr>localClock := rdtscp (dl hl) (clkReads (dl hl)), runCnt := runCnt td + 2\<rparr>]\<rparr>)"

lemma dl_inv_clock [simp]: "dl_inv f L q (s\<lparr>clkReads := n\<rparr>) = dl_inv f L q s"
  by (simp add: dl_inv_def alloc_ok_def)

lemma leads_live_begin:
  assumes "leads_live junk L hl"
  shows "leads_live junk L (hl\<lparr>dl := (dl hl)\<lparr>clkReads := n\<rparr>, threadDataSet := ts'\<rparr>)"
  using assms by (simp add: leads_live_def nodeKeyAt_def[abs_def])

lemma fromJumpNode_ok:
  assumes "thread_ready aux tls hl" "leads_live junk L hl"
    and f: "\<And>a. a \<in> fst ` set L \<Longrightarrow> \<exists>r h'. f (Some a) (dl hl) = Some (Inr (r, h')) \<and> P r h'"
  shows "\<exists>r h' tls'. fromJumpNode junk aux k tls hl f = Some (Inr (r, tls', hl\<lparr>dl := h'\<rparr>)) \<and> P r h' \<and> thread_ready aux tls' hl"
proof -
  obtain a tls' where a: "getJumpNode junk aux k tls hl = Inr (a, tls')" "a \<in> fst ` set L" "thread_ready aux tls' hl"
    using getJumpNode_live[OF assms(1,2)] by blast
  then show ?thesis using f[OF a(2)] by (auto simp: fromJumpNode_def)
qed

lemma fromJumpNode_fault:
  assumes "thread_ready aux tls hl" "leads_live junk L hl" "\<And>a. a \<in> fst ` set L \<Longrightarrow> f (Some a) (dl hl) = Some (Inl e)"
  shows "fromJumpNode junk aux k tls hl f = Some (Inl e)"
proof -
  obtain a tls' where "getJumpNode junk aux k tls hl = Inr (a, tls')" "a \<in> fst ` set L" using getJumpNode_live[OF assms(1,2)] by blast
  then show ?thesis using assms(3) by (simp add: fromJumpNode_def)
qed

lemma guarded_ok:
  assumes "thread_ready aux tls hl" "leads_live junk L hl"
    and f: "\<And>a s. a \<in> fst ` set L \<Longrightarrow> s = (dl hl)\<lparr>clkReads := clkReads (dl hl) + 1\<rparr> \<Longrightarrow> \<exists>r h'. f (Some a) s = Some (Inr (r, h')) \<and> P r h'"
  shows "\<exists>r tls' hl'. guarded junk aux k tls hl f = Some (Inr (r, tls', hl')) \<and> P r (dl hl') \<and> ran_once tls hl hl' \<and> thread_ready aux tls' hl'"
proof -
  obtain i where i: "curThreadData tls = Some i" "i < length (threadDataSet hl)" using assms(1) by (auto simp: thread_ready_def)
  let ?h = "(dl hl)\<lparr>clkReads := clkReads (dl hl) + 1\<rparr>"
  let ?hl = "hl\<lparr>dl := ?h, threadDataSet := (threadDataSet hl)[i := td_read_lock (rdtscp (dl hl) (clkReads (dl hl))) (threadDataSet hl ! i)]\<rparr>"
  have b: "beginOp tls hl = Inr ?hl" by (simp add: beginOp_def ordo_get_clock_def i(1))
  have r: "thread_ready aux tls ?hl" using assms(1) by (simp add: thread_ready_def)
  obtain r h' tls' where j: "fromJumpNode junk aux k tls ?hl f = Some (Inr (r, tls', ?hl\<lparr>dl := h'\<rparr>))" "P r h'" "thread_ready aux tls' ?hl"
    using fromJumpNode_ok[OF r leads_live_begin[OF assms(2)], of f P k] f by auto
  have "ran_once tls hl (endOp tls (?hl\<lparr>dl := h'\<rparr>))"
    using i by (simp add: ran_once_def endOp_def td_read_unlock_def td_read_lock_def incrementRunCnt_def setLocalClock_def Let_def ac_simps)
  then show ?thesis using b j by (auto simp: guarded_def endOp_def thread_ready_def Let_def)
qed

text \<open>How a writing operation ends: it returned \<open>r\<close> and left a well-formed list that holds \<open>m\<close>.\<close>

definition returned :: "nat \<Rightarrow> addr \<Rightarrow> u64 \<Rightarrow> thread_local \<Rightarrow> HydraListImpl \<Rightarrow> (bool \<times> thread_local \<times> HydraListImpl) outcome \<Rightarrow>
    bool \<Rightarrow> (Key_t \<rightharpoonup> Val_t) \<Rightarrow> bool" where
  "returned f q aux tls hl res r m \<longleftrightarrow> (\<exists>L' tls' hl'. res = Some (Inr (r, tls', hl')) \<and> dl_inv f L' q (dl hl') \<and> dl_map L' = m \<and>
     ran_once tls hl hl' \<and> thread_ready aux tls' hl')"

section \<open>Properties\<close>

text \<open>C31. While the search layers lead to nodes of the list, \<open>insert\<close>, \<open>update\<close> and \<open>remove\<close> by a
  registered thread return, change the map as they should and say truthfully whether they did; the
  list stays well formed and the thread has counted itself in and out once.\<close>

theorem HydraList_writes_correct:
  assumes "dl_inv (Suc f) L q (dl hl)" "leads_live junk L hl" "thread_ready aux tls hl" "k \<noteq> ULLONG_MAX"
  shows "returned f q aux tls hl (HydraList_insert junk aux k v tls hl) (dl_map L k = None)
      (if dl_map L k = None then (dl_map L)(k \<mapsto> v) else dl_map L) \<and>
    returned f q aux tls hl (HydraList_update junk aux k v tls hl) (dl_map L k \<noteq> None)
      (if dl_map L k = None then dl_map L else (dl_map L)(k \<mapsto> v)) \<and>
    returned f q aux tls hl (HydraList_remove junk aux k tls hl) (dl_map L k \<noteq> None) ((dl_map L)(k := None))"
proof -
  have inv: "dl_inv (Suc f) L q s" if "s = (dl hl)\<lparr>clkReads := clkReads (dl hl) + 1\<rparr>" for s
    using assms(1) that by simp
  have g: "returned f q aux tls hl (guarded junk aux k tls hl op') r m"
    if op': "\<And>a s. a \<in> fst ` set L \<Longrightarrow> dl_inv (Suc f) L q s \<Longrightarrow> \<exists>L' s'. op' (Some a) s = Some (Inr (r, s')) \<and> dl_inv f L' q s' \<and> dl_map L' = m"
    for op' and r :: bool and m
  proof -
    let ?P = "\<lambda>r' h'. r' = r \<and> (\<exists>L'. dl_inv f L' q h' \<and> dl_map L' = m)"
    have "\<exists>r' h'. op' (Some a) s = Some (Inr (r', h')) \<and> ?P r' h'"
      if "a \<in> fst ` set L" "s = (dl hl)\<lparr>clkReads := clkReads (dl hl) + 1\<rparr>" for a s
      using op'[OF that(1) inv[OF that(2)]] by blast
    from guarded_ok[where f = op' and P = ?P, OF assms(3,2) this, of k] show ?thesis unfolding returned_def by blast
  qed
  have "returned f q aux tls hl (HydraList_insert junk aux k v tls hl) (dl_map L k = None)
      (if dl_map L k = None then (dl_map L)(k \<mapsto> v) else dl_map L)"
    unfolding HydraList_insert_def
    by (rule g) (use LinkedList_insert_refines[OF _ _ assms(4), of f L q _ _ "self tls" v, unfolded wrote_def] in blast)
  moreover have "returned f q aux tls hl (HydraList_update junk aux k v tls hl) (dl_map L k \<noteq> None)
      (if dl_map L k = None then dl_map L else (dl_map L)(k \<mapsto> v))"
    unfolding HydraList_update_def
    by (rule g) (use LinkedList_update_refines[OF _ _ assms(4), of f L q _ _ v, unfolded wrote_def] in blast)
  moreover have "returned f q aux tls hl (HydraList_remove junk aux k tls hl) (dl_map L k \<noteq> None) ((dl_map L)(k := None))"
    unfolding HydraList_remove_def
    by (rule g) (use LinkedList_remove_refines[OF _ _ assms(4), of f L q _ _ "self tls", unfolded wrote_def] in blast)
  ultimately show ?thesis by blast
qed

text \<open>C32. While the search layers lead to nodes of the list, for any key but \<open>ULLONG_MAX\<close>: \<open>lookup\<close> by a registered thread returns the value of the key, or
  whatever the uninitialised variable held if there is none. \<open>scan\<close> fails where that of the list does
  (\<open>scan_fault\<close>: a negative range, or an empty node at the start key whose uninitialised permutation cache begins with an
  index outside of the array), and otherwise returns the values of the smallest keys from the start key on and their
  number. Neither changes the map.\<close>

theorem HydraList_reads_correct:
  assumes "dl_inv f L q (dl hl)" "leads_live junk L hl" "thread_ready aux tls hl" "k \<noteq> ULLONG_MAX"
  shows "(\<exists>tls' hl'. HydraList_lookup junk aux val k tls hl = Some (Inr (case dl_map L k of Some v \<Rightarrow> v | None \<Rightarrow> val, tls', hl')) \<and>
      dl_inv f L q (dl hl') \<and> ran_once tls hl hl') \<and>
    (case scan_fault k rng L of
       Some e \<Rightarrow> HydraList_scan junk aux k rng tls hl = Some (Inl e)
     | None \<Rightarrow> (\<exists>L' tls' hl'. HydraList_scan junk aux k rng tls hl =
           Some (Inr ((word_of_nat (min (nat rng) (length (range_values k (dl_map L)))), take (nat rng) (range_values k (dl_map L))), tls', hl')) \<and>
         dl_inv f L' q (dl hl') \<and> dl_map L' = dl_map L))"
proof
  let ?look = "\<lambda>p h. case LinkedList_lookup getKeyFingerPrint k p h of None \<Rightarrow> None | Some (Inl e) \<Rightarrow> Some (Inl e)
     | Some (Inr r) \<Rightarrow> Some (Inr (case r of Some v \<Rightarrow> v | None \<Rightarrow> val, h))"
  let ?P = "\<lambda>r h'. r = (case dl_map L k of Some v \<Rightarrow> v | None \<Rightarrow> val) \<and> dl_inv f L q h'"
  have "\<exists>r h'. ?look (Some a) s = Some (Inr (r, h')) \<and> ?P r h'"
    if "a \<in> fst ` set L" "s = (dl hl)\<lparr>clkReads := clkReads (dl hl) + 1\<rparr>" for a s
    using LinkedList_lookup_refines[of f L q s a k] assms(1,4) that by simp
  from guarded_ok[where f = ?look and P = ?P, OF assms(3,2) this, of k]
  show "\<exists>tls' hl'. HydraList_lookup junk aux val k tls hl = Some (Inr (case dl_map L k of Some v \<Rightarrow> v | None \<Rightarrow> val, tls', hl')) \<and>
      dl_inv f L q (dl hl') \<and> ran_once tls hl hl'"
    unfolding HydraList_lookup_def by blast
next
  let ?vs = "take (nat rng) (range_values k (dl_map L))"
  let ?scan = "\<lambda>p h. case LinkedList_scan k rng p h of None \<Rightarrow> None | Some (Inl e) \<Rightarrow> Some (Inl e)
     | Some (Inr (rv, h')) \<Rightarrow> Some (Inr ((word_of_nat (length rv) :: u64, rv), h'))"
  show "case scan_fault k rng L of Some e \<Rightarrow> HydraList_scan junk aux k rng tls hl = Some (Inl e)
     | None \<Rightarrow> (\<exists>L' tls' hl'. HydraList_scan junk aux k rng tls hl =
           Some (Inr ((word_of_nat (min (nat rng) (length (range_values k (dl_map L)))), ?vs), tls', hl')) \<and>
         dl_inv f L' q (dl hl') \<and> dl_map L' = dl_map L)"
  proof (cases "scan_fault k rng L")
    case None
    let ?P = "\<lambda>r h'. r = (word_of_nat (length ?vs), ?vs) \<and> (\<exists>L'. dl_inv f L' q h' \<and> dl_map L' = dl_map L)"
    have "\<exists>r h'. ?scan (Some a) (dl hl) = Some (Inr (r, h')) \<and> ?P r h'" if "a \<in> fst ` set L" for a
      using LinkedList_scan_refines[OF assms(1) that assms(4), of rng] None scanned_same by fastforce
    from fromJumpNode_ok[where f = ?scan and P = ?P, OF assms(3,2) this, of k]
    show ?thesis unfolding HydraList_scan_def using None by (auto simp: min.commute)
  next
    case (Some e)
    have "?scan (Some a) (dl hl) = Some (Inl e)" if "a \<in> fst ` set L" for a
      using LinkedList_scan_refines[OF assms(1) that assms(4), of rng] Some by simp
    from fromJumpNode_fault[where f = ?scan, OF assms(3,2) this] show ?thesis unfolding HydraList_scan_def using Some by simp
  qed
qed

text \<open>A new index on one NUMA node with one registered thread.\<close>

definition demo_tls :: thread_local where
  "demo_tls = \<lparr>self = 0, threadNumaNode = -1, curThreadData = Some 0\<rparr>"

definition demo_hl :: HydraListImpl where
  "demo_hl = snd (registerThread 0 (demo_tls\<lparr>curThreadData := None\<rparr>) (projr (HydraListImpl_new 1 0 1 boot)))"

lemma demo_hl_ok: "dl demo_hl = boot_list" "leads_live 0 boot_cells demo_hl" "thread_ready 0 demo_tls demo_hl"
proof -
  obtain n s' where "LinkedList_initialize 0 boot = Inr (0, s')"
    using LinkedList_initialize_ok[OF alloc_ok_boot, of 1000 0] by (auto simp: boot_def)
  then have d: "demo_hl = \<lparr>dl = boot_list, dlHead = 0, perNumaSlPtr = [SL_new], totalNumaActive = 1, numThreads = 1,
      threadDataSet = [ThreadData_new 0 0]\<rparr>"
    by (simp add: demo_hl_def HydraListImpl_new_def registerThread_def boot_list_def)
  show "dl demo_hl = boot_list" by (simp add: d)
  show "leads_live 0 boot_cells demo_hl" using SL_new_ok by (simp add: d leads_live_def boot_cells_def)
  show "thread_ready 0 demo_tls demo_hl" by (simp add: d thread_ready_def demo_tls_def tacc_rdtscp_chip_def)
qed

theorem HydraList_writes_correct_witness:
  "returned 999 1 0 demo_tls demo_hl (HydraList_insert 0 0 5 7 demo_tls demo_hl) True [0 \<mapsto> 0, 5 \<mapsto> 7] \<and>
   returned 999 1 0 demo_tls demo_hl (HydraList_remove 0 0 5 demo_tls demo_hl) False [0 \<mapsto> 0]"
proof -
  have inv: "dl_inv (Suc 999) boot_cells 1 (dl demo_hl)" using boot_list_ok(1) by (simp add: demo_hl_ok(1))
  have "[0 \<mapsto> 0](5 := None) = [(0 :: Key_t) \<mapsto> (0 :: Val_t)]" by auto
  then show ?thesis using HydraList_writes_correct[OF inv demo_hl_ok(2,3), of 5 7] by (simp add: boot_list_ok(2))
qed

theorem HydraList_reads_correct_witness:
  "(\<exists>tls' hl'. HydraList_lookup 0 0 42 0 demo_tls demo_hl = Some (Inr (0, tls', hl'))) \<and>
   (\<exists>tls' hl'. HydraList_lookup 0 0 42 5 demo_tls demo_hl = Some (Inr (42, tls', hl'))) \<and>
   (\<exists>tls' hl'. HydraList_scan 0 0 0 3 demo_tls demo_hl = Some (Inr ((1, [0]), tls', hl')))"
proof -
  have inv: "dl_inv 1000 boot_cells 1 (dl demo_hl)" using boot_list_ok(1) by (simp add: demo_hl_ok(1))
  have "range_values (0 :: Key_t) (dl_map boot_cells) = [0]" by (simp add: boot_list_ok(2) range_values_def map_entries_def)
  then show ?thesis using HydraList_reads_correct[OF inv demo_hl_ok(2,3), of 0 42 3]
    HydraList_reads_correct[OF inv demo_hl_ok(2,3), of 5 42 3] by (auto simp: boot_list_ok(2,3) scan_fault_def)
qed

end
