(* ===== verification/Epoche.thy ===== *)
theory Epoche
  imports HL_Prelude "HOL-Library.Multiset"
begin

text \<open>
  The memory reclamation of the radix tree, \<open>Epoche.cpp\<close>: a thread stores the epoch in which it works
  on the tree, collects the nodes it took out of the tree in a list of labels, and frees a label
  when all threads work in later epochs.
\<close>

section \<open>Definitions\<close>

text \<open>
  A label has room for 32 nodes; \<open>lnodes\<close> are the first \<open>nodesCount\<close> of them. The linked lists of
  labels are lists.
\<close>

record LabelDelete =
  lnodes :: "addr list"
  epoche :: u64

record DeletionList =
  headDeletionList :: "LabelDelete list"
  freeLabelDeletes :: "LabelDelete list"
  deletitionListCount :: u64
  localEpoche :: u64
  thresholdCounter :: u64
  deletedNodes :: u64
  addedNodes :: u64

definition DeletionList_new :: "u64 \<Rightarrow> DeletionList" where
  "DeletionList_new junk = \<lparr>headDeletionList = [], freeLabelDeletes = [], deletitionListCount = 0, localEpoche = junk,
     thresholdCounter = 0, deletedNodes = 0, addedNodes = 0\<rparr>"

definition DeletionList_size :: "DeletionList \<Rightarrow> u64" where
  "DeletionList_size d = deletitionListCount d"

text \<open>\<open>remove\<close> of the label at place \<open>i\<close>; \<open>prev\<close> is the place before it.\<close>

definition DeletionList_remove :: "nat \<Rightarrow> DeletionList \<Rightarrow> DeletionList" where
  "DeletionList_remove i d = (let l = headDeletionList d ! i in
     d\<lparr>headDeletionList := take i (headDeletionList d) @ drop (Suc i) (headDeletionList d),
       deletitionListCount := deletitionListCount d - word_of_nat (length (lnodes l)),
       freeLabelDeletes := l # freeLabelDeletes d,
       deletedNodes := deletedNodes d + word_of_nat (length (lnodes l))\<rparr>)"

definition pushLabel :: "DeletionList \<Rightarrow> DeletionList" where
  "pushLabel d = (case freeLabelDeletes d of
       [] \<Rightarrow> d\<lparr>headDeletionList := \<lparr>lnodes = [], epoche = 0\<rparr> # headDeletionList d\<rparr>
     | l # ls \<Rightarrow> d\<lparr>headDeletionList := l\<lparr>lnodes := []\<rparr> # headDeletionList d, freeLabelDeletes := ls\<rparr>)"

definition DeletionList_add :: "addr \<Rightarrow> u64 \<Rightarrow> DeletionList \<Rightarrow> DeletionList" where
  "DeletionList_add n globalEpoch d =
     (let d1 = d\<lparr>deletitionListCount := deletitionListCount d + 1\<rparr>;
          d2 = (if headDeletionList d1 \<noteq> [] \<and> length (lnodes (hd (headDeletionList d1))) < 32 then d1 else pushLabel d1);
          label = hd (headDeletionList d2)
      in d2\<lparr>headDeletionList := label\<lparr>lnodes := lnodes label @ [n], epoche := globalEpoch\<rparr> # tl (headDeletionList d2),
            addedNodes := addedNodes d + 1\<rparr>)"

text \<open>The deletion lists are local to threads; a thread is named by its place.\<close>

record Epoche =
  currentEpoche :: u64
  deletionLists :: "DeletionList list"
  startGCThreshhold :: u64

definition upd_list :: "nat \<Rightarrow> (DeletionList \<Rightarrow> DeletionList) \<Rightarrow> Epoche \<Rightarrow> Epoche" where
  "upd_list t f e = e\<lparr>deletionLists := (deletionLists e)[t := f (deletionLists e ! t)]\<rparr>"

definition enterEpoche :: "nat \<Rightarrow> Epoche \<Rightarrow> Epoche" where
  "enterEpoche t e = (let curEpoche = currentEpoche e in upd_list t (\<lambda>d. d\<lparr>localEpoche := curEpoche\<rparr>) e)"

definition markNodeForDeletion :: "addr \<Rightarrow> nat \<Rightarrow> Epoche \<Rightarrow> Epoche" where
  "markNodeForDeletion n t e =
     upd_list t (\<lambda>d. d\<lparr>thresholdCounter := thresholdCounter d + 1\<rparr>) (upd_list t (DeletionList_add n (currentEpoche e)) e)"

definition leaveEpoche :: "nat \<Rightarrow> Epoche \<Rightarrow> Epoche" where
  "leaveEpoche t e = upd_list t (\<lambda>d. d\<lparr>localEpoche := ULLONG_MAX\<rparr>) e"

definition oldestEpoche :: "DeletionList list \<Rightarrow> u64" where
  "oldestEpoche ds = fold (\<lambda>d m. if localEpoche d < m then localEpoche d else m) ds ULLONG_MAX"

text \<open>The loop over the labels of \<open>exitEpocheAndCleanup\<close>, with the nodes it has freed.\<close>

function cleanup_loop :: "u64 \<Rightarrow> nat \<Rightarrow> DeletionList \<times> addr list \<Rightarrow> DeletionList \<times> addr list" where
  "cleanup_loop oldest i (d, freed) =
     (if i < length (headDeletionList d) then
        (let cur = headDeletionList d ! i in
         if epoche cur < oldest then cleanup_loop oldest i (DeletionList_remove i d, freed @ lnodes cur)
         else cleanup_loop oldest (Suc i) (d, freed))
      else (d, freed))"
  by pat_completeness auto
termination
  by (relation "measure (\<lambda>(oldest, i, d, freed). length (headDeletionList d) - i)")
    (auto simp: DeletionList_remove_def Let_def)

definition bumpEpoche :: "nat \<Rightarrow> Epoche \<Rightarrow> Epoche" where
  "bumpEpoche t e =
     (if thresholdCounter (deletionLists e ! t) AND (64 - 1) = 1 then e\<lparr>currentEpoche := currentEpoche e + 1\<rparr> else e)"

text \<open>The nodes that are freed, and the state afterwards.\<close>

definition exitEpocheAndCleanup :: "nat \<Rightarrow> Epoche \<Rightarrow> addr list \<times> Epoche" where
  "exitEpocheAndCleanup t e =
     (let e1 = bumpEpoche t e;
          d = deletionLists e1 ! t
      in if thresholdCounter d > startGCThreshhold e1 then
           (if DeletionList_size d = 0 then ([], upd_list t (\<lambda>d. d\<lparr>thresholdCounter := 0\<rparr>) e1)
            else
              (let e2 = leaveEpoche t e1;
                   oldest = oldestEpoche (deletionLists e2);
                   (d', freed) = cleanup_loop oldest 0 (deletionLists e2 ! t, [])
               in (freed, upd_list t (\<lambda>_. d'\<lparr>thresholdCounter := 0\<rparr>) e2)))
         else ([], e1))"

text \<open>The destructor frees everything, and asserts that nobody works in an old epoch.\<close>

fun destroy_list :: "u64 \<Rightarrow> LabelDelete list \<Rightarrow> addr list option" where
  "destroy_list oldest [] = Some []"
| "destroy_list oldest (l # ls) =
     (if epoche l < oldest then map_option ((@) (lnodes l)) (destroy_list oldest ls) else None)"

definition Epoche_destroy :: "Epoche \<Rightarrow> addr list option" where
  "Epoche_destroy e = destroy_list (oldestEpoche (deletionLists e)) (concat (map headDeletionList (deletionLists e)))"

text \<open>Whether a clean-up goes through the labels at all.\<close>

definition cleans :: "nat \<Rightarrow> Epoche \<Rightarrow> bool" where
  "cleans t e \<longleftrightarrow> thresholdCounter (deletionLists e ! t) > startGCThreshhold e \<and> DeletionList_size (deletionLists e ! t) \<noteq> 0"

subsection \<open>Threads working on the tree\<close>

text \<open>
  Where a thread is: outside; with the epoch it has loaded; working on the tree; with a node it has
  just taken out of the tree; in \<open>exitEpocheAndCleanup\<close>, before it looks at the epoch of thread \<open>i\<close>
  or before it frees.
\<close>

datatype epoch_pc = EOut | ELoaded u64 | EIn | EUnlinked addr | EScan nat u64 | EFree u64

text \<open>
  \<open>linked\<close> are the nodes of the tree; \<open>mayHold\<close> are for each thread the nodes to which it may have a
  pointer, because they were in the tree at some time since it began to work. Not part of the
  program: \<open>mayHold\<close> and \<open>advances\<close>, the number of times the epoch was advanced.
\<close>

record epoch_state =
  ep :: Epoche
  epcs :: "epoch_pc list"
  linked :: "addr set"
  mayHold :: "addr set list"
  advances :: nat

definition working :: "epoch_pc \<Rightarrow> bool" where
  "working p \<longleftrightarrow> p = EIn \<or> (\<exists>n. p = EUnlinked n)"

text \<open>A node that is in the tree, or out of it and not yet freed.\<close>

definition in_use :: "addr \<Rightarrow> epoch_state \<Rightarrow> bool" where
  "in_use n s \<longleftrightarrow> n \<in> linked s \<or> EUnlinked n \<in> set (epcs s) \<or>
     (\<exists>d \<in> set (deletionLists (ep s)). \<exists>l \<in> set (headDeletionList d). n \<in> set (lnodes l))"

definition advanced :: "nat \<Rightarrow> epoch_state \<Rightarrow> nat" where
  "advanced t s = (if bumpEpoche t (ep s) = ep s then advances s else Suc (advances s))"

inductive estep :: "epoch_state \<Rightarrow> epoch_state \<Rightarrow> bool" where
  Load: "t < length (epcs s) \<Longrightarrow> epcs s ! t = EOut \<Longrightarrow> estep s (s\<lparr>epcs := (epcs s)[t := ELoaded (currentEpoche (ep s))]\<rparr>)"
| Store: "t < length (epcs s) \<Longrightarrow> epcs s ! t = ELoaded c \<Longrightarrow>
    estep s (s\<lparr>epcs := (epcs s)[t := EIn], ep := upd_list t (\<lambda>d. d\<lparr>localEpoche := c\<rparr>) (ep s), mayHold := (mayHold s)[t := linked s]\<rparr>)"
| Link: "t < length (epcs s) \<Longrightarrow> epcs s ! t = EIn \<Longrightarrow> \<not> in_use n s \<Longrightarrow>
    estep s (s\<lparr>linked := insert n (linked s), mayHold := map2 (\<lambda>p r. if working p then insert n r else r) (epcs s) (mayHold s)\<rparr>)"
| Unlink: "t < length (epcs s) \<Longrightarrow> epcs s ! t = EIn \<Longrightarrow> n \<in> linked s \<Longrightarrow>
    estep s (s\<lparr>epcs := (epcs s)[t := EUnlinked n], linked := linked s - {n}\<rparr>)"
| Mark: "t < length (epcs s) \<Longrightarrow> epcs s ! t = EUnlinked n \<Longrightarrow>
    estep s (s\<lparr>epcs := (epcs s)[t := EIn], ep := markNodeForDeletion n t (ep s)\<rparr>)"
| LeaveRead: "t < length (epcs s) \<Longrightarrow> epcs s ! t = EIn \<Longrightarrow>
    estep s (s\<lparr>epcs := (epcs s)[t := EOut], ep := leaveEpoche t (ep s), mayHold := (mayHold s)[t := {}]\<rparr>)"
| LeaveWrite: "t < length (epcs s) \<Longrightarrow> epcs s ! t = EIn \<Longrightarrow> \<not> cleans t (ep s) \<Longrightarrow>
    estep s (s\<lparr>epcs := (epcs s)[t := EOut], ep := leaveEpoche t (snd (exitEpocheAndCleanup t (ep s))), mayHold := (mayHold s)[t := {}],
      advances := advanced t s\<rparr>)"
| BeginGC: "t < length (epcs s) \<Longrightarrow> epcs s ! t = EIn \<Longrightarrow> cleans t (ep s) \<Longrightarrow>
    estep s (s\<lparr>epcs := (epcs s)[t := EScan 0 ULLONG_MAX], ep := leaveEpoche t (bumpEpoche t (ep s)), mayHold := (mayHold s)[t := {}],
      advances := advanced t s\<rparr>)"
| Scan: "t < length (epcs s) \<Longrightarrow> epcs s ! t = EScan i o' \<Longrightarrow> i < length (epcs s) \<Longrightarrow> e = localEpoche (deletionLists (ep s) ! i) \<Longrightarrow>
    estep s (s\<lparr>epcs := (epcs s)[t := EScan (Suc i) (if e < o' then e else o')]\<rparr>)"
| ScanEnd: "t < length (epcs s) \<Longrightarrow> epcs s ! t = EScan (length (epcs s)) o' \<Longrightarrow> estep s (s\<lparr>epcs := (epcs s)[t := EFree o']\<rparr>)"
| Free: "t < length (epcs s) \<Longrightarrow> epcs s ! t = EFree o' \<Longrightarrow> cleanup_loop o' 0 (deletionLists (ep s) ! t, []) = (d', freed) \<Longrightarrow>
    estep s (s\<lparr>epcs := (epcs s)[t := EOut], ep := upd_list t (\<lambda>_. d'\<lparr>thresholdCounter := 0\<rparr>) (ep s)\<rparr>)"

definition epoch_new :: "u64 \<Rightarrow> u64 list \<Rightarrow> addr set \<Rightarrow> epoch_state" where
  "epoch_new threshold junk tree = \<lparr>ep = \<lparr>currentEpoche = 0, deletionLists = map DeletionList_new junk, startGCThreshhold = threshold\<rparr>,
     epcs = replicate (length junk) EOut, linked = tree, mayHold = replicate (length junk) {}, advances = 0\<rparr>"

section \<open>One thread's list\<close>

definition listed :: "DeletionList \<Rightarrow> addr list" where
  "listed d = concat (map lnodes (headDeletionList d))"

text \<open>The count is the number of listed nodes, and every label holds between 1 and 32 of them.\<close>

definition dlist_ok :: "DeletionList \<Rightarrow> bool" where
  "dlist_ok d \<longleftrightarrow> deletitionListCount d = word_of_nat (length (listed d)) \<and>
     (\<forall>l \<in> set (headDeletionList d). lnodes l \<noteq> [] \<and> length (lnodes l) \<le> 32)"

lemma DeletionList_new_ok: "dlist_ok (DeletionList_new junk)" "listed (DeletionList_new junk) = []"
  by (simp_all add: dlist_ok_def listed_def DeletionList_new_def)

text \<open>\<open>add\<close> either opens a new label or extends the first one.\<close>

lemma DeletionList_add_head:
  "\<exists>l ls. headDeletionList (DeletionList_add n g d) = \<lparr>lnodes = l @ [n], epoche = g\<rparr> # ls \<and> length l < 32 \<and>
     (l = [] \<and> ls = headDeletionList d \<or> (\<exists>k. headDeletionList d = k # ls \<and> lnodes k = l))"
proof (cases "headDeletionList d \<noteq> [] \<and> length (lnodes (hd (headDeletionList d))) < 32")
  case True
  then obtain k ls where "headDeletionList d = k # ls" by (cases "headDeletionList d") auto
  then show ?thesis using True by (intro exI[of _ "lnodes k"] exI[of _ ls]) (simp add: DeletionList_add_def Let_def)
next
  case False
  then show ?thesis
    by (intro exI[of _ "[]"] exI[of _ "headDeletionList d"])
      (auto simp: DeletionList_add_def pushLabel_def Let_def split: list.splits)
qed

lemma DeletionList_add_sel [simp]: "localEpoche (DeletionList_add n g d) = localEpoche d"
  "deletitionListCount (DeletionList_add n g d) = deletitionListCount d + 1"
  "thresholdCounter (DeletionList_add n g d) = thresholdCounter d"
  by (simp_all add: DeletionList_add_def pushLabel_def Let_def split: list.splits)

lemma DeletionList_add_ok:
  assumes "dlist_ok d"
  shows "dlist_ok (DeletionList_add n g d)" "mset (listed (DeletionList_add n g d)) = add_mset n (mset (listed d))"
proof -
  obtain l ls where h: "headDeletionList (DeletionList_add n g d) = \<lparr>lnodes = l @ [n], epoche = g\<rparr> # ls" "length l < 32"
      "l = [] \<and> ls = headDeletionList d \<or> (\<exists>k. headDeletionList d = k # ls \<and> lnodes k = l)"
    using DeletionList_add_head by blast
  show m: "mset (listed (DeletionList_add n g d)) = add_mset n (mset (listed d))" using h by (auto simp: listed_def)
  have "length (listed (DeletionList_add n g d)) = Suc (length (listed d))" using m by (metis size_add_mset size_mset)
  then show "dlist_ok (DeletionList_add n g d)" using h assms by (auto simp: dlist_ok_def)
qed

lemma mset_partition_labels:
  "mset (concat (map lnodes H)) = mset (concat (map lnodes (filter P H))) + mset (concat (map lnodes (filter (\<lambda>l. \<not> P l) H)))"
  by (induction H) auto

lemma listed_remove:
  assumes "i < length (headDeletionList d)"
  shows "length (listed d) = length (listed (DeletionList_remove i d)) + length (lnodes (headDeletionList d ! i))"
proof -
  have "headDeletionList d = take i (headDeletionList d) @ headDeletionList d ! i # drop (Suc i) (headDeletionList d)"
    using assms by (simp add: id_take_nth_drop)
  then have "listed d = concat (map lnodes (take i (headDeletionList d))) @ lnodes (headDeletionList d ! i) @ concat (map lnodes (drop (Suc i) (headDeletionList d)))"
    unfolding listed_def by (metis concat.simps(2) concat_append list.simps(9) map_append)
  then show ?thesis by (simp add: listed_def DeletionList_remove_def Let_def)
qed

lemma DeletionList_remove_sel:
  "headDeletionList (DeletionList_remove i d) = take i (headDeletionList d) @ drop (Suc i) (headDeletionList d)"
  "localEpoche (DeletionList_remove i d) = localEpoche d"
  "deletitionListCount (DeletionList_remove i d) = deletitionListCount d - word_of_nat (length (lnodes (headDeletionList d ! i)))"
  by (simp_all add: DeletionList_remove_def Let_def)

lemma DeletionList_remove_ok:
  assumes "dlist_ok d" "i < length (headDeletionList d)"
  shows "dlist_ok (DeletionList_remove i d)"
proof -
  have "deletitionListCount (DeletionList_remove i d) = word_of_nat (length (listed (DeletionList_remove i d)))"
    using assms(1) listed_remove[OF assms(2)] by (simp add: dlist_ok_def DeletionList_remove_sel(3))
  then show ?thesis using assms(1)
    by (auto simp: dlist_ok_def DeletionList_remove_sel(1) dest: in_set_takeD in_set_dropD)
qed

declare cleanup_loop.simps [simp del]

lemma cleanup_loop_ok:
  assumes "cleanup_loop oldest i (d, freed) = (d', freed')" "dlist_ok d"
  shows "headDeletionList d' = take i (headDeletionList d) @ filter (\<lambda>l. \<not> epoche l < oldest) (drop i (headDeletionList d)) \<and>
    freed' = freed @ concat (map lnodes (filter (\<lambda>l. epoche l < oldest) (drop i (headDeletionList d)))) \<and>
    dlist_ok d' \<and> localEpoche d' = localEpoche d"
  using assms
proof (induction oldest i "(d, freed)" arbitrary: d freed rule: cleanup_loop.induct)
  case (1 oldest i d freed)
  show ?case
  proof (cases "i < length (headDeletionList d)")
    case True
    let ?l = "headDeletionList d ! i"
    have dr: "drop i (headDeletionList d) = ?l # drop (Suc i) (headDeletionList d)" using True by (simp add: Cons_nth_drop_Suc)
    show ?thesis
    proof (cases "epoche ?l < oldest")
      case old: True
      note h = DeletionList_remove_sel[of i d]
      have t: "take i (headDeletionList (DeletionList_remove i d)) = take i (headDeletionList d)"
          "drop i (headDeletionList (DeletionList_remove i d)) = drop (Suc i) (headDeletionList d)"
        using True by (simp_all add: h)
      have "cleanup_loop oldest i (DeletionList_remove i d, freed @ lnodes ?l) = (d', freed')"
        using "1.prems"(1) True old by (simp add: cleanup_loop.simps[of oldest i d] Let_def)
      from "1.hyps"(1)[OF True refl old this DeletionList_remove_ok[OF "1.prems"(2) True]] show ?thesis
        unfolding t using old by (simp add: h(2) dr)
    next
      case new: False
      have "cleanup_loop oldest (Suc i) (d, freed) = (d', freed')"
        using "1.prems"(1) True new by (simp add: cleanup_loop.simps[of oldest i d] Let_def)
      from "1.hyps"(2)[OF True refl new this "1.prems"(2)] show ?thesis
        using True new by (simp add: dr take_Suc_conv_app_nth)
    qed
  next
    case False
    then show ?thesis using "1.prems" by (simp add: cleanup_loop.simps[of oldest i d])
  qed
qed

lemma upd_list_sel [simp]: "currentEpoche (upd_list t f e) = currentEpoche e"
  "deletionLists (upd_list t f e) = (deletionLists e)[t := f (deletionLists e ! t)]"
  "startGCThreshhold (upd_list t f e) = startGCThreshhold e"
  by (simp_all add: upd_list_def)

text \<open>The oldest epoch among the other threads, when thread \<open>t\<close> cleans up.\<close>

definition oldest_other :: "nat \<Rightarrow> Epoche \<Rightarrow> u64" where
  "oldest_other t e = oldestEpoche (deletionLists (leaveEpoche t e))"

lemma oldest_other_le: "j < length (deletionLists e) \<Longrightarrow> j \<noteq> t \<Longrightarrow> oldest_other t e \<le> localEpoche (deletionLists e ! j)"
  using least_le[of localEpoche "deletionLists (leaveEpoche t e)" ULLONG_MAX]
    nth_mem[of j "deletionLists (leaveEpoche t e)"]
  by (simp add: oldest_other_def oldestEpoche_def leaveEpoche_def)

lemma exit_cases:
  assumes "t < length (deletionLists e)" "dlist_ok (deletionLists e ! t)" "exitEpocheAndCleanup t e = (freed, e')"
  defines "H \<equiv> headDeletionList (deletionLists e ! t)" and "d' \<equiv> deletionLists e' ! t"
  shows "headDeletionList d' = (if cleans t e then filter (\<lambda>l. \<not> epoche l < oldest_other t e) H else H) \<and>
    freed = (if cleans t e then concat (map lnodes (filter (\<lambda>l. epoche l < oldest_other t e) H)) else []) \<and>
    dlist_ok d' \<and> length (deletionLists e') = length (deletionLists e) \<and>
    (\<forall>j. j \<noteq> t \<longrightarrow> deletionLists e' ! j = deletionLists e ! j) \<and> (currentEpoche e' = currentEpoche e \<or> currentEpoche e' = currentEpoche e + 1)"
proof -
  define e1 where "e1 = bumpEpoche t e"
  have e1: "deletionLists e1 = deletionLists e" "startGCThreshhold e1 = startGCThreshhold e"
      "currentEpoche e1 = currentEpoche e \<or> currentEpoche e1 = currentEpoche e + 1"
    by (simp_all add: e1_def bumpEpoche_def)
  obtain d freed1 where c: "cleanup_loop (oldest_other t e) 0 (deletionLists (leaveEpoche t e1) ! t, []) = (d, freed1)" by fastforce
  have lv: "deletionLists (leaveEpoche t e1) ! t = (deletionLists e ! t)\<lparr>localEpoche := ULLONG_MAX\<rparr>" "oldest_other t e1 = oldest_other t e"
    using assms(1) by (simp_all add: leaveEpoche_def e1 oldest_other_def)
  have "dlist_ok (deletionLists (leaveEpoche t e1) ! t)" using assms(2) by (simp add: lv dlist_ok_def listed_def)
  note d = cleanup_loop_ok[OF c this]
  have o: "oldestEpoche (deletionLists (leaveEpoche t e1)) = oldest_other t e" using lv(2) by (simp add: oldest_other_def)
  have ex: "exitEpocheAndCleanup t e = (if cleans t e then (freed1, upd_list t (\<lambda>_. d\<lparr>thresholdCounter := 0\<rparr>) (leaveEpoche t e1))
      else if thresholdCounter (deletionLists e ! t) > startGCThreshhold e then ([], upd_list t (\<lambda>d. d\<lparr>thresholdCounter := 0\<rparr>) e1) else ([], e1))"
    unfolding exitEpocheAndCleanup_def Let_def e1_def[symmetric] using c by (simp add: cleans_def o e1)
  show ?thesis
  proof (cases "cleans t e")
    case True
    then show ?thesis using assms(1,3) ex d e1 by (auto simp: d'_def H_def lv leaveEpoche_def dlist_ok_def listed_def)
  next
    case False
    then show ?thesis using assms(1,2,3) ex e1 by (auto simp: d'_def H_def dlist_ok_def listed_def split: if_splits)
  qed
qed

section \<open>Properties\<close>

text \<open>\<open>exitEpocheAndCleanup\<close> loses no node: what was listed is afterwards either freed or still listed.
  It frees a node only if its label is older than the epochs of all other threads, it leaves the
  lists of the other threads alone, and the list stays well formed.\<close>

theorem exitEpocheAndCleanup_correct:
  assumes "t < length (deletionLists e)" "dlist_ok (deletionLists e ! t)" "exitEpocheAndCleanup t e = (freed, e')"
  shows "mset (listed (deletionLists e ! t)) = mset freed + mset (listed (deletionLists e' ! t)) \<and>
    (\<forall>n \<in> set freed. \<exists>l \<in> set (headDeletionList (deletionLists e ! t)). n \<in> set (lnodes l) \<and>
       (\<forall>j < length (deletionLists e). j \<noteq> t \<longrightarrow> epoche l < localEpoche (deletionLists e ! j))) \<and>
    dlist_ok (deletionLists e' ! t) \<and> (\<forall>j. j \<noteq> t \<longrightarrow> deletionLists e' ! j = deletionLists e ! j)"
proof -
  note c = exit_cases[OF assms]
  have "epoche l < localEpoche (deletionLists e ! j)" if "epoche l < oldest_other t e" "j < length (deletionLists e)" "j \<noteq> t" for l j
    using that oldest_other_le[of j e t] by (meson order_less_le_trans)
  then show ?thesis using c mset_partition_labels[of "headDeletionList (deletionLists e ! t)" "\<lambda>l. epoche l < oldest_other t e"]
    by (cases "cleans t e") (auto simp: listed_def)
qed

text \<open>Two threads; the second works in an epoch after that of a label of the first.\<close>

definition epoche_demo :: Epoche where
  "epoche_demo = \<lparr>currentEpoche = 5, deletionLists =
     [(DeletionList_new 5)\<lparr>headDeletionList := [\<lparr>lnodes = [8], epoche = 4\<rparr>, \<lparr>lnodes = [7], epoche = 3\<rparr>], deletitionListCount := 2, thresholdCounter := 2\<rparr>,
      DeletionList_new 4], startGCThreshhold = 0\<rparr>"

theorem exitEpocheAndCleanup_correct_witness:
  "fst (exitEpocheAndCleanup 0 epoche_demo) = [7] \<and> listed (deletionLists (snd (exitEpocheAndCleanup 0 epoche_demo)) ! 0) = [8] \<and>
   mset (listed (deletionLists epoche_demo ! 0)) = {#7, 8#}"
proof -
  have ex: "fst (exitEpocheAndCleanup 0 epoche_demo) = [7]"
      "listed (deletionLists (snd (exitEpocheAndCleanup 0 epoche_demo)) ! 0) = [8]"
    by (simp_all add: exitEpocheAndCleanup_def epoche_demo_def bumpEpoche_def leaveEpoche_def oldestEpoche_def DeletionList_new_def
      DeletionList_size_def cleanup_loop.simps DeletionList_remove_def listed_def Let_def)
  have "0 < length (deletionLists epoche_demo)" "dlist_ok (deletionLists epoche_demo ! 0)"
    by (simp_all add: epoche_demo_def dlist_ok_def listed_def)
  from exitEpocheAndCleanup_correct[OF this surjective_pairing] show ?thesis using ex by simp
qed

end
