(* ===== verification/EpocheTheorems.thy ===== *)
theory EpocheTheorems
  imports Epoche
begin

text \<open>
  Why the tree may free a node: at the moment a thread frees a label, no thread can have a pointer
  to one of its nodes, in whatever order the threads take their steps.
\<close>

section \<open>The invariant\<close>

text \<open>
  A listed node is not in the tree, and a thread that may hold it works in an epoch that is not
  later than that of the label.
\<close>

definition label_ok :: "u64 \<Rightarrow> addr set \<Rightarrow> DeletionList list \<Rightarrow> addr set list \<Rightarrow> LabelDelete \<Rightarrow> bool" where
  "label_ok cur tree ds rs l \<longleftrightarrow> epoche l \<le> cur \<and>
     (\<forall>n \<in> set (lnodes l). n \<notin> tree \<and> (\<forall>j < length rs. n \<in> rs ! j \<longrightarrow> localEpoche (ds ! j) \<le> epoche l))"

text \<open>No thread below \<open>i\<close> may hold a node of a label that is older than \<open>o'\<close>.\<close>

definition cleared :: "addr set list \<Rightarrow> nat \<Rightarrow> u64 \<Rightarrow> DeletionList \<Rightarrow> bool" where
  "cleared rs i o' d \<longleftrightarrow> (\<forall>l \<in> set (headDeletionList d). epoche l < o' \<longrightarrow> (\<forall>j < i. j < length rs \<longrightarrow> set (lnodes l) \<inter> rs ! j = {}))"

definition pc_ok :: "u64 \<Rightarrow> addr set \<Rightarrow> addr set list \<Rightarrow> epoch_pc \<Rightarrow> DeletionList \<Rightarrow> addr set \<Rightarrow> bool" where
  "pc_ok cur tree rs p d r \<longleftrightarrow> (working p \<longrightarrow> localEpoche d \<le> cur) \<and> (\<not> working p \<longrightarrow> r = {}) \<and>
     (case p of ELoaded e \<Rightarrow> e \<le> cur | EUnlinked n \<Rightarrow> n \<notin> tree
      | EScan i o' \<Rightarrow> cleared rs i o' d | EFree o' \<Rightarrow> cleared rs (length rs) o' d | _ \<Rightarrow> True)"

definition einv :: "u64 \<Rightarrow> addr set \<Rightarrow> DeletionList list \<Rightarrow> addr set list \<Rightarrow> epoch_pc list \<Rightarrow> bool" where
  "einv cur tree ds rs ps \<longleftrightarrow> length ds = length ps \<and> length rs = length ps \<and>
     (\<forall>k < length ps. pc_ok cur tree rs (ps ! k) (ds ! k) (rs ! k) \<and> dlist_ok (ds ! k) \<and>
        (\<forall>l \<in> set (headDeletionList (ds ! k)). label_ok cur tree ds rs l))"

definition epoch_ok :: "epoch_state \<Rightarrow> bool" where
  "epoch_ok s \<longleftrightarrow> einv (currentEpoche (ep s)) (linked s) (deletionLists (ep s)) (mayHold s) (epcs s) \<and>
     currentEpoche (ep s) = word_of_nat (advances s)"

lemma working_simps [simp]: "working EIn" "working (EUnlinked n)" "\<not> working EOut" "\<not> working (ELoaded c)"
  "\<not> working (EScan i o')" "\<not> working (EFree o')"
  by (simp_all add: working_def)

lemma einvD:
  assumes "einv cur tree ds rs ps" "k < length ps"
  shows "pc_ok cur tree rs (ps ! k) (ds ! k) (rs ! k)" "dlist_ok (ds ! k)"
    "l \<in> set (headDeletionList (ds ! k)) \<Longrightarrow> label_ok cur tree ds rs l"
  using assms by (auto simp: einv_def)

text \<open>A thread's position changes, and with it perhaps its list; what the threads may hold does not grow.\<close>

lemma einv_update:
  assumes inv: "einv cur tree ds rs ps" and t: "t < length ps" and cur: "cur \<le> cur'"
    and r: "r' \<subseteq> rs ! t" "r' \<noteq> {} \<longrightarrow> localEpoche d' \<le> localEpoche (ds ! t)"
    and d': "dlist_ok d'" "pc_ok cur' tree (rs[t := r']) p' d' r'"
      "\<And>l. l \<in> set (headDeletionList d') \<Longrightarrow> label_ok cur' tree (ds[t := d']) (rs[t := r']) l"
  shows "einv cur' tree (ds[t := d']) (rs[t := r']) (ps[t := p'])"
proof -
  let ?rs = "rs[t := r']" and ?ds = "ds[t := d']"
  have len: "length ds = length ps" "length rs = length ps" using inv by (auto simp: einv_def)
  have sub: "?rs ! j \<subseteq> rs ! j" for j using r(1) len t by (cases "j = t") auto
  have lab: "label_ok cur' tree ?ds ?rs l" if "k < length ps" "k \<noteq> t" "l \<in> set (headDeletionList (ds ! k))" for k l
  proof -
    have l: "label_ok cur tree ds rs l" using einvD(3)[OF inv that(1,3)] .
    have "localEpoche (?ds ! j) \<le> epoche l" if "n \<in> set (lnodes l)" "n \<in> ?rs ! j" "j < length rs" for n j
    proof -
      have "localEpoche (ds ! j) \<le> epoche l" using l that sub[of j] by (auto simp: label_ok_def)
      moreover have "localEpoche (?ds ! j) \<le> localEpoche (ds ! j)" using that r(2) len by (cases "j = t") auto
      ultimately show ?thesis by simp
    qed
    moreover have "epoche l \<le> cur'" using l cur unfolding label_ok_def by (meson order_trans)
    ultimately show ?thesis using l by (simp add: label_ok_def)
  qed
  have cl: "cleared ?rs i o' d" if "cleared rs i o' d" for i o' d using that sub unfolding cleared_def by fastforce
  have pc: "pc_ok cur' tree ?rs (ps ! k) (ds ! k) (rs ! k)" if "k < length ps" for k
    using einvD(1)[OF inv that] cur cl unfolding pc_ok_def by (auto split: epoch_pc.splits)
  show ?thesis unfolding einv_def
    using len t lab pc d' einvD(2)[OF inv] by (auto simp: nth_list_update)
qed

lemma einv_pc:
  assumes "einv cur tree ds rs ps" "t < length ps" "pc_ok cur tree rs p' (ds ! t) (rs ! t)"
  shows "einv cur tree ds rs (ps[t := p'])"
  using einv_update[OF assms(1,2) order_refl, of "rs ! t" "ds ! t" p'] assms einvD[OF assms(1,2)] by simp

text \<open>A thread that leaves holds nothing; nothing else about its list matters.\<close>

lemma einv_leave:
  assumes inv: "einv cur tree ds rs ps" and t: "t < length ps" and cur: "cur \<le> cur'"
    and d': "headDeletionList d' = headDeletionList (ds ! t)" "dlist_ok d'"
    and p': "p' = EOut \<or> p' = EScan 0 o'"
  shows "einv cur' tree (ds[t := d']) (rs[t := {}]) (ps[t := p'])"
proof (rule einv_update[OF inv t cur])
  show "pc_ok cur' tree (rs[t := {}]) p' d' {}" using p' by (auto simp: pc_ok_def cleared_def)
  fix l assume "l \<in> set (headDeletionList d')"
  then have l: "label_ok cur tree ds rs l" using einvD(3)[OF inv t] d'(1) by simp
  have "localEpoche (ds[t := d'] ! j) \<le> epoche l" if "n \<in> set (lnodes l)" "n \<in> rs[t := {}] ! j" "j < length rs" for n j
    using l that by (cases "j = t") (auto simp: label_ok_def)
  moreover have "epoche l \<le> cur'" using l cur unfolding label_ok_def by (meson order_trans)
  ultimately show "label_ok cur' tree (ds[t := d']) (rs[t := {}]) l" using l by (simp add: label_ok_def)
qed (use d' in auto)

lemma einv_mark:
  assumes inv: "einv cur tree ds rs ps" and t: "t < length ps" and p: "ps ! t = EUnlinked n"
    and d': "headDeletionList d' = headDeletionList (DeletionList_add n cur (ds ! t))" "dlist_ok d'" "localEpoche d' = localEpoche (ds ! t)"
  shows "einv cur tree (ds[t := d']) rs (ps[t := EIn])"
proof -
  have len: "length ds = length ps" "length rs = length ps" using inv by (auto simp: einv_def)
  have pt: "localEpoche (ds ! t) \<le> cur" "n \<notin> tree" using einvD(1)[OF inv t] p by (auto simp: pc_ok_def)
  have le: "localEpoche (ds ! j) \<le> cur" if "j < length rs" "m \<in> rs ! j" for j m
    using einvD(1)[OF inv, of j] that len by (auto simp: pc_ok_def)
  have loc: "localEpoche (ds[t := d'] ! j) = localEpoche (ds ! j)" for j using d'(3) t len by (cases "j = t") auto
  obtain l ls where h: "headDeletionList d' = \<lparr>lnodes = l @ [n], epoche = cur\<rparr> # ls"
      "l = [] \<and> ls = headDeletionList (ds ! t) \<or> (\<exists>k. headDeletionList (ds ! t) = k # ls \<and> lnodes k = l)"
    using DeletionList_add_head[of n cur "ds ! t"] d'(1) by auto
  have old: "label_ok cur tree ds rs k" if "k \<in> set (headDeletionList (ds ! t))" for k using einvD(3)[OF inv t that] .
  have "label_ok cur tree (ds[t := d']) rs k" if "k \<in> set (headDeletionList d')" for k
  proof (cases "k = \<lparr>lnodes = l @ [n], epoche = cur\<rparr>")
    case True
    have "m \<notin> tree" if "m \<in> set l" for m using h(2) that old unfolding label_ok_def by fastforce
    then show ?thesis using True pt(2) le loc by (auto simp: label_ok_def)
  next
    case False
    then have "k \<in> set (headDeletionList (ds ! t))" using that h by auto
    then show ?thesis using old loc by (simp add: label_ok_def)
  qed
  moreover have "pc_ok cur tree rs EIn d' (rs ! t)" using pt d'(3) by (simp add: pc_ok_def)
  ultimately show ?thesis using einv_update[OF inv t order_refl, of "rs ! t" d' EIn] d' by simp
qed

text \<open>A thread enters and sees the tree: none of its nodes is listed.\<close>

lemma einv_enter:
  assumes inv: "einv cur tree ds rs ps" and t: "t < length ps" and p: "ps ! t = ELoaded c"
  shows "einv cur tree (ds[t := (ds ! t)\<lparr>localEpoche := c\<rparr>]) (rs[t := tree]) (ps[t := EIn])"
proof -
  let ?d = "(ds ! t)\<lparr>localEpoche := c\<rparr>" and ?rs = "rs[t := tree]"
  let ?ds = "ds[t := ?d]"
  have len: "length ds = length ps" "length rs = length ps" using inv by (auto simp: einv_def)
  have c: "c \<le> cur" using einvD(1)[OF inv t] p by (simp add: pc_ok_def)
  have hd: "headDeletionList (?ds ! k) = headDeletionList (ds ! k)" for k using t len by (cases "k = t") auto
  have lab: "label_ok cur tree ?ds ?rs l" if "k < length ps" "l \<in> set (headDeletionList (ds ! k))" for k l
    using einvD(3)[OF inv that] t len by (auto simp: label_ok_def nth_list_update)
  have cl: "cleared ?rs i o' (ds ! k)" if "cleared rs i o' (ds ! k)" "k < length ps" for i o' k
  proof -
    have "set (lnodes l) \<inter> tree = {}" if "l \<in> set (headDeletionList (ds ! k))" for l
      using einvD(3)[OF inv \<open>k < length ps\<close> that] by (auto simp: label_ok_def)
    then show ?thesis using that(1) t len by (auto simp: cleared_def nth_list_update)
  qed
  have "pc_ok cur tree ?rs (ps ! k) (ds ! k) (rs ! k)" if "k < length ps" for k
    using einvD(1)[OF inv that] cl[OF _ that] unfolding pc_ok_def by (auto split: epoch_pc.splits)
  moreover have "pc_ok cur tree ?rs EIn ?d tree" using c by (simp add: pc_ok_def)
  moreover have "dlist_ok (?ds ! k)" if "k < length ps" for k
    using einvD(2)[OF inv that] t len by (cases "k = t") (auto simp: dlist_ok_def listed_def)
  ultimately show ?thesis unfolding einv_def using len t lab hd by (auto simp: nth_list_update)
qed

lemma einv_link:
  assumes inv: "einv cur tree ds rs ps"
    and n: "EUnlinked n \<notin> set ps" "\<And>d l. d \<in> set ds \<Longrightarrow> l \<in> set (headDeletionList d) \<Longrightarrow> n \<notin> set (lnodes l)"
  shows "einv cur (insert n tree) ds (map2 (\<lambda>p r. if working p then insert n r else r) ps rs) ps"
proof -
  let ?rs = "map2 (\<lambda>p r. if working p then insert n r else r) ps rs"
  have len: "length ds = length ps" "length rs = length ps" using inv by (auto simp: einv_def)
  have rs: "?rs ! j = (if working (ps ! j) then insert n (rs ! j) else rs ! j)" if "j < length ps" for j using that len by simp
  have nn: "n \<notin> set (lnodes l)" if "k < length ps" "l \<in> set (headDeletionList (ds ! k))" for k l
    using n(2)[OF nth_mem that(2)] that(1) len by simp
  have lab: "label_ok cur (insert n tree) ds ?rs l" if "k < length ps" "l \<in> set (headDeletionList (ds ! k))" for k l
    using einvD(3)[OF inv that] nn[OF that] len by (auto simp: label_ok_def rs split: if_splits)
  have cl: "cleared ?rs i o' (ds ! k)" if "cleared rs i o' (ds ! k)" "k < length ps" for i o' k
    using that nn[OF that(2)] len by (auto simp: cleared_def rs)
  have "pc_ok cur (insert n tree) ?rs (ps ! k) (ds ! k) (?rs ! k)" if "k < length ps" for k
  proof -
    have "ps ! k \<noteq> EUnlinked n" using n(1) nth_mem[OF that] by auto
    then show ?thesis using einvD(1)[OF inv that] cl[OF _ that] len rs[OF that] unfolding pc_ok_def
      by (auto split: epoch_pc.splits)
  qed
  then show ?thesis unfolding einv_def using len lab einvD(2)[OF inv] by simp
qed

lemma einv_unlink:
  assumes inv: "einv cur tree ds rs ps" and t: "t < length ps" "ps ! t = EIn"
  shows "einv cur (tree - {n}) ds rs (ps[t := EUnlinked n])"
proof -
  have "einv cur (tree - {n}) ds rs ps"
    using inv unfolding einv_def pc_ok_def label_ok_def by (auto split: epoch_pc.splits)
  moreover have "pc_ok cur (tree - {n}) rs (EUnlinked n) (ds ! t) (rs ! t)" using einvD(1)[OF inv t(1)] t(2) by (simp add: pc_ok_def)
  ultimately show ?thesis using einv_pc[OF _ t(1)] by blast
qed

lemma cleared_Suc:
  assumes "cleared rs i o' d" "\<And>l n. l \<in> set (headDeletionList d) \<Longrightarrow> n \<in> set (lnodes l) \<Longrightarrow> i < length rs \<Longrightarrow> n \<in> rs ! i \<Longrightarrow> e \<le> epoche l"
  shows "cleared rs (Suc i) (if e < o' then e else o') d"
  unfolding cleared_def
proof (intro ballI impI allI)
  fix l j assume l: "l \<in> set (headDeletionList d)" "epoche l < (if e < o' then e else o')" and j: "j < Suc i" "j < length rs"
  have lt: "epoche l < o'" "epoche l < e" using l(2) by (auto split: if_splits)
  show "set (lnodes l) \<inter> rs ! j = {}"
  proof (cases "j = i")
    case True
    then show ?thesis using assms(2)[OF l(1)] j lt(2) by fastforce
  next
    case False
    then show ?thesis using assms(1) l(1) lt(1) j by (auto simp: cleared_def)
  qed
qed

lemma einv_scan:
  assumes inv: "einv cur tree ds rs ps" and t: "t < length ps" "ps ! t = EScan i o'" and i: "i < length ps" and e: "e = localEpoche (ds ! i)"
  shows "einv cur tree ds rs (ps[t := EScan (Suc i) (if e < o' then e else o')])"
proof (rule einv_pc[OF inv t(1)])
  have "cleared rs (Suc i) (if e < o' then e else o') (ds ! t)"
  proof (rule cleared_Suc)
    show "cleared rs i o' (ds ! t)" using einvD(1)[OF inv t(1)] t(2) by (simp add: pc_ok_def)
    fix l n assume "l \<in> set (headDeletionList (ds ! t))" "n \<in> set (lnodes l)" "i < length rs" "n \<in> rs ! i"
    then show "e \<le> epoche l" using einvD(3)[OF inv t(1)] e by (simp add: label_ok_def)
  qed
  then show "pc_ok cur tree rs (EScan (Suc i) (if e < o' then e else o')) (ds ! t) (rs ! t)"
    using einvD(1)[OF inv t(1)] t(2) by (simp add: pc_ok_def)
qed

lemma einv_free:
  assumes inv: "einv cur tree ds rs ps" and t: "t < length ps" "ps ! t = EFree o'"
    and d': "set (headDeletionList d') \<subseteq> set (headDeletionList (ds ! t))" "dlist_ok d'" "localEpoche d' = localEpoche (ds ! t)"
  shows "einv cur tree (ds[t := d']) rs (ps[t := EOut])"
proof -
  have len: "length ds = length ps" using inv by (auto simp: einv_def)
  have r: "rs ! t = {}" using einvD(1)[OF inv t(1)] t(2) by (simp add: pc_ok_def)
  have loc: "localEpoche (ds[t := d'] ! j) = localEpoche (ds ! j)" for j using d'(3) t(1) len by (cases "j = t") auto
  have "label_ok cur tree (ds[t := d']) rs l" if "l \<in> set (headDeletionList d')" for l
    using einvD(3)[OF inv t(1), of l] d'(1) that loc by (auto simp: label_ok_def)
  then show ?thesis using einv_update[OF inv t(1) order_refl, of "{}" d' EOut] d'(2) r list_update_id[of rs t]
    by (simp add: pc_ok_def)
qed

lemma bumpEpoche_sel [simp]: "deletionLists (bumpEpoche t e) = deletionLists e" "startGCThreshhold (bumpEpoche t e) = startGCThreshhold e"
  by (simp_all add: bumpEpoche_def)

lemma bump_counts:
  assumes "currentEpoche (ep s) = word_of_nat (advances s)" "advanced t s < 2 ^ 64"
  shows "currentEpoche (bumpEpoche t (ep s)) = word_of_nat (advanced t s)" "currentEpoche (ep s) \<le> currentEpoche (bumpEpoche t (ep s))"
proof -
  show eq: "currentEpoche (bumpEpoche t (ep s)) = word_of_nat (advanced t s)"
  proof (cases "bumpEpoche t (ep s) = ep s")
    case False
    then have "currentEpoche (bumpEpoche t (ep s)) = currentEpoche (ep s) + 1" by (simp add: bumpEpoche_def split: if_splits)
    then show ?thesis using assms(1) False by (simp add: advanced_def)
  qed (use assms(1) in \<open>simp add: advanced_def\<close>)
  have "advances s \<le> advanced t s" by (simp add: advanced_def)
  then show "currentEpoche (ep s) \<le> currentEpoche (bumpEpoche t (ep s))"
    unfolding eq assms(1) using assms(2) by (simp add: word_le_nat_alt unat_of_nat)
qed

lemma leave_lists:
  assumes "t < length (deletionLists e)" "deletionLists e' = (deletionLists e)[t := d]"
  shows "deletionLists (leaveEpoche t e') = (deletionLists e)[t := d\<lparr>localEpoche := ULLONG_MAX\<rparr>]"
  using assms by (simp add: leaveEpoche_def)

lemma exit_no_clean:
  assumes "\<not> cleans t e" "t < length (deletionLists e)"
  shows "currentEpoche (snd (exitEpocheAndCleanup t e)) = currentEpoche (bumpEpoche t e) \<and>
    (\<exists>c. deletionLists (snd (exitEpocheAndCleanup t e)) = (deletionLists e)[t := (deletionLists e ! t)\<lparr>thresholdCounter := c\<rparr>])"
proof (cases "thresholdCounter (deletionLists e ! t) > startGCThreshhold e")
  case True
  then show ?thesis using assms by (auto simp: exitEpocheAndCleanup_def cleans_def Let_def)
next
  case False
  then have "exitEpocheAndCleanup t e = ([], bumpEpoche t e)" by (simp add: exitEpocheAndCleanup_def Let_def)
  then show ?thesis by (auto intro!: exI[of _ "thresholdCounter (deletionLists e ! t)"])
qed

lemma dlist_ok_upd [simp]: "dlist_ok (d\<lparr>localEpoche := c\<rparr>) = dlist_ok d" "dlist_ok (d\<lparr>thresholdCounter := c\<rparr>) = dlist_ok d"
  by (simp_all add: dlist_ok_def listed_def)

lemma epoch_step:
  assumes "estep s s'" "epoch_ok s" "advances s' < 2 ^ 64"
  shows "epoch_ok s'"
  using assms
proof (induction rule: estep.induct)
  case (Load t s)
  then show ?case by (auto simp: epoch_ok_def pc_ok_def intro!: einv_pc dest: einvD(1))
next
  case (Store t s c)
  then show ?case using einv_enter by (auto simp: epoch_ok_def)
next
  case (Link t s n)
  then show ?case by (auto simp: epoch_ok_def in_use_def intro!: einv_link)
next
  case (Unlink t s n)
  then show ?case by (auto simp: epoch_ok_def intro!: einv_unlink)
next
  case (Mark t s n)
  have t: "t < length (deletionLists (ep s))" "dlist_ok (deletionLists (ep s) ! t)"
    using Mark by (auto simp: epoch_ok_def einv_def)
  then have "deletionLists (markNodeForDeletion n t (ep s)) = (deletionLists (ep s))[t :=
      (DeletionList_add n (currentEpoche (ep s)) (deletionLists (ep s) ! t))\<lparr>thresholdCounter := thresholdCounter (deletionLists (ep s) ! t) + 1\<rparr>]"
    by (simp add: markNodeForDeletion_def)
  then show ?case using Mark einv_mark[of "currentEpoche (ep s)" "linked s"] DeletionList_add_ok(1)[OF t(2)]
    by (auto simp: epoch_ok_def markNodeForDeletion_def)
next
  case (LeaveRead t s)
  then have "dlist_ok (deletionLists (ep s) ! t)" by (auto simp: epoch_ok_def einv_def)
  then show ?case using LeaveRead by (auto simp: epoch_ok_def leaveEpoche_def intro!: einv_leave)
next
  case (LeaveWrite t s)
  then have t: "t < length (deletionLists (ep s))" "dlist_ok (deletionLists (ep s) ! t)" by (auto simp: epoch_ok_def einv_def)
  obtain c where c: "deletionLists (snd (exitEpocheAndCleanup t (ep s))) = (deletionLists (ep s))[t := (deletionLists (ep s) ! t)\<lparr>thresholdCounter := c\<rparr>]"
      "currentEpoche (snd (exitEpocheAndCleanup t (ep s))) = currentEpoche (bumpEpoche t (ep s))"
    using exit_no_clean[OF LeaveWrite(3) t(1)] by blast
  note b = bump_counts[of s t]
  show ?case using LeaveWrite b t(2) leave_lists[OF t(1) c(1)]
    by (auto simp: epoch_ok_def c(2) leaveEpoche_def intro!: einv_leave)
next
  case (BeginGC t s)
  then have t: "t < length (deletionLists (ep s))" "dlist_ok (deletionLists (ep s) ! t)" by (auto simp: epoch_ok_def einv_def)
  note b = bump_counts[of s t]
  show ?case using BeginGC b t by (auto simp: epoch_ok_def leaveEpoche_def intro!: einv_leave)
next
  case (Scan t s i o' e)
  note inv = conjunct1[OF Scan(5)[unfolded epoch_ok_def]] conjunct2[OF Scan(5)[unfolded epoch_ok_def]]
  show ?case using einv_scan[OF inv(1) Scan(1-4)] inv(2) by (simp add: epoch_ok_def)
next
  case (ScanEnd t s o')
  then have "length (mayHold s) = length (epcs s)" by (simp add: epoch_ok_def einv_def)
  then show ?case using ScanEnd einvD(1)[of _ _ _ _ "epcs s" t] by (auto simp: epoch_ok_def pc_ok_def intro!: einv_pc)
next
  case (Free t s o' d' freed)
  then have t: "t < length (deletionLists (ep s))" "dlist_ok (deletionLists (ep s) ! t)" by (auto simp: epoch_ok_def einv_def)
  note c = cleanup_loop_ok[OF Free(3) t(2)]
  show ?case using Free t c by (auto simp: epoch_ok_def intro!: einv_free)
qed

lemma advances_mono: "estep s s' \<Longrightarrow> advances s \<le> advances s'"
  by (induction rule: estep.induct) (auto simp: advanced_def)

lemma epoch_reach:
  assumes "estep\<^sup>*\<^sup>* s s'" "epoch_ok s" "advances s' < 2 ^ 64"
  shows "epoch_ok s'"
  using assms
proof (induction rule: rtranclp_induct)
  case (step s1 s2)
  then show ?case using advances_mono[OF step(2)] epoch_step[OF step(2)] by auto
qed simp

lemma epoch_new_ok: "epoch_ok (epoch_new threshold junk tree)"
  by (simp add: epoch_ok_def epoch_new_def einv_def pc_ok_def DeletionList_new_ok) (simp add: DeletionList_new_def)

section \<open>Properties\<close>

text \<open>C36. In whatever order threads enter, change the tree, retire nodes and leave: when a thread has read the
  epochs of all threads and runs the loop of \<open>exitEpocheAndCleanup\<close> over its labels, none of the nodes that the loop
  frees is in the tree, and no thread may still hold a pointer to one of them. What the loop does not free
  stays listed. The epoch must have been advanced less than \<open>2^64\<close> times.\<close>

theorem epoch_reclamation_safe:
  assumes "estep\<^sup>*\<^sup>* (epoch_new threshold junk tree) s" "advances s < 2 ^ 64" "t < length (epcs s)" "epcs s ! t = EFree o'"
    "cleanup_loop o' 0 (deletionLists (ep s) ! t, []) = (d', freed)"
  shows "(\<forall>n \<in> set freed. n \<notin> linked s \<and> (\<forall>j < length (epcs s). n \<notin> mayHold s ! j)) \<and>
    mset (listed (deletionLists (ep s) ! t)) = mset freed + mset (listed d')"
proof -
  let ?d = "deletionLists (ep s) ! t"
  have inv: "einv (currentEpoche (ep s)) (linked s) (deletionLists (ep s)) (mayHold s) (epcs s)"
    using epoch_reach[OF assms(1) epoch_new_ok assms(2)] unfolding epoch_ok_def by blast
  note c = cleanup_loop_ok[OF assms(5) einvD(2)[OF inv assms(3)]]
  have len: "length (mayHold s) = length (epcs s)" using inv by (simp add: einv_def)
  have "n \<notin> linked s \<and> (\<forall>j < length (epcs s). n \<notin> mayHold s ! j)" if n: "n \<in> set freed" for n
  proof -
    obtain l where l: "l \<in> set (headDeletionList ?d)" "epoche l < o'" "n \<in> set (lnodes l)" using n c by auto
    have "set (lnodes l) \<inter> mayHold s ! j = {}" if "j < length (epcs s)" for j
      using einvD(1)[OF inv assms(3)] assms(4) l(1,2) that len by (simp add: pc_ok_def cleared_def)
    moreover have "n \<notin> linked s" using einvD(3)[OF inv assms(3) l(1)] l(3) by (simp add: label_ok_def)
    ultimately show ?thesis using l(3) by blast
  qed
  moreover have "mset (listed ?d) = mset freed + mset (listed d')"
    using c mset_partition_labels[of "headDeletionList ?d" "\<lambda>l. epoche l < o'"] by (simp add: listed_def)
  ultimately show ?thesis by blast
qed

text \<open>A thread that takes node 7 out of the tree and frees it.\<close>

definition epoch_demo :: epoch_state where
  "epoch_demo = \<lparr>ep = \<lparr>currentEpoche = 1, deletionLists = [\<lparr>headDeletionList = [\<lparr>lnodes = [7], epoche = 0\<rparr>], freeLabelDeletes = [],
       deletitionListCount = 1, localEpoche = ULLONG_MAX, thresholdCounter = 1, deletedNodes = 0, addedNodes = 1\<rparr>], startGCThreshhold = 0\<rparr>,
     epcs = [EFree ULLONG_MAX], linked = {}, mayHold = [{}], advances = 1\<rparr>"

lemma epoch_demo_run: "estep\<^sup>*\<^sup>* (epoch_new 0 [0] {7}) epoch_demo"
proof -
  let ?d = "\<lambda>H n e c. \<lparr>headDeletionList = H, freeLabelDeletes = [], deletitionListCount = n, localEpoche = e,
    thresholdCounter = c, deletedNodes = 0, addedNodes = n\<rparr>"
  let ?s = "\<lambda>d p tree r. \<lparr>ep = \<lparr>currentEpoche = 0, deletionLists = [d], startGCThreshhold = 0\<rparr>, epcs = [p], linked = tree, mayHold = [r], advances = 0\<rparr>"
  let ?s1 = "\<lambda>d p tree r. \<lparr>ep = \<lparr>currentEpoche = 1, deletionLists = [d], startGCThreshhold = 0\<rparr>, epcs = [p], linked = tree, mayHold = [r], advances = 1\<rparr>"
  let ?H = "[\<lparr>lnodes = [7], epoche = 0\<rparr>]"
  have init: "epoch_new 0 [0] {7} = ?s (?d [] 0 0 0) EOut {7} {}" by (simp add: epoch_new_def DeletionList_new_def)
  have s1: "estep (?s (?d [] 0 0 0) EOut {7} {}) (?s (?d [] 0 0 0) (ELoaded 0) {7} {})"
    using estep.Load[of 0 "?s (?d [] 0 0 0) EOut {7} {}"] by simp
  have s2: "estep (?s (?d [] 0 0 0) (ELoaded 0) {7} {}) (?s (?d [] 0 0 0) EIn {7} {7})"
    using estep.Store[of 0 "?s (?d [] 0 0 0) (ELoaded 0) {7} {}" 0] by (simp add: upd_list_def)
  have s3: "estep (?s (?d [] 0 0 0) EIn {7} {7}) (?s (?d [] 0 0 0) (EUnlinked 7) {} {7})"
    using estep.Unlink[of 0 "?s (?d [] 0 0 0) EIn {7} {7}" 7] by simp
  have s4: "estep (?s (?d [] 0 0 0) (EUnlinked 7) {} {7}) (?s (?d ?H 1 0 1) EIn {} {7})"
    using estep.Mark[of 0 "?s (?d [] 0 0 0) (EUnlinked 7) {} {7}" 7]
    by (simp add: markNodeForDeletion_def upd_list_def DeletionList_add_def pushLabel_def)
  have s5: "estep (?s (?d ?H 1 0 1) EIn {} {7}) (?s1 (?d ?H 1 ULLONG_MAX 1) (EScan 0 ULLONG_MAX) {} {})"
    using estep.BeginGC[of 0 "?s (?d ?H 1 0 1) EIn {} {7}"]
    by (simp add: cleans_def DeletionList_size_def leaveEpoche_def upd_list_def bumpEpoche_def advanced_def)
  have s6: "estep (?s1 (?d ?H 1 ULLONG_MAX 1) (EScan 0 ULLONG_MAX) {} {}) (?s1 (?d ?H 1 ULLONG_MAX 1) (EScan 1 ULLONG_MAX) {} {})"
    using estep.Scan[of 0 "?s1 (?d ?H 1 ULLONG_MAX 1) (EScan 0 ULLONG_MAX) {} {}" 0 ULLONG_MAX] by simp
  have s7: "estep (?s1 (?d ?H 1 ULLONG_MAX 1) (EScan 1 ULLONG_MAX) {} {}) (epoch_demo)"
    using estep.ScanEnd[of 0 "?s1 (?d ?H 1 ULLONG_MAX 1) (EScan 1 ULLONG_MAX) {} {}" ULLONG_MAX] by (simp add: epoch_demo_def)
  note more = rtranclp.rtrancl_into_rtrancl[of estep]
  show ?thesis unfolding init
    by (rule more[OF more[OF more[OF more[OF more[OF more[OF r_into_rtranclp[of estep, OF s1] s2] s3] s4] s5] s6] s7])
qed

theorem epoch_reclamation_safe_witness:
  "\<exists>d'. cleanup_loop ULLONG_MAX 0 (deletionLists (ep epoch_demo) ! 0, []) = (d', [7]) \<and> listed d' = [] \<and>
     7 \<notin> linked epoch_demo \<and> 7 \<notin> mayHold epoch_demo ! 0"
proof -
  obtain d' where d': "cleanup_loop ULLONG_MAX 0 (deletionLists (ep epoch_demo) ! 0, []) = (d', [7])"
    by (simp add: epoch_demo_def cleanup_loop.simps DeletionList_remove_def word_gt_0)
  from epoch_reclamation_safe[OF epoch_demo_run _ _ _ d'] show ?thesis using d' by (auto simp: epoch_demo_def listed_def)
qed

end
