(* ===== verification/ArtDelete.thy ===== *)
theory ArtDelete
  imports ArtTheorems
begin

text \<open>
  Releasing a subtree of the radix tree: \<open>N::deleteChildren\<close> with the loops of the four layouts, and
  \<open>N::deleteNode\<close>. The destructor of the tree has its calls of them commented out.
\<close>

section \<open>Definitions\<close>

text \<open>The children in the order in which the loop of each layout visits them.\<close>

definition N4_deleteOrder :: "'c karr \<Rightarrow> 'c list" where
  "N4_deleteOrder n = map snd (N4_entries n)"

definition N16_deleteOrder :: "'c karr \<Rightarrow> 'c list" where
  "N16_deleteOrder n = map snd (N16_entries n)"

definition N48_deleteOrder :: "'c karr48 \<Rightarrow> 'c list" where
  "N48_deleteOrder n = map snd (N48_entries n)"

definition N256_deleteOrder :: "'c karr256 \<Rightarrow> 'c list" where
  "N256_deleteOrder n = map snd (N256_entries n)"

definition N_deleteOrder :: "'c cont \<Rightarrow> 'c list" where
  "N_deleteOrder node = (case node of N4 n \<Rightarrow> N4_deleteOrder n | N16 n \<Rightarrow> N16_deleteOrder n
     | N48 n \<Rightarrow> N48_deleteOrder n | N256 n \<Rightarrow> N256_deleteOrder n)"

text \<open>The node that \<open>deleteNode\<close> releases: a leaf is not an object of the tree.\<close>

definition deleteNode :: "art \<Rightarrow> art list" where
  "deleteNode n = (if art_isLeaf n then [] else [n])"

text \<open>\<open>deleteChildren\<close> and \<open>deleteNode\<close> for every node of a list; the result is what they release.\<close>

partial_function (option) deleteEach :: "art list \<Rightarrow> art list option" where
  "deleteEach ns = (case ns of
     [] \<Rightarrow> Some []
   | n # ns' \<Rightarrow>
       Option.bind (case n of Leaf tid \<Rightarrow> Some [] | Inner v l p c \<Rightarrow> deleteEach (N_deleteOrder c)) (\<lambda>below.
       Option.bind (deleteEach ns') (\<lambda>rest. Some (below @ deleteNode n @ rest))))"

definition deleteChildren :: "art \<Rightarrow> art list option" where
  "deleteChildren n = (case n of Leaf tid \<Rightarrow> Some [] | Inner v l p c \<Rightarrow> deleteEach (N_deleteOrder c))"

section \<open>Every inner node below is released\<close>

inductive inner_below :: "art \<Rightarrow> art \<Rightarrow> bool" where
  child: "cmap c k = Some ch \<Longrightarrow> \<not> art_isLeaf ch \<Longrightarrow> inner_below ch (Inner v l p c)"
| deeper: "cmap c k = Some ch \<Longrightarrow> inner_below n ch \<Longrightarrow> inner_below n (Inner v l p c)"

inductive_simps inner_below_Leaf: "inner_below n (Leaf tid)"
inductive_simps inner_below_Inner: "inner_below n (Inner v l p c)"

lemma set_deleteOrder:
  assumes "cont_ok c"
  shows "set (N_deleteOrder c) = ran (cmap c)"
proof -
  have ran: "distinct (map fst xs) \<and> map_of xs = m \<Longrightarrow> snd ` set xs = ran m" for xs :: "(u8 \<times> 'a) list" and m
    using ran_distinct[of xs] by auto
  show ?thesis using assms
    by (cases c) (auto simp: N_deleteOrder_def N4_deleteOrder_def N16_deleteOrder_def N48_deleteOrder_def N256_deleteOrder_def
      dest!: layout4.ents_ok layout16.ents_ok layout48.ents_ok layout256.ents_ok ran)
qed

lemma deleteEach_ok:
  assumes "\<And>n. n \<in> set ns \<Longrightarrow> \<exists>rel. deleteChildren n = Some rel \<and> set rel = {m. inner_below m n}"
  shows "\<exists>rel. deleteEach ns = Some rel \<and> set rel = {m. \<exists>n \<in> set ns. inner_below m n \<or> m = n \<and> \<not> art_isLeaf n}"
  using assms
proof (induction ns)
  case Nil
  show ?case by (subst deleteEach.simps) simp
next
  case (Cons n ns)
  obtain below where b: "deleteChildren n = Some below" "set below = {m. inner_below m n}" using Cons.prems by auto
  obtain rest where r: "deleteEach ns = Some rest" "set rest = {m. \<exists>n \<in> set ns. inner_below m n \<or> m = n \<and> \<not> art_isLeaf n}"
    using Cons by auto
  have "(case n of Leaf tid \<Rightarrow> Some [] | Inner v l p c \<Rightarrow> deleteEach (N_deleteOrder c)) = Some below"
    using b(1) by (simp add: deleteChildren_def)
  then show ?case using b(2) r by (subst deleteEach.simps) (auto simp: deleteNode_def)
qed

lemma deleteChildren_ok:
  assumes "art_ok lk K r pre t"
  shows "\<exists>rel. deleteChildren t = Some rel \<and> set rel = {n. inner_below n t}"
  using assms
proof (induction rule: art_ok.induct)
  case (leaf tid pre)
  then show ?case by (simp add: deleteChildren_def inner_below_Leaf)
next
  case (inner v c p q l pre isRoot)
  have "\<exists>rel. deleteChildren n = Some rel \<and> set rel = {m. inner_below m n}" if "n \<in> set (N_deleteOrder c)" for n
    using that inner.IH unfolding set_deleteOrder[OF inner.hyps(2)] ran_def by blast
  from deleteEach_ok[OF this] obtain rel where rel: "deleteEach (N_deleteOrder c) = Some rel"
      "set rel = {m. \<exists>n \<in> set (N_deleteOrder c). inner_below m n \<or> m = n \<and> \<not> art_isLeaf n}" by blast
  have "set rel = {n. inner_below n (Inner v l p c)}"
    unfolding rel(2) set_deleteOrder[OF inner.hyps(2)] by (auto simp: inner_below_Inner ran_def)
  then show ?case using rel(1) by (simp add: deleteChildren_def)
qed

end
