(* ===== verification/ArtRange.thy ===== *)
theory ArtRange
  imports ArtTheorems
begin

text \<open>
  The range queries of the radix tree: \<open>Tree::lookupRange\<close> with its recursive closures \<open>copy\<close>,
  \<open>findStart\<close> and \<open>findEnd\<close>, \<open>Tree::checkPrefixEquals\<close>, and \<open>Tree::lookupNext1\<close>. As in
  the other operations of the tree a call is one pass of an undisturbed thread, and \<open>None\<close>
  is a call that follows a null pointer or takes a leaf for a node.
\<close>

section \<open>Definitions\<close>

text \<open>
  The variables that the closures capture by reference: \<open>results\<close> holds the first
  \<open>resultsFound\<close> entries of the array of the caller.
\<close>

record range_state =
  results :: "u64 list"
  toContinue :: u64
  restart :: bool

text \<open>A loop over the children of a node with its break condition after every round.\<close>

fun for_each :: "('a \<Rightarrow> 's \<Rightarrow> 's option) \<Rightarrow> ('s \<Rightarrow> bool) \<Rightarrow> 'a list \<Rightarrow> 's \<Rightarrow> 's option" where
  "for_each body brk [] st = Some st"
| "for_each body brk (x # xs) st =
     Option.bind (body x st) (\<lambda>st'. if brk st' then Some st' else for_each body brk xs st')"

lemma for_each_mono [partial_function_mono]:
  assumes "\<And>x s. mono_option (\<lambda>f. g f x s)"
  shows "mono_option (\<lambda>f. for_each (g f) brk xs st)"
proof (induction xs arbitrary: st)
  case Nil
  show ?case by (simp add: option.const_mono)
next
  case (Cons x xs)
  show ?case unfolding for_each.simps
    by (intro bind_mono assms if_mono option.const_mono Cons)
qed

partial_function (option) copyLeaves :: "nat \<Rightarrow> art \<Rightarrow> range_state \<Rightarrow> range_state option" where
  "copyLeaves resultSize node st = (case node of
     Leaf tid \<Rightarrow>
       if length (results st) = resultSize then Some (st\<lparr>toContinue := tid\<rparr>)
       else Some (st\<lparr>results := results st @ [tid]\<rparr>)
   | Inner v l p c \<Rightarrow>
       for_each (\<lambda>child. copyLeaves resultSize (snd child)) (\<lambda>st. toContinue st \<noteq> 0) (N_getChildren 0 255 c) st)"

partial_function (option) findStart :: "loadKey \<Rightarrow> nat \<Rightarrow> u8 list \<Rightarrow> art \<Rightarrow> nat \<Rightarrow> range_state \<Rightarrow> range_state option" where
  "findStart loadKey resultSize start node level st = (case node of
     Leaf tid \<Rightarrow> copyLeaves resultSize node st
   | Inner v l p c \<Rightarrow>
       (case checkPrefixCompare loadKey node l p start level of
          None \<Rightarrow> None
        | Some (PC_Bigger, level') \<Rightarrow> copyLeaves resultSize node st
        | Some (PC_Equal, level') \<Rightarrow>
            let startLevel = (if level' < length start then start ! level' else 0) in
            for_each (\<lambda>child st.
                if fst child = startLevel then findStart loadKey resultSize start (snd child) (level' + 1) st
                else if startLevel < fst child then copyLeaves resultSize (snd child) st
                else Some st)
              (\<lambda>st. toContinue st \<noteq> 0 \<or> restart st) (N_getChildren startLevel 255 c) st
        | Some (PC_SkippedLevel, level') \<Rightarrow> Some (st\<lparr>restart := True\<rparr>)
        | Some (PC_Smaller, level') \<Rightarrow> Some st))"

partial_function (option) findEnd :: "loadKey \<Rightarrow> nat \<Rightarrow> u8 list \<Rightarrow> art \<Rightarrow> nat \<Rightarrow> range_state \<Rightarrow> range_state option" where
  "findEnd loadKey resultSize end' node level st = (case node of
     Leaf tid \<Rightarrow> Some st
   | Inner v l p c \<Rightarrow>
       (case checkPrefixCompare loadKey node l p end' level of
          None \<Rightarrow> None
        | Some (PC_Smaller, level') \<Rightarrow> copyLeaves resultSize node st
        | Some (PC_Equal, level') \<Rightarrow>
            let endLevel = (if level' < length end' then end' ! level' else 255) in
            for_each (\<lambda>child st.
                if fst child = endLevel then findEnd loadKey resultSize end' (snd child) (level' + 1) st
                else if fst child < endLevel then copyLeaves resultSize (snd child) st
                else Some st)
              (\<lambda>st. toContinue st \<noteq> 0 \<or> restart st) (N_getChildren 0 endLevel c) st
        | Some (PC_Bigger, level') \<Rightarrow> Some st
        | Some (PC_SkippedLevel, level') \<Rightarrow> Some (st\<lparr>restart := True\<rparr>)))"

declare copyLeaves.simps [code] findStart.simps [code] findEnd.simps [code]

datatype PCEqualsResults = PCE_PartialMatch | PCE_BothMatch | PCE_Contained | PCE_NoMatch | PCE_SkippedLevel

function equals_loop :: "prefix \<Rightarrow> u8 list option \<Rightarrow> u8 list \<Rightarrow> u8 list \<Rightarrow> nat \<Rightarrow> nat \<Rightarrow> (PCEqualsResults \<times> nat) option" where
  "equals_loop p kt start end' i level =
     (if i < prefixCount p then
        (case (if maxStoredPrefixLength \<le> i then Option.bind kt (\<lambda>kt. key_at kt level) else Some (pbytes p ! i)) of
           None \<Rightarrow> None
         | Some curKey \<Rightarrow>
             let startLevel = (if level < length start then start ! level else 0);
                 endLevel = (if level < length end' then end' ! level else 0) in
             if startLevel < curKey \<and> curKey < endLevel then Some (PCE_Contained, level)
             else if curKey < startLevel \<or> endLevel < curKey then Some (PCE_NoMatch, level)
             else equals_loop p kt start end' (i + 1) (level + 1))
      else Some (PCE_BothMatch, level))"
  by pat_completeness auto

termination by (relation "measure (\<lambda>(p, kt, s, e, i, l). prefixCount p - i)") auto

declare equals_loop.simps [simp del]

definition checkPrefixEquals :: "loadKey \<Rightarrow> art \<Rightarrow> nat \<Rightarrow> prefix \<Rightarrow> nat \<Rightarrow> u8 list \<Rightarrow> u8 list \<Rightarrow> (PCEqualsResults \<times> nat) option" where
  "checkPrefixEquals loadKey n nodeLevel p level start end' =
     (if prefixCount p + level < nodeLevel then Some (PCE_SkippedLevel, level)
      else if 0 < prefixCount p
      then equals_loop p (map_option loadKey (getAnyChildTid n)) start end' (level + prefixCount p - nodeLevel) level
      else Some (PCE_BothMatch, level))"

text \<open>
  The end of a pass: it restarts, or returns the flag, the results and the key that it stored
  into \<open>continueKey\<close>.
\<close>

datatype range_result = RangeRestart | RangeDone bool "u64 list" "u8 list option"

definition range_finish :: "loadKey \<Rightarrow> range_state \<Rightarrow> range_result" where
  "range_finish loadKey st =
     (if restart st then RangeRestart
      else if toContinue st \<noteq> 0 then RangeDone True (results st) (Some (loadKey (toContinue st)))
      else RangeDone False (results st) None)"

text \<open>The loop that follows the path that both bounds share.\<close>

partial_function (option) lookupRange_loop :: "loadKey \<Rightarrow> nat \<Rightarrow> u8 list \<Rightarrow> u8 list \<Rightarrow> art \<Rightarrow> nat \<Rightarrow> range_result option" where
  "lookupRange_loop loadKey resultSize start end' node level = (case node of
     Leaf tid \<Rightarrow> None
   | Inner v l p c \<Rightarrow>
       let st = \<lparr>results = [], toContinue = 0, restart = False\<rparr> in
       (case checkPrefixEquals loadKey node l p level start end' of
          None \<Rightarrow> None
        | Some (PCE_SkippedLevel, level') \<Rightarrow> Some RangeRestart
        | Some (PCE_PartialMatch, level') \<Rightarrow> Some (range_finish loadKey st)
        | Some (PCE_NoMatch, level') \<Rightarrow> Some (RangeDone False [] None)
        | Some (PCE_Contained, level') \<Rightarrow> map_option (range_finish loadKey) (copyLeaves resultSize node st)
        | Some (PCE_BothMatch, level') \<Rightarrow>
            let startLevel = (if level' < length start then start ! level' else 0);
                endLevel = (if level' < length end' then end' ! level' else 255) in
            if startLevel \<noteq> endLevel
            then map_option (range_finish loadKey) (for_each (\<lambda>child st.
                if fst child = startLevel then findStart loadKey resultSize start (snd child) (level' + 1) st
                else if startLevel < fst child \<and> fst child < endLevel then copyLeaves resultSize (snd child) st
                else if fst child = endLevel then findEnd loadKey resultSize end' (snd child) (level' + 1) st
                else Some st)
              (\<lambda>st. restart st \<or> toContinue st \<noteq> 0) (N_getChildren startLevel endLevel c) st)
            else (case N_getChild startLevel c of
                None \<Rightarrow> None
              | Some nextNode \<Rightarrow> lookupRange_loop loadKey resultSize start end' nextNode (level' + 1))))"

declare lookupRange_loop.simps [code]

fun startAfterEnd :: "u8 list \<Rightarrow> u8 list \<Rightarrow> bool" where
  "startAfterEnd (s # start) (e # end') = (if e < s then True else if s < e then False else startAfterEnd start end')"
| "startAfterEnd _ _ = False"

definition Tree_lookupRange :: "loadKey \<Rightarrow> art \<Rightarrow> u8 list \<Rightarrow> u8 list \<Rightarrow> nat \<Rightarrow> range_result option" where
  "Tree_lookupRange loadKey root start end' resultSize =
     (if startAfterEnd start end' then Some (RangeDone False [] None)
      else lookupRange_loop loadKey resultSize start end' root 0)"

text \<open>
  \<open>lookupNext1\<close>: its closures \<open>copy\<close> and \<open>copyReverse\<close> walk to the smallest and to the largest
  leaf and store it as the only result. The children of the last node on the path where the
  key has a byte other than 0 are passed along.
\<close>

definition smallerSibling :: "u8 list \<Rightarrow> art cont \<Rightarrow> nat \<Rightarrow> art option option" where
  "smallerSibling start parent parentLevel =
     map_option (\<lambda>b. if b \<noteq> 0 then N_getLargestChild (b - 1) parent else None) (key_at start parentLevel)"

datatype next_result = NextRestart | NextLeaf u64

partial_function (option) findStart1 :: "loadKey \<Rightarrow> u8 list \<Rightarrow> art \<Rightarrow> art cont \<Rightarrow> nat \<Rightarrow> nat \<Rightarrow> next_result option" where
  "findStart1 loadKey start node parent level parentLevel = (case node of
     Leaf tid \<Rightarrow> Some (NextLeaf tid)
   | Inner v l p c \<Rightarrow>
       (case checkPrefixCompare loadKey node l p start level of
          None \<Rightarrow> None
        | Some (PC_Bigger, level') \<Rightarrow>
            (case smallerSibling start parent parentLevel of
               None \<Rightarrow> None
             | Some (Some childNode) \<Rightarrow> map_option NextLeaf (largestLeaf childNode)
             | Some None \<Rightarrow> map_option NextLeaf (smallestLeaf node))
        | Some (PC_Smaller, level') \<Rightarrow> map_option NextLeaf (largestLeaf node)
        | Some (PC_Equal, level') \<Rightarrow>
            let startLevel = (if level' < length start then start ! level' else 0) in
            (case N_getChild startLevel c of
               Some childNode \<Rightarrow>
                 (case key_at start level' of
                    None \<Rightarrow> None
                  | Some b \<Rightarrow>
                      if b \<noteq> 0 then findStart1 loadKey start childNode c (level' + 1) level'
                      else findStart1 loadKey start childNode parent (level' + 1) parentLevel)
             | None \<Rightarrow>
                 (case N_getLargestChild startLevel c of
                    Some child \<Rightarrow> map_option NextLeaf (largestLeaf child)
                  | None \<Rightarrow>
                      (case smallerSibling start parent parentLevel of
                         None \<Rightarrow> None
                       | Some (Some childNode) \<Rightarrow> map_option NextLeaf (largestLeaf childNode)
                       | Some None \<Rightarrow> map_option NextLeaf (Option.bind (N_getSmallestChild startLevel c) smallestLeaf))))
        | Some (PC_SkippedLevel, level') \<Rightarrow> Some NextRestart))"

declare findStart1.simps [code]

definition Tree_lookupNext1 :: "loadKey \<Rightarrow> art \<Rightarrow> u8 list \<Rightarrow> next_result option" where
  "Tree_lookupNext1 loadKey root start = (case root of
     Leaf tid \<Rightarrow> None
   | Inner v l p c \<Rightarrow> findStart1 loadKey start root c 0 0)"

end
