(* ===== verification/ArtRangeTheorems.thy ===== *)
theory ArtRangeTheorems
  imports ArtRange
begin

text \<open>
  What the range queries of the radix tree return: which leaves, in which order, and how many of
  them. The first section is about sets of values in an order, the second about the array of results,
  the third about the closures of \<open>lookupRange\<close>.
\<close>

section \<open>Pieces of a range\<close>

text \<open>
  \<open>xs\<close> lists the set \<open>S\<close> by increasing \<open>v\<close>.
\<close>

definition lists_by :: "('a \<Rightarrow> nat) \<Rightarrow> 'a set \<Rightarrow> 'a list \<Rightarrow> bool" where
  "lists_by v S xs \<longleftrightarrow> sorted_wrt (\<lambda>x y. v x < v y) xs \<and> set xs = S"

definition all_less :: "('a \<Rightarrow> nat) \<Rightarrow> 'a set \<Rightarrow> 'a set \<Rightarrow> bool" where
  "all_less v S T \<longleftrightarrow> (\<forall>x \<in> S. \<forall>y \<in> T. v x < v y)"

lemma lists_by_append: "lists_by v S xs \<Longrightarrow> lists_by v T ys \<Longrightarrow> all_less v S T \<Longrightarrow> lists_by v (S \<union> T) (xs @ ys)"
  by (auto simp: lists_by_def all_less_def sorted_wrt_append)

text \<open>
  \<open>x\<close> is the greatest element of \<open>T\<close> below the bound \<open>a\<close>, and \<open>a\<close> itself is not there.
\<close>

definition last_below :: "('a \<Rightarrow> nat) \<Rightarrow> 'a set \<Rightarrow> nat \<Rightarrow> 'a \<Rightarrow> bool" where
  "last_below v T a x \<longleftrightarrow> a \<notin> v ` T \<and> v x < a \<and> (\<forall>y \<in> T. v y < a \<longrightarrow> v y \<le> v x)"

text \<open>
  The elements of \<open>T\<close> from \<open>a\<close> on, perhaps with the last one below \<open>a\<close>; the elements of \<open>T\<close> below
  \<open>a\<close>, perhaps without the last one; the elements from \<open>a\<close> on and below \<open>b\<close> with both
  inaccuracies.
\<close>

definition from_start :: "('a \<Rightarrow> nat) \<Rightarrow> 'a set \<Rightarrow> nat \<Rightarrow> 'a set \<Rightarrow> bool" where
  "from_start v T a S \<longleftrightarrow> S \<subseteq> T \<and> (\<forall>x \<in> T. a \<le> v x \<longrightarrow> x \<in> S) \<and> (\<forall>x \<in> S. v x < a \<longrightarrow> last_below v T a x)"

definition until_end :: "('a \<Rightarrow> nat) \<Rightarrow> 'a set \<Rightarrow> nat \<Rightarrow> 'a set \<Rightarrow> bool" where
  "until_end v T b S \<longleftrightarrow> S \<subseteq> T \<and> (\<forall>x \<in> S. v x < b) \<and> (\<forall>x \<in> T. v x < b \<longrightarrow> x \<notin> S \<longrightarrow> last_below v T b x)"

definition in_range :: "('a \<Rightarrow> nat) \<Rightarrow> 'a set \<Rightarrow> nat \<Rightarrow> nat \<Rightarrow> 'a set \<Rightarrow> bool" where
  "in_range v T a b S \<longleftrightarrow> S \<subseteq> T \<and> (\<forall>x \<in> S. v x < b) \<and> (\<forall>x \<in> S. v x < a \<longrightarrow> last_below v T a x) \<and>
     (\<forall>x \<in> T. a \<le> v x \<longrightarrow> v x < b \<longrightarrow> x \<notin> S \<longrightarrow> last_below v T b x)"

definition below :: "('a \<Rightarrow> nat) \<Rightarrow> 'a set \<Rightarrow> nat \<Rightarrow> bool" where
  "below v S a \<longleftrightarrow> (\<forall>x \<in> S. v x < a)"

definition above :: "('a \<Rightarrow> nat) \<Rightarrow> 'a set \<Rightarrow> nat \<Rightarrow> bool" where
  "above v S a \<longleftrightarrow> (\<forall>x \<in> S. a < v x)"

lemmas range_defs = all_less_def last_below_def from_start_def until_end_def in_range_def below_def above_def

lemma last_below_extend:
  assumes "last_below v T a x" "x \<in> T" "below v L a" "above v G a" "all_less v L T"
  shows "last_below v (L \<union> T \<union> G) a x"
proof -
  have "a \<noteq> v y \<and> (v y < a \<longrightarrow> v y \<le> v x)" if "y \<in> L \<union> T \<union> G" for y
    using that
  proof (elim UnE)
    assume "y \<in> L"
    then have "v y < a" "v y < v x" using assms by (simp_all add: below_def all_less_def)
    then show ?thesis by simp
  next
    assume "y \<in> T"
    then show ?thesis using assms(1) by (auto simp: last_below_def)
  next
    assume "y \<in> G"
    then have "a < v y" using assms(4) by (simp add: above_def)
    then show ?thesis by simp
  qed
  then show ?thesis using assms(1) by (auto simp: last_below_def)
qed

lemma from_start_extend:
  assumes "from_start v T a S" "below v L a" "above v G a" "all_less v L T"
  shows "from_start v (L \<union> T \<union> G) a (S \<union> G)"
proof -
  have "last_below v (L \<union> T \<union> G) a x" if "x \<in> S" "v x < a" for x
    using last_below_extend[OF _ _ assms(2-4)] that assms(1) by (auto simp: from_start_def)
  then show ?thesis using assms(1-3) by (fastforce simp: from_start_def below_def above_def)
qed

lemma until_end_extend:
  assumes "until_end v T b S" "below v L b" "above v G b" "all_less v L T"
  shows "until_end v (L \<union> T \<union> G) b (L \<union> S)"
proof -
  have "last_below v (L \<union> T \<union> G) b x" if "x \<in> T" "x \<notin> S" "v x < b" for x
    using last_below_extend[OF _ _ assms(2-4)] that assms(1) by (auto simp: until_end_def)
  then show ?thesis using assms(1-3) by (fastforce simp: until_end_def below_def above_def)
qed

lemma in_range_extend:
  assumes "in_range v T a b S" "below v L a" "above v G b" "a < b" "all_less v L T"
  shows "in_range v (L \<union> T \<union> G) a b S"
proof -
  have L: "below v L b" and G: "above v G a" using assms(2-4) by (auto simp: below_def above_def dest: less_trans)
  have "last_below v (L \<union> T \<union> G) a x" if "x \<in> S" "v x < a" for x
    using last_below_extend[OF _ _ assms(2) G assms(5)] that assms(1) by (auto simp: in_range_def)
  moreover have "last_below v (L \<union> T \<union> G) b x" if "x \<in> T" "a \<le> v x" "v x < b" "x \<notin> S" for x
    using last_below_extend[OF _ _ L assms(3,5)] that assms(1) by (auto simp: in_range_def)
  ultimately show ?thesis using assms(1-3) by (fastforce simp: in_range_def below_def above_def)
qed

lemma one_sided:
  "below v T a \<Longrightarrow> from_start v T a {}" "above v T a \<Longrightarrow> from_start v T a T"
  "below v T a \<Longrightarrow> until_end v T a T" "above v T a \<Longrightarrow> until_end v T a {}"
  unfolding from_start_def until_end_def below_def above_def by (auto dest: leD less_asym)

text \<open>The two ends of a range with what lies between them.\<close>

lemma in_range_join:
  assumes s: "from_start v T a S" and e: "until_end v U b R" and ab: "below v T b" "above v U a"
    and M: "above v M a" "below v M b" and L: "below v L a" and G: "above v G b"
    and ord: "all_less v L T" "all_less v (L \<union> T \<union> M) U" and lt: "a < b"
  shows "in_range v (L \<union> T \<union> M \<union> U \<union> G) a b (S \<union> M \<union> R)"
proof -
  have La: "above v (M \<union> U \<union> G) a" using ab M G lt by (auto simp: above_def dest: less_trans)
  have Lb: "below v (L \<union> T \<union> M) b" using ab M L lt by (auto simp: below_def dest: less_trans)
  have 1: "last_below v (L \<union> T \<union> (M \<union> U \<union> G)) a x" if "x \<in> S" "v x < a" for x
    using last_below_extend[OF _ _ L La ord(1)] that s by (auto simp: from_start_def)
  have 2: "last_below v ((L \<union> T \<union> M) \<union> U \<union> G) b x" if "x \<in> U" "v x < b" "x \<notin> R" for x
    using last_below_extend[OF _ _ Lb G ord(2)] that e by (auto simp: until_end_def)
  have un: "L \<union> T \<union> (M \<union> U \<union> G) = L \<union> T \<union> M \<union> U \<union> G" by auto
  show ?thesis unfolding in_range_def
  proof (intro conjI ballI impI)
    show "S \<union> M \<union> R \<subseteq> L \<union> T \<union> M \<union> U \<union> G" using s e by (auto simp: from_start_def until_end_def)
    show "v x < b" if "x \<in> S \<union> M \<union> R" for x
      using that s e ab M by (auto simp: from_start_def until_end_def below_def)
    show "last_below v (L \<union> T \<union> M \<union> U \<union> G) a x" if "x \<in> S \<union> M \<union> R" "v x < a" for x
    proof -
      have "x \<notin> M" "x \<notin> R" using that(2) M(1) ab(2) e by (force simp: above_def until_end_def)+
      then show ?thesis using 1[of x] that unfolding un by blast
    qed
    show "last_below v (L \<union> T \<union> M \<union> U \<union> G) b x"
      if "x \<in> L \<union> T \<union> M \<union> U \<union> G" "a \<le> v x" "v x < b" "x \<notin> S \<union> M \<union> R" for x
    proof -
      have "x \<notin> L" "x \<notin> G" using that(2,3) L G by (force simp: below_def above_def)+
      moreover have "x \<notin> T" using that(2,4) s by (auto simp: from_start_def)
      ultimately show ?thesis using 2[of x] that by blast
    qed
  qed
qed

text \<open>With both bounds in the set nothing is added or left out.\<close>

lemma in_range_exact:
  assumes "in_range v T a b S" "a \<in> v ` T" "b \<in> v ` T"
  shows "S = {x \<in> T. a \<le> v x \<and> v x < b}"
  using assms by (fastforce simp: in_range_def last_below_def)

section \<open>The array of results\<close>

text \<open>The leaves \<open>xs\<close> given to the array one after the other until it is full.\<close>

definition emit :: "nat \<Rightarrow> u64 list \<Rightarrow> range_state \<Rightarrow> range_state" where
  "emit n xs st = (let all = results st @ xs in
     if length all \<le> n then st\<lparr>results := all\<rparr> else st\<lparr>results := take n all, toContinue := all ! n\<rparr>)"

definition has_room :: "nat \<Rightarrow> range_state \<Rightarrow> bool" where
  "has_room n st \<longleftrightarrow> toContinue st = 0 \<and> \<not> restart st \<and> length (results st) \<le> n"

text \<open>A piece of code that emits the leaves \<open>xs\<close> and does nothing else.\<close>

definition emits :: "nat \<Rightarrow> u64 list \<Rightarrow> (range_state \<Rightarrow> range_state option) \<Rightarrow> bool" where
  "emits n xs f \<longleftrightarrow> (\<forall>st. has_room n st \<longrightarrow> f st = Some (emit n xs st))"

lemma emits_Nil: "(\<And>st. f st = Some st) \<Longrightarrow> emits n [] f"
  by (simp add: emits_def emit_def has_room_def)

lemma restart_emit [simp]: "restart (emit n xs st) = restart st"
  by (simp add: emit_def Let_def)

lemma toContinue_emit:
  assumes "has_room n st" "0 \<notin> set xs"
  shows "toContinue (emit n xs st) = 0 \<longleftrightarrow> length (results st) + length xs \<le> n"
proof -
  have "(results st @ xs) ! n \<noteq> 0" if "\<not> length (results st) + length xs \<le> n"
  proof -
    have "(results st @ xs) ! n = xs ! (n - length (results st))" "n - length (results st) < length xs"
      using that assms(1) by (auto simp: nth_append has_room_def)
    then show ?thesis using assms(2) nth_mem by metis
  qed
  then show ?thesis using assms(1) by (auto simp: emit_def has_room_def Let_def)
qed

lemma has_room_emit:
  "has_room n st \<Longrightarrow> 0 \<notin> set xs \<Longrightarrow> has_room n (emit n xs st) \<longleftrightarrow> toContinue (emit n xs st) = 0"
  using toContinue_emit[of n st xs] by (auto simp: has_room_def emit_def Let_def)

lemma emit_append:
  assumes "has_room n st" "0 \<notin> set xs"
  shows "emit n (xs @ ys) st = (if toContinue (emit n xs st) \<noteq> 0 then emit n xs st else emit n ys (emit n xs st))"
proof (cases "length (results st) + length xs \<le> n")
  case True
  then have "toContinue (emit n xs st) = 0" using toContinue_emit[OF assms] by simp
  then show ?thesis using True by (simp add: emit_def Let_def)
next
  case False
  then have "toContinue (emit n xs st) \<noteq> 0" using toContinue_emit[OF assms] by simp
  moreover have "(results st @ xs @ ys) ! n = (results st @ xs) ! n" "take n (results st @ xs @ ys) = take n (results st @ xs)"
    using False nth_append[of "results st @ xs" ys n] take_append[of n "results st @ xs" ys] by auto
  ultimately show ?thesis using False by (simp add: emit_def Let_def)
qed

text \<open>A loop over the children emits what its rounds emit.\<close>

lemma for_each_emits:
  assumes "sorted (map fst cs)" "distinct (map fst cs)"
    and brk: "\<And>st. \<not> restart st \<Longrightarrow> brk st \<longleftrightarrow> toContinue st \<noteq> 0"
    and body: "\<And>b ch. (b, ch) \<in> set cs \<Longrightarrow> 0 \<notin> S b \<and> (\<exists>xs. lists_by v (S b) xs \<and> emits n xs (body (b, ch)))"
    and ord: "\<And>b ch b' ch'. (b, ch) \<in> set cs \<Longrightarrow> (b', ch') \<in> set cs \<Longrightarrow> (b :: u8) < b' \<Longrightarrow> all_less v (S b) (S b')"
  shows "\<exists>xs. lists_by v (\<Union>b \<in> fst ` set cs. S b) xs \<and> emits n xs (for_each body brk cs)"
  using assms(1,2) body ord
proof (induction cs)
  case Nil
  show ?case by (rule exI[of _ "[]"]) (auto simp: lists_by_def intro: emits_Nil)
next
  case (Cons x cs)
  obtain b ch where x: "x = (b, ch)" by force
  obtain xs where xs: "lists_by v (S b) xs" "emits n xs (body (b, ch))" "0 \<notin> S b"
    using Cons.prems(3)[of b ch] x by auto
  obtain ys where ys: "lists_by v (\<Union>b \<in> fst ` set cs. S b) ys" "emits n ys (for_each body brk cs)"
  proof -
    have "\<exists>ys. lists_by v (\<Union>b \<in> fst ` set cs. S b) ys \<and> emits n ys (for_each body brk cs)"
    proof (rule Cons.IH)
      show "0 \<notin> S b \<and> (\<exists>xs. lists_by v (S b) xs \<and> emits n xs (body (b, ch)))" if "(b, ch) \<in> set cs" for b ch
        using Cons.prems(3)[of b ch] that by simp
      show "all_less v (S b) (S b')" if "(b, ch) \<in> set cs" "(b', ch') \<in> set cs" "b < b'" for b ch b' ch'
        using Cons.prems(4)[of b ch b' ch'] that by simp
    qed (use Cons.prems(1,2) in simp_all)
    then show ?thesis using that by blast
  qed
  have "all_less v (S b) (S b')" if "(b', ch') \<in> set cs" for b' ch'
    using Cons.prems(4)[of b ch b' ch'] Cons.prems(1,2) that by (force simp: x order.order_iff_strict)
  then have "all_less v (S b) (\<Union>b \<in> fst ` set cs. S b)" by (force simp: all_less_def)
  then have l: "lists_by v (\<Union>b \<in> fst ` set (x # cs). S b) (xs @ ys)"
    using lists_by_append[OF xs(1) ys(1)] by (simp add: x)
  have z: "0 \<notin> set xs" using xs(1,3) by (simp add: lists_by_def)
  have "for_each body brk (x # cs) st = Some (emit n (xs @ ys) st)" if st: "has_room n st" for st
  proof -
    have "brk (emit n xs st) \<longleftrightarrow> toContinue (emit n xs st) \<noteq> 0" using brk st by (simp add: has_room_def)
    then show ?thesis
      using xs(2) ys(2) st has_room_emit[OF st z] emit_append[OF st z] by (simp add: x emits_def)
  qed
  then show ?case using l by (auto simp: emits_def)
qed

section \<open>The children of a node\<close>

abbreviation kval :: "loadKey \<Rightarrow> u64 \<Rightarrow> nat" where "kval lk x \<equiv> be_val (lk x)"

text \<open>The leaves below the children under the bytes in \<open>P\<close>.\<close>

definition under :: "art cont \<Rightarrow> (u8 \<Rightarrow> bool) \<Rightarrow> u64 set" where
  "under c P = {x. \<exists>b ch. P b \<and> cmap c b = Some ch \<and> x \<in> tids ch}"

lemma under_eq [simp]: "cmap c b = Some ch \<Longrightarrow> under c (\<lambda>x. x = b) = tids ch"
  "cmap c b = None \<Longrightarrow> under c (\<lambda>x. x = b) = {}"
  by (auto simp: under_def)

lemma under_un: "under c P \<union> under c Q = under c (\<lambda>b. P b \<or> Q b)"
  by (auto simp: under_def)

lemma tids_under: "tids (Inner v l p c) = under c (\<lambda>b. True)"
  unfolding under_def tids_Inner ran_def by blast

lemma under_sub: "under c P \<subseteq> tids (Inner v l p c)"
  unfolding tids_under under_def by blast

lemma tids_split: "tids (Inner v l p c) = under c (\<lambda>b. b < s) \<union> under c (\<lambda>b. b = s) \<union> under c (\<lambda>b. s < b)"
  unfolding tids_under under_un by (rule arg_cong[where f = "under c"]) auto

lemma tids_split2:
  assumes "s < e"
  shows "tids (Inner v l p c) = under c (\<lambda>b. b < s) \<union> under c (\<lambda>b. b = s) \<union> under c (\<lambda>b. s < b \<and> b < e) \<union>
    under c (\<lambda>b. b = e) \<union> under c (\<lambda>b. e < b)"
  unfolding tids_under under_un by (rule arg_cong[where f = "under c"]) (use assms in auto)

lemma under_order:
  assumes "children_ok lk K pre q c" "\<And>b b'. P b \<Longrightarrow> Q b' \<Longrightarrow> b < b'"
  shows "all_less (kval lk) (under c P) (under c Q)"
  using child_order[OF children_okD[OF assms(1)] children_okD[OF assms(1)]] assms(2)
  by (fastforce simp: all_less_def under_def)

lemma under_bound:
  assumes chs: "children_ok lk K pre q c" and k: "length k = K" "take l k = pre @ q" "l = length pre + length q" "l < K"
  shows "(\<And>b. P b \<Longrightarrow> b < k ! l) \<Longrightarrow> below (kval lk) (under c P) (be_val k)"
    and "(\<And>b. P b \<Longrightarrow> k ! l < b) \<Longrightarrow> above (kval lk) (under c P) (be_val k)"
  using on_path_order[OF chs k] by (fastforce simp: below_def above_def under_def)+

text \<open>A loop over the children of a node between two bytes.\<close>

lemma children_emits:
  assumes cok: "cont_ok c" and chs: "children_ok lk K pre q c" and z: "0 \<notin> tids (Inner v l p c)"
    and brk: "\<And>st. \<not> restart st \<Longrightarrow> brk st \<longleftrightarrow> toContinue st \<noteq> 0"
    and sub: "\<And>b. S b \<subseteq> under c (\<lambda>x. x = b)"
    and body: "\<And>b ch. s \<le> b \<Longrightarrow> b \<le> e \<Longrightarrow> cmap c b = Some ch \<Longrightarrow> \<exists>xs. lists_by (kval lk) (S b) xs \<and> emits n xs (body (b, ch))"
  shows "\<exists>xs. lists_by (kval lk) (\<Union>b \<in> {s..e}. S b) xs \<and> emits n xs (for_each body brk (N_getChildren s e c))"
proof -
  have lm: "lists_map s e (cmap c) (N_getChildren s e c)" by (rule N_getChildren_ok[OF cok])
  have "\<exists>xs. lists_by (kval lk) (\<Union>b \<in> fst ` set (N_getChildren s e c). S b) xs \<and>
      emits n xs (for_each body brk (N_getChildren s e c))"
  proof (rule for_each_emits)
    show "0 \<notin> S b \<and> (\<exists>xs. lists_by (kval lk) (S b) xs \<and> emits n xs (body (b, ch)))"
      if "(b, ch) \<in> set (N_getChildren s e c)" for b ch
      using that lm body[of b ch] sub[of b] z under_sub[of c "\<lambda>x. x = b" v l p] by (auto simp: lists_map_def)
    show "all_less (kval lk) (S b) (S b')" if "b < b'" for b b'
      using under_order[OF chs, of "\<lambda>x. x = b" "\<lambda>x. x = b'"] that sub[of b] sub[of b'] by (fastforce simp: all_less_def)
  qed (use lm brk in \<open>auto simp: lists_map_def\<close>)
  moreover have "(\<Union>b \<in> fst ` set (N_getChildren s e c). S b) = (\<Union>b \<in> {s..e}. S b)"
  proof
    show "(\<Union>b \<in> {s..e}. S b) \<subseteq> (\<Union>b \<in> fst ` set (N_getChildren s e c). S b)"
    proof (intro UN_least)
      fix b assume b: "b \<in> {s..e}"
      show "S b \<subseteq> (\<Union>b \<in> fst ` set (N_getChildren s e c). S b)"
      proof (cases "cmap c b")
        case None
        then show ?thesis using sub[of b] by simp
      next
        case (Some ch)
        then have "(b, ch) \<in> set (N_getChildren s e c)" using lm b by (simp add: lists_map_def)
        then show ?thesis by force
      qed
    qed
  qed (use lm in \<open>fastforce simp: lists_map_def\<close>)
  ultimately show ?thesis by simp
qed

section \<open>The closures\<close>

lemma all_bytes: "{0..(255 :: u8)} = UNIV"
  using u8_le_255 by auto

lemma above_byte: "{s..(255 :: u8)} = {s..}"
  using u8_le_255 by auto

lemma below_byte: "{0..e} = {..(e :: u8)}"
  by auto

lemma copyLeaves_ok:
  assumes "art_ok lk K r pre t" "0 \<notin> tids t"
  shows "\<exists>xs. lists_by (kval lk) (tids t) xs \<and> emits n xs (copyLeaves n t)"
  using assms
proof (induction rule: art_ok.induct)
  case (leaf tid pre)
  have "emits n [tid] (copyLeaves n (Leaf tid))"
    by (auto simp: emits_def emit_def has_room_def copyLeaves.simps[of n "Leaf tid"] Let_def nth_append)
  then show ?case by (intro exI[of _ "[tid]"]) (simp add: lists_by_def)
next
  case (inner v c p q l pre isRoot)
  have chs: "children_ok lk K pre q c" by (rule children_okI[OF inner.hyps(7)])
  have "\<exists>xs. lists_by (kval lk) (\<Union>b \<in> {0..255}. under c (\<lambda>x. x = b)) xs \<and>
      emits n xs (for_each (\<lambda>child. copyLeaves n (snd child)) (\<lambda>st. toContinue st \<noteq> 0) (N_getChildren 0 255 c))"
  proof (rule children_emits[OF inner.hyps(2) chs inner.prems])
    show "\<exists>xs. lists_by (kval lk) (under c (\<lambda>x. x = b)) xs \<and> emits n xs (copyLeaves n (snd (b, ch)))"
      if "cmap c b = Some ch" for b ch
      using inner.IH[OF that] inner.prems tids_below[OF that, where v = v and l = l and p = p] that by auto
  qed auto
  moreover have "(\<Union>b \<in> {0..255}. under c (\<lambda>x. x = b)) = tids (Inner v l p c)"
    unfolding all_bytes tids_under under_def by blast
  moreover have "copyLeaves n (Inner v l p c) =
      for_each (\<lambda>child. copyLeaves n (snd child)) (\<lambda>st. toContinue st \<noteq> 0) (N_getChildren 0 255 c)"
    by (rule ext) (subst copyLeaves.simps, simp)
  ultimately show ?case by simp
qed

text \<open>
  The part of a node on one side of a key that runs along its path: the child under the byte of the
  key contributes \<open>S\<close>, the children on one side of it all their leaves.
\<close>

lemma emits_from:
  assumes cok: "cont_ok c" and chs: "children_ok lk K pre q c" and z: "0 \<notin> tids (Inner v l p c)"
    and sub: "S \<subseteq> under c (\<lambda>x. x = s)"
    and on: "\<And>ch. cmap c s = Some ch \<Longrightarrow> \<exists>xs. lists_by (kval lk) S xs \<and> emits n xs (f ch)"
  shows "\<exists>xs. lists_by (kval lk) (S \<union> under c (\<lambda>b. s < b)) xs \<and>
    emits n xs (for_each (\<lambda>child st. if fst child = s then f (snd child) st
        else if s < fst child then copyLeaves n (snd child) st else Some st)
      (\<lambda>st. toContinue st \<noteq> 0 \<or> restart st) (N_getChildren s 255 c))" (is "\<exists>xs. _ \<and> emits n xs (for_each ?body _ _)")
proof -
  let ?S = "\<lambda>b. if b = s then S else if s < b then under c (\<lambda>x. x = b) else {}"
  have "\<exists>xs. lists_by (kval lk) (\<Union>b \<in> {s..255}. ?S b) xs \<and>
      emits n xs (for_each ?body (\<lambda>st. toContinue st \<noteq> 0 \<or> restart st) (N_getChildren s 255 c))"
  proof (rule children_emits[OF cok chs z])
    show "\<exists>xs. lists_by (kval lk) (?S b) xs \<and> emits n xs (?body (b, ch))" if b: "s \<le> b" "cmap c b = Some ch" for b ch
    proof (cases "b = s")
      case True
      then show ?thesis using on b by simp
    next
      case False
      have "0 \<notin> tids ch" using z tids_below[OF b(2)] by blast
      then show ?thesis using copyLeaves_ok[OF children_okD[OF chs b(2)], of n] False b by auto
    qed
  qed (use sub in auto)
  moreover have "(\<Union>b \<in> {s..255}. ?S b) = S \<union> under c (\<lambda>b. s < b)"
    unfolding above_byte by (fastforce simp: under_def split: if_splits)
  ultimately show ?thesis by simp
qed

lemma emits_until:
  assumes cok: "cont_ok c" and chs: "children_ok lk K pre q c" and z: "0 \<notin> tids (Inner v l p c)"
    and sub: "S \<subseteq> under c (\<lambda>x. x = e)"
    and on: "\<And>ch. cmap c e = Some ch \<Longrightarrow> \<exists>xs. lists_by (kval lk) S xs \<and> emits n xs (f ch)"
  shows "\<exists>xs. lists_by (kval lk) (under c (\<lambda>b. b < e) \<union> S) xs \<and>
    emits n xs (for_each (\<lambda>child st. if fst child = e then f (snd child) st
        else if fst child < e then copyLeaves n (snd child) st else Some st)
      (\<lambda>st. toContinue st \<noteq> 0 \<or> restart st) (N_getChildren 0 e c))" (is "\<exists>xs. _ \<and> emits n xs (for_each ?body _ _)")
proof -
  let ?S = "\<lambda>b. if b = e then S else if b < e then under c (\<lambda>x. x = b) else {}"
  have "\<exists>xs. lists_by (kval lk) (\<Union>b \<in> {0..e}. ?S b) xs \<and>
      emits n xs (for_each ?body (\<lambda>st. toContinue st \<noteq> 0 \<or> restart st) (N_getChildren 0 e c))"
  proof (rule children_emits[OF cok chs z])
    show "\<exists>xs. lists_by (kval lk) (?S b) xs \<and> emits n xs (?body (b, ch))" if b: "b \<le> e" "cmap c b = Some ch" for b ch
    proof (cases "b = e")
      case True
      then show ?thesis using on b by simp
    next
      case False
      have "0 \<notin> tids ch" using z tids_below[OF b(2)] by blast
      then show ?thesis using copyLeaves_ok[OF children_okD[OF chs b(2)], of n] False b by auto
    qed
  qed (use sub in auto)
  moreover have "(\<Union>b \<in> {0..e}. ?S b) = under c (\<lambda>b. b < e) \<union> S"
    unfolding below_byte by (fastforce simp: under_def split: if_splits)
  ultimately show ?thesis by simp
qed

lemma take_path:
  assumes "length k = K" "take l k = pre @ q" "l = length pre + length q" "l < K"
  shows "take (length (pre @ q @ [k ! l])) k = pre @ q @ [k ! l]" "length (pre @ q @ [k ! l]) = l + 1"
  using assms by (simp_all add: take_Suc_conv_app_nth)

lemma findStart_ok:
  assumes "art_ok lk K r pre t" "length k = K" "take (length pre) k = pre" "0 \<notin> tids t"
  shows "\<exists>S xs. from_start (kval lk) (tids t) (be_val k) S \<and> lists_by (kval lk) S xs \<and> emits n xs (findStart lk n k t (length pre))"
  using assms
proof (induction rule: art_ok.induct)
  case (leaf tid pre)
  have ok: "art_ok lk K False pre (Leaf tid)" using leaf.hyps by (rule art_ok.leaf)
  have "from_start (kval lk) (tids (Leaf tid)) (be_val k) (tids (Leaf tid))" by (auto simp: from_start_def last_below_def)
  moreover have "findStart lk n k (Leaf tid) (length pre) = copyLeaves n (Leaf tid)"
    by (rule ext) (subst findStart.simps, simp)
  ultimately show ?case using copyLeaves_ok[OF ok leaf.prems(3), of n] by auto
next
  case (inner v c p q l pre isRoot)
  note ch = inner.hyps(7)
  have chs: "children_ok lk K pre q c" by (rule children_okI[OF ch])
  have ok: "art_ok lk K isRoot pre (Inner v l p c)" using inner.hyps by (rule art_ok.inner)
  have rq: "isRoot \<longrightarrow> q = []" using inner.hyps(6) by simp
  from checkPrefixCompare_ok[OF ok inner.hyps(3,4) chs rq inner.prems(1) inner.hyps(5)] show ?case
  proof (elim disjE conjE exE)
    assume q: "take (length q) (drop (length pre) k) = q"
      and e: "checkPrefixCompare lk (Inner v l p c) l p k (length pre) = Some (PC_Equal, l)"
    have path: "take l k = pre @ q" using q inner.prems(2) inner.hyps(4) by (simp add: take_add)
    note kk = inner.prems(1) path inner.hyps(4,5)
    have lk: "l < length k" using inner.prems(1) inner.hyps(5) by simp
    obtain S where S: "from_start (kval lk) (under c (\<lambda>b. b = k ! l)) (be_val k) S"
      "\<And>ch'. cmap c (k ! l) = Some ch' \<Longrightarrow> \<exists>xs. lists_by (kval lk) S xs \<and> emits n xs (findStart lk n k ch' (l + 1))"
    proof (cases "cmap c (k ! l)")
      case None
      then show ?thesis using that[of "{}"] by (simp add: from_start_def)
    next
      case (Some ch')
      have "0 \<notin> tids ch'" using inner.prems(3) tids_below[OF Some] by blast
      from inner.IH[OF Some inner.prems(1) take_path(1)[OF kk] this] show ?thesis
        using that Some unfolding take_path(2)[OF kk] by auto
    qed
    have sub: "S \<subseteq> under c (\<lambda>x. x = k ! l)" using S(1) by (simp add: from_start_def)
    obtain xs where xs: "lists_by (kval lk) (S \<union> under c (\<lambda>b. k ! l < b)) xs"
      "emits n xs (for_each (\<lambda>child st. if fst child = k ! l then findStart lk n k (snd child) (l + 1) st
          else if k ! l < fst child then copyLeaves n (snd child) st else Some st)
        (\<lambda>st. toContinue st \<noteq> 0 \<or> restart st) (N_getChildren (k ! l) 255 c))"
      using emits_from[OF inner.hyps(2) chs inner.prems(3) sub, where f = "\<lambda>ch. findStart lk n k ch (l + 1)" and n = n, OF S(2)] by auto
    have "findStart lk n k (Inner v l p c) (length pre) =
        for_each (\<lambda>child st. if fst child = k ! l then findStart lk n k (snd child) (l + 1) st
          else if k ! l < fst child then copyLeaves n (snd child) st else Some st)
        (\<lambda>st. toContinue st \<noteq> 0 \<or> restart st) (N_getChildren (k ! l) 255 c)"
      using e lk by (intro ext) (subst findStart.simps, simp add: Let_def)
    moreover have "from_start (kval lk) (tids (Inner v l p c)) (be_val k) (S \<union> under c (\<lambda>b. k ! l < b))"
      unfolding tids_split[of v l p c "k ! l"]
      by (rule from_start_extend[OF S(1) under_bound[OF chs kk] under_order[OF chs]]) simp_all
    ultimately show ?case using xs by auto
  next
    fix m assume m: "m < length q" "take m (drop (length pre) k) = take m q" "q ! m \<noteq> k ! (length pre + m)"
      and e: "checkPrefixCompare lk (Inner v l p c) l p k (length pre) =
        Some (if q ! m < k ! (length pre + m) then PC_Smaller else PC_Bigger, length pre + m)"
    have lt: "length pre + length q < K" using inner.hyps(4,5) by simp
    note off = off_path_order[OF chs inner.prems(1,2) m(2) lt m(1), where v = v and l = l and p = p]
    show ?case
    proof (cases "q ! m < k ! (length pre + m)")
      case True
      have "from_start (kval lk) (tids (Inner v l p c)) (be_val k) {}"
        by (rule one_sided) (simp add: below_def off(1)[OF _ True])
      moreover have "findStart lk n k (Inner v l p c) (length pre) st = Some st" for st
        using e True by (subst findStart.simps) simp
      ultimately show ?thesis by (intro exI[of _ "{}"] exI[of _ "[]"]) (auto simp: lists_by_def intro: emits_Nil)
    next
      case False
      then have gt: "k ! (length pre + m) < q ! m" using m(3) by simp
      have "from_start (kval lk) (tids (Inner v l p c)) (be_val k) (tids (Inner v l p c))"
        by (rule one_sided) (simp add: above_def off(2)[OF _ gt])
      moreover have "findStart lk n k (Inner v l p c) (length pre) = copyLeaves n (Inner v l p c)"
        using e False by (intro ext) (subst findStart.simps, simp)
      ultimately show ?thesis using copyLeaves_ok[OF ok inner.prems(3), of n] by auto
    qed
  qed
qed

lemma findEnd_ok:
  assumes "art_ok lk K r pre t" "length k = K" "take (length pre) k = pre" "0 \<notin> tids t"
  shows "\<exists>S xs. until_end (kval lk) (tids t) (be_val k) S \<and> lists_by (kval lk) S xs \<and> emits n xs (findEnd lk n k t (length pre))"
  using assms
proof (induction rule: art_ok.induct)
  case (leaf tid pre)
  have "until_end (kval lk) (tids (Leaf tid)) (be_val k) {}" by (auto simp: until_end_def last_below_def)
  moreover have "findEnd lk n k (Leaf tid) (length pre) st = Some st" for st
    by (subst findEnd.simps) simp
  ultimately show ?case by (intro exI[of _ "{}"] exI[of _ "[]"]) (auto simp: lists_by_def intro: emits_Nil)
next
  case (inner v c p q l pre isRoot)
  note ch = inner.hyps(7)
  have chs: "children_ok lk K pre q c" by (rule children_okI[OF ch])
  have ok: "art_ok lk K isRoot pre (Inner v l p c)" using inner.hyps by (rule art_ok.inner)
  have rq: "isRoot \<longrightarrow> q = []" using inner.hyps(6) by simp
  from checkPrefixCompare_ok[OF ok inner.hyps(3,4) chs rq inner.prems(1) inner.hyps(5)] show ?case
  proof (elim disjE conjE exE)
    assume q: "take (length q) (drop (length pre) k) = q"
      and e: "checkPrefixCompare lk (Inner v l p c) l p k (length pre) = Some (PC_Equal, l)"
    have path: "take l k = pre @ q" using q inner.prems(2) inner.hyps(4) by (simp add: take_add)
    note kk = inner.prems(1) path inner.hyps(4,5)
    have lk: "l < length k" using inner.prems(1) inner.hyps(5) by simp
    obtain S where S: "until_end (kval lk) (under c (\<lambda>b. b = k ! l)) (be_val k) S"
      "\<And>ch'. cmap c (k ! l) = Some ch' \<Longrightarrow> \<exists>xs. lists_by (kval lk) S xs \<and> emits n xs (findEnd lk n k ch' (l + 1))"
    proof (cases "cmap c (k ! l)")
      case None
      then show ?thesis using that[of "{}"] by (simp add: until_end_def)
    next
      case (Some ch')
      have "0 \<notin> tids ch'" using inner.prems(3) tids_below[OF Some] by blast
      from inner.IH[OF Some inner.prems(1) take_path(1)[OF kk] this] show ?thesis
        using that Some unfolding take_path(2)[OF kk] by auto
    qed
    have sub: "S \<subseteq> under c (\<lambda>x. x = k ! l)" using S(1) by (simp add: until_end_def)
    obtain xs where xs: "lists_by (kval lk) (under c (\<lambda>b. b < k ! l) \<union> S) xs"
      "emits n xs (for_each (\<lambda>child st. if fst child = k ! l then findEnd lk n k (snd child) (l + 1) st
          else if fst child < k ! l then copyLeaves n (snd child) st else Some st)
        (\<lambda>st. toContinue st \<noteq> 0 \<or> restart st) (N_getChildren 0 (k ! l) c))"
      using emits_until[OF inner.hyps(2) chs inner.prems(3) sub, where f = "\<lambda>ch. findEnd lk n k ch (l + 1)" and n = n, OF S(2)] by auto
    have "findEnd lk n k (Inner v l p c) (length pre) =
        for_each (\<lambda>child st. if fst child = k ! l then findEnd lk n k (snd child) (l + 1) st
          else if fst child < k ! l then copyLeaves n (snd child) st else Some st)
        (\<lambda>st. toContinue st \<noteq> 0 \<or> restart st) (N_getChildren 0 (k ! l) c)"
      using e lk by (intro ext) (subst findEnd.simps, simp add: Let_def)
    moreover have "until_end (kval lk) (tids (Inner v l p c)) (be_val k) (under c (\<lambda>b. b < k ! l) \<union> S)"
      unfolding tids_split[of v l p c "k ! l"]
      by (rule until_end_extend[OF S(1) under_bound[OF chs kk] under_order[OF chs]]) simp_all
    ultimately show ?case using xs by auto
  next
    fix m assume m: "m < length q" "take m (drop (length pre) k) = take m q" "q ! m \<noteq> k ! (length pre + m)"
      and e: "checkPrefixCompare lk (Inner v l p c) l p k (length pre) =
        Some (if q ! m < k ! (length pre + m) then PC_Smaller else PC_Bigger, length pre + m)"
    have lt: "length pre + length q < K" using inner.hyps(4,5) by simp
    note off = off_path_order[OF chs inner.prems(1,2) m(2) lt m(1), where v = v and l = l and p = p]
    show ?case
    proof (cases "q ! m < k ! (length pre + m)")
      case True
      have "until_end (kval lk) (tids (Inner v l p c)) (be_val k) (tids (Inner v l p c))"
        by (rule one_sided) (simp add: below_def off(1)[OF _ True])
      moreover have "findEnd lk n k (Inner v l p c) (length pre) = copyLeaves n (Inner v l p c)"
        using e True by (intro ext) (subst findEnd.simps, simp)
      ultimately show ?thesis using copyLeaves_ok[OF ok inner.prems(3), of n] by auto
    next
      case False
      then have gt: "k ! (length pre + m) < q ! m" using m(3) by simp
      have "until_end (kval lk) (tids (Inner v l p c)) (be_val k) {}"
        by (rule one_sided) (simp add: above_def off(2)[OF _ gt])
      moreover have "findEnd lk n k (Inner v l p c) (length pre) st = Some st" for st
        using e False by (subst findEnd.simps) simp
      ultimately show ?thesis by (intro exI[of _ "{}"] exI[of _ "[]"]) (auto simp: lists_by_def intro: emits_Nil)
    qed
  qed
qed

section \<open>The path that both bounds share\<close>

lemma equals_loop_ok:
  assumes st: "stores p q" and k: "pl + length q < length start" "pl + length q < length stop"
    and eq: "\<And>j. j < length q \<Longrightarrow> q ! j = start ! (pl + j) \<and> q ! j = stop ! (pl + j)"
    and kt: "\<And>j. j < length q \<Longrightarrow> 4 < length q \<Longrightarrow> kt = Some key \<and> key_at key (pl + j) = Some (q ! j)"
    and i: "i \<le> length q"
  shows "equals_loop p kt start stop i (pl + i) = Some (PCE_BothMatch, pl + length q)"
  using i
proof (induction "length q - i" arbitrary: i)
  case 0
  then have "i = length q" by simp
  then show ?case using st by (subst equals_loop.simps) (auto simp: stores_def)
next
  case (Suc n)
  then have i: "i < length q" by simp
  have cnt: "prefixCount p = length q" using st by (simp add: stores_def)
  have cur: "(if maxStoredPrefixLength \<le> i then Option.bind kt (\<lambda>kt. key_at kt (pl + i)) else Some (pbytes p ! i)) = Some (q ! i)"
    using kt[OF i] stores_nth[OF st i] i by (auto simp: maxStoredPrefixLength_def)
  have "equals_loop p kt start stop i (pl + i) = equals_loop p kt start stop (Suc i) (pl + Suc i)"
    using i cnt cur k eq[OF i] by (subst equals_loop.simps) (auto simp: Let_def)
  then show ?case using Suc.hyps(1)[of "Suc i"] Suc.hyps(2) i by simp
qed

lemma checkPrefixEquals_ok:
  assumes ok: "art_ok lk K r pre (Inner v l p c)" and st: "stores p q" and l: "l = length pre + length q"
    and chs: "children_ok lk K pre q c" and root: "r \<longrightarrow> q = []"
    and k: "length start = K" "length stop = K" "l < K" "take l start = pre @ q" "take l stop = pre @ q"
  shows "checkPrefixEquals lk (Inner v l p c) l p (length pre) start stop = Some (PCE_BothMatch, l)"
proof (cases "q = []")
  case True
  then show ?thesis using st l by (auto simp: checkPrefixEquals_def stores_def)
next
  case False
  then have "\<not> r" using root by blast
  then obtain tid where tid: "tid \<in> tids (Inner v l p c)" "getAnyChildTid (Inner v l p c) = Some tid"
    using getAnyChildTid_ok[of lk K pre v l p c] ok by auto
  obtain b rest ch' where "lk tid = pre @ q @ b # rest" by (rule on_path[OF chs tid(1)])
  then have path: "key_at (lk tid) (length pre + j) = Some (q ! j)" if "j < length q" for j
    using that by (simp add: key_at_def nth_append)
  have nth: "q ! j = k ! (length pre + j)" if "take l k = pre @ q" "j < length q" "length k = K" for k j
  proof -
    have "k ! (length pre + j) = take l k ! (length pre + j)" by (rule nth_take[symmetric]) (use that l in simp)
    then show ?thesis unfolding that(1) by simp
  qed
  have cnt: "prefixCount p = length q" using st by (simp add: stores_def)
  have "checkPrefixEquals lk (Inner v l p c) l p (length pre) start stop =
      equals_loop p (Some (lk tid)) start stop 0 (length pre + 0)"
    using False l cnt tid(2) by (simp add: checkPrefixEquals_def)
  also have "\<dots> = Some (PCE_BothMatch, length pre + length q)"
  proof (rule equals_loop_ok[OF st, where key = "lk tid"])
    show "q ! j = start ! (length pre + j) \<and> q ! j = stop ! (length pre + j)" if "j < length q" for j
      using nth[OF k(4) that k(1)] nth[OF k(5) that k(2)] by simp
  qed (use path k l in auto)
  finally show ?thesis by (simp add: l)
qed

text \<open>What the child under the byte of a bound contributes.\<close>

lemma start_child:
  assumes chs: "children_ok lk K pre q c" and k: "length k = K" "take l k = pre @ q" "l = length pre + length q" "l < K"
    and z: "0 \<notin> tids (Inner v l p c)"
  obtains S where "from_start (kval lk) (under c (\<lambda>b. b = k ! l)) (be_val k) S"
    "\<And>ch. cmap c (k ! l) = Some ch \<Longrightarrow> \<exists>xs. lists_by (kval lk) S xs \<and> emits n xs (findStart lk n k ch (l + 1))"
proof (cases "cmap c (k ! l)")
  case None
  then show ?thesis using that[of "{}"] by (simp add: from_start_def)
next
  case (Some ch)
  have "0 \<notin> tids ch" using z tids_below[OF Some] by blast
  from findStart_ok[OF children_okD[OF chs Some] k(1) take_path(1)[OF k] this, of n] show ?thesis
    using that Some unfolding take_path(2)[OF k] by auto
qed

lemma end_child:
  assumes chs: "children_ok lk K pre q c" and k: "length k = K" "take l k = pre @ q" "l = length pre + length q" "l < K"
    and z: "0 \<notin> tids (Inner v l p c)"
  obtains S where "until_end (kval lk) (under c (\<lambda>b. b = k ! l)) (be_val k) S"
    "\<And>ch. cmap c (k ! l) = Some ch \<Longrightarrow> \<exists>xs. lists_by (kval lk) S xs \<and> emits n xs (findEnd lk n k ch (l + 1))"
proof (cases "cmap c (k ! l)")
  case None
  then show ?thesis using that[of "{}"] by (simp add: until_end_def)
next
  case (Some ch)
  have "0 \<notin> tids ch" using z tids_below[OF Some] by blast
  from findEnd_ok[OF children_okD[OF chs Some] k(1) take_path(1)[OF k] this, of n] show ?thesis
    using that Some unfolding take_path(2)[OF k] by auto
qed

text \<open>The children between the bytes of the two bounds.\<close>

lemma emits_between:
  assumes cok: "cont_ok c" and chs: "children_ok lk K pre q c" and z: "0 \<notin> tids (Inner v l p c)" and se: "s < e"
    and sub: "S \<subseteq> under c (\<lambda>x. x = s)" "R \<subseteq> under c (\<lambda>x. x = e)"
    and on: "\<And>ch. cmap c s = Some ch \<Longrightarrow> \<exists>xs. lists_by (kval lk) S xs \<and> emits n xs (f ch)"
    and on': "\<And>ch. cmap c e = Some ch \<Longrightarrow> \<exists>xs. lists_by (kval lk) R xs \<and> emits n xs (g ch)"
  shows "\<exists>xs. lists_by (kval lk) (S \<union> under c (\<lambda>b. s < b \<and> b < e) \<union> R) xs \<and>
    emits n xs (for_each (\<lambda>child st. if fst child = s then f (snd child) st
        else if s < fst child \<and> fst child < e then copyLeaves n (snd child) st
        else if fst child = e then g (snd child) st else Some st)
      (\<lambda>st. restart st \<or> toContinue st \<noteq> 0) (N_getChildren s e c))" (is "\<exists>xs. _ \<and> emits n xs (for_each ?body _ _)")
proof -
  let ?S = "\<lambda>b. if b = s then S else if s < b \<and> b < e then under c (\<lambda>x. x = b) else if b = e then R else {}"
  have "\<exists>xs. lists_by (kval lk) (\<Union>b \<in> {s..e}. ?S b) xs \<and>
      emits n xs (for_each ?body (\<lambda>st. restart st \<or> toContinue st \<noteq> 0) (N_getChildren s e c))"
  proof (rule children_emits[OF cok chs z])
    show "\<exists>xs. lists_by (kval lk) (?S b) xs \<and> emits n xs (?body (b, ch))"
      if b: "s \<le> b" "b \<le> e" "cmap c b = Some ch" for b ch
    proof -
      consider "b = s" | "b = e" | "s < b" "b < e" using b(1,2) by (metis order.order_iff_strict)
      then show ?thesis
      proof cases
        case 3
        have "0 \<notin> tids ch" using z tids_below[OF b(3)] by blast
        then show ?thesis using copyLeaves_ok[OF children_okD[OF chs b(3)], of n] 3 b by auto
      qed (use on on' b se in auto)
    qed
  qed (use sub in auto)
  moreover have "(\<Union>b \<in> {s..e}. ?S b) = S \<union> under c (\<lambda>b. s < b \<and> b < e) \<union> R"
  proof
    show "S \<union> under c (\<lambda>b. s < b \<and> b < e) \<union> R \<subseteq> (\<Union>b \<in> {s..e}. ?S b)"
      using se by (fastforce simp: under_def)
  qed (auto simp: under_def split: if_splits)
  ultimately show ?thesis by simp
qed

text \<open>What a call that may return \<open>n\<close> results makes of the leaves \<open>xs\<close>.\<close>

definition range_page :: "loadKey \<Rightarrow> nat \<Rightarrow> u64 list \<Rightarrow> range_result" where
  "range_page lk n xs = (if length xs \<le> n then RangeDone False xs None else RangeDone True (take n xs) (Some (lk (xs ! n))))"

lemma range_finish_emits:
  assumes "emits n xs f" "0 \<notin> set xs"
  shows "map_option (range_finish lk) (f \<lparr>results = [], toContinue = 0, restart = False\<rparr>) = Some (range_page lk n xs)"
proof -
  have "xs ! n \<noteq> 0" if "n < length xs" using assms(2) nth_mem[OF that] by metis
  then show ?thesis using assms(1)
    by (auto simp: emits_def has_room_def emit_def range_finish_def range_page_def Let_def)
qed

text \<open>The bounds part at byte \<open>d\<close>.\<close>

definition part_at :: "nat \<Rightarrow> u8 list \<Rightarrow> u8 list \<Rightarrow> bool" where
  "part_at d start stop \<longleftrightarrow> length start = length stop \<and> d < length start \<and> take d start = take d stop \<and> start ! d < stop ! d"

lemma part_at_less:
  assumes "part_at d start stop"
  shows "be_val start < be_val stop"
proof -
  have "start = take d start @ start ! d # drop (Suc d) start" "stop = take d start @ stop ! d # drop (Suc d) stop"
    using assms id_take_nth_drop[of d start] id_take_nth_drop[of d stop] by (auto simp: part_at_def)
  moreover have "length (drop (Suc d) start) = length (drop (Suc d) stop)" using assms by (simp add: part_at_def)
  ultimately show ?thesis using be_val_less assms unfolding part_at_def by metis
qed

text \<open>The stored keys branch there.\<close>

definition branches_at :: "loadKey \<Rightarrow> u64 set \<Rightarrow> nat \<Rightarrow> u8 list \<Rightarrow> bool" where
  "branches_at lk T d k \<longleftrightarrow> (\<exists>x \<in> T. \<exists>y \<in> T. take d (lk x) = take d k \<and> take d (lk y) = take d k \<and> lk x ! d \<noteq> lk y ! d)"

lemma branch_level:
  assumes chs: "children_ok lk K pre q c" and br: "branches_at lk (tids (Inner v l p c)) d k" and l: "l = length pre + length q"
  shows "l \<le> d" "take l k = pre @ q"
proof -
  obtain x y where xy: "x \<in> tids (Inner v l p c)" "y \<in> tids (Inner v l p c)" "take d (lk x) = take d k"
    "take d (lk y) = take d k" "lk x ! d \<noteq> lk y ! d" using br by (auto simp: branches_at_def)
  obtain b rest ch' where x: "lk x = pre @ q @ b # rest" by (rule on_path[OF chs xy(1)])
  obtain b' rest' ch' where y: "lk y = pre @ q @ b' # rest'" by (rule on_path[OF chs xy(2)])
  show ld: "l \<le> d"
  proof (rule ccontr)
    assume "\<not> l \<le> d"
    then have d: "d < length (pre @ q)" using l by simp
    have "lk x ! d = (pre @ q) ! d" "lk y ! d = (pre @ q) ! d"
      using x y nth_append[of "pre @ q" "b # rest" d] nth_append[of "pre @ q" "b' # rest'" d] d by simp_all
    then show False using xy(5) by simp
  qed
  have "take l k = take l (take d k)" using ld by (simp add: min_def)
  also have "\<dots> = take l (lk x)" unfolding xy(3)[symmetric] using ld by (simp add: min_def)
  finally show "take l k = pre @ q" using l x by simp
qed

lemma branch_child:
  assumes chs: "children_ok lk K pre q c" and br: "branches_at lk (tids (Inner v l p c)) d k" and l: "l = length pre + length q" "l < d"
    and k: "d < length k"
  shows "\<exists>ch. cmap c (k ! l) = Some ch \<and> branches_at lk (tids ch) d k"
proof -
  have child: "\<exists>ch. cmap c (k ! l) = Some ch \<and> x \<in> tids ch" if x: "x \<in> tids (Inner v l p c)" "take d (lk x) = take d k" for x
  proof -
    obtain b rest ch' where b: "cmap c b = Some ch'" "x \<in> tids ch'" "lk x = pre @ q @ b # rest" by (rule on_path[OF chs x(1)])
    have "k ! l = take d k ! l" using l k by simp
    also have "\<dots> = lk x ! l" unfolding x(2)[symmetric] using l by simp
    also have "\<dots> = b" using b(3) l by (simp add: nth_append)
    finally show ?thesis using b by blast
  qed
  then show ?thesis using br unfolding branches_at_def by (metis option.inject)
qed

lemma lookupRange_loop_ok:
  assumes "art_ok lk K r pre t" "part_at d start stop" "length start = K"
    "take (length pre) start = pre" "take (length pre) stop = pre" "0 \<notin> tids t"
    "r \<and> d = 0 \<or> branches_at lk (tids t) d start"
  shows "\<exists>S xs. in_range (kval lk) (tids t) (be_val start) (be_val stop) S \<and> lists_by (kval lk) S xs \<and>
    lookupRange_loop lk n start stop t (length pre) = Some (range_page lk n xs)"
  using assms
proof (induction rule: art_ok.induct)
  case (leaf tid pre)
  then show ?case by (auto simp: branches_at_def)
next
  case (inner v c p q l pre isRoot)
  note ch = inner.hyps(7) and z = inner.prems(5)
  have chs: "children_ok lk K pre q c" by (rule children_okI[OF ch])
  have ok: "art_ok lk K isRoot pre (Inner v l p c)" using inner.hyps by (rule art_ok.inner)
  have rq: "isRoot \<longrightarrow> q = []" using inner.hyps(6) by simp
  have part: "length stop = K" "d < K" "take d start = take d stop" "start ! d < stop ! d"
    using inner.prems(1,2) by (auto simp: part_at_def)
  have less: "be_val start < be_val stop" by (rule part_at_less[OF inner.prems(1)])
  have ld: "l \<le> d" and path: "take l start = pre @ q"
    using inner.prems(6) branch_level[OF chs _ inner.hyps(4)] inner.hyps(4,6) by auto
  have path': "take l stop = pre @ q"
    using path part(3) ld by (metis min.absorb1 take_take)
  note sk = inner.prems(2) path inner.hyps(4,5) and ek = part(1) path' inner.hyps(4,5)
  have e: "checkPrefixEquals lk (Inner v l p c) l p (length pre) start stop = Some (PCE_BothMatch, l)"
    by (rule checkPrefixEquals_ok[OF ok inner.hyps(3,4) chs rq inner.prems(2) part(1) inner.hyps(5) path path'])
  have in_len: "l < length start" "l < length stop" using inner.prems(2) part(1) inner.hyps(5) by auto
  show ?case
  proof (cases "l = d")
    case True
    let ?s = "start ! l" and ?e = "stop ! l"
    have se: "?s < ?e" and ne: "?s \<noteq> ?e" using part(4) True by auto
    obtain S where S: "from_start (kval lk) (under c (\<lambda>b. b = ?s)) (be_val start) S"
      "\<And>ch'. cmap c ?s = Some ch' \<Longrightarrow> \<exists>xs. lists_by (kval lk) S xs \<and> emits n xs (findStart lk n start ch' (l + 1))"
      by (rule start_child[OF chs sk z, where n = n], rule that) blast+
    obtain R where R: "until_end (kval lk) (under c (\<lambda>b. b = ?e)) (be_val stop) R"
      "\<And>ch'. cmap c ?e = Some ch' \<Longrightarrow> \<exists>xs. lists_by (kval lk) R xs \<and> emits n xs (findEnd lk n stop ch' (l + 1))"
      by (rule end_child[OF chs ek z, where n = n], rule that) blast+
    have sub: "S \<subseteq> under c (\<lambda>x. x = ?s)" "R \<subseteq> under c (\<lambda>x. x = ?e)" using S(1) R(1) by (simp_all add: from_start_def until_end_def)
    obtain xs where xs: "lists_by (kval lk) (S \<union> under c (\<lambda>b. ?s < b \<and> b < ?e) \<union> R) xs"
      "emits n xs (for_each (\<lambda>child st. if fst child = ?s then findStart lk n start (snd child) (l + 1) st
          else if ?s < fst child \<and> fst child < ?e then copyLeaves n (snd child) st
          else if fst child = ?e then findEnd lk n stop (snd child) (l + 1) st else Some st)
        (\<lambda>st. restart st \<or> toContinue st \<noteq> 0) (N_getChildren ?s ?e c))"
      using emits_between[OF inner.hyps(2) chs z se sub, where f = "\<lambda>ch. findStart lk n start ch (l + 1)" and
          g = "\<lambda>ch. findEnd lk n stop ch (l + 1)" and n = n, OF S(2) R(2)] by auto
    have rng: "in_range (kval lk) (tids (Inner v l p c)) (be_val start) (be_val stop) (S \<union> under c (\<lambda>b. ?s < b \<and> b < ?e) \<union> R)"
      unfolding tids_split2[OF se, of v l p c]
    proof (rule in_range_join[OF S(1) R(1) _ _ _ _ _ _ under_order[OF chs] _ less])
      show "all_less (kval lk) (under c (\<lambda>b. b < ?s) \<union> under c (\<lambda>b. b = ?s) \<union> under c (\<lambda>b. ?s < b \<and> b < ?e)) (under c (\<lambda>b. b = ?e))"
        unfolding under_un by (rule under_order[OF chs]) (use se in auto)
    qed (use se in \<open>auto intro!: under_bound[OF chs sk] under_bound[OF chs ek]\<close>)
    have "set xs \<subseteq> tids (Inner v l p c)" using rng xs(1) by (simp add: lists_by_def in_range_def)
    then have "map_option (range_finish lk) (for_each (\<lambda>child st. if fst child = ?s then findStart lk n start (snd child) (l + 1) st
          else if ?s < fst child \<and> fst child < ?e then copyLeaves n (snd child) st
          else if fst child = ?e then findEnd lk n stop (snd child) (l + 1) st else Some st)
        (\<lambda>st. restart st \<or> toContinue st \<noteq> 0) (N_getChildren ?s ?e c) \<lparr>results = [], toContinue = 0, restart = False\<rparr>) =
        Some (range_page lk n xs)"
      using range_finish_emits[OF xs(2)] z by blast
    then have "lookupRange_loop lk n start stop (Inner v l p c) (length pre) = Some (range_page lk n xs)"
      using e in_len ne by (subst lookupRange_loop.simps) (simp add: Let_def)
    then show ?thesis using rng xs(1) by blast
  next
    case False
    then have lt: "l < d" using ld by simp
    have "\<not> (isRoot \<and> d = 0)" using lt by simp
    then have br: "branches_at lk (tids (Inner v l p c)) d start" using inner.prems(6) by blast
    obtain ch' where ch': "cmap c (start ! l) = Some ch'" "branches_at lk (tids ch') d start"
      using branch_child[OF chs br inner.hyps(4) lt] part(2) inner.prems(2) by auto
    have same: "stop ! l = start ! l" using part(3) lt by (metis nth_take)
    have tp: "take (length (pre @ q @ [start ! l])) stop = pre @ q @ [start ! l]" using take_path(1)[OF ek] same by simp
    have "0 \<notin> tids ch'" using z tids_below[OF ch'(1)] by blast
    then obtain S xs where S: "in_range (kval lk) (tids ch') (be_val start) (be_val stop) S" "lists_by (kval lk) S xs"
      "lookupRange_loop lk n start stop ch' (l + 1) = Some (range_page lk n xs)"
      using inner.IH[OF ch'(1) inner.prems(1,2) take_path(1)[OF sk] tp _ disjI2[OF ch'(2)]]
      unfolding take_path(2)[OF sk] by blast
    have "in_range (kval lk) (tids (Inner v l p c)) (be_val start) (be_val stop) S"
      unfolding tids_split[of v l p c "start ! l"] under_eq(1)[OF ch'(1)]
      by (rule in_range_extend[OF S(1) _ _ less])
        (use ch'(1) same under_order[OF chs, of "\<lambda>b. b < start ! l" "\<lambda>b. b = start ! l"]
          in \<open>auto intro!: under_bound[OF chs sk] under_bound[OF chs ek]\<close>)
    moreover have "lookupRange_loop lk n start stop (Inner v l p c) (length pre) = Some (range_page lk n xs)"
      using e in_len same ch'(1) N_getChild_ok[OF inner.hyps(2)] S(3) by (subst lookupRange_loop.simps) (simp add: Let_def)
    ultimately show ?thesis using S(2) by blast
  qed
qed

section \<open>The range query\<close>

lemma part_at_ex: "length a = length b \<Longrightarrow> be_val a < be_val b \<Longrightarrow> \<exists>d. part_at d a b"
proof (induction a b rule: list_induct2)
  case (Cons x xs y ys)
  consider "x < y" | "x = y" | "y < x" by fastforce
  then show ?case
  proof cases
    case 1
    then show ?thesis using Cons.hyps by (intro exI[of _ 0]) (simp add: part_at_def)
  next
    case 2
    then obtain d where "part_at d xs ys" using Cons by auto
    then show ?thesis using 2 by (intro exI[of _ "Suc d"]) (auto simp: part_at_def)
  next
    case 3
    then show ?thesis using be_val_less[of y x ys xs "[]"] Cons by simp
  qed
qed simp

lemma startAfterEnd_part: "part_at d a b \<Longrightarrow> \<not> startAfterEnd a b \<and> startAfterEnd b a"
proof (induction a b arbitrary: d rule: startAfterEnd.induct)
  case (1 s start e stop)
  show ?case
  proof (cases d)
    case 0
    then show ?thesis using "1.prems" by (auto simp: part_at_def)
  next
    case (Suc n)
    then have "s = e" "part_at n start stop" using "1.prems" by (auto simp: part_at_def)
    then show ?thesis using "1.IH"[of n] by simp
  qed
qed (auto simp: part_at_def)

lemma startAfterEnd_same: "\<not> startAfterEnd a a"
  by (induction a) auto

lemma lists_by_unique: "lists_by v S xs \<Longrightarrow> lists_by v S ys \<Longrightarrow> xs = ys"
proof (induction xs arbitrary: S ys)
  case (Cons x xs)
  then obtain y ys' where ys: "ys = y # ys'" by (cases ys) (auto simp: lists_by_def)
  have "x = y"
  proof (rule ccontr)
    assume ne: "x \<noteq> y"
    have "x \<in> set ys" "y \<in> set (x # xs)" using Cons.prems ys by (auto simp: lists_by_def)
    then have "v x < v y" "v y < v x" using Cons.prems ys ne by (auto simp: lists_by_def)
    then show False by simp
  qed
  moreover have "x \<notin> set xs" "y \<notin> set ys'" using Cons.prems by (auto simp: lists_by_def ys)
  moreover have "set xs = set ys'" using Cons.prems calculation unfolding lists_by_def ys by auto
  ultimately show ?case using Cons.IH[of "set xs" ys'] Cons.prems by (simp add: lists_by_def ys)
qed (simp add: lists_by_def)

lemma lists_by_drop:
  assumes "lists_by v {x \<in> T. a \<le> v x \<and> v x < b} xs" "n < length xs"
  shows "lists_by v {x \<in> T. v (xs ! n) \<le> v x \<and> v x < b} (drop n xs)"
proof -
  have srt: "sorted_wrt (\<lambda>x y. v x < v y) xs" and st: "set xs = {x \<in> T. a \<le> v x \<and> v x < b}"
    using assms(1) by (simp_all add: lists_by_def)
  have a: "a \<le> v (xs ! n)" using nth_mem[OF assms(2)] st by simp
  have "set (drop n xs) = {x \<in> set xs. v (xs ! n) \<le> v x}"
  proof
    show "set (drop n xs) \<subseteq> {x \<in> set xs. v (xs ! n) \<le> v x}"
    proof
      fix x assume "x \<in> set (drop n xs)"
      obtain i where i: "n + i < length xs" "x = xs ! (n + i)"
      proof -
        obtain i where "i < length (drop n xs)" "x = drop n xs ! i" using \<open>x \<in> set (drop n xs)\<close> by (metis in_set_conv_nth)
        then show ?thesis using that[of i] by simp
      qed
      then show "x \<in> {x \<in> set xs. v (xs ! n) \<le> v x}"
        using sorted_wrt_nth_less[OF srt, of n "n + i"] by (cases i) auto
    qed
    show "{x \<in> set xs. v (xs ! n) \<le> v x} \<subseteq> set (drop n xs)"
    proof clarify
      fix x assume "x \<in> set xs" "v (xs ! n) \<le> v x"
      then obtain i where i: "i < length xs" "x = xs ! i" by (auto simp: in_set_conv_nth)
      have "n \<le> i" using sorted_wrt_nth_less[OF srt, of i n] i assms(2) \<open>v (xs ! n) \<le> v x\<close> by (meson leD leI)
      then have "drop n xs ! (i - n) = x" "i - n < length (drop n xs)" using i by auto
      then show "x \<in> set (drop n xs)" by (metis nth_mem)
    qed
  qed
  also have "\<dots> = {x \<in> T. v (xs ! n) \<le> v x \<and> v x < b}" unfolding st using order_trans[OF a] by auto
  finally show ?thesis using srt by (simp add: lists_by_def sorted_wrt_drop)
qed

lemma Tree_lookupRange_ok:
  assumes "root_ok lk K t" "part_at d start stop" "length start = K" "0 \<notin> tids t" "d = 0 \<or> branches_at lk (tids t) d start"
  shows "\<exists>S xs. in_range (kval lk) (tids t) (be_val start) (be_val stop) S \<and> lists_by (kval lk) S xs \<and>
    Tree_lookupRange lk t start stop n = Some (range_page lk n xs)"
  using lookupRange_loop_ok[of lk K True "[]" t d start stop n] assms startAfterEnd_part[OF assms(2)]
  by (simp add: Tree_lookupRange_def root_ok_def)

lemma Tree_lookupRange_exact:
  assumes t: "root_ok lk K t" "0 \<notin> tids t" and ab: "a \<in> tids t" "b \<in> tids t" "kval lk a < kval lk b"
  shows "\<exists>xs. lists_by (kval lk) {x \<in> tids t. kval lk a \<le> kval lk x \<and> kval lk x < kval lk b} xs \<and>
    Tree_lookupRange lk t (lk a) (lk b) n = Some (range_page lk n xs)"
proof -
  have len: "length (lk a) = K" "length (lk b) = K" using art_ok_length t ab by (auto simp: root_ok_def)
  obtain d where d: "part_at d (lk a) (lk b)" using part_at_ex len ab(3) by metis
  have "branches_at lk (tids t) d (lk a)" 
    unfolding branches_at_def using d ab by (intro bexI[of _ a] bexI[of _ b]) (auto simp: part_at_def)
  then obtain S xs where S: "in_range (kval lk) (tids t) (kval lk a) (kval lk b) S" "lists_by (kval lk) S xs"
    "Tree_lookupRange lk t (lk a) (lk b) n = Some (range_page lk n xs)"
    using Tree_lookupRange_ok[OF t(1) d len(1) t(2)] by blast
  then show ?thesis using in_range_exact[OF S(1)] ab by blast
qed

lemma lookupRange_loop_same:
  assumes "art_ok lk K r pre t" "x \<in> tids t"
  shows "lookupRange_loop lk n (lk x) (lk x) t (length pre) = None"
  using assms
proof (induction rule: art_ok.induct)
  case (leaf tid pre)
  show ?case by (subst lookupRange_loop.simps) simp
next
  case (inner v c p q l pre isRoot)
  have chs: "children_ok lk K pre q c" by (rule children_okI[OF inner.hyps(7)])
  have ok: "art_ok lk K isRoot pre (Inner v l p c)" using inner.hyps by (rule art_ok.inner)
  have rq: "isRoot \<longrightarrow> q = []" using inner.hyps(6) by simp
  obtain b rest ch' where b: "cmap c b = Some ch'" "x \<in> tids ch'" "lk x = pre @ q @ b # rest" by (rule on_path[OF chs inner.prems])
  have len: "length (lk x) = K" by (rule art_ok_length[OF ok inner.prems])
  have k: "take l (lk x) = pre @ q" "lk x ! l = b" using b(3) inner.hyps(4) by (simp_all add: nth_append)
  have e: "checkPrefixEquals lk (Inner v l p c) l p (length pre) (lk x) (lk x) = Some (PCE_BothMatch, l)"
    by (rule checkPrefixEquals_ok[OF ok inner.hyps(3,4) chs rq len len inner.hyps(5) k(1) k(1)])
  have "lookupRange_loop lk n (lk x) (lk x) ch' (l + 1) = None" using inner.IH[OF b(1,2)] inner.hyps(4) by simp
  then show ?case using e k(2) len inner.hyps(5) b(1) N_getChild_ok[OF inner.hyps(2)]
    by (subst lookupRange_loop.simps) (simp add: Let_def)
qed

section \<open>A prefix that leaves the path of the bounds\<close>

text \<open>A node other than the root lies where stored keys part.\<close>

lemma inner_level:
  assumes "art_ok lk K False pre (Inner v l p c)" "\<And>x. x \<in> tids (Inner v l p c) \<Longrightarrow> take m (lk x) = k" "m \<le> K"
  shows "m \<le> l"
proof (rule ccontr)
  assume "\<not> m \<le> l"
  from assms(1) obtain q where l: "l = length pre + length q" and fit: "fits c"
    and ch: "\<And>b ch. cmap c b = Some ch \<Longrightarrow> art_ok lk K False (pre @ q @ [b]) ch" by (auto elim: art_okE)
  have "\<not> card (dom (cmap c)) \<le> Suc 0" using fit by (cases c) (auto simp: fits_def)
  then obtain b b' where "b \<in> dom (cmap c)" "b' \<in> dom (cmap c)" "b \<noteq> b'" using card_le_Suc0_iff_eq[of "dom (cmap c)"] by auto
  then obtain ch1 ch2 where c: "cmap c b = Some ch1" "cmap c b' = Some ch2" by blast
  obtain x y where x: "x \<in> tids ch1" and y: "y \<in> tids ch2" using art_ok_nonempty[OF ch] c by blast
  have "lk x ! l = b" "lk y ! l = b'" using child_path(2)[OF ch[OF c(1)] x] child_path(2)[OF ch[OF c(2)] y] l by auto
  moreover have "take m (lk x) = take m (lk y)" using assms(2) tids_below c x y by metis
  moreover have "l < m" using \<open>\<not> m \<le> l\<close> by simp
  ultimately show False using \<open>b \<noteq> b'\<close> by (metis nth_take)
qed

lemma range_prefix_mismatch:
  assumes t: "root_ok lk K t" and xy: "x \<in> tids t" "y \<in> tids t" "x \<noteq> y"
    and path: "\<And>z. z \<in> tids t \<Longrightarrow> take 3 (lk z) = [a, b, c]"
    and len: "length start = K" "length stop = K"
    and bytes: "take 3 start = [a, b, s]" "take 3 stop = [a, e, f]" "b < e" "f < c"
  shows "Tree_lookupRange lk t start stop n = Some (RangeDone False [] None)"
proof -
  obtain v l p cs where tt: "t = Inner v l p cs" using root_not_leaf[OF t] by (cases t) auto
  from t have root: "cont_ok cs" "stores p []" "l = 0" "0 < K"
    and ch: "\<And>k ch. cmap cs k = Some ch \<Longrightarrow> art_ok lk K False [k] ch"
    unfolding root_ok_def tt by (auto elim!: art_okE)
  have K: "3 \<le> K" using bytes(1) len(1) by (auto dest!: arg_cong[where f = length])
  have "start = [a, b, s] @ drop 3 start" "stop = [a, e, f] @ drop 3 stop"
    using append_take_drop_id[of 3 start] append_take_drop_id[of 3 stop] bytes(1,2) by simp_all
  then obtain start' stop' where "start = a # b # s # start'" "stop = a # e # f # stop'" by simp
  then have sb: "start ! 0 = a" "start ! 1 = b" "start ! 2 = s" "stop ! 0 = a" "stop ! 1 = e" "stop ! 2 = f" by simp_all
  have child: "\<exists>ch. cmap cs a = Some ch \<and> z \<in> tids ch" if z: "z \<in> tids t" for z
  proof -
    obtain k ch' where k: "cmap cs k = Some ch'" "z \<in> tids ch'" using z unfolding tt tids_Inner_iff by blast
    then have "take 1 (lk z) = [k]" using art_ok_path[OF ch] by fastforce
    moreover have "take 1 (lk z) = take 1 (take 3 (lk z))" by simp
    ultimately show ?thesis using k path[OF z] by simp
  qed
  obtain n1 where n1: "cmap cs a = Some n1" "x \<in> tids n1" using child[OF xy(1)] by blast
  have n1y: "y \<in> tids n1" using child[OF xy(2)] n1 by auto
  obtain v1 l1 p1 c1 where i1: "n1 = Inner v1 l1 p1 c1" using n1(2) n1y xy(3) by (cases n1) auto
  have ok1: "art_ok lk K False [a] (Inner v1 l1 p1 c1)" using ch[OF n1(1)] i1 by simp
  have sub: "take 3 (lk z) = [a, b, c]" if "z \<in> tids (Inner v1 l1 p1 c1)" for z
    using path tids_below[OF n1(1), of z v l p] that i1 tt by simp
  have l1: "3 \<le> l1" by (rule inner_level[OF ok1 sub K])
  from ok1 obtain q where q: "stores p1 q" "l1 = 1 + length q" and chs: "children_ok lk K [a] q c1"
    by (fastforce elim!: art_okE simp: children_ok_def)
  obtain b0 rest ch' where lx: "lk x = [a] @ q @ b0 # rest" using on_path[OF chs] n1(2) i1 by metis
  have "take 3 (a # q @ b0 # rest) = [a, b, c]" using sub[of x] n1(2) i1 lx by simp
  moreover obtain q0 q1 q' where qq: "q = q0 # q1 # q'" using l1 q(2) by (auto simp: numeral_eq_Suc Suc_le_length_iff)
  ultimately have qb: "q0 = b" "q1 = c" by simp_all
  have pb: "pbytes p1 ! 0 = b" "pbytes p1 ! 1 = c" "prefixCount p1 = length q" "1 < length q"
    using stores_nth[OF q(1), of 0] stores_nth[OF q(1), of 1] q(1) qq qb by (auto simp: stores_def)
  have "equals_loop p1 kt start stop 1 2 = Some (PCE_NoMatch, 2)" for kt
    using pb sb bytes K len by (subst equals_loop.simps) (auto simp: maxStoredPrefixLength_def Let_def)
  then have "equals_loop p1 kt start stop 0 1 = Some (PCE_NoMatch, 2)" for kt
    using pb sb bytes K len by (subst equals_loop.simps) (auto simp: maxStoredPrefixLength_def Let_def numeral_2_eq_2)
  then have "checkPrefixEquals lk n1 l1 p1 1 start stop = Some (PCE_NoMatch, 2)"
    using pb q(2) qq by (simp add: checkPrefixEquals_def)
  then have "lookupRange_loop lk n start stop n1 1 = Some (RangeDone False [] None)"
    unfolding i1 by (subst lookupRange_loop.simps) (simp add: Let_def)
  moreover have "checkPrefixEquals lk t l p 0 start stop = Some (PCE_BothMatch, 0)"
    using root(2,3) by (simp add: checkPrefixEquals_def stores_def)
  ultimately have "lookupRange_loop lk n start stop t 0 = Some (RangeDone False [] None)"
    using sb n1(1) N_getChild_ok[OF root(1)] K len unfolding tt by (subst lookupRange_loop.simps) (auto simp: Let_def)
  moreover have "\<not> startAfterEnd start stop"
  proof -
    have "part_at 1 start stop" using sb bytes(3) len K by (auto simp: part_at_def take_Suc_conv_app_nth)
    then show ?thesis using startAfterEnd_part by blast
  qed
  ultimately show ?thesis by (simp add: Tree_lookupRange_def)
qed

section \<open>The neighbour of a key, with a step back\<close>

text \<open>
  What the walk of \<open>lookupNext1\<close> knows on its way down to \<open>U\<close>: every leaf elsewhere lies on
  one side of the key and of all leaves in \<open>U\<close>, and the sibling it could step back to
  holds the greatest leaf elsewhere below the key.
\<close>

definition back_ok :: "loadKey \<Rightarrow> u64 set \<Rightarrow> u8 list \<Rightarrow> u64 set \<Rightarrow> art option \<Rightarrow> bool" where
  "back_ok lk T k U sib \<longleftrightarrow> U \<subseteq> T \<and>
     (\<forall>x \<in> T - U. (kval lk x < be_val k \<and> (\<forall>u \<in> U. kval lk x < kval lk u)) \<or> (be_val k < kval lk x \<and> (\<forall>u \<in> U. kval lk u < kval lk x))) \<and>
     (case sib of None \<Rightarrow> True | Some f \<Rightarrow> \<exists>r \<in> T. largestLeaf f = Some r \<and> kval lk r < be_val k \<and>
        (\<forall>x \<in> T - U. kval lk x < be_val k \<longrightarrow> kval lk x \<le> kval lk r))"

lemma back_nearest:
  assumes "back_ok lk T k U sib" "nearest lk U k r"
  shows "nearest lk T k r"
proof -
  have "r \<in> U" "r \<in> T" using assms by (auto simp: nearest_def back_ok_def)
  moreover have "\<not> (be_val k \<le> kval lk x \<and> kval lk x < kval lk r) \<and> \<not> (kval lk r < kval lk x \<and> kval lk x \<le> be_val k)"
    if x: "x \<in> T" for x
  proof (cases "x \<in> U")
    case False
    then have "(kval lk x < be_val k \<and> kval lk x < kval lk r) \<or> (be_val k < kval lk x \<and> kval lk r < kval lk x)"
      using assms(1) x \<open>r \<in> U\<close> unfolding back_ok_def by blast
    then show ?thesis by linarith
  qed (use assms(2) in \<open>auto simp: nearest_def\<close>)
  ultimately show ?thesis by (auto simp: nearest_def)
qed

text \<open>Stepping back from a node whose leaves are all above the key.\<close>

lemma back_step:
  assumes "back_ok lk T k U (Some f)" "above (kval lk) U (be_val k)"
  shows "\<exists>r. largestLeaf f = Some r \<and> nearest lk T k r"
proof -
  obtain r where r: "r \<in> T" "largestLeaf f = Some r" "kval lk r < be_val k"
    "\<And>x. x \<in> T - U \<Longrightarrow> kval lk x < be_val k \<Longrightarrow> kval lk x \<le> kval lk r" using assms(1) by (auto simp: back_ok_def)
  have "\<not> (be_val k \<le> kval lk x \<and> kval lk x < kval lk r) \<and> \<not> (kval lk r < kval lk x \<and> kval lk x \<le> be_val k)"
    if x: "x \<in> T" for x
  proof (cases "x \<in> U")
    case True
    then have "be_val k < kval lk x" using assms(2) by (simp add: above_def)
    then show ?thesis using r(3) by linarith
  next
    case False
    then have "kval lk x < be_val k \<or> be_val k < kval lk x" using assms(1) x unfolding back_ok_def by blast
    then show ?thesis using r(3) r(4)[of x] x False by auto
  qed
  then show ?thesis using r(1,2) by (auto simp: nearest_def)
qed

lemma byte_pred: "b \<noteq> 0 \<Longrightarrow> j \<le> b - 1 \<longleftrightarrow> j < (b :: u8)"
proof -
  assume b: "b \<noteq> 0"
  then have "0 < unat b" by (simp add: unat_gt_0)
  then show ?thesis unfolding word_le_nat_alt word_less_nat_alt unat_minus_one[OF b] by linarith
qed

text \<open>One step down, to the child under the byte of the key.\<close>

lemma back_down:
  assumes bk: "back_ok lk T k (tids (Inner v l p c)) sib" and cok: "cont_ok c"
    and chs: "children_ok lk K pre q c" and k: "length k = K" "take l k = pre @ q" "l = length pre + length q" "l < K"
    and ch: "cmap c (k ! l) = Some ch"
    and sib': "sib' = (if k ! l \<noteq> 0 then N_getLargestChild (k ! l - 1) c else sib)"
  shows "back_ok lk T k (tids ch) sib'"
proof -
  let ?U = "tids (Inner v l p c)"
  have sub: "tids ch \<subseteq> ?U" "?U \<subseteq> T" using tids_below[OF ch] bk by (auto simp: back_ok_def)
  have out: "(kval lk x < be_val k \<and> (\<forall>u \<in> ?U. kval lk x < kval lk u)) \<or> (be_val k < kval lk x \<and> (\<forall>u \<in> ?U. kval lk u < kval lk x))"
    if "x \<in> T - ?U" for x using bk that by (auto simp: back_ok_def)
  have inn: "x \<in> under c (\<lambda>b. b < k ! l) \<or> x \<in> under c (\<lambda>b. k ! l < b)" if "x \<in> ?U - tids ch" for x
    using that unfolding tids_split[of v l p c "k ! l"] under_eq(1)[OF ch] by blast
  have lo: "kval lk x < be_val k" "u \<in> tids ch \<Longrightarrow> kval lk x < kval lk u" if "x \<in> under c (\<lambda>b. b < k ! l)" for x u
    using that under_bound(1)[OF chs k, of "\<lambda>b. b < k ! l"] under_order[OF chs, of "\<lambda>b. b < k ! l" "\<lambda>b. b = k ! l"]
    unfolding under_eq(1)[OF ch] by (auto simp: below_def all_less_def)
  have hi: "be_val k < kval lk x" "u \<in> tids ch \<Longrightarrow> kval lk u < kval lk x" if "x \<in> under c (\<lambda>b. k ! l < b)" for x u
    using that under_bound(2)[OF chs k, of "\<lambda>b. k ! l < b"] under_order[OF chs, of "\<lambda>b. b = k ! l" "\<lambda>b. k ! l < b"]
    unfolding under_eq(1)[OF ch] by (auto simp: above_def all_less_def)
  have sides: "(kval lk x < be_val k \<and> (\<forall>u \<in> tids ch. kval lk x < kval lk u)) \<or> (be_val k < kval lk x \<and> (\<forall>u \<in> tids ch. kval lk u < kval lk x))"
    if x: "x \<in> T - tids ch" for x
  proof (cases "x \<in> ?U")
    case True
    then show ?thesis using inn[of x] lo hi x by blast
  next
    case False
    then show ?thesis using out[of x] x sub(1) by blast
  qed
  have "\<exists>r \<in> T. largestLeaf f = Some r \<and> kval lk r < be_val k \<and>
      (\<forall>x \<in> T - tids ch. kval lk x < be_val k \<longrightarrow> kval lk x \<le> kval lk r)" if f: "sib' = Some f" for f
  proof (cases "k ! l = 0")
    case True
    then obtain r where r: "r \<in> T" "largestLeaf f = Some r" "kval lk r < be_val k"
      "\<And>x. x \<in> T - ?U \<Longrightarrow> kval lk x < be_val k \<Longrightarrow> kval lk x \<le> kval lk r"
      using f sib' bk by (auto simp: back_ok_def)
    have "x \<in> T - ?U" if "x \<in> T - tids ch" "kval lk x < be_val k" for x
      using that inn[of x] hi(1)[of x] True by (fastforce simp: under_def)
    then show ?thesis using r by blast
  next
    case False
    then obtain b where b: "b \<le> k ! l - 1" "cmap c b = Some f" "\<And>j. b < j \<Longrightarrow> j \<le> k ! l - 1 \<Longrightarrow> cmap c j = None"
      using f sib' N_getLargestChild_ok[OF cok, of "k ! l - 1"] by (auto simp: greatest_upto_def)
    note dec = byte_pred[OF False]
    obtain r where r: "r \<in> tids f" "largestLeaf f = Some r" "\<forall>x \<in> tids f. kval lk x \<le> kval lk r"
      using largestLeaf_ok[OF children_okD[OF chs b(2)]] by auto
    have rl: "r \<in> under c (\<lambda>b. b < k ! l)" using r(1) b(1,2) dec by (auto simp: under_def)
    have "kval lk x \<le> kval lk r" if x: "x \<in> T - tids ch" "kval lk x < be_val k" for x
    proof (cases "x \<in> ?U")
      case False
      then show ?thesis using out[of x] x r(1) tids_below[OF b(2)] by (metis DiffD1 DiffI less_asym less_imp_le)
    next
      case True
      then have "x \<in> under c (\<lambda>b. b < k ! l)" using inn[of x] hi(1)[of x] x by auto
      then obtain b' f' where b': "b' < k ! l" "cmap c b' = Some f'" "x \<in> tids f'" by (auto simp: under_def)
      have "b' \<le> b" using b(3)[of b'] b' dec by (metis not_le option.distinct(1))
      then show ?thesis
        using r(3) b' b(2) child_order[OF children_okD[OF chs b'(2)] children_okD[OF chs b(2)] b'(3) r(1)]
        by (cases "b' = b") (auto simp: order.order_iff_strict)
    qed
    then show ?thesis using r(2) lo(1)[OF rl] rl sub(2) under_sub by blast
  qed
  then show ?thesis using sides sub by (auto simp: back_ok_def split: option.splits)
qed

lemma nearest_end:
  assumes ok: "art_ok lk K False pre t"
  shows "above (kval lk) (tids t) (be_val k) \<Longrightarrow> \<exists>x. smallestLeaf t = Some x \<and> nearest lk (tids t) k x"
    and "below (kval lk) (tids t) (be_val k) \<Longrightarrow> \<exists>x. largestLeaf t = Some x \<and> nearest lk (tids t) k x"
proof -
  obtain x where x: "x \<in> tids t" "smallestLeaf t = Some x" "\<forall>y \<in> tids t. kval lk x \<le> kval lk y" using smallestLeaf_ok[OF ok] by blast
  then show "\<exists>x. smallestLeaf t = Some x \<and> nearest lk (tids t) k x" if "above (kval lk) (tids t) (be_val k)"
    using that by (fastforce simp: nearest_def above_def)
  obtain y where y: "y \<in> tids t" "largestLeaf t = Some y" "\<forall>z \<in> tids t. kval lk z \<le> kval lk y" using largestLeaf_ok[OF ok] by blast
  then show "\<exists>x. largestLeaf t = Some x \<and> nearest lk (tids t) k x" if "below (kval lk) (tids t) (be_val k)"
    using that by (fastforce simp: nearest_def below_def)
qed

definition back_sibling :: "u8 list \<Rightarrow> art cont \<Rightarrow> nat \<Rightarrow> art option" where
  "back_sibling k parent pl = (if k ! pl \<noteq> 0 then N_getLargestChild (k ! pl - 1) parent else None)"

lemma smallerSibling_eq: "pl < length k \<Longrightarrow> smallerSibling k parent pl = Some (back_sibling k parent pl)"
  by (simp add: smallerSibling_def back_sibling_def key_at_def)

lemma back_or:
  assumes "back_ok lk T k U sib" "above (kval lk) U (be_val k)" "\<exists>x. f = Some x \<and> nearest lk U k x"
  shows "\<exists>x. (case sib of None \<Rightarrow> f | Some s \<Rightarrow> largestLeaf s) = Some x \<and> nearest lk T k x"
  using assms back_step back_nearest by (cases sib) fastforce+

lemma findStart1_ok:
  assumes "art_ok lk K r pre t" "length k = K" "take (length pre) k = pre" "tids t \<noteq> {}" "pl < K"
    "back_ok lk T k (tids t) (back_sibling k parent pl)"
  shows "\<exists>x. findStart1 lk k t parent (length pre) pl = Some (NextLeaf x) \<and> nearest lk T k x"
  using assms
proof (induction arbitrary: parent pl rule: art_ok.induct)
  case (leaf tid pre)
  have "nearest lk (tids (Leaf tid)) k tid" by (simp add: nearest_def)
  then show ?case using back_nearest[OF leaf.prems(5)] by (subst findStart1.simps) simp
next
  case (inner v c p q l pre isRoot)
  note ch = inner.hyps(7) and bk = inner.prems(5)
  have chs: "children_ok lk K pre q c" by (rule children_okI[OF ch])
  have ok: "art_ok lk K isRoot pre (Inner v l p c)" using inner.hyps by (rule art_ok.inner)
  have ne: "cmap c \<noteq> Map.empty" using inner.prems(3) by (auto simp: tids_Inner)
  have rq: "isRoot \<longrightarrow> q = []" using inner.hyps(6) by simp
  have sib: "smallerSibling k parent pl = Some (back_sibling k parent pl)"
    using smallerSibling_eq inner.prems(1,4) by simp
  from checkPrefixCompare_ok[OF ok inner.hyps(3,4) chs rq inner.prems(1) inner.hyps(5)] show ?case
  proof (elim disjE conjE exE)
    assume q: "take (length q) (drop (length pre) k) = q"
      and e: "checkPrefixCompare lk (Inner v l p c) l p k (length pre) = Some (PC_Equal, l)"
    have path: "take l k = pre @ q" using q inner.prems(2) inner.hyps(4) by (simp add: take_add)
    note kk = inner.prems(1) path inner.hyps(4,5)
    have lk: "l < length k" "key_at k l = Some (k ! l)" using inner.prems(1) inner.hyps(5) by (simp_all add: key_at_def)
    note gc = N_getChild_ok[OF inner.hyps(2)]
    show ?case
    proof (cases "cmap c (k ! l)")
      case (Some ch')
      define par where "par = (if k ! l \<noteq> 0 then c else parent)"
      define pl' where "pl' = (if k ! l \<noteq> 0 then l else pl)"
      have "back_sibling k par pl' = (if k ! l \<noteq> 0 then N_getLargestChild (k ! l - 1) c else back_sibling k parent pl)"
        by (simp add: par_def pl'_def back_sibling_def)
      from back_down[OF bk inner.hyps(2) chs kk Some this] have "back_ok lk T k (tids ch') (back_sibling k par pl')" .
      moreover have "tids ch' \<noteq> {}" "pl' < K" using art_ok_nonempty[OF ch[OF Some]] inner.prems(4) inner.hyps(5) by (auto simp: pl'_def)
      ultimately have "\<exists>x. findStart1 lk k ch' par (l + 1) pl' = Some (NextLeaf x) \<and> nearest lk T k x"
        using inner.IH[OF Some inner.prems(1) take_path(1)[OF kk]] unfolding take_path(2)[OF kk] by blast
      moreover have "findStart1 lk k (Inner v l p c) parent (length pre) pl = findStart1 lk k ch' par (l + 1) pl'"
        using e lk Some gc by (subst findStart1.simps) (simp add: Let_def par_def pl'_def)
      ultimately show ?thesis by simp
    next
      case None
      obtain x where x: "lookupNext_end k c l = Some x" "nearest lk (tids (Inner v l p c)) k x"
        using lookupNext_end_ok[OF inner.hyps(2) chs kk None ne] by blast
      show ?thesis
      proof (cases "N_getLargestChild (k ! l) c")
        case (Some child)
        then have "findStart1 lk k (Inner v l p c) parent (length pre) pl = Some (NextLeaf x)"
          using e lk None gc x(1) by (subst findStart1.simps) (simp add: Let_def lookupNext_end_def)
        then show ?thesis using back_nearest[OF bk x(2)] by blast
      next
        case no: None
        then have low: "cmap c j = None" if "j \<le> k ! l" for j
          using N_getLargestChild_ok[OF inner.hyps(2), of "k ! l"] that by (auto simp: greatest_upto_def)
        have "k ! l < b" if "cmap c b = Some ch'" for b ch' using low[of b] that by (cases "b \<le> k ! l") auto
        then have "tids (Inner v l p c) = under c (\<lambda>b. k ! l < b)" unfolding tids_under under_def by blast
        then have ab: "above (kval lk) (tids (Inner v l p c)) (be_val k)" using under_bound(2)[OF chs kk, of "\<lambda>b. k ! l < b"] by simp
        have "\<exists>x. Option.bind (N_getSmallestChild (k ! l) c) smallestLeaf = Some x \<and> nearest lk (tids (Inner v l p c)) k x"
          using x no lk by (auto simp: lookupNext_end_def)
        from back_or[OF bk ab this] show ?thesis using e lk None no gc sib
          by (subst findStart1.simps) (auto simp: Let_def split: option.splits)
      qed
    qed
  next
    fix m assume m: "m < length q" "take m (drop (length pre) k) = take m q" "q ! m \<noteq> k ! (length pre + m)"
      and e: "checkPrefixCompare lk (Inner v l p c) l p k (length pre) =
        Some (if q ! m < k ! (length pre + m) then PC_Smaller else PC_Bigger, length pre + m)"
    have ok': "art_ok lk K False pre (Inner v l p c)" using ok m(1) rq by auto
    have lt: "length pre + length q < K" using inner.hyps(4,5) by simp
    note off = off_path_order[OF chs inner.prems(1,2) m(2) lt m(1), where v = v and l = l and p = p]
    show ?case
    proof (cases "q ! m < k ! (length pre + m)")
      case True
      have "below (kval lk) (tids (Inner v l p c)) (be_val k)" by (simp add: below_def off(1)[OF _ True])
      from nearest_end(2)[OF ok' this] show ?thesis using e True back_nearest[OF bk] by (subst findStart1.simps) auto
    next
      case False
      then have gt: "k ! (length pre + m) < q ! m" using m(3) by simp
      have ab: "above (kval lk) (tids (Inner v l p c)) (be_val k)" by (simp add: above_def off(2)[OF _ gt])
      from back_or[OF bk ab nearest_end(1)[OF ok' ab]] show ?thesis using e False sib
        by (subst findStart1.simps) (auto split: option.splits)
    qed
  qed
qed

lemma Tree_lookupNext1_ok:
  assumes "root_ok lk K t" "length k = K" "tids t \<noteq> {}"
  shows "\<exists>x. Tree_lookupNext1 lk t k = Some (NextLeaf x) \<and> nearest lk (tids t) k x"
proof -
  obtain v l p c where t: "t = Inner v l p c" using root_not_leaf[OF assms(1)] by (cases t) auto
  have ok: "art_ok lk K True [] (Inner v l p c)" using assms(1) t by (simp add: root_ok_def)
  then have r: "cont_ok c" "l = 0" "0 < K" by (auto elim!: art_okE)
  from ok have chs: "children_ok lk K [] [] c" by (fastforce elim!: art_okE simp: children_ok_def)
  have "back_ok lk (tids t) k (tids t) (back_sibling k c 0)"
  proof (cases "back_sibling k c 0")
    case None
    then show ?thesis by (simp add: back_ok_def)
  next
    case (Some f)
    then obtain b where b: "b \<le> k ! 0 - 1" "cmap c b = Some f" and nz: "k ! 0 \<noteq> 0"
      using N_getLargestChild_ok[OF r(1), of "k ! 0 - 1"] by (auto simp: back_sibling_def greatest_upto_def split: if_splits)
    have "b < k ! 0" using b(1) byte_pred[OF nz] by simp
    moreover obtain r where r: "r \<in> tids f" "largestLeaf f = Some r" using largestLeaf_ok[OF children_okD[OF chs b(2)]] by auto
    ultimately have "kval lk r < be_val k"
      using on_path_order(1)[OF chs assms(2), of 0 b f r] b(2) \<open>0 < K\<close> by simp
    moreover have "r \<in> tids t" using r(1) tids_below[OF b(2)] t by simp
    ultimately show ?thesis using Some r(2) by (auto simp: back_ok_def)
  qed
  from findStart1_ok[OF assms(1)[unfolded root_ok_def] assms(2) _ assms(3) r(3) this] show ?thesis
    by (simp add: Tree_lookupNext1_def t)
qed

section \<open>The theorems\<close>

text \<open>A tree with two leaves and a tree whose two keys share three bytes.\<close>

definition two_tree :: art where
  "two_tree = the (pass_tree (Tree_insert Key_setInt one_tree (Key_setInt 700) 700))"

lemma two_tree_ok: "root_ok Key_setInt 8 two_tree" "tids two_tree = {3, 700}"
  using rowex.ins_ok[OF one_tree_ok(1), of 700] one_tree_ok(2) inj_Key_setInt[of 3 700]
  by (auto simp: two_tree_def ins_set_def)

definition short_key :: loadKey where
  "short_key tid = [1, 6, 6, ucast tid]"

definition short_tree :: art where
  "short_tree = the (pass_tree (Tree_insert short_key (the (pass_tree (Tree_insert short_key Tree_new (short_key 3) 3))) (short_key 7) 7))"

lemma short_tree_ok: "root_ok short_key 4 short_tree" "tids short_tree = {3, 7}"
  using rowex.ins_ok[of short_key 4 Tree_new 3] Tree_new_ok[of 4 short_key]
    rowex.ins_ok[of short_key 4 "the (pass_tree (Tree_insert short_key Tree_new (short_key 3) 3))" 7]
  by (auto simp: short_tree_def ins_set_def short_key_def)

text \<open>C19. \<open>Tree::lookupRange\<close> between two stored keys: with an array of any size \<open>n\<close> it returns the
  first \<open>n\<close> leaves with keys from the start key on and below the end key, in key order; it returns
  true exactly if there are more, and the key it then stores into \<open>continueKey\<close> starts a call that
  returns what follows. Leaf 0 is excluded: the code takes it for the end of the search.\<close>

theorem Tree_lookupRange_pages:
  assumes "root_ok lk K t" "0 \<notin> tids t" "a \<in> tids t" "b \<in> tids t" "be_val (lk a) < be_val (lk b)"
  shows "\<exists>xs. sorted_wrt (\<lambda>x y. be_val (lk x) < be_val (lk y)) xs \<and>
    set xs = {x \<in> tids t. be_val (lk a) \<le> be_val (lk x) \<and> be_val (lk x) < be_val (lk b)} \<and>
    (\<forall>n. Tree_lookupRange lk t (lk a) (lk b) n =
       Some (if length xs \<le> n then RangeDone False xs None else RangeDone True (take n xs) (Some (lk (xs ! n))))) \<and>
    (\<forall>n m. n < length xs \<longrightarrow> Tree_lookupRange lk t (lk (xs ! n)) (lk b) m =
       Some (if length xs \<le> n + m then RangeDone False (drop n xs) None
             else RangeDone True (take m (drop n xs)) (Some (lk (xs ! (n + m))))))"
proof -
  let ?R = "\<lambda>a. {x \<in> tids t. be_val (lk a) \<le> be_val (lk x) \<and> be_val (lk x) < be_val (lk b)}"
  obtain xs where xs: "lists_by (kval lk) (?R a) xs" using Tree_lookupRange_exact[OF assms(1-5)] by blast
  have page: "Tree_lookupRange lk t (lk c) (lk b) n = Some (range_page lk n ys)"
    if "c \<in> tids t" "kval lk c < kval lk b" "lists_by (kval lk) (?R c) ys" for c ys n
    using Tree_lookupRange_exact[OF assms(1,2) that(1) assms(4) that(2)] lists_by_unique[OF _ that(3)] by blast
  have "Tree_lookupRange lk t (lk (xs ! n)) (lk b) m = Some (range_page lk m (drop n xs))" if "n < length xs" for n m
  proof (rule page)
    have "xs ! n \<in> ?R a" using xs nth_mem[OF that] by (simp add: lists_by_def)
    then show "xs ! n \<in> tids t" "kval lk (xs ! n) < kval lk b" by auto
  qed (rule lists_by_drop[OF xs that])
  moreover have "range_page lk m (drop n xs) = (if length xs \<le> n + m then RangeDone False (drop n xs) None
      else RangeDone True (take m (drop n xs)) (Some (lk (xs ! (n + m)))))" if "n < length xs" for n m
    using that by (auto simp: range_page_def)
  ultimately have "\<forall>n m. n < length xs \<longrightarrow> Tree_lookupRange lk t (lk (xs ! n)) (lk b) m =
       Some (if length xs \<le> n + m then RangeDone False (drop n xs) None
             else RangeDone True (take m (drop n xs)) (Some (lk (xs ! (n + m)))))" by simp
  then show ?thesis using xs page[OF assms(3,5) xs]
    by (intro exI[of _ xs] conjI) (simp_all add: lists_by_def range_page_def)
qed

theorem Tree_lookupRange_pages_witness:
  "Tree_lookupRange Key_setInt two_tree (Key_setInt 3) (Key_setInt 700) 5 = Some (RangeDone False [3] None)"
proof -
  obtain xs where xs: "sorted_wrt (\<lambda>x y. be_val (Key_setInt x) < be_val (Key_setInt y)) xs"
    "set xs = {x \<in> tids two_tree. be_val (Key_setInt 3) \<le> be_val (Key_setInt x) \<and> be_val (Key_setInt x) < be_val (Key_setInt 700)}"
    "\<And>n. Tree_lookupRange Key_setInt two_tree (Key_setInt 3) (Key_setInt 700) n =
      Some (if length xs \<le> n then RangeDone False xs None else RangeDone True (take n xs) (Some (Key_setInt (xs ! n))))"
    using Tree_lookupRange_pages[OF two_tree_ok(1), of 3 700] by (auto simp: two_tree_ok(2) be_val_Key_setInt)
  have "set xs = {3}" unfolding xs(2) two_tree_ok(2) be_val_Key_setInt by auto
  then have "lists_by (kval Key_setInt) {3} xs" "lists_by (kval Key_setInt) {3} [3]" using xs(1) by (simp_all add: lists_by_def)
  then have "xs = [3]" by (rule lists_by_unique)
  then show ?thesis using xs(3)[of 5] by simp
qed

text \<open>\<open>Tree::lookupRange\<close> between any two keys that part at a byte where the tree branches (always
  so if they part in the first byte): it returns leaves in key order, all below the end key. A
  leaf below the start key can be among them, but only the last one before a start key that is
  not stored; a leaf of the range can be missing, but only the last one before an end key that is
  not stored.\<close>

theorem Tree_lookupRange_bounds:
  assumes "root_ok lk K t" "0 \<notin> tids t" "length start = K" "part_at d start stop"
    and "d = 0 \<or> (\<exists>x \<in> tids t. \<exists>y \<in> tids t. take d (lk x) = take d start \<and> take d (lk y) = take d start \<and> lk x ! d \<noteq> lk y ! d)"
  shows "\<exists>xs. sorted_wrt (\<lambda>x y. be_val (lk x) < be_val (lk y)) xs \<and> set xs \<subseteq> tids t \<and>
    (\<forall>x \<in> set xs. be_val (lk x) < be_val stop) \<and>
    (\<forall>x \<in> set xs. be_val (lk x) < be_val start \<longrightarrow> last_below (\<lambda>x. be_val (lk x)) (tids t) (be_val start) x) \<and>
    (\<forall>x \<in> tids t. be_val start \<le> be_val (lk x) \<longrightarrow> be_val (lk x) < be_val stop \<longrightarrow> x \<notin> set xs \<longrightarrow>
       last_below (\<lambda>x. be_val (lk x)) (tids t) (be_val stop) x) \<and>
    Tree_lookupRange lk t start stop n =
      Some (if length xs \<le> n then RangeDone False xs None else RangeDone True (take n xs) (Some (lk (xs ! n))))"
proof -
  have "d = 0 \<or> branches_at lk (tids t) d start" using assms(5) by (simp add: branches_at_def)
  from Tree_lookupRange_ok[OF assms(1,4,3,2) this, of n] obtain S xs
    where S: "in_range (kval lk) (tids t) (be_val start) (be_val stop) S" "lists_by (kval lk) S xs"
      "Tree_lookupRange lk t start stop n = Some (range_page lk n xs)" by blast
  have "set xs = S" "sorted_wrt (\<lambda>x y. be_val (lk x) < be_val (lk y)) xs" using S(2) by (simp_all add: lists_by_def)
  then show ?thesis using S(1,3) unfolding in_range_def range_page_def by (intro exI[of _ xs]) simp
qed

theorem Tree_lookupRange_bounds_witness:
  "\<exists>xs. 3 \<in> set xs \<and> set xs \<subseteq> {3, 7} \<and> Tree_lookupRange short_key short_tree [1, 6, 6, 2] [1, 6, 6, 9] 5 =
    Some (if length xs \<le> 5 then RangeDone False xs None else RangeDone True (take 5 xs) (Some (short_key (xs ! 5))))"
proof -
  have br: "\<exists>x \<in> tids short_tree. \<exists>y \<in> tids short_tree. take 3 (short_key x) = take 3 [1, 6, 6, 2] \<and>
      take 3 (short_key y) = take 3 [1, 6, 6, 2] \<and> short_key x ! 3 \<noteq> short_key y ! 3"
    unfolding short_tree_ok(2) by (intro bexI[of _ 3] bexI[of _ 7]) (simp_all add: short_key_def)
  have part: "part_at 3 [1, 6, 6, 2] [1, 6, 6, 9 :: u8]" by (simp add: part_at_def)
  have z: "0 \<notin> tids short_tree" by (simp add: short_tree_ok(2))
  have no: "\<not> last_below (\<lambda>x. be_val (short_key x)) (tids short_tree) (be_val [1, 6, 6, 9]) 3"
    by (simp add: short_tree_ok(2) short_key_def last_below_def)
  obtain xs where xs: "set xs \<subseteq> tids short_tree"
    "\<forall>x \<in> tids short_tree. be_val [1, 6, 6, 2] \<le> be_val (short_key x) \<longrightarrow> be_val (short_key x) < be_val [1, 6, 6, 9] \<longrightarrow>
       x \<notin> set xs \<longrightarrow> last_below (\<lambda>x. be_val (short_key x)) (tids short_tree) (be_val [1, 6, 6, 9]) x"
    "Tree_lookupRange short_key short_tree [1, 6, 6, 2] [1, 6, 6, 9] 5 =
      Some (if length xs \<le> 5 then RangeDone False xs None else RangeDone True (take 5 xs) (Some (short_key (xs ! 5))))"
    using Tree_lookupRange_bounds[OF short_tree_ok(1) z _ part, of 5] br by (auto simp del: take_Suc_Cons)
  moreover have "3 \<in> set xs" using xs(2)[rule_format, of 3] no by (auto simp: short_tree_ok(2) short_key_def)
  ultimately show ?thesis using short_tree_ok(2) by blast
qed

text \<open>\<open>Tree::lookupRange\<close> with the same stored key as both bounds takes the leaf at the end of the common
  path for a node and reads its prefix.\<close>

theorem Tree_lookupRange_same_key_faults:
  assumes "root_ok lk K t" "x \<in> tids t"
  shows "Tree_lookupRange lk t (lk x) (lk x) n = None"
  using lookupRange_loop_same[of lk K True "[]" t x n] assms startAfterEnd_same
  by (simp add: Tree_lookupRange_def root_ok_def)

theorem Tree_lookupRange_same_key_faults_witness:
  "Tree_lookupRange Key_setInt two_tree (Key_setInt 700) (Key_setInt 700) 5 = None"
  using Tree_lookupRange_same_key_faults[OF two_tree_ok(1), of 700 5] by (simp add: two_tree_ok(2))

text \<open>C20. \<open>Tree::checkPrefixEquals\<close> goes on comparing with both bounds after they have parted: two stored
  keys \<open>a b c ...\<close> lie between the bounds \<open>a b s ...\<close> and \<open>a e f ...\<close> with \<open>s < c\<close> and \<open>b < e\<close>, but if \<open>f < c\<close>
  then \<open>Tree::lookupRange\<close> finds nothing.\<close>

theorem Tree_lookupRange_misses_range:
  assumes "root_ok lk K t" "x \<in> tids t" "y \<in> tids t" "x \<noteq> y" "\<forall>z \<in> tids t. take 3 (lk z) = [a, b, c]"
    "length start = K" "length stop = K" "take 3 start = [a, b, s]" "take 3 stop = [a, e, f]" "s < c" "b < e" "f < c"
  shows "Tree_lookupRange lk t start stop n = Some (RangeDone False [] None) \<and>
    (\<forall>z \<in> tids t. be_val start < be_val (lk z) \<and> be_val (lk z) < be_val stop)"
proof
  show "Tree_lookupRange lk t start stop n = Some (RangeDone False [] None)"
    using range_prefix_mismatch[OF assms(1-4) _ assms(6-9,11,12)] assms(5) by blast
  show "\<forall>z \<in> tids t. be_val start < be_val (lk z) \<and> be_val (lk z) < be_val stop"
  proof
    fix z assume z: "z \<in> tids t"
    have split: "k = [u, v] @ w # drop 3 k" "k = [u] @ v # (w # drop 3 k)" if "take 3 k = [u, v, w]" for k :: "u8 list" and u v w
      using append_take_drop_id[of 3 k] that by simp_all
    have len: "length (lk z) = K" using art_ok_length[OF assms(1)[unfolded root_ok_def] z] .
    have lz: "take 3 (lk z) = [a, b, c]" using assms(5) z by blast
    have "be_val ([a, b] @ s # drop 3 start) < be_val ([a, b] @ c # drop 3 (lk z))"
      by (rule be_val_less) (use assms len in simp_all)
    moreover have "be_val ([a] @ b # (c # drop 3 (lk z))) < be_val ([a] @ e # (f # drop 3 stop))"
      by (rule be_val_less) (use assms len in simp_all)
    ultimately show "be_val start < be_val (lk z) \<and> be_val (lk z) < be_val stop"
      using split[OF lz] split[OF assms(8)] split[OF assms(9)] by metis
  qed
qed

theorem Tree_lookupRange_misses_range_witness:
  "Tree_lookupRange short_key short_tree [1, 6, 5, 0] [1, 7, 3, 0] 10 = Some (RangeDone False [] None) \<and>
    be_val [1, 6, 5, 0] < be_val (short_key 7) \<and> be_val (short_key 7) < be_val [1, 7, 3, 0]"
  using Tree_lookupRange_misses_range[OF short_tree_ok(1), of 3 7 1 6 6 "[1, 6, 5, 0]" "[1, 7, 3, 0]" 5 7 3 10]
  by (simp add: short_tree_ok(2) short_key_def)

text \<open>\<open>Tree::lookupNext1\<close>, which steps back to a smaller sibling before it takes a greater leaf, returns
  without a restart a stored leaf such that no stored key lies between its key and the given one.\<close>

theorem Tree_lookupNext1_correct:
  assumes "root_ok lk K t" "length k = K" "tids t \<noteq> {}"
  shows "\<exists>r. Tree_lookupNext1 lk t k = Some (NextLeaf r) \<and> r \<in> tids t \<and>
    (\<forall>x \<in> tids t. \<not> (be_val k \<le> be_val (lk x) \<and> be_val (lk x) < be_val (lk r)) \<and>
       \<not> (be_val (lk r) < be_val (lk x) \<and> be_val (lk x) \<le> be_val k))"
  using Tree_lookupNext1_ok[OF assms] unfolding nearest_def by blast

theorem Tree_lookupNext1_correct_witness: "Tree_lookupNext1 Key_setInt one_tree (Key_setInt 900) = Some (NextLeaf 3)"
  using Tree_lookupNext1_correct[OF one_tree_ok(1), of "Key_setInt 900"] one_tree_ok(2) by auto

end
