(* ===== verification/Convergence.thy ===== *)
theory Convergence
  imports ReplicationTheorems HydraList
begin

text \<open>
  The data list, the combiner, the workers and their search layers together. Operations on the list log
  what they change; the combiner merges the logs and a worker applies the merged logs some time later. The theory shows that
  a search layer and the entries that it has not seen yet always determine the anchors of the list, so that a search layer that
  has caught up leads to the nodes of the list and to no others. The merged logs are sorted by address, so
  this needs that no round merges two changes of the same anchor.
\<close>

section \<open>The search layer does not depend on memory it does not point to\<close>

lemma art_ok_cong:
  assumes "art_ok lk K r pre t" "\<And>x. x \<in> tids t \<Longrightarrow> lk' x = lk x"
  shows "art_ok lk' K r pre t"
  using assms
proof (induction rule: art_ok.induct)
  case (leaf tid pre)
  then show ?case by (intro art_ok.leaf) simp_all
next
  case (inner v c p q l pre isRoot)
  have "art_ok lk' K False (pre @ q @ [k]) ch" if "cmap c k = Some ch" for k ch
    using inner.IH[OF that] inner.prems tids_below[OF that, where v = v and l = l and p = p] by blast
  then show ?case using inner.hyps by (intro art_ok.inner) auto
qed

lemma sl_cong:
  assumes "\<And>x. x \<in> tids (idx sl) \<Longrightarrow> keyAt' x = keyAt x" "sl_inv keyAt sl"
  shows "sl_inv keyAt' sl" "sl_map keyAt' sl = sl_map keyAt sl"
proof -
  have "root_ok (SL_loadKey keyAt') 8 (idx sl)"
    using assms art_ok_cong[of "SL_loadKey keyAt" 8 True "[]" "idx sl" "SL_loadKey keyAt'"]
    by (simp add: sl_inv_def root_ok_def SL_loadKey_def)
  then show "sl_inv keyAt' sl" using assms by (simp add: sl_inv_def)
  then show "sl_map keyAt' sl = sl_map keyAt sl"
    using assms by (intro map_eqI) (auto simp: sl_map_Some)
qed

lemma log_ok_append: "log_ok keyAt h m (ps @ qs) \<longleftrightarrow> log_ok keyAt h m ps \<and> log_ok keyAt h (fold (replay \<circ> snd) ps m) qs"
  by (induction ps arbitrary: m) (auto simp: Let_def)

lemma log_ok_cong:
  assumes "\<And>p. p \<in> set ps \<Longrightarrow> keyAt' (word_of_nat (listNodePtr (snd p))) = keyAt (word_of_nat (listNodePtr (snd p)))"
  shows "log_ok keyAt' h m ps = log_ok keyAt h m ps"
  using assms by (induction ps arbitrary: m) (auto simp: Let_def)

section \<open>A search layer behind the list\<close>

text \<open>
  The anchors that the workers are told about: all but the one of the head, which \<open>initialize\<close> does not
  log.
\<close>

definition logged_anchors :: "Key_t cells \<Rightarrow> Key_t \<rightharpoonup> addr" where
  "logged_anchors L = (anchor_map L)(0 := None)"

definition behind_by :: "Key_t \<Rightarrow> hstate \<Rightarrow> ArtRowexIndex \<Rightarrow> Key_t OpPtr list \<Rightarrow> (Key_t \<rightharpoonup> addr) \<Rightarrow> bool" where
  "behind_by junk s sl pend A \<longleftrightarrow> (\<exists>m. sl_inv (nodeKeyAt junk s) sl \<and> sl_counted sl \<and>
     sl_map (nodeKeyAt junk s) sl = map_option word_of_nat \<circ> m \<and> log_ok (nodeKeyAt junk s) 0 m pend \<and>
     fold (replay \<circ> snd) pend m = A \<and> ran m \<subseteq> dom (nodes s) \<and> (\<forall>p \<in> set pend. listNodePtr (snd p) \<in> dom (nodes s)))"

text \<open>Addresses of nodes, the next \<open>f\<close> ones included, are user space addresses.\<close>

definition addrs_ok :: "nat \<Rightarrow> hstate \<Rightarrow> bool" where
  "addrs_ok f s \<longleftrightarrow> (\<forall>a \<in> dom (nodes s). a < 2 ^ 63) \<and> (\<forall>i < nallocs s + f. nmalloc s i < 2 ^ 63)"

lemma addrs_ok_kept:
  assumes "addrs_ok (Suc f) s" "kept s s'"
  shows "addrs_ok f s'"
proof -
  have "a < 2 ^ 63" if "a \<in> dom (nodes s')" for a
  proof -
    have "a = nmalloc s (nallocs s) \<or> a \<in> dom (nodes s)" using that assms(2) unfolding kept_def by blast
    then show ?thesis using assms(1) by (auto simp: addrs_ok_def)
  qed
  moreover have "nmalloc s' i < 2 ^ 63" if "i < nallocs s' + f" for i
    using that assms unfolding addrs_ok_def kept_def by (metis add_Suc_right add_Suc add_le_mono1 less_le_trans)
  ultimately show ?thesis by (simp add: addrs_ok_def)
qed

lemma unat_addr: "a < 2 ^ 63 \<Longrightarrow> unat (word_of_nat a :: u64) = a"
  by (simp add: unat_of_nat)

lemma nodeKeyAt_kept:
  assumes "kept s s'" "a \<in> dom (nodes s)" "a < 2 ^ 63"
  shows "nodeKeyAt junk s' (word_of_nat a) = nodeKeyAt junk s (word_of_nat a)"
proof -
  obtain n n' where "nodes s a = Some n" "nodes s' a = Some n'" "min_k n' = min_k n" using assms(1,2) unfolding kept_def by blast
  then show ?thesis by (simp add: nodeKeyAt_def unat_addr[OF assms(3)])
qed

lemma tids_anchors:
  assumes "sl_inv keyAt sl" "sl_map keyAt sl = map_option word_of_nat \<circ> m"
  shows "tids (idx sl) = word_of_nat ` ran m"
proof -
  have "x \<in> tids (idx sl) \<longleftrightarrow> (\<exists>k. sl_map keyAt sl k = Some x)" for x using sl_map_Some[OF assms(1)] by blast
  then show ?thesis unfolding assms(2) ran_def by (auto 0 3)
qed

text \<open>Changes of the list that keep its memory do not concern the search layer.\<close>

lemma behind_kept:
  assumes "behind_by junk s sl pend A" "kept s s'" "addrs_ok f s"
  shows "behind_by junk s' sl pend A"
proof -
  let ?K = "nodeKeyAt junk s" and ?K' = "nodeKeyAt junk s'"
  obtain m where m: "sl_inv ?K sl" "sl_counted sl" "sl_map ?K sl = map_option word_of_nat \<circ> m" "log_ok ?K 0 m pend"
    "fold (replay \<circ> snd) pend m = A" "ran m \<subseteq> dom (nodes s)" "\<forall>p \<in> set pend. listNodePtr (snd p) \<in> dom (nodes s)"
    using assms(1) by (auto simp: behind_by_def)
  have same: "?K' (word_of_nat a) = ?K (word_of_nat a)" if "a \<in> dom (nodes s)" for a
    using nodeKeyAt_kept[OF assms(2) that] assms(3) that by (simp add: addrs_ok_def)
  have dom: "dom (nodes s) \<subseteq> dom (nodes s')" using assms(2) unfolding kept_def by blast
  have "?K' x = ?K x" if "x \<in> tids (idx sl)" for x using that same m(6) unfolding tids_anchors[OF m(1,3)] by blast
  note c = sl_cong[OF this m(1)]
  have "log_ok ?K' 0 m pend" using log_ok_cong[of pend ?K' ?K] same m(4,7) by blast
  moreover have "ran m \<subseteq> dom (nodes s')" "\<forall>p \<in> set pend. listNodePtr (snd p) \<in> dom (nodes s')" using m(6,7) dom by blast+
  ultimately show ?thesis unfolding behind_by_def using c m(2,3,5) by (intro exI[of _ m]) simp
qed

text \<open>An operation on the list puts the search layer behind by what it logged.\<close>

lemma behind_log:
  assumes "behind_by junk s sl pend (logged_anchors L)" "addrs_ok f s" "log_step (nodes s) (anchor_map L) es"
    "anchor_map L' = fold (replay \<circ> snd) es (anchor_map L)"
  shows "behind_by junk s sl (pend @ es) (logged_anchors L')"
  using assms(3) unfolding log_step_def
proof (elim disjE exE conjE)
  assume "es = []"
  then show ?thesis using assms(1,4) by (simp add: logged_anchors_def)
next
  fix p e nd assume e: "es = [(p, e)]" "hash e = 0" "key e \<noteq> 0" "nodes s (listNodePtr e) = Some nd" "min_k nd = key e"
    "anchor_map L (key e) = (case op e of OpInsert \<Rightarrow> None | OpRemove \<Rightarrow> Some (listNodePtr e))"
  have lt: "listNodePtr e < 2 ^ 63" using e(4) assms(2) unfolding addrs_ok_def by blast
  have "logged_anchors L' = replay e (logged_anchors L)"
    using assms(4) e(1,3) by (auto simp: logged_anchors_def replay_def fun_eq_iff split: Operation.splits)
  moreover have "log_ok (nodeKeyAt junk s) 0 (logged_anchors L) es"
    using e lt by (simp add: nodeKeyAt_def unat_addr logged_anchors_def)
  ultimately show ?thesis using assms(1) e(1,4) unfolding behind_by_def by (auto simp: log_ok_append)
qed

text \<open>A worker catches up by any part of the log.\<close>

lemma behind_apply:
  assumes "behind_by junk s sl (ps @ qs) A"
  shows "\<exists>sl' x. apply_ops (nodeKeyAt junk s) i 0 c ps (sl, fq, cnt, ret) = Some (sl', x) \<and> behind_by junk s sl' qs A"
proof -
  let ?K = "nodeKeyAt junk s"
  obtain m where m: "sl_inv ?K sl" "sl_counted sl" "sl_map ?K sl = map_option word_of_nat \<circ> m" "log_ok ?K 0 m (ps @ qs)"
    "fold (replay \<circ> snd) (ps @ qs) m = A" "ran m \<subseteq> dom (nodes s)" "\<forall>p \<in> set (ps @ qs). listNodePtr (snd p) \<in> dom (nodes s)"
    using assms by (auto simp: behind_by_def)
  have l: "log_ok ?K 0 m ps" "log_ok ?K 0 (fold (replay \<circ> snd) ps m) qs" using m(4) by (simp_all add: log_ok_append)
  obtain sl' x where sl': "apply_ops ?K i 0 c ps (sl, fq, cnt, ret) = Some (sl', x)" "sl_inv ?K sl'" "sl_counted sl'"
    "sl_map ?K sl' = map_option word_of_nat \<circ> fold (replay \<circ> snd) ps m"
    using apply_ops_ok[OF m(1-3) l(1)] by blast
  have "ran (fold (replay \<circ> snd) ps m) \<subseteq> ran m \<union> (listNodePtr \<circ> snd) ` set ps"
    by (induction ps arbitrary: m) (force simp: replay_def ran_def split: Operation.splits if_splits)+
  then show ?thesis using sl' l(2) m by (intro exI[of _ sl'] exI[of _ x]) (fastforce simp: behind_by_def)
qed

lemma behind_new: "behind_by junk s SL_new [] Map.empty"
  using SL_new_ok[of "nodeKeyAt junk s"] by (auto simp: behind_by_def intro!: exI[of _ Map.empty])

section \<open>Changes of different anchors may be reordered\<close>

text \<open>
  The combiner sorts the entries of a round by their addresses. That does no harm as long as the round
  has at most one change of each anchor.
\<close>

lemma replay_other: "k \<noteq> key e \<Longrightarrow> replay e m k = m k"
  by (simp add: replay_def split: Operation.splits)

lemma log_ok_distinct:
  assumes "distinct (map (key \<circ> snd) ps)"
  shows "log_ok keyAt h m ps \<longleftrightarrow> (\<forall>p \<in> set ps. hash (snd p) = h \<and> listNodePtr (snd p) < 2 ^ 63 \<and>
    keyAt (word_of_nat (listNodePtr (snd p))) = key (snd p) \<and>
    m (key (snd p)) = (case op (snd p) of OpInsert \<Rightarrow> None | OpRemove \<Rightarrow> Some (listNodePtr (snd p))))"
  using assms
proof (induction ps arbitrary: m)
  case (Cons p ps)
  have "replay (snd p) m (key (snd p')) = m (key (snd p'))" if "p' \<in> set ps" for p'
  proof (rule replay_other)
    have "key (snd p) \<notin> (\<lambda>x. key (snd x)) ` set ps" using Cons.prems by (simp add: comp_def)
    then show "key (snd p') \<noteq> key (snd p)" using rev_image_eqI[OF that, of "key (snd p)" "\<lambda>x. key (snd x)"] by metis
  qed
  then show ?case using Cons by (auto simp: Let_def)
qed simp

lemma replay_distinct:
  assumes "distinct (map (key \<circ> snd) ps)" "mset ps' = mset ps"
  shows "fold (replay \<circ> snd) ps' = fold (replay \<circ> snd) ps"
proof (rule fold_multiset_equiv[OF _ assms(2)])
  fix x y assume "x \<in> set ps'" "y \<in> set ps'"
  then have "x = y \<or> key (snd x) \<noteq> key (snd y)"
    using assms mset_eq_setD[OF assms(2)] by (auto simp: distinct_map inj_on_def)
  then show "(replay \<circ> snd) x \<circ> (replay \<circ> snd) y = (replay \<circ> snd) y \<circ> (replay \<circ> snd) x"
    by (auto simp: replay_def fun_eq_iff split: Operation.splits)
qed

lemma behind_perm:
  assumes "behind_by junk s sl (qs @ ps) A" "distinct (map (key \<circ> snd) ps)" "mset ps' = mset ps"
  shows "behind_by junk s sl (qs @ ps') A"
proof -
  have d: "distinct (map (key \<circ> snd) ps')"
    using assms(2,3) by (metis mset_map mset_eq_imp_distinct_iff)
  have "log_ok keyAt 0 m ps' = log_ok keyAt 0 m ps" for keyAt m
    unfolding log_ok_distinct[OF d] log_ok_distinct[OF assms(2)] mset_eq_setD[OF assms(3)] ..
  then show ?thesis
    using assms(1) unfolding behind_by_def by (simp add: log_ok_append replay_distinct[OF assms(2,3)] mset_eq_setD[OF assms(3)])
qed

lemma behind_nodes:
  assumes "nodes s' = nodes s"
  shows "behind_by junk s' sl pend A = behind_by junk s sl pend A"
  using assms by (simp add: behind_by_def nodeKeyAt_def[abs_def])

section \<open>The list, the combiner and the workers, interleaved\<close>

text \<open>
  User threads change the list and log what they changed; the combiner merges the logs, hands the merged
  log to one worker after the other and frees merged logs; each worker applies the log at the front of its
  queue to the search layer of its NUMA node. A user thread may start at any node that is not
  deleted and not the tail. Memory of removed list nodes is not released while the index is in use.
\<close>

inductive cstep :: "(nat, 'q) spsc_ops \<Rightarrow> Key_t \<Rightarrow> combiner_pc \<times> 'q system \<Rightarrow> combiner_pc \<times> 'q system \<Rightarrow> bool" for Q junk where
  Insert: "nodes (heap s) a = Some n \<Longrightarrow> \<not> deleted n \<Longrightarrow> next_p n \<noteq> None \<Longrightarrow> k \<noteq> ULLONG_MAX \<Longrightarrow>
    LinkedList_insert getKeyFingerPrint t k v (Some a) (heap s) = Some (Inr (r, h')) \<Longrightarrow> cstep Q junk (c, s) (c, s\<lparr>heap := h'\<rparr>)"
| Update: "nodes (heap s) a = Some n \<Longrightarrow> \<not> deleted n \<Longrightarrow> next_p n \<noteq> None \<Longrightarrow> k \<noteq> ULLONG_MAX \<Longrightarrow>
    LinkedList_update getKeyFingerPrint k v (Some a) (heap s) = Some (Inr (r, h')) \<Longrightarrow> cstep Q junk (c, s) (c, s\<lparr>heap := h'\<rparr>)"
| Remove: "nodes (heap s) a = Some n \<Longrightarrow> \<not> deleted n \<Longrightarrow> next_p n \<noteq> None \<Longrightarrow> k \<noteq> ULLONG_MAX \<Longrightarrow>
    LinkedList_remove getKeyFingerPrint t k (Some a) (heap s) = Some (Inr (r, h')) \<Longrightarrow> cstep Q junk (c, s) (c, s\<lparr>heap := h'\<rparr>)"
| Combine: "distinct threads \<Longrightarrow> set threads = dom (oplogs (heap s)) \<Longrightarrow> combineLogs threads s = (r, s') \<Longrightarrow>
    cstep Q junk (Between, s) (case r of None \<Rightarrow> Between | Some l \<Rightarrow> Broadcasting l 0, s')"
| Push: "i < length (workers s) \<Longrightarrow> cstep Q junk (Broadcasting l i, s) (Broadcasting l (Suc i), pushLog Q l i s)"
| Pushed: "cstep Q junk (Broadcasting l (length (workers s)), s) (Between, s)"
| Free: "cstep Q junk (Between, s) (Between, snd (freeMergedLogs force s))"
| Apply: "i < length (workers s) \<Longrightarrow> n = workerThreadId (workers s ! i) mod activeNuma (workers s ! i) \<Longrightarrow> n < length (sls s) \<Longrightarrow>
    \<not> isWorkQueueEmpty Q (workers s ! i) \<Longrightarrow>
    applyOperation Q (nodeKeyAt junk (heap s)) (mlogs s) (workers s ! i) (sls s ! n) = Some (ret, w', sl') \<Longrightarrow>
    cstep Q junk (c, s) (c, s\<lparr>workers := (workers s)[i := w'], sls := (sls s)[n := sl']\<rparr>)"

text \<open>The entries in the queues that user threads are filling; the next round of the combiner merges them.\<close>

definition filled :: "hstate \<Rightarrow> Key_t OpPtr multiset" where
  "filled h = (\<Sum>t \<in> dom (oplogs h). mset (getQ (fillQ h) (getOpLog t h)))"

text \<open>No two of them change the same anchor.\<close>

definition calm :: "hstate \<Rightarrow> bool" where
  "calm h \<longleftrightarrow> (\<forall>k. Multiset.count (image_mset (key \<circ> snd) (filled h)) k \<le> 1)"

text \<open>The entries of the merged logs that a worker has not applied yet, in the order of the logs.\<close>

definition owed :: "'q system \<Rightarrow> 'q WorkerThread \<Rightarrow> Key_t OpPtr list" where
  "owed s w = concat (map (\<lambda>l. the (mlogs s l)) [unat (logDoneCount w)..<mlogAllocs s])"

text \<open>A search layer that maps the smallest key of every node but the head to the node, and nothing else.\<close>

definition leads_exactly :: "Key_t \<Rightarrow> hstate \<Rightarrow> Key_t cells \<Rightarrow> ArtRowexIndex \<Rightarrow> bool" where
  "leads_exactly junk h L sl \<longleftrightarrow> sl_inv (nodeKeyAt junk h) sl \<and> sl_counted sl \<and>
     sl_map (nodeKeyAt junk h) sl = map_option word_of_nat \<circ> (anchor_map L)(0 := None) \<and>
     ran (sl_map (nodeKeyAt junk h) sl) \<subseteq> word_of_nat ` fst ` set L"

section \<open>The queues that are being filled\<close>

text \<open>Where the logs stand between two rounds: the queues that are not being filled are empty.\<close>

definition queues_ok :: "hstate \<Rightarrow> Key_t OpPtr list \<Rightarrow> bool" where
  "queues_ok h pend \<longleftrightarrow> finite (dom (oplogs h)) \<and> mset pend = filled h \<and> (\<forall>t. getQ (1 - fillQ h) (getOpLog t h) = [])"

lemma calm_distinct: "calm h \<Longrightarrow> mset pend = filled h \<Longrightarrow> distinct (map (key \<circ> snd) pend)"
proof -
  assume "calm h" "mset pend = filled h"
  then have "Multiset.count (mset (map (key \<circ> snd) pend)) k \<le> 1" for k by (simp add: calm_def)
  then have "Multiset.count (mset (map (key \<circ> snd) pend)) k = (if k \<in> set (map (key \<circ> snd) pend) then 1 else 0)" for k
    by (metis One_nat_def Suc_leI count_mset_0_iff le_antisym not_gr_zero)
  then show "distinct (map (key \<circ> snd) pend)" unfolding distinct_count_atmost_1 by blast
qed

lemma no_log: "t \<notin> dom (oplogs h) \<Longrightarrow> getQ q (getOpLog t h) = []"
  by (auto simp: getOpLog_def domIff getQ_def Oplog_new_def)

lemma filled_over:
  assumes "finite A" "dom (oplogs h) \<subseteq> A"
  shows "filled h = (\<Sum>t \<in> A. mset (getQ (fillQ h) (getOpLog t h)))"
  unfolding filled_def
proof (rule sum.mono_neutral_left[OF assms])
  show "\<forall>t \<in> A - dom (oplogs h). mset (getQ (fillQ h) (getOpLog t h)) = {#}" using no_log[of _ h] by (metis DiffD2 mset_zero_iff)
qed

lemma filled_threads:
  assumes "distinct threads" "set threads = dom (oplogs h)"
  shows "mset (concat (map (\<lambda>t. getQ (fillQ h) (getOpLog t h)) threads)) = filled h"
  unfolding filled_def assms(2)[symmetric] using assms(1) by (induction threads) auto

lemma queues_append:
  assumes "queues_ok h pend" "appended t es h h'"
  shows "queues_ok h' (pend @ es)"
proof -
  let ?A = "insert t (dom (oplogs h))"
  have q: "fillQ h' = fillQ h" and o: "\<And>t'. t' \<noteq> t \<Longrightarrow> getOpLog t' h' = getOpLog t' h"
    and g: "getQ (fillQ h) (getOpLog t h') = getQ (fillQ h) (getOpLog t h) @ es"
    and g': "getQ (1 - fillQ h) (getOpLog t h') = getQ (1 - fillQ h) (getOpLog t h)"
    using assms(2) by (auto simp: appended_def fillQ_def getOpLog_def Let_def)
  have fin: "finite ?A" using assms(1) by (simp add: queues_ok_def)
  have sub: "dom (oplogs h') \<subseteq> ?A" using assms(2) by (auto simp: appended_def domIff)
  have "filled h' = mset (getQ (fillQ h) (getOpLog t h) @ es) + (\<Sum>t' \<in> ?A - {t}. mset (getQ (fillQ h) (getOpLog t' h)))"
    unfolding filled_over[OF fin sub] q g[symmetric] using fin by (subst sum.remove[of _ t]) (auto simp: o intro!: sum.cong)
  also have "\<dots> = filled h + mset es"
    using fin by (subst filled_over[OF fin, of h], blast) (subst (2) sum.remove[of _ t], auto)
  finally show ?thesis
    using assms(1) finite_subset[OF sub fin] g' o q by (auto simp: queues_ok_def) (metis o)
qed

lemma drain_rest: "nodes (snd (fold (drainLog q) threads st)) = nodes (snd st) \<and> nmalloc (snd (fold (drainLog q) threads st)) = nmalloc (snd st) \<and>
    raw (snd (fold (drainLog q) threads st)) = raw (snd st) \<and> nallocs (snd (fold (drainLog q) threads st)) = nallocs (snd st) \<and>
    dom (oplogs (snd (fold (drainLog q) threads st))) = dom (oplogs (snd st)) \<union> set threads"
  by (induction threads arbitrary: st) (auto simp: drainLog_def Let_def split_beta)

lemma combineLogs_rest:
  assumes "combineLogs threads s = (r, s')"
  shows "nodes (heap s') = nodes (heap s)" "nmalloc (heap s') = nmalloc (heap s)" "raw (heap s') = raw (heap s)"
    "nallocs (heap s') = nallocs (heap s)" "dom (oplogs (heap s')) = dom (oplogs (heap s)) \<union> set threads"
    "sls s' = sls s" "workers s' = workers s" "mlogAllocs s' = (if r = None then mlogAllocs s else Suc (mlogAllocs s))"
proof -
  let ?h = "(heap s)\<lparr>curQ := curQ (heap s) + 1\<rparr>"
  obtain m h' where f: "fold (drainLog (fillQ (heap s))) threads ([], ?h) = (m, h')" by fastforce
  have "heap s' = h'" and rest: "sls s' = sls s" "workers s' = workers s" "mlogAllocs s' = (if r = None then mlogAllocs s else Suc (mlogAllocs s))"
    using assms f by (auto simp: combineLogs_def Let_def fillQ_def split: if_splits)
  then show "nodes (heap s') = nodes (heap s)" "nmalloc (heap s') = nmalloc (heap s)" "raw (heap s') = raw (heap s)"
    "nallocs (heap s') = nallocs (heap s)" "dom (oplogs (heap s')) = dom (oplogs (heap s)) \<union> set threads"
    using drain_rest[of "fillQ (heap s)" threads "([], ?h)"] f by simp_all
  show "sls s' = sls s" "workers s' = workers s" "mlogAllocs s' = (if r = None then mlogAllocs s else Suc (mlogAllocs s))" by fact+
qed

text \<open>A round of the combiner leaves empty queues.\<close>

lemma queues_combine:
  assumes "queues_ok (heap s) pend" "distinct threads" "set threads = dom (oplogs (heap s))" "combineLogs threads s = (r, s')"
  shows "queues_ok (heap s') []"
    "case r of None \<Rightarrow> pend = [] \<and> mlogs s' = mlogs s | Some l \<Rightarrow> \<exists>log. mlogs s' = (mlogs s)(l \<mapsto> log) \<and> mset log = mset pend"
proof -
  note c = combineLogs_ok[OF assms(2,4)] and m = filled_threads[OF assms(2,3)]
  have q: "fillQ (heap s') = 1 - fillQ (heap s)" using c by (intro fillQ_flip) blast
  have b: "fillQ (heap s) < 2" unfolding fillQ_def using unat_mod[of "curQ (heap s)" 2] by simp
  have e: "getQ (fillQ (heap s)) (getOpLog t (heap s')) = []" for t
    using c no_log[of t "heap s"] assms(3) by (cases "t \<in> set threads") auto
  have e': "getQ (1 - fillQ (heap s)) (getOpLog t (heap s')) = []" for t
    using c assms(1) by (simp add: queues_ok_def)
  have "filled (heap s') = {#}" unfolding filled_def q e' by simp
  then show "queues_ok (heap s') []"
    using assms(1) combineLogs_rest(5)[OF assms(4)] e b by (auto simp: queues_ok_def q assms(3))
  show "case r of None \<Rightarrow> pend = [] \<and> mlogs s' = mlogs s | Some l \<Rightarrow> \<exists>log. mlogs s' = (mlogs s)(l \<mapsto> log) \<and> mset log = mset pend"
    using c m assms(1) by (auto simp: queues_ok_def split: option.splits)
qed

section \<open>The search layers and what they owe\<close>

text \<open>
  The invariant of all threads: \<open>pend\<close> is some order of the entries in the queues, and what a worker owes and
  \<open>pend\<close> turn its search layer into the anchors of the list, unless a push to its queue was refused.
\<close>

definition in_step :: "('q \<Rightarrow> nat list) \<Rightarrow> nat \<Rightarrow> combiner_pc \<times> 'q system \<Rightarrow> bool" where
  "in_step items j cs \<longleftrightarrow> (let w = workers (snd cs) ! j in
     unat (logDoneCount w) + length (items (workQueue w)) = lim (fst cs) (mlogAllocs (snd cs)) j)"

definition list_at :: "nat \<Rightarrow> Key_t cells \<Rightarrow> addr \<Rightarrow> Key_t OpPtr list \<Rightarrow> hstate \<Rightarrow> bool" where
  "list_at f L q pend h \<longleftrightarrow> dl_inv f L q h \<and> strays_deleted L q h \<and> addrs_ok f h \<and> queues_ok h pend"

definition conv_inv :: "('q \<Rightarrow> nat list) \<Rightarrow> Key_t \<Rightarrow> nat \<Rightarrow> nat \<Rightarrow> Key_t cells \<Rightarrow> addr \<Rightarrow> Key_t OpPtr list \<Rightarrow> combiner_pc \<times> 'q system \<Rightarrow> bool" where
  "conv_inv items junk numa f L q pend cs \<longleftrightarrow> (case cs of (c, s) \<Rightarrow> list_at f L q pend (heap s) \<and> repl_inv items (c, s) \<and>
     length (workers s) = numa \<and> length (sls s) = numa \<and>
     (\<forall>j < numa. workerThreadId (workers s ! j) = j \<and> activeNuma (workers s ! j) = numa) \<and>
     (\<forall>j < numa. in_step items j (c, s) \<longrightarrow>
        behind_by junk (heap s) (sls s ! j) (owed s (workers s ! j) @ pend) (logged_anchors L)))"

lemma not_deleted_live:
  assumes "dl_inv f L q s" "strays_deleted L q s" "nodes s a = Some n" "\<not> deleted n" "next_p n \<noteq> None"
  shows "a \<in> fst ` set L"
  using assms unfolding strays_deleted_def dl_inv_def tail_ok_def by force

lemma dl_inv_mono: "dl_inv (Suc f) L q s \<Longrightarrow> dl_inv f L q s"
  by (simp add: dl_inv_def cells_ok_mono)

lemma list_at_mono: "list_at (Suc f) L q pend h \<Longrightarrow> list_at f L q pend h"
  by (auto simp: list_at_def addrs_ok_def intro: dl_inv_mono)

lemma conv_mono: "conv_inv items junk numa (Suc f) L q pend cs \<Longrightarrow> conv_inv items junk numa f L q pend cs"
  by (auto simp: conv_inv_def intro: list_at_mono split: prod.splits)

lemma list_at_rest:
  assumes "list_at f L q pend h" "queues_ok h' pend'" "nodes h' = nodes h" "nmalloc h' = nmalloc h" "raw h' = raw h" "nallocs h' = nallocs h"
  shows "list_at f L q pend' h'"
  using assms by (simp add: list_at_def dl_inv_def alloc_ok_def strays_deleted_def addrs_ok_def)

text \<open>An operation of a user thread.\<close>

lemma conv_wrote:
  assumes "conv_inv items junk numa (Suc f) L q pend (c, s)" "wrote f t L q (heap s) m L' h'"
  shows "\<exists>es. conv_inv items junk numa f L' q (pend @ es) (c, s\<lparr>heap := h'\<rparr>) \<and> appended t es (heap s) h' \<and> length es \<le> 1"
proof -
  have inv: "dl_inv (Suc f) L q (heap s)" "strays_deleted L q (heap s)" "addrs_ok (Suc f) (heap s)" "queues_ok (heap s) pend"
    using assms(1) by (simp_all add: conv_inv_def list_at_def)
  obtain es where w: "dl_inv f L' q h'" "kept (heap s) h'" "strays_deleted L' q h'" "appended t es (heap s) h'"
    "log_step (nodes h') (anchor_map L) es" "anchor_map L' = fold (replay \<circ> snd) es (anchor_map L)"
    using assms(2) inv(2) unfolding wrote_def by blast
  have ad: "addrs_ok f h'" by (rule addrs_ok_kept[OF inv(3) w(2)])
  have "list_at f L' q (pend @ es) h'" using w(1,3) ad queues_append[OF inv(4) w(4)] by (simp add: list_at_def)
  moreover have "behind_by junk h' sl (ow @ pend @ es) (logged_anchors L')"
    if "behind_by junk (heap s) sl (ow @ pend) (logged_anchors L)" for sl ow
    using behind_log[OF behind_kept[OF that w(2) inv(3)] ad w(5,6)] by simp
  moreover have "repl_inv items (c, s\<lparr>heap := h'\<rparr>)" using assms(1) by (auto simp: conv_inv_def intro: repl_inv_cong)
  moreover have "owed (s\<lparr>heap := h'\<rparr>) w = owed s w" "in_step items j (c, s\<lparr>heap := h'\<rparr>) = in_step items j (c, s)" for w j
    by (simp_all add: owed_def in_step_def)
  moreover have "length es \<le> 1" using w(5) by (auto simp: log_step_def)
  ultimately show ?thesis using assms(1) w(4) by (intro exI[of _ es]) (simp add: conv_inv_def)
qed

lemma owed_cong:
  assumes "logDoneCount w' = logDoneCount w" "mlogAllocs s' = mlogAllocs s"
    "\<And>l. unat (logDoneCount w) \<le> l \<Longrightarrow> l < mlogAllocs s \<Longrightarrow> mlogs s' l = mlogs s l"
  shows "owed s' w' = owed s w"
  unfolding owed_def assms(1,2) by (rule arg_cong[where f = concat], rule map_cong) (auto simp: assms(3))

lemma freeLogs_sub: "snd (freeLogs_loop m q ml) \<subseteq>\<^sub>m ml"
proof (induction q arbitrary: ml)
  case (Cons x q)
  obtain c l where x: "x = (c, l)" by fastforce
  show ?case using map_le_trans[OF Cons.IH[of "ml(l := None)"] upd_None_map_le] unfolding x
    by (cases "c < m") (simp_all only: freeLogs_loop.simps if_True if_False snd_conv map_le_refl)
qed simp

lemma freeMergedLogs_rest:
  "heap (snd (freeMergedLogs force s)) = heap s" "workers (snd (freeMergedLogs force s)) = workers s"
  "sls (snd (freeMergedLogs force s)) = sls s" "mlogAllocs (snd (freeMergedLogs force s)) = mlogAllocs s"
  "mlogs (snd (freeMergedLogs force s)) \<subseteq>\<^sub>m mlogs s"
  using freeLogs_sub[of "minDoneCount (workers s)" "logQueue s" "mlogs s"]
  by (auto simp: freeMergedLogs_def Let_def split: prod.splits)

text \<open>The logs that a worker owes are alive.\<close>

lemma owed_alive:
  assumes "repl_inv items (c, s)" "j < length (workers s)" "unat (logDoneCount (workers s ! j)) \<le> l" "l < mlogAllocs s"
  shows "l \<in> dom (mlogs s)"
  using assms by (fastforce simp: repl_inv_def logs_ok_def worker_ok_def)

lemma full_upt:
  assumes "sorted_wrt (<) xs" "set xs \<subseteq> {a..<b}" "a + length xs = b"
  shows "xs = [a..<b :: nat]"
proof -
  have "card (set xs) = card {a..<b}" using assms by (simp add: distinct_card strict_sorted_iff)
  then have "set xs = {a..<b}" using assms(2) by (intro card_subset_eq) auto
  then show ?thesis using assms(1) by (metis sorted_list_of_set_range sorted_list_of_set_unique finite_atLeastLessThan strict_sorted_iff distinct_card)
qed

context log_queue
begin

lemma in_step_items:
  assumes "repl_inv items (c, s)" "j < length (workers s)" "in_step items j (c, s)"
  shows "items (workQueue (workers s ! j)) = [unat (logDoneCount (workers s ! j))..<lim c (mlogAllocs s) j]"
  using assms by (intro full_upt) (auto simp: repl_inv_def worker_ok_def in_step_def Let_def)

lemma in_step_before:
  assumes "rstep Q keyAt (c, s) (c', s')" "repl_inv items (c, s)" "mlogAllocs s < 2 ^ 64" "j < length (workers s)" "in_step items j (c', s')"
  shows "in_step items j (c, s)"
proof (rule ccontr)
  assume n: "\<not> in_step items j (c, s)"
  have "unat (logDoneCount (workers s ! j)) + length (items (workQueue (workers s ! j))) \<le> lim c (mlogAllocs s) j"
    using assms(2,4) by (auto simp: repl_inv_def worker_ok_def)
  then have "behind j (c, s)" using n assms(4) by (simp add: behind_def in_step_def Let_def)
  then have "behind j (c', s')" using behind_step[OF assms(1,2)] assms(3) by simp
  then show False using assms(5) by (simp add: behind_def in_step_def Let_def)
qed

text \<open>A step of the combiner or of a worker.\<close>

lemma conv_rstep:
  assumes inv: "conv_inv items junk numa f L q pend (c, s)" and r: "rstep Q keyAt (c, s) (c', s')" "mlogAllocs s < 2 ^ 64"
    and h: "list_at f L q pend' (heap s')" and n: "length (sls s') = length (sls s)"
    and ids: "\<And>j. j < numa \<Longrightarrow> workerThreadId (workers s' ! j) = workerThreadId (workers s ! j) \<and>
      activeNuma (workers s' ! j) = activeNuma (workers s ! j)"
    and b: "\<And>j. j < numa \<Longrightarrow> in_step items j (c, s) \<Longrightarrow>
      behind_by junk (heap s) (sls s ! j) (owed s (workers s ! j) @ pend) (logged_anchors L) \<Longrightarrow>
      behind_by junk (heap s') (sls s' ! j) (owed s' (workers s' ! j) @ pend') (logged_anchors L)"
  shows "conv_inv items junk numa f L q pend' (c', s')"
proof -
  have ri: "repl_inv items (c, s)" using inv by (simp add: conv_inv_def)
  have "repl_inv items (c', s')" using inv_step[OF r(1) ri] r(2) by simp
  moreover have "length (workers s') = numa" using allocs_mono[OF r(1)] inv by (simp add: conv_inv_def)
  moreover have "in_step items j (c, s)" if "j < numa" "in_step items j (c', s')" for j
    using in_step_before[OF r(1) ri r(2) _ that(2)] that(1) inv by (simp add: conv_inv_def)
  ultimately show ?thesis using inv h n ids b by (simp add: conv_inv_def)
qed

lemma conv_push:
  assumes inv: "conv_inv items junk numa f L q pend (Broadcasting l i, s)" and i: "i < length (workers s)" "mlogAllocs s < 2 ^ 64"
  shows "conv_inv items junk numa f L q pend (Broadcasting l (Suc i), pushLog Q l i s)"
proof (rule conv_rstep[OF inv rstep.Push[OF i(1), where keyAt = "\<lambda>_. 0"] i(2)])
  have same: "logDoneCount (workers (pushLog Q l i s) ! j) = logDoneCount (workers s ! j)" if "j < numa" for j
    using that i(1) inv by (cases "j = i") (simp_all add: pushLog_def Let_def conv_inv_def)
  have "owed (pushLog Q l i s) (workers (pushLog Q l i s) ! j) = owed s (workers s ! j)" if "j < numa" for j
    by (rule owed_cong[OF same[OF that]]) (simp_all add: pushLog_def Let_def)
  then show "behind_by junk (heap (pushLog Q l i s)) (sls (pushLog Q l i s) ! j)
      (owed (pushLog Q l i s) (workers (pushLog Q l i s) ! j) @ pend) (logged_anchors L)"
    if "j < numa" "in_step items j (Broadcasting l i, s)"
      "behind_by junk (heap s) (sls s ! j) (owed s (workers s ! j) @ pend) (logged_anchors L)" for j
    using that by (simp add: pushLog_def Let_def)
qed (use inv i(1) in \<open>auto simp: pushLog_def Let_def conv_inv_def nth_list_update\<close>)

lemma conv_pushed:
  assumes "conv_inv items junk numa f L q pend (Broadcasting l (length (workers s)), s)"
  shows "conv_inv items junk numa f L q pend (Between, s)"
proof -
  have "in_step items j (Broadcasting l (length (workers s)), s) = in_step items j (Between, s)" if "j < length (workers s)" for j
    using that by (simp add: in_step_def lim_def)
  moreover have "repl_inv items (Broadcasting l (length (workers s)), s) \<Longrightarrow> repl_inv items (Between, s)"
    by (auto simp: repl_inv_def logs_ok_def lim_def)
  ultimately show ?thesis using assms by (auto simp: conv_inv_def)
qed

lemma conv_free:
  assumes inv: "conv_inv items junk numa f L q pend (Between, s)" and n: "mlogAllocs s < 2 ^ 64"
  shows "conv_inv items junk numa f L q pend (Between, snd (freeMergedLogs force s))"
proof (rule conv_rstep[OF inv rstep.Free[where keyAt = "\<lambda>_. 0"] n])
  let ?s = "snd (freeMergedLogs force s)"
  note rest = freeMergedLogs_rest[of force s]
  have ri: "repl_inv items (Between, s)" using inv by (simp add: conv_inv_def)
  have "repl_inv items (Between, ?s)" by (rule repl_inv_free[OF ri n])
  note alive = owed_alive[OF this]
  have "owed ?s (workers ?s ! j) = owed s (workers s ! j)" if "j < numa" for j
  proof (rule owed_cong)
    fix l assume "unat (logDoneCount (workers s ! j)) \<le> l" "l < mlogAllocs s"
    then have "l \<in> dom (mlogs ?s)" using alive[of j l] that inv by (simp add: rest conv_inv_def)
    then show "mlogs ?s l = mlogs s l" using rest(5) by (simp add: map_le_def)
  qed (simp_all add: rest)
  then show "behind_by junk (heap ?s) (sls ?s ! j) (owed ?s (workers ?s ! j) @ pend) (logged_anchors L)"
    if "j < numa" "in_step items j (Between, s)"
      "behind_by junk (heap s) (sls s ! j) (owed s (workers s ! j) @ pend) (logged_anchors L)" for j
    using that by (simp add: rest)
qed (use inv in \<open>simp_all add: freeMergedLogs_rest conv_inv_def\<close>)

text \<open>A round of the combiner: the pending entries become the last log that every worker owes.\<close>

lemma conv_combine:
  assumes inv: "conv_inv items junk numa f L q pend (Between, s)" and n: "mlogAllocs s < 2 ^ 64" and cl: "calm (heap s)"
    and t: "distinct threads" "set threads = dom (oplogs (heap s))" and c: "combineLogs threads s = (r, s')"
  shows "conv_inv items junk numa f L q [] (case r of None \<Rightarrow> Between | Some l \<Rightarrow> Broadcasting l 0, s')"
proof -
  note rest = combineLogs_rest[OF c]
  have at: "list_at f L q pend (heap s)" and ri: "repl_inv items (Between, s)" and w: "length (workers s) = numa"
    using inv by (simp_all add: conv_inv_def)
  then have qs: "queues_ok (heap s) pend" by (simp add: list_at_def)
  note q = queues_combine[OF qs t c]
  have d: "distinct (map (key \<circ> snd) pend)" using calm_distinct[OF cl] qs by (simp add: queues_ok_def)
  have step: "rstep Q (\<lambda>_. 0) (Between, s) (case r of None \<Rightarrow> Between | Some l \<Rightarrow> Broadcasting l 0, s')"
    using t c rstep.Combine[of threads s _ s'] rstep.CombineNone[of threads s s'] by (cases r) auto
  show ?thesis
  proof (rule conv_rstep[OF inv step n])
    show "list_at f L q [] (heap s')" by (rule list_at_rest[OF at q(1) rest(1-4)])
    fix j assume j: "j < numa" and b: "behind_by junk (heap s) (sls s ! j) (owed s (workers s ! j) @ pend) (logged_anchors L)"
    have "\<exists>log. owed s' (workers s' ! j) = owed s (workers s ! j) @ log \<and> mset log = mset pend"
    proof (cases r)
      case None
      then show ?thesis using q(2) rest(7,8) by (auto intro: owed_cong)
    next
      case (Some l)
      then obtain log where log: "mlogs s' = (mlogs s)(l \<mapsto> log)" "mset log = mset pend" using q(2) by auto
      have l: "l = mlogAllocs s" "mlogAllocs s' = Suc l" using combineLogs_id c Some by blast+
      have le: "unat (logDoneCount (workers s ! j)) \<le> l"
        using ri j w l(1) by (auto simp: repl_inv_def worker_ok_def lim_def)
      have "owed s' (workers s' ! j) = owed s (workers s ! j) @ log"
        using le by (auto simp: owed_def rest(7) l(2) log(1) l(1)[symmetric] intro!: arg_cong[where f = concat])
      then show ?thesis using log(2) by blast
    qed
    then obtain log where log: "owed s' (workers s' ! j) = owed s (workers s ! j) @ log" "mset log = mset pend" by blast
    show "behind_by junk (heap s') (sls s' ! j) (owed s' (workers s' ! j) @ []) (logged_anchors L)"
      using behind_perm[OF b d log(2)] by (simp add: log(1) rest(6) behind_nodes[OF rest(1)])
  qed (simp_all add: rest)
qed

text \<open>A worker that is in step has its next log at the front of its queue and owes it first.\<close>

lemma owed_front:
  assumes "repl_inv items (c, s)" "j < length (workers s)" "in_step items j (c, s)" "\<not> isWorkQueueEmpty Q (workers s ! j)"
  shows "sp_front Q (workQueue (workers s ! j)) = unat (logDoneCount (workers s ! j))"
    "mlogs s (unat (logDoneCount (workers s ! j))) \<noteq> None"
    "owed s (workers s ! j) = the (mlogs s (unat (logDoneCount (workers s ! j)))) @
      concat (map (\<lambda>l. the (mlogs s l)) [Suc (unat (logDoneCount (workers s ! j)))..<mlogAllocs s])"
proof -
  let ?d = "unat (logDoneCount (workers s ! j))"
  note it = in_step_items[OF assms(1-3)]
  have ne: "items (workQueue (workers s ! j)) \<noteq> []" using assms(4) by (simp add: isWorkQueueEmpty_def avail)
  then have lt: "?d < lim c (mlogAllocs s) j" unfolding it by simp
  then show "sp_front Q (workQueue (workers s ! j)) = ?d" using front[OF ne] unfolding it by simp
  have lt': "?d < mlogAllocs s" using lt lim_le[of c "mlogAllocs s" j] by simp
  then show "mlogs s ?d \<noteq> None" using owed_alive[OF assms(1,2), of ?d] by auto
  show "owed s (workers s ! j) = the (mlogs s ?d) @ concat (map (\<lambda>l. the (mlogs s l)) [Suc ?d..<mlogAllocs s])"
    using lt' by (simp add: owed_def upt_conv_Cons)
qed

lemma conv_apply:
  assumes inv: "conv_inv items junk numa f L q pend (c, s)" and n: "mlogAllocs s < 2 ^ 64"
    and i: "i < length (workers s)" "n' = workerThreadId (workers s ! i) mod activeNuma (workers s ! i)" "n' < length (sls s)"
      "\<not> isWorkQueueEmpty Q (workers s ! i)"
      "applyOperation Q (nodeKeyAt junk (heap s)) (mlogs s) (workers s ! i) (sls s ! n') = Some (ret, w', sl')"
  shows "conv_inv items junk numa f L q pend (c, s\<lparr>workers := (workers s)[i := w'], sls := (sls s)[n' := sl']\<rparr>)"
proof (rule conv_rstep[OF inv rstep.Apply[OF i] n])
  let ?s = "s\<lparr>workers := (workers s)[i := w'], sls := (sls s)[n' := sl']\<rparr>"
  have ids: "workerThreadId (workers s ! i) = i" "activeNuma (workers s ! i) = numa" "length (workers s) = numa" "length (sls s) = numa"
    and ri: "repl_inv items (c, s)" using inv i(1) by (auto simp: conv_inv_def)
  have n': "n' = i" using i(1,2) by (simp add: ids)
  have w': "workerThreadId w' = workerThreadId (workers s ! i)" "activeNuma w' = activeNuma (workers s ! i)"
    using i(5) by (auto simp: applyOperation_def split: option.splits)
  then show "workerThreadId (workers ?s ! j) = workerThreadId (workers s ! j) \<and> activeNuma (workers ?s ! j) = activeNuma (workers s ! j)"
    if "j < numa" for j using i(1) by (simp add: nth_list_update)
  show "list_at f L q pend (heap ?s)" "length (sls ?s) = length (sls s)" using inv by (simp_all add: conv_inv_def)
  fix j assume j: "j < numa" "in_step items j (c, s)"
    and b: "behind_by junk (heap s) (sls s ! j) (owed s (workers s ! j) @ pend) (logged_anchors L)"
  show "behind_by junk (heap ?s) (sls ?s ! j) (owed ?s (workers ?s ! j) @ pend) (logged_anchors L)"
  proof (cases "j = i")
    case False
    then show ?thesis using b by (simp add: n' owed_def)
  next
    case True
    note o = owed_front[OF ri i(1) j(2)[unfolded True] i(4)]
    let ?d = "unat (logDoneCount (workers s ! i))" and ?rest = "concat (map (\<lambda>l. the (mlogs s l)) [Suc (unat (logDoneCount (workers s ! i)))..<mlogAllocs s])"
    obtain log where log: "mlogs s ?d = Some log" using o(2) by auto
    obtain x where x: "apply_ops (nodeKeyAt junk (heap s)) i 0 (logDoneCount (workers s ! i)) log (sls s ! i, freeQueue (workers s ! i), opcount (workers s ! i), False) = Some (sl', x)"
      using i(1,5) by (auto simp: applyOperation_def o(1) log ids n' split: option.splits)
    have "behind_by junk (heap s) (sls s ! i) (log @ ?rest @ pend) (logged_anchors L)" using b by (simp add: True o(3) log)
    then have "behind_by junk (heap s) sl' (?rest @ pend) (logged_anchors L)" using behind_apply x by (metis option.inject prod.inject)
    moreover have "unat (logDoneCount w') = Suc ?d"
    proof -
      have "?d < mlogAllocs s" using log ri by (fastforce simp: repl_inv_def logs_ok_def)
      then show ?thesis using applied_worker(2)[OF i(5,4)] n unat_Suc_word[of "logDoneCount (workers s ! i)"] by simp
    qed
    ultimately show ?thesis using i(1) ids by (simp add: True n' owed_def)
  qed
qed

text \<open>The next log of a worker that is in step is applied without a fault.\<close>

lemma conv_progress:
  assumes inv: "conv_inv items junk numa f L q pend (c, s)" and j: "j < numa" "in_step items j (c, s)" "\<not> isWorkQueueEmpty Q (workers s ! j)"
  shows "applyOperation Q (nodeKeyAt junk (heap s)) (mlogs s) (workers s ! j) (sls s ! j) \<noteq> None"
proof -
  have ids: "workerThreadId (workers s ! j) = j" "activeNuma (workers s ! j) = numa" "length (workers s) = numa"
    and ri: "repl_inv items (c, s)"
    and b: "behind_by junk (heap s) (sls s ! j) (owed s (workers s ! j) @ pend) (logged_anchors L)"
    using inv j by (auto simp: conv_inv_def)
  note o = owed_front[OF ri _ j(2,3), unfolded ids(3), OF j(1)]
  obtain log where log: "mlogs s (unat (logDoneCount (workers s ! j))) = Some log" using o(2) by auto
  have "\<exists>sl' x. apply_ops (nodeKeyAt junk (heap s)) j 0 (logDoneCount (workers s ! j)) log
      (sls s ! j, freeQueue (workers s ! j), opcount (workers s ! j), False) = Some (sl', x)"
    using behind_apply[of junk "heap s" "sls s ! j" log "concat (map (\<lambda>l. the (mlogs s l)) [Suc (unat (logDoneCount (workers s ! j)))..<mlogAllocs s]) @ pend"] b
    unfolding o(3) log option.sel append_assoc by blast
  then show ?thesis using j(1) by (auto simp: applyOperation_def o(1) log ids)
qed

lemma conv_user:
  assumes inv: "conv_inv items junk numa (Suc f) L q pend (c, s)" and n: "nodes (heap s) a = Some n" "\<not> deleted n" "next_p n \<noteq> None"
    and k: "k \<noteq> ULLONG_MAX"
    and r: "LinkedList_insert getKeyFingerPrint t k v (Some a) (heap s) = Some (Inr (r, h')) \<or>
      LinkedList_update getKeyFingerPrint k v (Some a) (heap s) = Some (Inr (r, h')) \<or>
      LinkedList_remove getKeyFingerPrint t k (Some a) (heap s) = Some (Inr (r, h'))"
  shows "\<exists>L' pend'. conv_inv items junk numa f L' q pend' (c, s\<lparr>heap := h'\<rparr>)"
proof -
  have L: "dl_inv (Suc f) L q (heap s)" "strays_deleted L q (heap s)" using inv by (simp_all add: conv_inv_def list_at_def)
  have a: "a \<in> fst ` set L" by (rule not_deleted_live[OF L n])
  have "\<exists>L' m. wrote f t L q (heap s) m L' h'"
    using r LinkedList_insert_refines[OF L(1) a k, of t v] LinkedList_update_refines[OF L(1) a k, of v t]
      LinkedList_remove_refines[OF L(1) a k, of t] by fastforce
  then show ?thesis using conv_wrote[OF inv] by blast
qed

lemma cstep_inv:
  assumes "cstep Q junk cs cs'" "conv_inv items junk numa (Suc f) L q pend cs" "calm (heap (snd cs))" "mlogAllocs (snd cs) < 2 ^ 64"
  shows "\<exists>L' pend'. conv_inv items junk numa f L' q pend' cs'"
  using assms
proof (cases rule: cstep.cases)
  case (Insert s a n k t v r h' c)
  then show ?thesis using conv_user[OF assms(2)[unfolded Insert(1)] Insert(3-6)] by blast
next
  case (Update s a n k v r h' c)
  then show ?thesis using conv_user[OF assms(2)[unfolded Update(1)] Update(3-6)] by blast
next
  case (Remove s a n k t r h' c)
  then show ?thesis using conv_user[OF assms(2)[unfolded Remove(1)] Remove(3-6)] by blast
next
  case (Combine threads s r s')
  then show ?thesis using conv_combine[OF conv_mono[OF assms(2)[unfolded Combine(1)]] _ _ Combine(3-5)] assms(3,4) by auto
next
  case (Push i s l)
  then show ?thesis using conv_push[OF conv_mono[OF assms(2)[unfolded Push(1)]] Push(3)] assms(4) by auto
next
  case (Pushed l s)
  then have "conv_inv items junk numa (Suc f) L q pend (Between, s)" using conv_pushed assms(2) by simp
  then show ?thesis using conv_mono Pushed(2) by blast
next
  case (Free s force)
  then show ?thesis using conv_free[OF conv_mono[OF assms(2)[unfolded Free(1)]]] assms(4) by auto
next
  case (Apply i s n ret w' sl' c)
  then show ?thesis using conv_apply[OF conv_mono[OF assms(2)[unfolded Apply(1)]] _ Apply(3-7)] assms(4) by auto
qed

lemma cstep_allocs: "cstep Q junk cs cs' \<Longrightarrow> mlogAllocs (snd cs') \<le> Suc (mlogAllocs (snd cs))"
  by (induction rule: cstep.induct) (auto simp: combineLogs_rest(8) pushLog_def Let_def freeMergedLogs_rest)

lemma calm_run_inv:
  assumes "((\<lambda>cs cs'. cstep Q junk cs cs' \<and> calm (heap (snd cs'))) ^^ n) cs cs'" "conv_inv items junk numa (f + n) L q pend cs"
    "calm (heap (snd cs))" "mlogAllocs (snd cs) = 0" "n < 2 ^ 64"
  shows "(\<exists>L' pend'. conv_inv items junk numa f L' q pend' cs') \<and> calm (heap (snd cs')) \<and> mlogAllocs (snd cs') \<le> n"
  using assms
proof (induction n arbitrary: cs' f)
  case (Suc n)
  obtain d where d: "((\<lambda>cs cs'. cstep Q junk cs cs' \<and> calm (heap (snd cs'))) ^^ n) cs d" "cstep Q junk d cs'" "calm (heap (snd cs'))"
    using Suc.prems(1) by auto
  have "conv_inv items junk numa (Suc f + n) L q pend cs" using Suc.prems(2) by simp
  with Suc.IH[OF d(1), of "Suc f"] obtain L' pend' where i: "conv_inv items junk numa (Suc f) L' q pend' d" "calm (heap (snd d))" "mlogAllocs (snd d) \<le> n"
    using Suc.prems(3-5) by auto
  then show ?case using cstep_inv[OF d(2) i(1,2)] cstep_allocs[OF d(2)] Suc.prems(5) d(3) by auto
qed auto

end

lemma conv_init:
  assumes "nodes s0 = Map.empty" "oplogs s0 = Map.empty" "alloc_ok s0" "2 * f + 2 < 2 ^ 64"
    "\<And>i. i < nallocs s0 + (f + 2) \<Longrightarrow> nmalloc s0 i < 2 ^ 63" "LinkedList_initialize t s0 = Inr (h, s1)" "items q0 = []"
  shows "\<exists>L. conv_inv items junk numa f L (nmalloc s0 (Suc (nallocs s0))) [] (Between, system_new s1 q0 numa) \<and>
    dl_map L = [0 \<mapsto> 0] \<and> calm s1"
proof -
  let ?h = "nmalloc s0 (nallocs s0)" and ?q = "nmalloc s0 (Suc (nallocs s0))"
  obtain n where n: "dl_inv f [(?h, n)] ?q s1" "min_k n = 0" "node_map n = [0 \<mapsto> 0]" using LinkedList_initialize_ok[OF assms(3,4), of t] assms(6) by auto
  have r: "dom (nodes s1) = {?h, ?q}" "nmalloc s1 = nmalloc s0" "nallocs s1 = Suc (Suc (nallocs s0))" "oplogs s1 = Map.empty"
    using LinkedList_initialize_run[OF assms(3), of t] assms(1,2,6) by (auto simp: fun_upd_def split: if_splits)
  have "strays_deleted [(?h, n)] ?q s1" using r(1) by (auto simp: strays_deleted_def)
  moreover have "addrs_ok f s1" using assms(5) r by (simp add: addrs_ok_def)
  moreover have fl: "filled s1 = {#}" using r(4) by (simp add: filled_def)
  moreover have "queues_ok s1 []" using fl no_log[of _ s1] r(4) by (simp add: queues_ok_def)
  ultimately have at: "list_at f [(?h, n)] ?q [] s1" using n(1) by (simp add: list_at_def)
  have "logged_anchors [(?h, n)] = Map.empty" using n(2) by (simp add: logged_anchors_def anchor_map_def)
  then have "behind_by junk s1 SL_new [] (logged_anchors [(?h, n)])" using behind_new by simp
  then have "conv_inv items junk numa f [(?h, n)] ?q [] (Between, system_new s1 q0 numa)"
    using at repl_inv_new[of items, OF assms(7)]
    by (auto simp: conv_inv_def system_new_def WorkerThread_new_def WORKER_THREAD_PER_NUMA_def owed_def)
  then show ?thesis using fl n(3) by (intro exI[of _ "[(?h, n)]"]) (simp add: calm_def)
qed

lemma behind_none:
  assumes "behind_by junk h sl [] (logged_anchors L)"
  shows "leads_exactly junk h L sl"
proof -
  have m: "sl_inv (nodeKeyAt junk h) sl" "sl_counted sl" "sl_map (nodeKeyAt junk h) sl = map_option word_of_nat \<circ> logged_anchors L"
    using assms by (auto simp: behind_by_def)
  have "ran (anchor_map L) \<subseteq> fst ` set L" unfolding anchor_map_def by (force dest: map_of_SomeD simp: ran_def)
  then have "ran (sl_map (nodeKeyAt junk h) sl) \<subseteq> word_of_nat ` fst ` set L"
    unfolding m(3) logged_anchors_def by (fastforce simp: ran_def split: if_splits)
  then show ?thesis using m by (simp add: leads_exactly_def logged_anchors_def)
qed

section \<open>Property\<close>

text \<open>C3. A new list, \<open>numa\<close> workers with empty search layers, and then any interleaving of \<open>n\<close> steps: insertions,
  updates and removals of any threads that start at nodes that are not deleted, rounds of the
  combiner that drain the logs and sort them by addresses, its pushes to one worker after the other, the
  freeing of merged logs, and workers that apply the logs of their queues. The condition on the run
  is that at no time two changes of the same anchor are waiting for the same round of the combiner. The list then
  stays well formed, and for every worker whose queue never refused a push: the next log of its queue
  is applied without a fault; applying the logs it owes and the entries that are still in the queues of the
  threads, in any order, makes its search layer exact; and once it has applied all logs and these
  queues are empty, its search layer is exact: it maps the smallest key of every node but the head to the node, and to nothing else. The
  bound on \<open>n\<close> is the range of the 64-bit lock versions; addresses are below \<open>2^63\<close>.\<close>

theorem search_layer_converges:
  assumes "spsc_queue Q cap items" "items q0 = []"
    "nodes s0 = Map.empty" "oplogs s0 = Map.empty" "alloc_ok s0" "2 * (f + n) + 2 < 2 ^ 64" "\<forall>i < nallocs s0 + (f + n + 2). nmalloc s0 i < 2 ^ 63"
    "LinkedList_initialize t s0 = Inr (h, s1)"
    "((\<lambda>cs cs'. cstep Q junk cs cs' \<and> calm (heap (snd cs'))) ^^ n) (Between, system_new s1 q0 numa) (c, s)"
  shows "\<exists>L q. dl_inv f L q (heap s) \<and>
    (\<forall>i w sl. i < numa \<and> w = workers s ! i \<and> sl = sls s ! i \<and>
        unat (logDoneCount w) + length (items (workQueue w)) = lim c (mlogAllocs s) i \<longrightarrow>
      (\<not> isWorkQueueEmpty Q w \<longrightarrow> applyOperation Q (nodeKeyAt junk (heap s)) (mlogs s) w sl \<noteq> None) \<and>
      (\<forall>pend. mset pend = filled (heap s) \<longrightarrow>
        (\<exists>sl' x. apply_ops (nodeKeyAt junk (heap s)) i 0 (logDoneCount w) (owed s w @ pend) (sl, freeQueue w, opcount w, False) = Some (sl', x) \<and>
           leads_exactly junk (heap s) L sl')) \<and>
      (unat (logDoneCount w) = mlogAllocs s \<and> filled (heap s) = {#} \<longrightarrow> leads_exactly junk (heap s) L sl))"
proof -
  have lq: "log_queue Q cap items" using assms(1) by (simp add: log_queue_def)
  obtain L0 q where i0: "conv_inv items junk numa (f + n) L0 q [] (Between, system_new s1 q0 numa)" "calm s1"
    using conv_init[of s0 "f + n" t h s1 items q0 junk numa] assms by (auto simp: ac_simps)
  have "n < 2 ^ 64" using assms(6) by simp
  with log_queue.calm_run_inv[OF lq assms(9) i0(1)] i0(2) obtain L pend where inv: "conv_inv items junk numa f L q pend (c, s)" and cl: "calm (heap s)"
    by (auto simp: system_new_def)
  have p: "mset pend = filled (heap s)" and dl: "dl_inv f L q (heap s)" using inv by (auto simp: conv_inv_def list_at_def queues_ok_def)
  have b: "behind_by junk (heap s) (sls s ! i) ((owed s (workers s ! i) @ pend') @ []) (logged_anchors L)"
    if "i < numa" "in_step items i (c, s)" "mset pend' = filled (heap s)" for i pend'
    using inv that behind_perm[OF _ calm_distinct[OF cl p], of junk "heap s" "sls s ! i" "owed s (workers s ! i)" "logged_anchors L" pend'] p
    by (simp add: conv_inv_def)
  have "(\<not> isWorkQueueEmpty Q (workers s ! i) \<longrightarrow> applyOperation Q (nodeKeyAt junk (heap s)) (mlogs s) (workers s ! i) (sls s ! i) \<noteq> None) \<and>
      (\<forall>pend. mset pend = filled (heap s) \<longrightarrow>
        (\<exists>sl' x. apply_ops (nodeKeyAt junk (heap s)) i 0 (logDoneCount (workers s ! i)) (owed s (workers s ! i) @ pend)
             (sls s ! i, freeQueue (workers s ! i), opcount (workers s ! i), False) = Some (sl', x) \<and> leads_exactly junk (heap s) L sl')) \<and>
      (unat (logDoneCount (workers s ! i)) = mlogAllocs s \<and> filled (heap s) = {#} \<longrightarrow> leads_exactly junk (heap s) L (sls s ! i))"
    if i: "i < numa" "in_step items i (c, s)" for i
  proof (intro conjI impI allI)
    show "applyOperation Q (nodeKeyAt junk (heap s)) (mlogs s) (workers s ! i) (sls s ! i) \<noteq> None" if "\<not> isWorkQueueEmpty Q (workers s ! i)"
      by (rule log_queue.conv_progress[OF lq inv i that])
    show "\<exists>sl' x. apply_ops (nodeKeyAt junk (heap s)) i 0 (logDoneCount (workers s ! i)) (owed s (workers s ! i) @ pend)
         (sls s ! i, freeQueue (workers s ! i), opcount (workers s ! i), False) = Some (sl', x) \<and> leads_exactly junk (heap s) L sl'"
      if "mset pend = filled (heap s)" for pend
      using behind_apply[OF b[OF i that]] behind_none by blast
    assume "unat (logDoneCount (workers s ! i)) = mlogAllocs s \<and> filled (heap s) = {#}"
    then show "leads_exactly junk (heap s) L (sls s ! i)" using b[OF i, of "[]"] by (intro behind_none) (simp add: owed_def)
  qed
  then show ?thesis using dl by (intro exI[of _ L] exI[of _ q]) (simp add: in_step_def Let_def)
qed

text \<open>
  A run in which one worker follows every insertion: after the insertion of 64 keys the first node was split.
\<close>

abbreviation demo_step :: "combiner_pc \<times> nat list system \<Rightarrow> combiner_pc \<times> nat list system \<Rightarrow> bool" where
  "demo_step \<equiv> \<lambda>cs cs'. cstep (list_spsc 10000) 0 cs cs' \<and> calm (heap (snd cs'))"

definition followed :: "nat \<Rightarrow> Key_t cells \<Rightarrow> addr \<Rightarrow> nat list system \<Rightarrow> bool" where
  "followed f L q s \<longleftrightarrow> conv_inv (\<lambda>x. x) 0 1 f L q [] (Between, s) \<and> workQueue (workers s ! 0) = [] \<and>
     unat (logDoneCount (workers s ! 0)) = mlogAllocs s"

lemma calm_short: "queues_ok h pend \<Longrightarrow> length pend \<le> 1 \<Longrightarrow> calm h"
  by (cases pend) (auto simp: calm_def queues_ok_def dest!: sym[of _ "filled h"])

lemma conv_queues: "conv_inv items junk numa f L q pend (c, s) \<Longrightarrow> queues_ok (heap s) pend"
  by (simp add: conv_inv_def list_at_def)

lemma four_steps: "R a b \<Longrightarrow> R b c \<Longrightarrow> R c d \<Longrightarrow> R d e \<Longrightarrow> (R ^^ 4) a e"
  by (simp add: numeral_eq_Suc relcompp_apply) blast

lemma follow_one:
  assumes inv: "conv_inv (\<lambda>x. x) 0 1 f L q [e] (Between, s)" and w: "workQueue (workers s ! 0) = []"
    "unat (logDoneCount (workers s ! 0)) = mlogAllocs s" and n: "Suc (mlogAllocs s) < 2 ^ 64"
  shows "\<exists>s'. (demo_step ^^ 4) (Between, s) (Between, s') \<and> followed f L q s' \<and> mlogAllocs s' = Suc (mlogAllocs s)"
proof -
  let ?Q = "list_spsc 10000 :: (nat, nat list) spsc_ops"
  have len: "length (workers s) = 1" using inv by (simp add: conv_inv_def)
  have qs: "queues_ok (heap s) [e]" by (rule conv_queues[OF inv])
  define ts where "ts = sorted_list_of_set (dom (oplogs (heap s)))"
  have ts: "distinct ts" "set ts = dom (oplogs (heap s))" using qs by (simp_all add: ts_def queues_ok_def)
  obtain r s2 where c: "combineLogs ts s = (r, s2)" by fastforce
  note rest = combineLogs_rest[OF c]
  obtain l where r: "r = Some l" using queues_combine(2)[OF qs ts c] by (cases r) auto
  then have l: "l = mlogAllocs s" using combineLogs_id c by blast
  have i2: "conv_inv (\<lambda>x. x) 0 1 f L q [] (Broadcasting l 0, s2)"
    using listlogq.conv_combine[OF inv _ calm_short[OF qs] ts c] n r by simp
  define s3 where "s3 = pushLog ?Q l 0 s2"
  have n2: "mlogAllocs s2 < 2 ^ 64" using n rest(8) r by simp
  have i3: "conv_inv (\<lambda>x. x) 0 1 f L q [] (Broadcasting l 1, s3)"
    using listlogq.conv_push[OF i2, where n = 10000] n2 len rest(7) by (simp add: s3_def)
  have s3: "workers s3 = [(workers s ! 0)\<lparr>workQueue := [l]\<rparr>]" "mlogAllocs s3 = Suc l" "heap s3 = heap s2" "sls s3 = sls s2"
    using len w(1) rest(7,8) r l by (cases "workers s"; simp add: s3_def pushLog_def Let_def list_spsc_def)+
  have i4: "conv_inv (\<lambda>x. x) 0 1 f L q [] (Between, s3)" by (rule listlogq.conv_pushed[where l = l]) (use i3 in \<open>simp add: s3(1)\<close>)
  have st: "in_step (\<lambda>x. x) 0 (Between, s3)" using w(2) l by (simp add: in_step_def lim_def s3)
  have ne: "\<not> isWorkQueueEmpty ?Q (workers s3 ! 0)" by (simp add: s3(1) isWorkQueueEmpty_def list_spsc_def)
  obtain ret w' sl' where ap: "applyOperation ?Q (nodeKeyAt 0 (heap s3)) (mlogs s3) (workers s3 ! 0) (sls s3 ! 0) = Some (ret, w', sl')"
    using listlogq.conv_progress[OF i4 _ st ne] by auto
  have ids: "workerThreadId (workers s3 ! 0) mod activeNuma (workers s3 ! 0) = 0" "length (sls s3) = 1" "length (workers s3) = 1"
    using i4 by (simp_all add: conv_inv_def)
  define s5 where "s5 = s3\<lparr>workers := (workers s3)[0 := w'], sls := (sls s3)[0 := sl']\<rparr>"
  have i5: "conv_inv (\<lambda>x. x) 0 1 f L q [] (Between, s5)"
    unfolding s5_def by (rule listlogq.conv_apply[OF i4 _ _ _ _ ne ap]) (use n l ids s3(2) in simp_all)
  note aw = listlogq.applied_worker[OF ap ne]
  have "unat (logDoneCount w') = Suc l" using aw(2) w(2) n l unat_Suc_word[of "logDoneCount (workers s ! 0)"] by (simp add: s3(1))
  then have f5: "followed f L q s5" "mlogAllocs s5 = Suc (mlogAllocs s)"
    using i5 aw(1) l by (simp_all add: followed_def s5_def s3 ids)
  have cl: "calm (heap s2)" "calm (heap s3)" "calm (heap s5)" using calm_short conv_queues i2 i4 i5 by fastforce+
  have "demo_step (Between, s) (Broadcasting l 0, s2)" using cstep.Combine[OF ts c] cl r by simp
  moreover have "demo_step (Broadcasting l 0, s2) (Broadcasting l 1, s3)"
    using cstep.Push[of 0 s2 ?Q 0 l] cl len rest(7) by (simp add: s3_def)
  moreover have "demo_step (Broadcasting l 1, s3) (Between, s3)" using cstep.Pushed[of ?Q 0 l s3] cl by (simp add: s3(1))
  moreover have "demo_step (Between, s3) (Between, s5)"
    using cstep.Apply[OF _ _ _ ne ap, of Between] ids cl by (simp add: s5_def)
  ultimately have "(demo_step ^^ 4) (Between, s) (Between, s5)"
    by (rule four_steps)
  then show ?thesis using f5 by blast
qed

lemma follow_insert:
  assumes inv: "followed (Suc f) L q s" and k: "k \<noteq> ULLONG_MAX" "k \<notin> dom (dl_map L)" and n: "Suc (mlogAllocs s) < 2 ^ 64"
  shows "\<exists>m L' s'. m \<le> 5 \<and> (demo_step ^^ m) (Between, s) (Between, s') \<and> followed f L' q s' \<and>
    dl_map L' = (dl_map L)(k \<mapsto> 0) \<and> mlogAllocs s' \<le> Suc (mlogAllocs s)"
proof -
  have c0: "conv_inv (\<lambda>x. x) 0 1 (Suc f) L q [] (Between, s)" using inv by (simp add: followed_def)
  then have dl: "dl_inv (Suc f) L q (heap s)" by (simp add: conv_inv_def list_at_def)
  obtain a nd L2 where L: "L = (a, nd) # L2" using dl by (cases L) (auto simp: dl_inv_def)
  have nd: "nodes (heap s) a = Some nd" "\<not> deleted nd" "next_p nd \<noteq> None"
    using dl by (auto simp: L dl_inv_def node_ok_def)
  obtain L' h' where w: "LinkedList_insert getKeyFingerPrint 0 k 0 (Some a) (heap s) = Some (Inr (True, h'))"
    "wrote f 0 L q (heap s) ((dl_map L)(k \<mapsto> 0)) L' h'"
  proof -
    have "a \<in> fst ` set L" "dl_map L k = None" using k(2) by (auto simp: L)
    then show ?thesis using that LinkedList_insert_refines[OF dl _ k(1), of a 0 0] by auto
  qed
  obtain es where es: "conv_inv (\<lambda>x. x) 0 1 f L' q es (Between, s\<lparr>heap := h'\<rparr>)" "length es \<le> 1"
    using conv_wrote[OF c0 w(2)] by auto
  have m: "dl_map L' = (dl_map L)(k \<mapsto> 0)" using w(2) by (simp add: wrote_def)
  have cl: "calm h'" using calm_short[OF conv_queues[OF es(1)] es(2)] by simp
  then have st: "demo_step (Between, s) (Between, s\<lparr>heap := h'\<rparr>)" using cstep.Insert[OF nd k(1) w(1)] by simp
  show ?thesis
  proof (cases es)
    case Nil
    then have "followed f L' q (s\<lparr>heap := h'\<rparr>)" using es(1) inv by (simp add: followed_def)
    moreover have "(demo_step ^^ 1) (Between, s) (Between, s\<lparr>heap := h'\<rparr>)" using st by (simp add: relcompp_apply)
    ultimately show ?thesis using m by (intro exI[of _ 1] exI[of _ L'] exI[of _ "s\<lparr>heap := h'\<rparr>"]) simp
  next
    case (Cons e es')
    then have "conv_inv (\<lambda>x. x) 0 1 f L' q [e] (Between, s\<lparr>heap := h'\<rparr>)" using es by simp
    from follow_one[OF this] obtain s' where s': "(demo_step ^^ 4) (Between, s\<lparr>heap := h'\<rparr>) (Between, s')" "followed f L' q s'"
      "mlogAllocs s' = Suc (mlogAllocs s)" using inv n by (auto simp: followed_def)
    have "(demo_step ^^ Suc 4) (Between, s) (Between, s')" by (rule relpowp_Suc_I2[OF st s'(1)])
    then show ?thesis using s' m by (intro exI[of _ 5] exI[of _ L'] exI[of _ s']) simp
  qed
qed

lemma follow_all:
  assumes "m \<le> 64"
  shows "\<exists>n s L. n \<le> 5 * m \<and> (demo_step ^^ n) (Between, system_new boot_list [] 1) (Between, s) \<and> followed (100 - m) L 1 s \<and>
    dom (dl_map L) = word_of_nat ` {0..m} \<and> mlogAllocs s \<le> m"
  using assms
proof (induction m)
  case 0
  have init: "LinkedList_initialize 0 boot = Inr (0, boot_list)"
    using LinkedList_initialize_ok[OF alloc_ok_boot, of 1000 0] by (auto simp: boot_list_def boot_def)
  obtain L where "conv_inv (\<lambda>x. x) 0 1 100 L 1 [] (Between, system_new boot_list [] 1)" "dl_map L = [0 \<mapsto> 0]"
    using conv_init[OF _ _ alloc_ok_boot _ _ init, of 100 "\<lambda>x. x" "[]" 0 1] by (auto simp: boot_def)
  moreover have "dom [0 \<mapsto> 0 :: Val_t] = {0 :: Key_t}" by (auto simp: dom_def)
  ultimately show ?case
    by (intro exI[of _ 0] exI[of _ "system_new boot_list [] 1"] exI[of _ L])
      (simp add: followed_def del: fun_upd_apply, simp add: system_new_def WorkerThread_new_def WORKER_THREAD_PER_NUMA_def)
next
  case (Suc m)
  have e: "100 - m = Suc (99 - m)" using Suc.prems by simp
  obtain n s L where s: "n \<le> 5 * m" "(demo_step ^^ n) (Between, system_new boot_list [] 1) (Between, s)" "followed (Suc (99 - m)) L 1 s"
    "dom (dl_map L) = word_of_nat ` {0..m}" "mlogAllocs s \<le> m"
    using Suc.IH[unfolded e] Suc.prems by auto
  let ?k = "word_of_nat (Suc m) :: Key_t"
  have u: "unat (word_of_nat i :: Key_t) = i" if "i \<le> 64" for i using that by (simp add: unat_of_nat)
  have "?k \<noteq> ULLONG_MAX" 
  proof
    assume "?k = ULLONG_MAX"
    then have "unat ?k = 2 ^ 64 - 1" by (simp only: unat_max_word)
    then show False using u[of "Suc m"] Suc.prems by simp
  qed
  moreover have "?k \<notin> dom (dl_map L)" 
  proof
    assume "?k \<in> dom (dl_map L)"
    then obtain i where "i \<le> m" "?k = word_of_nat i" unfolding s(4) by auto
    then show False using u[of "Suc m"] u[of i] Suc.prems by simp
  qed
  ultimately obtain m' L' s' where s': "m' \<le> 5" "(demo_step ^^ m') (Between, s) (Between, s')" "followed (99 - m) L' 1 s'"
    "dl_map L' = (dl_map L)(?k \<mapsto> 0)" "mlogAllocs s' \<le> Suc (mlogAllocs s)"
    using follow_insert[OF s(3), of ?k] s(5) Suc.prems by auto
  have "(demo_step ^^ (n + m')) (Between, system_new boot_list [] 1) (Between, s')" using s(2) s'(2) by (auto simp: relpowp_add)
  moreover have "dom (dl_map L') = word_of_nat ` {0..Suc m}" using s'(4) s(4) by (simp add: atLeast0_atMost_Suc)
  ultimately show ?case using s(1,5) s'(1,3,5) by (intro exI[of _ "n + m'"] exI[of _ s'] exI[of _ L']) simp
qed

text \<open>More than 64 keys do not fit into one node.\<close>

lemma two_anchors:
  assumes "dl_inv f L q s" "MAX_ENTRIES < card (dom (dl_map L))"
  shows "\<exists>k. logged_anchors L k \<noteq> None"
proof -
  obtain a n L1 where L: "L = (a, n) # L1" using assms(1) by (cases L) (auto simp: dl_inv_def)
  have ok: "slots_ok n" using assms(1) by (simp add: L dl_inv_def node_ok_def)
  have "card (nkeys n) \<le> card (nslots n)" by (simp add: node_keys_def card_image_le)
  then have "L1 \<noteq> []" using assms(2) card_nslots_le[of n] by (auto simp: L dom_node_map)
  then obtain b nb L2 where L1: "L1 = (b, nb) # L2" by (cases L1) auto
  have ch: "chain None 0 ([(a, n)] @ (b, nb) # L2) q ULLONG_MAX" using assms(1) by (simp add: L L1 dl_inv_def)
  have "min_k nb \<noteq> 0" using ch by auto
  then show ?thesis using anchor_at[OF ch] by (intro exI[of _ "min_k nb"]) (simp add: L L1 logged_anchors_def)
qed

theorem search_layer_converges_witness:
  "\<exists>n s L q. ((\<lambda>cs cs'. cstep (list_spsc 10000) 0 cs cs' \<and> calm (heap (snd cs'))) ^^ n) (Between, system_new boot_list [] 1) (Between, s) \<and>
     dl_inv 0 L q (heap s) \<and> leads_exactly 0 (heap s) L (sls s ! 0) \<and> sl_map (nodeKeyAt 0 (heap s)) (sls s ! 0) \<noteq> Map.empty"
proof -
  obtain n s L where s: "n \<le> 320" "(demo_step ^^ n) (Between, system_new boot_list [] 1) (Between, s)" "followed 36 L 1 s"
    "dom (dl_map L) = word_of_nat ` {0..64}" using follow_all[of 64] by auto
  have "inj_on (word_of_nat :: nat \<Rightarrow> Key_t) {0..64}" by (rule inj_on_inverseI[of _ unat]) (simp add: unat_of_nat)
  then have "card (dom (dl_map L)) = 65" unfolding s(4) by (simp add: card_image)
  then obtain k where k: "logged_anchors L k \<noteq> None"
    using two_anchors[of 36 L 1 "heap s"] s(3) by (auto simp: followed_def conv_inv_def list_at_def MAX_ENTRIES_def)
  have w: "in_step (\<lambda>x. x) 0 (Between, s)" "unat (logDoneCount (workers s ! 0)) = mlogAllocs s" "filled (heap s) = {#}"
    using s(3) conv_queues[of "\<lambda>x. x" 0 1 36 L 1 "[]" Between s] by (auto simp: followed_def in_step_def lim_def queues_ok_def)
  then have "behind_by 0 (heap s) (sls s ! 0) [] (logged_anchors L)" using s(3) by (auto simp: followed_def conv_inv_def owed_def)
  then have ne: "sl_map (nodeKeyAt 0 (heap s)) (sls s ! 0) k \<noteq> None" using behind_none k by (simp add: leads_exactly_def logged_anchors_def)
  have init: "LinkedList_initialize 0 boot = Inr (0, boot_list)"
    using LinkedList_initialize_ok[OF alloc_ok_boot, of 1000 0] by (auto simp: boot_list_def boot_def)
  have m: "nodes boot = Map.empty" "oplogs boot = Map.empty" "\<forall>i < nallocs boot + (0 + n + 2). nmalloc boot i < 2 ^ 63" "2 * (0 + n) + 2 < 2 ^ 64"
    using s(1) by (simp_all add: boot_def)
  obtain L' q where "dl_inv 0 L' q (heap s)" "leads_exactly 0 (heap s) L' (sls s ! 0)"
    using search_layer_converges[OF listq.spsc_queue_axioms _ m(1,2) alloc_ok_boot m(4,3) init s(2)] w by (auto simp: in_step_def)
  then show ?thesis using s(2) ne by (intro exI[of _ n] exI[of _ s] exI[of _ L'] exI[of _ q]) auto
qed

end
