(* ===== verification/KeyMemory.thy ===== *)
theory KeyMemory
  imports ArtKey
begin

text \<open>
  The class \<open>Key\<close> of \<open>lib/ARTROWEX/Key.h\<close> as an object in memory: keys of up to 128 bytes live in the
  object, longer ones in an array of their own that the object has to release. The rest of the
  development uses the bytes of a key only.
\<close>

section \<open>Definitions\<close>

definition stackLen :: nat where "stackLen = 128"

text \<open>Where \<open>data\<close> points to.\<close>

datatype key_data = StackData | HeapData addr | NullData

record key_obj =
  klen :: u32
  kdata :: key_data
  stackKey :: "u8 list"

text \<open>
  The arrays that \<open>new uint8_t[]\<close> has returned and nobody has released; \<open>kmalloc\<close> are the addresses of
  the successive arrays, \<open>kraw\<close> the bytes that were in their memory before.
\<close>

record key_mem =
  arrays :: "addr \<rightharpoonup> u8 list"
  kmalloc :: "nat \<Rightarrow> addr"
  kraw :: "nat \<Rightarrow> u8"
  kallocs :: nat

text \<open>\<open>new uint8_t[length]\<close>, and \<open>delete[]\<close>, which has no effect on a null pointer and is a fault on anything but an
  array that is there.\<close>

definition newArray :: "u8 list \<Rightarrow> key_mem \<Rightarrow> addr \<times> key_mem" where
  "newArray bs m = (let a = kmalloc m (kallocs m) in (a, m\<lparr>arrays := (arrays m)(a \<mapsto> bs), kallocs := kallocs m + 1\<rparr>))"

definition deleteArray :: "key_data \<Rightarrow> key_mem \<Rightarrow> key_mem option" where
  "deleteArray d m = (case d of
     NullData \<Rightarrow> Some m
   | StackData \<Rightarrow> None
   | HeapData a \<Rightarrow> if a \<in> dom (arrays m) then Some (m\<lparr>arrays := (arrays m)(a := None)\<rparr>) else None)"

text \<open>The guarded \<open>delete[]\<close> with which several operations begin.\<close>

definition releaseLong :: "key_obj \<Rightarrow> key_mem \<Rightarrow> key_mem option" where
  "releaseLong k m = (if stackLen < unat (klen k) then deleteArray (kdata k) m else Some m)"

text \<open>\<open>memcpy\<close> to the beginning of the array in the object.\<close>

definition toStack :: "u8 list \<Rightarrow> key_obj \<Rightarrow> key_obj" where
  "toStack bs k = k\<lparr>stackKey := bs @ drop (length bs) (stackKey k), kdata := StackData\<rparr>"

definition KeyObj_new :: "u8 list \<Rightarrow> key_data \<Rightarrow> key_obj" where
  "KeyObj_new junk d = \<lparr>klen = 0, kdata = d, stackKey = junk\<rparr>"

definition KeyObj_setInt :: "u64 \<Rightarrow> key_obj \<Rightarrow> key_obj" where
  "KeyObj_setInt i k = (toStack (Key_setInt i) k)\<lparr>klen := 8\<rparr>"

text \<open>\<open>set\<close>; the length is stored in 32 bits.\<close>

definition KeyObj_set :: "u8 list \<Rightarrow> key_obj \<Rightarrow> key_mem \<Rightarrow> (key_obj \<times> key_mem) option" where
  "KeyObj_set bs k m = (case releaseLong k m of
     None \<Rightarrow> None
   | Some m1 \<Rightarrow>
       if length bs \<le> stackLen then Some ((toStack bs k)\<lparr>klen := word_of_nat (length bs)\<rparr>, m1)
       else (let (a, m2) = newArray bs m1 in Some (k\<lparr>kdata := HeapData a, klen := word_of_nat (length bs)\<rparr>, m2)))"

text \<open>The bytes before the terminating zero of a string in memory.\<close>

definition strlen :: "u8 list \<Rightarrow> nat" where
  "strlen s = length (takeWhile (\<lambda>c. c \<noteq> 0) s)"

definition KeyObj_assign :: "u8 list \<Rightarrow> key_obj \<Rightarrow> key_mem \<Rightarrow> (key_obj \<times> key_mem) option" where
  "KeyObj_assign s k m = (case releaseLong k m of
     None \<Rightarrow> None
   | Some m1 \<Rightarrow>
       (let n = word_of_nat (strlen s) :: u32; bs = take (unat n) s in
        if unat n \<le> stackLen then Some ((toStack bs k)\<lparr>klen := n\<rparr>, m1)
        else (let (a, m2) = newArray bs m1 in Some (k\<lparr>kdata := HeapData a, klen := n\<rparr>, m2))))"

definition KeyObj_setKeyLen :: "u32 \<Rightarrow> key_obj \<Rightarrow> key_mem \<Rightarrow> (key_obj \<times> key_mem) option" where
  "KeyObj_setKeyLen newLen k m =
     (if klen k = newLen then Some (k, m)
      else (case releaseLong k m of
        None \<Rightarrow> None
      | Some m1 \<Rightarrow>
          if stackLen < unat newLen
          then (let (a, m2) = newArray (map (kraw m1) [0..<unat newLen]) m1 in Some (k\<lparr>klen := newLen, kdata := HeapData a\<rparr>, m2))
          else Some (k\<lparr>klen := newLen, kdata := StackData\<rparr>, m1)))"

text \<open>The move constructor: the new object, and the old one.\<close>

definition KeyObj_move :: "u8 list \<Rightarrow> key_obj \<Rightarrow> key_obj \<times> key_obj" where
  "KeyObj_move junk k =
     (if stackLen < unat (klen k)
      then (\<lparr>klen = klen k, kdata = kdata k, stackKey = junk\<rparr>, k\<lparr>kdata := NullData\<rparr>)
      else (\<lparr>klen = klen k, kdata = StackData, stackKey = take (unat (klen k)) (stackKey k) @ drop (unat (klen k)) junk\<rparr>, k))"

definition KeyObj_destroy :: "key_obj \<Rightarrow> key_mem \<Rightarrow> key_mem option" where
  "KeyObj_destroy k m = releaseLong k m"

text \<open>The bytes of the key.\<close>

definition key_bytes :: "key_obj \<Rightarrow> key_mem \<Rightarrow> u8 list option" where
  "key_bytes k m = (case kdata k of
     NullData \<Rightarrow> if klen k = 0 then Some [] else None
   | StackData \<Rightarrow> Some (take (unat (klen k)) (stackKey k))
   | HeapData a \<Rightarrow> map_option (take (unat (klen k))) (arrays m a))"

section \<open>Ownership\<close>

text \<open>
  The array that an object owns, and a well-formed object: an array is owned exactly if the key is long,
  and it has the length of the key. An object whose array was moved away owns nothing.
\<close>

definition owned :: "key_obj \<Rightarrow> addr set" where
  "owned k = (case kdata k of HeapData a \<Rightarrow> if stackLen < unat (klen k) then {a} else {} | _ \<Rightarrow> {})"

definition obj_ok :: "key_mem \<Rightarrow> key_obj \<Rightarrow> bool" where
  "obj_ok m k \<longleftrightarrow> length (stackKey k) = stackLen \<and>
     (if stackLen < unat (klen k)
      then kdata k = NullData \<or> (\<exists>a bs. kdata k = HeapData a \<and> arrays m a = Some bs \<and> length bs = unat (klen k))
      else klen k = 0 \<or> kdata k = StackData)"

definition kmem_ok :: "key_mem \<Rightarrow> bool" where
  "kmem_ok m \<longleftrightarrow> inj (kmalloc m) \<and> (\<forall>i. kallocs m \<le> i \<longrightarrow> kmalloc m i \<notin> dom (arrays m))"

lemma releaseLong_ok:
  assumes "obj_ok m k"
  shows "\<exists>m1. releaseLong k m = Some m1 \<and> arrays m1 = (arrays m) |` (- owned k) \<and> kmalloc m1 = kmalloc m \<and>
    kallocs m1 = kallocs m \<and> kraw m1 = kraw m"
  using assms by (auto simp: releaseLong_def deleteArray_def obj_ok_def owned_def restrict_map_def fun_eq_iff split: if_splits key_data.splits)

lemma kmem_ok_release: "kmem_ok m \<Longrightarrow> arrays m1 = (arrays m) |` X \<Longrightarrow> kmalloc m1 = kmalloc m \<Longrightarrow> kallocs m1 = kallocs m \<Longrightarrow> kmem_ok m1"
  by (auto simp: kmem_ok_def)

text \<open>
  An operation that gives the object the new contents \<open>bs\<close>, when \<open>m\<close> was the memory before: the object is well
  formed, its bytes are \<open>bs\<close>, and of the arrays only the one it owned is gone and only the one it owns is new.
\<close>

definition changed_to :: "u8 list \<Rightarrow> key_obj \<Rightarrow> key_mem \<Rightarrow> key_obj \<Rightarrow> key_mem \<Rightarrow> bool" where
  "changed_to bs k m k' m' \<longleftrightarrow> obj_ok m' k' \<and> kmem_ok m' \<and> key_bytes k' m' = Some bs \<and>
     dom (arrays m') = dom (arrays m) - owned k \<union> owned k' \<and>
     (\<forall>a. a \<notin> owned k \<union> owned k' \<longrightarrow> arrays m' a = arrays m a) \<and> owned k' \<inter> (dom (arrays m) - owned k) = {}"

lemma to_stack:
  assumes "obj_ok m k" "kmem_ok m" "releaseLong k m = Some m1" "length bs \<le> stackLen" "n = word_of_nat (length bs)"
  shows "changed_to bs k m ((toStack bs k)\<lparr>klen := n\<rparr>) m1"
proof -
  have m1: "arrays m1 = (arrays m) |` (- owned k)" "kmalloc m1 = kmalloc m" "kallocs m1 = kallocs m"
    using releaseLong_ok[OF assms(1)] assms(3) by auto
  have n: "unat n = length bs" using assms(4,5) by (simp add: unat_of_nat stackLen_def take_bit_nat_eq_self)
  have "length (stackKey k) = stackLen" using assms(1) by (simp add: obj_ok_def)
  then show ?thesis using n m1 assms(4) kmem_ok_release[OF assms(2) m1]
    by (auto simp: changed_to_def obj_ok_def toStack_def key_bytes_def owned_def stackLen_def)
qed

lemma to_heap:
  assumes "obj_ok m k" "kmem_ok m" "releaseLong k m = Some m1" "newArray bs m1 = (a, m2)" "unat n = length bs" "stackLen < length bs"
  shows "changed_to bs k m (k\<lparr>kdata := HeapData a, klen := n\<rparr>) m2"
proof -
  have m1: "arrays m1 = (arrays m) |` (- owned k)" "kmalloc m1 = kmalloc m" "kallocs m1 = kallocs m"
    using releaseLong_ok[OF assms(1)] assms(3) by auto
  have a: "a = kmalloc m (kallocs m)" "arrays m2 = (arrays m1)(a \<mapsto> bs)" "kmalloc m2 = kmalloc m" "kallocs m2 = Suc (kallocs m)"
    using assms(4) m1 by (auto simp: newArray_def Let_def)
  have fresh: "a \<notin> dom (arrays m)" using assms(2) a(1) by (simp add: kmem_ok_def)
  have "kmalloc m i \<notin> dom (arrays m2)" if "Suc (kallocs m) \<le> i" for i
  proof -
    have "kmalloc m i \<noteq> a" "kmalloc m i \<notin> dom (arrays m)" using that assms(2) a(1) by (auto simp: kmem_ok_def dest: injD)
    then show ?thesis using a(2) m1(1) by auto
  qed
  then have "kmem_ok m2" using assms(2) a(3,4) by (simp add: kmem_ok_def)
  moreover have "length (stackKey k) = stackLen" using assms(1) by (simp add: obj_ok_def)
  ultimately show ?thesis using assms(5,6) a(2) m1(1) fresh
    by (auto simp: changed_to_def obj_ok_def key_bytes_def owned_def restrict_map_def split: if_splits)
qed

lemma KeyObj_set_ok:
  assumes "obj_ok m k" "kmem_ok m" "length bs < 2 ^ 32"
  shows "\<exists>k' m'. KeyObj_set bs k m = Some (k', m') \<and> changed_to bs k m k' m'"
proof -
  obtain m1 where m1: "releaseLong k m = Some m1" using releaseLong_ok[OF assms(1)] by blast
  obtain a m2 where n: "newArray bs m1 = (a, m2)" by fastforce
  have "unat (word_of_nat (length bs) :: u32) = length bs" using assms(3) by (simp add: unat_of_nat take_bit_nat_eq_self)
  then show ?thesis using to_stack[OF assms(1,2) m1, of bs] to_heap[OF assms(1,2) m1 n] m1 n by (auto simp: KeyObj_set_def)
qed

lemma strlen_le: "strlen s \<le> length s"
  unfolding strlen_def by (rule length_takeWhile_le)

lemma KeyObj_assign_ok:
  assumes "obj_ok m k" "kmem_ok m" "strlen s < 2 ^ 32"
  shows "\<exists>k' m'. KeyObj_assign s k m = Some (k', m') \<and> changed_to (take (strlen s) s) k m k' m'"
proof -
  obtain m1 where m1: "releaseLong k m = Some m1" using releaseLong_ok[OF assms(1)] by blast
  obtain a m2 where n: "newArray (take (strlen s) s) m1 = (a, m2)" by fastforce
  have u: "unat (word_of_nat (strlen s) :: u32) = strlen s" using assms(3) by (simp add: unat_of_nat take_bit_nat_eq_self)
  have l: "length (take (strlen s) s) = strlen s" using strlen_le[of s] by simp
  show ?thesis
  proof (cases "strlen s \<le> stackLen")
    case True
    then show ?thesis using to_stack[OF assms(1,2) m1, of "take (strlen s) s"] m1 l u by (simp add: KeyObj_assign_def Let_def)
  next
    case False
    have "changed_to (take (strlen s) s) k m (k\<lparr>kdata := HeapData a, klen := word_of_nat (strlen s)\<rparr>) m2"
      by (rule to_heap[OF assms(1,2) m1 n]) (use False u l in simp_all)
    then show ?thesis using m1 u n False by (simp add: KeyObj_assign_def Let_def)
  qed
qed

text \<open>\<open>setKeyLen\<close> to a new length loses the bytes of the key unless they are in the object.\<close>

lemma KeyObj_setKeyLen_ok:
  assumes "obj_ok m k" "kmem_ok m" "klen k \<noteq> l"
  shows "\<exists>k' m' bs. KeyObj_setKeyLen l k m = Some (k', m') \<and> klen k' = l \<and> length bs = unat l \<and> changed_to bs k m k' m'"
proof -
  obtain m1 where m1: "releaseLong k m = Some m1" using releaseLong_ok[OF assms(1)] by blast
  let ?bs = "map (kraw m1) [0..<unat l]"
  obtain a m2 where n: "newArray ?bs m1 = (a, m2)" by fastforce
  show ?thesis
  proof (cases "stackLen < unat l")
    case True
    have "changed_to ?bs k m (k\<lparr>kdata := HeapData a, klen := l\<rparr>) m2"
      by (rule to_heap[OF assms(1,2) m1 n]) (use True in simp_all)
    moreover have "KeyObj_setKeyLen l k m = Some (k\<lparr>kdata := HeapData a, klen := l\<rparr>, m2)"
      using assms(3) m1 n True by (simp add: KeyObj_setKeyLen_def)
    ultimately show ?thesis by (intro exI conjI) auto
  next
    case False
    let ?b = "take (unat l) (stackKey k)"
    have len: "length ?b = unat l" using assms(1) False by (simp add: obj_ok_def)
    have "(toStack ?b k)\<lparr>klen := l\<rparr> = k\<lparr>klen := l, kdata := StackData\<rparr>" using len by (simp add: toStack_def)
    moreover have "changed_to ?b k m ((toStack ?b k)\<lparr>klen := l\<rparr>) m1"
      by (rule to_stack[OF assms(1,2) m1]) (use len False in simp_all)
    ultimately have "changed_to ?b k m (k\<lparr>klen := l, kdata := StackData\<rparr>) m1" by simp
    moreover have "KeyObj_setKeyLen l k m = Some (k\<lparr>klen := l, kdata := StackData\<rparr>, m1)"
      using assms(3) m1 False by (simp add: KeyObj_setKeyLen_def)
    ultimately show ?thesis using len by fastforce
  qed
qed

lemma KeyObj_move_ok:
  assumes "obj_ok m k" "kmem_ok m" "length junk = stackLen" "key_bytes k m = Some bs" "KeyObj_move junk k = (k1, k2)"
  shows "obj_ok m k1 \<and> obj_ok m k2 \<and> key_bytes k1 m = Some bs \<and> owned k1 = owned k \<and> (owned k2 \<inter> owned k1 = {})"
proof (cases "stackLen < unat (klen k)")
  case True
  then have "k1 = \<lparr>klen = klen k, kdata = kdata k, stackKey = junk\<rparr>" "k2 = k\<lparr>kdata := NullData\<rparr>"
    using assms(5) by (auto simp: KeyObj_move_def)
  then show ?thesis using assms(1,3,4) True by (auto simp: obj_ok_def key_bytes_def owned_def)
next
  case False
  then have k: "k1 = \<lparr>klen = klen k, kdata = StackData, stackKey = take (unat (klen k)) (stackKey k) @ drop (unat (klen k)) junk\<rparr>" "k2 = k"
    using assms(5) by (auto simp: KeyObj_move_def)
  have "bs = take (unat (klen k)) (stackKey k)"
    using assms(1,4) False by (auto simp: obj_ok_def key_bytes_def split: key_data.splits if_splits)
  then show ?thesis using assms(1,3) False k by (auto simp: obj_ok_def key_bytes_def owned_def stackLen_def split: key_data.splits)
qed

text \<open>\<open>setInt\<close> does not release the array of a long key.\<close>

lemma KeyObj_setInt_leaks:
  assumes "obj_ok m k" "kdata k = HeapData a" "stackLen < unat (klen k)"
  shows "obj_ok m (KeyObj_setInt i k) \<and> key_bytes (KeyObj_setInt i k) m = Some (Key_setInt i) \<and>
    a \<in> dom (arrays m) \<and> a \<in> owned k \<and> owned (KeyObj_setInt i k) = {}"
  using assms by (auto simp: obj_ok_def KeyObj_setInt_def toStack_def key_bytes_def owned_def stackLen_def)

section \<open>Property\<close>

text \<open>C39. Every operation of a key object but \<open>setInt\<close> releases the array of a long key exactly once: \<open>set\<close> and
  \<open>operator=\<close> never free anything else, allocate exactly what a long key needs and leave
  the given bytes in the key, if their number fits into 32 bits; the move constructor hands the array on
  and the moved object owns nothing; after the destructor the arrays of all other keys are there.\<close>

theorem key_memory_ok:
  assumes "obj_ok m k" "kmem_ok m" "length bs < 2 ^ 32"
  shows "(\<exists>k' m'. KeyObj_set bs k m = Some (k', m') \<and> obj_ok m' k' \<and> kmem_ok m' \<and> key_bytes k' m' = Some bs \<and>
      dom (arrays m') = dom (arrays m) - owned k \<union> owned k') \<and>
    (\<exists>k' m'. KeyObj_assign (bs @ [0]) k m = Some (k', m') \<and> obj_ok m' k' \<and> kmem_ok m' \<and>
      key_bytes k' m' = Some (takeWhile (\<lambda>c. c \<noteq> 0) bs) \<and> dom (arrays m') = dom (arrays m) - owned k \<union> owned k') \<and>
    (\<forall>l. \<exists>k' m'. KeyObj_setKeyLen l k m = Some (k', m') \<and> obj_ok m' k' \<and> kmem_ok m' \<and> klen k' = l \<and>
      dom (arrays m') = dom (arrays m) - owned k \<union> owned k') \<and>
    (\<forall>junk k1 k2. length junk = stackLen \<longrightarrow> KeyObj_move junk k = (k1, k2) \<longrightarrow> key_bytes k m \<noteq> None \<longrightarrow>
      obj_ok m k1 \<and> obj_ok m k2 \<and> key_bytes k1 m = key_bytes k m \<and> owned k1 = owned k \<and> owned k2 \<inter> owned k1 = {}) \<and>
    (\<exists>m'. KeyObj_destroy k m = Some m' \<and> dom (arrays m') = dom (arrays m) - owned k)"
proof (intro conjI allI impI)
  show "\<exists>k' m'. KeyObj_set bs k m = Some (k', m') \<and> obj_ok m' k' \<and> kmem_ok m' \<and> key_bytes k' m' = Some bs \<and>
      dom (arrays m') = dom (arrays m) - owned k \<union> owned k'"
    using KeyObj_set_ok[OF assms] unfolding changed_to_def by blast
  have tw: "take (strlen (bs @ [0])) (bs @ [0]) = takeWhile (\<lambda>c. c \<noteq> 0) bs"
    unfolding strlen_def takeWhile_eq_take[symmetric] by (induction bs) auto
  have "strlen (bs @ [0]) \<le> length bs" unfolding strlen_def by (induction bs) auto
  then have "strlen (bs @ [0]) < 2 ^ 32" using assms(3) by linarith
  from KeyObj_assign_ok[OF assms(1,2) this] show "\<exists>k' m'. KeyObj_assign (bs @ [0]) k m = Some (k', m') \<and> obj_ok m' k' \<and> kmem_ok m' \<and>
      key_bytes k' m' = Some (takeWhile (\<lambda>c. c \<noteq> 0) bs) \<and> dom (arrays m') = dom (arrays m) - owned k \<union> owned k'"
    unfolding changed_to_def tw by blast
  show "\<exists>k' m'. KeyObj_setKeyLen l k m = Some (k', m') \<and> obj_ok m' k' \<and> kmem_ok m' \<and> klen k' = l \<and>
      dom (arrays m') = dom (arrays m) - owned k \<union> owned k'" for l
  proof (cases "klen k = l")
    case True
    have "owned k \<subseteq> dom (arrays m)" using assms(1) by (auto simp: owned_def obj_ok_def split: key_data.splits if_splits)
    then have "dom (arrays m) - owned k \<union> owned k = dom (arrays m)" by blast
    then show ?thesis using assms(1,2) True by (auto simp: KeyObj_setKeyLen_def)
  next
    case False
    from KeyObj_setKeyLen_ok[OF assms(1,2) this] show ?thesis unfolding changed_to_def by blast
  qed
  show "\<exists>m'. KeyObj_destroy k m = Some m' \<and> dom (arrays m') = dom (arrays m) - owned k"
    using releaseLong_ok[OF assms(1)] by (auto simp: KeyObj_destroy_def)
  fix junk k1 k2
  assume "length junk = stackLen" "KeyObj_move junk k = (k1, k2)" "key_bytes k m \<noteq> None"
  then obtain b where "key_bytes k m = Some b" by blast
  note mv = KeyObj_move_ok[OF assms(1,2) \<open>length junk = stackLen\<close> this \<open>KeyObj_move junk k = (k1, k2)\<close>]
  show "obj_ok m k1" "obj_ok m k2" "owned k1 = owned k" "owned k2 \<inter> owned k1 = {}" using mv by auto
  show "key_bytes k1 m = key_bytes k m" using mv \<open>key_bytes k m = Some b\<close> by simp
qed

theorem key_memory_ok_witness:
  "\<exists>k' m'. KeyObj_set [1, 2] (KeyObj_new (replicate 128 0) NullData) \<lparr>arrays = Map.empty, kmalloc = id, kraw = (\<lambda>_. 0), kallocs = 0\<rparr> =
     Some (k', m') \<and> key_bytes k' m' = Some [1, 2] \<and> dom (arrays m') = owned k'"
proof -
  let ?k = "KeyObj_new (replicate 128 0) NullData" and ?m = "\<lparr>arrays = Map.empty, kmalloc = id, kraw = (\<lambda>_. 0), kallocs = 0\<rparr>"
  have ok: "obj_ok ?m ?k" by (simp add: obj_ok_def KeyObj_new_def stackLen_def)
  have mem: "kmem_ok ?m" by (simp add: kmem_ok_def)
  have "length [1, 2 :: u8] < 2 ^ 32" by simp
  from key_memory_ok[OF ok mem this, THEN conjunct1] show ?thesis by (simp add: ex_simps del: length_replicate) blast
qed

end
