(* ===== verification/EpocheEnd.thy ===== *)
theory EpocheEnd
  imports EpocheTheorems
begin

text \<open>
  The end of the memory reclamation: the destructor of \<open>Epoche\<close> with those of its deletion lists, which
  assert that they are empty, and the guards around an operation on the tree.
\<close>

section \<open>Definitions\<close>

text \<open>The guards: the read-only one leaves the epoch to the destructor of \<open>ThreadInfo\<close>.\<close>

definition EpocheGuard_exit :: "nat \<Rightarrow> Epoche \<Rightarrow> addr list \<times> Epoche" where
  "EpocheGuard_exit t e = exitEpocheAndCleanup t e"

definition EpocheGuardReadonly_exit :: "nat \<Rightarrow> Epoche \<Rightarrow> Epoche" where
  "EpocheGuardReadonly_exit t e = e"

definition DeletionList_destroy :: "DeletionList \<Rightarrow> LabelDelete list option" where
  "DeletionList_destroy d =
     (if deletitionListCount d = 0 \<and> headDeletionList d = [] then Some (freeLabelDeletes d) else None)"

text \<open>The loop of \<open>Epoche::~Epoche\<close> over one list, \<open>prev\<close> being null all the time.\<close>

function release_loop :: "u64 \<Rightarrow> DeletionList \<Rightarrow> (addr list \<times> DeletionList) option" where
  "release_loop oldest d = (case headDeletionList d of
     [] \<Rightarrow> Some ([], d)
   | l # ls \<Rightarrow>
       if epoche l < oldest then map_option (apfst ((@) (lnodes l))) (release_loop oldest (DeletionList_remove 0 d))
       else None)"
  by pat_completeness auto
termination
  by (relation "measure (\<lambda>(oldest, d). length (headDeletionList d))") (auto simp: DeletionList_remove_def Let_def)

declare release_loop.simps [simp del]

text \<open>The nodes that are freed and the labels that are deleted.\<close>

definition Epoche_end :: "Epoche \<Rightarrow> (addr list \<times> LabelDelete list) option" where
  "Epoche_end e = (let oldest = oldestEpoche (deletionLists e) in
     case those (map (release_loop oldest) (deletionLists e)) of
       None \<Rightarrow> None
     | Some rs \<Rightarrow> map_option (\<lambda>ls. (concat (map fst rs), concat ls)) (those (map (DeletionList_destroy \<circ> snd) rs)))"

section \<open>The counter of a deletion list\<close>

definition counted :: "DeletionList \<Rightarrow> bool" where
  "counted d \<longleftrightarrow> deletitionListCount d = word_of_nat (length (concat (map lnodes (headDeletionList d))))"

lemma counted_new: "counted (DeletionList_new junk)"
  by (simp add: counted_def DeletionList_new_def)

lemma counted_add: "counted d \<Longrightarrow> counted (DeletionList_add n g d)"
  by (cases "headDeletionList d"; cases "freeLabelDeletes d")
    (auto simp: counted_def DeletionList_add_def pushLabel_def Let_def)

lemma counted_remove:
  assumes "counted d" "i < length (headDeletionList d)"
  shows "counted (DeletionList_remove i d)"
proof -
  define A l B where "A = take i (headDeletionList d)" and "l = headDeletionList d ! i" and "B = drop (Suc i) (headDeletionList d)"
  have "headDeletionList d = A @ l # B" unfolding A_def l_def B_def by (rule id_take_nth_drop[OF assms(2)])
  then have "length (concat (map lnodes (headDeletionList d))) = length (lnodes l) + length (concat (map lnodes (A @ B)))" by simp
  then show ?thesis using assms(1)
    unfolding counted_def DeletionList_remove_def Let_def A_def[symmetric] l_def[symmetric] B_def[symmetric] by simp
qed

lemma counted_cleanup: "counted d \<Longrightarrow> counted (fst (cleanup_loop oldest i (d, freed)))"
proof (induction oldest i "(d, freed)" arbitrary: d freed rule: cleanup_loop.induct)
  case (1 oldest i d freed)
  then show ?case by (subst cleanup_loop.simps) (auto simp: Let_def counted_remove)
qed

lemma release_loop_ok:
  assumes "counted d" "\<forall>l \<in> set (headDeletionList d). epoche l < oldest"
  shows "\<exists>d'. release_loop oldest d = Some (concat (map lnodes (headDeletionList d)), d') \<and> headDeletionList d' = [] \<and> counted d'"
  using assms
proof (induction oldest d rule: release_loop.induct)
  case (1 oldest d)
  show ?case
  proof (cases "headDeletionList d")
    case Nil
    then show ?thesis using 1 by (subst release_loop.simps) simp
  next
    case (Cons l ls)
    have "headDeletionList (DeletionList_remove 0 d) = ls" by (simp add: DeletionList_remove_def Let_def Cons)
    then show ?thesis using "1.IH"[OF Cons] counted_remove[OF "1.prems"(1), of 0] "1.prems"(2) Cons
      by (subst release_loop.simps) auto
  qed
qed

text \<open>
  When no thread works in an old epoch, the destructor frees every node that is still waiting exactly once, and
  the assertions of the deletion lists hold.
\<close>

lemma those_all: "(\<And>x. x \<in> set xs \<Longrightarrow> \<exists>y. f x = Some y \<and> P x y) \<Longrightarrow> \<exists>ys. those (map f xs) = Some ys \<and> list_all2 P xs ys"
  by (induction xs) fastforce+

lemma Epoche_end_ok:
  assumes "\<forall>d \<in> set (deletionLists e). counted d"
    and "\<forall>d \<in> set (deletionLists e). \<forall>l \<in> set (headDeletionList d). epoche l < oldestEpoche (deletionLists e)"
  shows "\<exists>labels. Epoche_end e = Some (concat (map lnodes (concat (map headDeletionList (deletionLists e)))), labels)"
proof -
  let ?o = "oldestEpoche (deletionLists e)"
  let ?P = "\<lambda>d r. fst r = concat (map lnodes (headDeletionList d)) \<and> headDeletionList (snd r) = [] \<and> counted (snd r)"
  have "\<exists>rs. those (map (release_loop ?o) (deletionLists e)) = Some rs \<and> list_all2 ?P (deletionLists e) rs"
    by (rule those_all) (use release_loop_ok assms in fastforce)
  then obtain rs where rs: "those (map (release_loop ?o) (deletionLists e)) = Some rs" "list_all2 ?P (deletionLists e) rs" by blast
  have "\<exists>y. (DeletionList_destroy \<circ> snd) r = Some y \<and> True" if "r \<in> set rs" for r
    using rs(2) that by (auto simp: list_all2_conv_all_nth in_set_conv_nth DeletionList_destroy_def counted_def)
  from those_all[where f = "DeletionList_destroy \<circ> snd" and P = "\<lambda>_ _. True", OF this] obtain ls where "those (map (DeletionList_destroy \<circ> snd) rs) = Some ls" by blast
  moreover have "concat (map fst rs) = concat (map lnodes (concat (map headDeletionList (deletionLists e))))"
    using rs(2) by (induction rule: list_all2_induct) auto
  ultimately show ?thesis using rs(1) by (simp add: Epoche_end_def)
qed

end
