(* ===== verification/Startup.thy ===== *)
theory Startup
  imports HydraList
begin

text \<open>
  The beginning and the end of an index, \<open>HydraList.cpp\<close>: the constructor creates the worker threads and
  waits until each has built the search layer of its NUMA node, the destructor deletes the search layers.
  The two sides talk through the global arrays \<open>threadInitialized\<close> and \<open>slReady\<close>. Also here: the
  interface \<open>HydraList.h\<close>.
\<close>

section \<open>Definitions\<close>

subsection \<open>Placing the threads\<close>

text \<open>
  \<open>pinThread\<close>: the processors on which a thread may run. The table \<open>OS_CPU_ID\<close>, indexed by socket, core
  of the socket and hardware thread of the core, and its sizes are generated for the machine.
\<close>

definition pinThread :: "nat \<Rightarrow> nat \<Rightarrow> nat \<Rightarrow> (nat \<Rightarrow> nat \<Rightarrow> nat \<Rightarrow> int) \<Rightarrow> nat \<Rightarrow> fault + int list" where
  "pinThread NUM_SOCKET NUM_PHYSICAL_CPU_PER_SOCKET SMT_LEVEL OS_CPU_ID numaId =
     (if numaId < NUM_SOCKET \<and> (SMT_LEVEL = 0 \<or> NUM_SOCKET \<le> NUM_PHYSICAL_CPU_PER_SOCKET)
      then Inr (concat (map (\<lambda>i. map (\<lambda>j. OS_CPU_ID numaId i j) [0..<SMT_LEVEL]) [0..<NUM_SOCKET]))
      else Inl BadAccess)"

subsection \<open>The handshake\<close>

text \<open>A pointer of \<open>g_perNumaSlPtr\<close>, which outlives the search layer.\<close>

datatype sl_ptr = SlNull | SlDangling | SlPtr ArtRowexIndex

text \<open>
  Where the constructor is: before it creates worker \<open>i\<close>; before it lets it go; waiting for search layer \<open>i\<close>;
  at its end. Where a worker is: not created; waiting to be let go; before, between and after building
  its search layer and saying so.
\<close>

datatype main_pc = MCreate nat | MCreated nat | MWait nat | MDone

datatype worker_pc = WNone | WStarted | WNotReady | WBuilt | WRunning

record startup =
  threadInitialized :: "bool list"
  slReady :: "bool list"
  slPtrs :: "sl_ptr list"
  mpc :: main_pc
  wpcs :: "worker_pc list"
  aborted :: bool

definition afterCreate :: "nat \<Rightarrow> nat \<Rightarrow> main_pc" where
  "afterCreate n i = (if Suc i < n then MCreate (Suc i) else MWait 0)"

text \<open>A thread that is in one of the two busy-waiting loops and has to go on waiting.\<close>

datatype startup_thread = Main | Worker nat

fun waits :: "startup_thread \<Rightarrow> startup \<Rightarrow> bool" where
  "waits Main s \<longleftrightarrow> (case mpc s of MWait i \<Rightarrow> i < length (wpcs s) \<and> \<not> slReady s ! i | _ \<Rightarrow> False)"
| "waits (Worker i) s \<longleftrightarrow> i < length (wpcs s) \<and> wpcs s ! i = WStarted \<and> \<not> threadInitialized s ! i"

text \<open>
  The steps of the threads, each with the thread that takes it. \<open>numa i\<close> is the NUMA node of the processor on
  which worker \<open>i\<close> runs when it checks that, \<open>numa_node_of_cpu(sched_getcpu())\<close>; a failing assertion ends
  the process. A turn in a busy-waiting loop is a step that changes nothing.
\<close>

inductive ustep :: "(nat \<Rightarrow> nat) \<Rightarrow> startup_thread \<Rightarrow> startup \<Rightarrow> startup \<Rightarrow> bool" for numa where
  Create: "\<not> aborted s \<Longrightarrow> mpc s = MCreate i \<Longrightarrow> i < length (wpcs s) \<Longrightarrow>
    ustep numa Main s (s\<lparr>threadInitialized := (threadInitialized s)[i := False], wpcs := (wpcs s)[i := WStarted], mpc := MCreated i\<rparr>)"
| LetGo: "\<not> aborted s \<Longrightarrow> mpc s = MCreated i \<Longrightarrow>
    ustep numa Main s (s\<lparr>threadInitialized := (threadInitialized s)[i := True], mpc := afterCreate (length (wpcs s)) i\<rparr>)"
| Begin: "\<not> aborted s \<Longrightarrow> i < length (wpcs s) \<Longrightarrow> wpcs s ! i = WStarted \<Longrightarrow> threadInitialized s ! i \<Longrightarrow>
    ustep numa (Worker i) s (s\<lparr>slReady := (slReady s)[i := False], wpcs := (wpcs s)[i := WNotReady]\<rparr>)"
| Misplaced: "\<not> aborted s \<Longrightarrow> i < length (wpcs s) \<Longrightarrow> wpcs s ! i = WNotReady \<Longrightarrow> numa i \<noteq> i \<Longrightarrow>
    ustep numa (Worker i) s (s\<lparr>aborted := True\<rparr>)"
| Build: "\<not> aborted s \<Longrightarrow> i < length (wpcs s) \<Longrightarrow> wpcs s ! i = WNotReady \<Longrightarrow> numa i = i \<Longrightarrow>
    ustep numa (Worker i) s (s\<lparr>slPtrs := (slPtrs s)[i := SlPtr SL_new], wpcs := (wpcs s)[i := WBuilt]\<rparr>)"
| Announce: "\<not> aborted s \<Longrightarrow> i < length (wpcs s) \<Longrightarrow> wpcs s ! i = WBuilt \<Longrightarrow>
    ustep numa (Worker i) s (s\<lparr>slReady := (slReady s)[i := True], wpcs := (wpcs s)[i := WRunning]\<rparr>)"
| Ready: "\<not> aborted s \<Longrightarrow> mpc s = MWait i \<Longrightarrow> i < length (wpcs s) \<Longrightarrow> slReady s ! i \<Longrightarrow> ustep numa Main s (s\<lparr>mpc := MWait (Suc i)\<rparr>)"
| Return: "\<not> aborted s \<Longrightarrow> mpc s = MWait (length (wpcs s)) \<Longrightarrow> ustep numa Main s (s\<lparr>mpc := MDone\<rparr>)"
| Spin: "\<not> aborted s \<Longrightarrow> waits p s \<Longrightarrow> ustep numa p s s"

abbreviation any_step :: "(nat \<Rightarrow> nat) \<Rightarrow> startup \<Rightarrow> startup \<Rightarrow> bool" where
  "any_step numa s s' \<equiv> \<exists>p. ustep numa p s s'"

text \<open>
  A schedule that goes on for ever: \<open>who k\<close> takes step \<open>k\<close>; when nobody can take a step the state stays. It
  is fair if no thread that could go on is left out from some point on.
\<close>

definition start_run :: "(nat \<Rightarrow> nat) \<Rightarrow> startup \<Rightarrow> (nat \<Rightarrow> startup_thread) \<Rightarrow> (nat \<Rightarrow> startup) \<Rightarrow> bool" where
  "start_run numa s0 who r \<longleftrightarrow> r 0 = s0 \<and>
     (\<forall>k. ustep numa (who k) (r k) (r (Suc k)) \<or> r (Suc k) = r k \<and> (\<forall>p s'. \<not> ustep numa p (r k) s'))"

definition fair_run :: "(nat \<Rightarrow> nat) \<Rightarrow> (nat \<Rightarrow> startup_thread) \<Rightarrow> (nat \<Rightarrow> startup) \<Rightarrow> bool" where
  "fair_run numa who r \<longleftrightarrow> (\<forall>p k. \<exists>j \<ge> k. who j = p \<or> (\<forall>s'. \<not> ustep numa p (r j) s'))"

text \<open>The state in which the constructor for \<open>n\<close> NUMA nodes begins, with the global arrays as they are.\<close>

definition startup_begin :: "nat \<Rightarrow> bool list \<Rightarrow> bool list \<Rightarrow> sl_ptr list \<Rightarrow> startup" where
  "startup_begin n init ready ptrs = \<lparr>threadInitialized = init, slReady = ready, slPtrs = ptrs,
     mpc = (if 0 < n then MCreate 0 else MWait 0), wpcs = replicate n WNone, aborted = False\<rparr>"

text \<open>The destructor joins all threads and deletes the search layers; the flags stay as they are.\<close>

definition HydraListImpl_destroy :: "startup \<Rightarrow> startup" where
  "HydraListImpl_destroy s = s\<lparr>slPtrs := map (\<lambda>_. SlDangling) (slPtrs s), wpcs := map (\<lambda>_. WNone) (wpcs s)\<rparr>"

subsection \<open>The interface\<close>

definition HydraListApi_insert :: "Key_t \<Rightarrow> u64 \<Rightarrow> Key_t \<Rightarrow> Val_t \<Rightarrow> thread_local \<Rightarrow> HydraListImpl \<Rightarrow> (bool \<times> thread_local \<times> HydraListImpl) outcome" where
  "HydraListApi_insert junk aux k v tls hl = HydraList_insert junk aux k v tls hl"

definition HydraListApi_update :: "Key_t \<Rightarrow> u64 \<Rightarrow> Key_t \<Rightarrow> Val_t \<Rightarrow> thread_local \<Rightarrow> HydraListImpl \<Rightarrow> (bool \<times> thread_local \<times> HydraListImpl) outcome" where
  "HydraListApi_update junk aux k v tls hl = HydraList_update junk aux k v tls hl"

definition HydraListApi_lookup :: "Key_t \<Rightarrow> u64 \<Rightarrow> Val_t \<Rightarrow> Key_t \<Rightarrow> thread_local \<Rightarrow> HydraListImpl \<Rightarrow> (Val_t \<times> thread_local \<times> HydraListImpl) outcome" where
  "HydraListApi_lookup junk aux val k tls hl = HydraList_lookup junk aux val k tls hl"

text \<open>\<open>remove\<close> is declared to return a value and converts the flag.\<close>

definition HydraListApi_remove :: "Key_t \<Rightarrow> u64 \<Rightarrow> Key_t \<Rightarrow> thread_local \<Rightarrow> HydraListImpl \<Rightarrow> (Val_t \<times> thread_local \<times> HydraListImpl) outcome" where
  "HydraListApi_remove junk aux k tls hl =
     map_option (map_sum id (\<lambda>(r, tls', hl'). (of_bool r, tls', hl'))) (HydraList_remove junk aux k tls hl)"

definition HydraListApi_scan :: "Key_t \<Rightarrow> u64 \<Rightarrow> Key_t \<Rightarrow> int \<Rightarrow> thread_local \<Rightarrow> HydraListImpl \<Rightarrow>
    ((u64 \<times> Val_t list) \<times> thread_local \<times> HydraListImpl) outcome" where
  "HydraListApi_scan junk aux k rng tls hl = HydraList_scan junk aux k rng tls hl"

text \<open>
  The outer loop of \<open>pinThread\<close> runs over sockets where the table has the cores of one socket: a thread gets the
  hardware threads of the first \<open>NUM_SOCKET\<close> cores, whatever the number of cores is.
\<close>

lemma pinThread_cores:
  assumes "numaId < NUM_SOCKET" "NUM_SOCKET \<le> NUM_PHYSICAL_CPU_PER_SOCKET"
  shows "\<exists>cpus. pinThread NUM_SOCKET NUM_PHYSICAL_CPU_PER_SOCKET SMT_LEVEL OS_CPU_ID numaId = Inr cpus \<and>
    set cpus = {OS_CPU_ID numaId i j |i j. i < NUM_SOCKET \<and> j < SMT_LEVEL}"
  using assms by (auto simp: pinThread_def) blast

section \<open>The constructor waits for its workers\<close>

text \<open>
  A flag is set exactly if its worker has built its search layer and said so; the constructor has
  passed only such flags.
\<close>

definition built :: "startup \<Rightarrow> nat \<Rightarrow> bool" where
  "built s i \<longleftrightarrow> wpcs s ! i = WRunning \<and> slPtrs s ! i = SlPtr SL_new"

text \<open>The workers that the constructor has let go.\<close>

fun let_go :: "main_pc \<Rightarrow> nat \<Rightarrow> bool" where
  "let_go (MCreate j) i = (i < j)"
| "let_go (MCreated j) i = (i < j)"
| "let_go _ i = True"

fun main_ok :: "nat \<Rightarrow> startup \<Rightarrow> main_pc \<Rightarrow> bool" where
  "main_ok n s (MCreate j) \<longleftrightarrow> j < n \<and> (\<forall>i < n. j \<le> i \<longrightarrow> wpcs s ! i = WNone)"
| "main_ok n s (MCreated j) \<longleftrightarrow> j < n \<and> wpcs s ! j \<noteq> WNone \<and> (\<forall>i < n. j < i \<longrightarrow> wpcs s ! i = WNone)"
| "main_ok n s (MWait j) \<longleftrightarrow> j \<le> n \<and> (\<forall>i < j. built s i)"
| "main_ok n s MDone \<longleftrightarrow> (\<forall>i < n. built s i)"

definition start_inv :: "nat \<Rightarrow> startup \<Rightarrow> bool" where
  "start_inv n s \<longleftrightarrow> \<not> aborted s \<and> length (wpcs s) = n \<and> length (slReady s) = n \<and> length (slPtrs s) = n \<and> length (threadInitialized s) = n \<and>
     (\<forall>i < n. wpcs s ! i \<in> {WBuilt, WRunning} \<longrightarrow> slPtrs s ! i = SlPtr SL_new) \<and>
     (\<forall>i < n. slReady s ! i \<longleftrightarrow> wpcs s ! i = WRunning) \<and>
     (\<forall>i < n. let_go (mpc s) i \<longrightarrow> threadInitialized s ! i \<and> wpcs s ! i \<noteq> WNone) \<and> main_ok n s (mpc s)"

text \<open>The workers run where they were put.\<close>

definition placed :: "(nat \<Rightarrow> nat) \<Rightarrow> nat \<Rightarrow> bool" where
  "placed numa n \<longleftrightarrow> (\<forall>i < n. numa i = i)"

lemma start_inv_step: "ustep numa p s s' \<Longrightarrow> placed numa n \<Longrightarrow> start_inv n s \<Longrightarrow> start_inv n s'"
proof (induction rule: ustep.induct)
  case (Create s i)
  then show ?case by (auto simp: start_inv_def built_def nth_list_update)
next
  case (LetGo s i)
  then show ?case by (auto simp: start_inv_def built_def afterCreate_def nth_list_update less_Suc_eq split: if_splits)
next
  case (Begin s i)
  then show ?case by (cases "mpc s") (auto simp: start_inv_def built_def nth_list_update)
next
  case (Misplaced s i)
  then show ?case by (auto simp: start_inv_def placed_def)
next
  case (Build s i)
  then show ?case by (cases "mpc s") (auto simp: start_inv_def built_def nth_list_update)
next
  case (Announce s i)
  then show ?case by (cases "mpc s") (auto simp: start_inv_def built_def nth_list_update)
next
  case (Ready s i)
  then show ?case by (auto simp: start_inv_def built_def less_Suc_eq)
next
  case (Return s)
  then show ?case by (auto simp: start_inv_def built_def)
qed

lemma start_inv_begin:
  assumes "length init = n" "length ptrs = n"
  shows "start_inv n (startup_begin n init (replicate n False) ptrs)"
  using assms by (auto simp: start_inv_def startup_begin_def)

lemma start_inv_reach: "(any_step numa)\<^sup>*\<^sup>* s s' \<Longrightarrow> placed numa n \<Longrightarrow> start_inv n s \<Longrightarrow> start_inv n s'"
  by (induction rule: rtranclp_induct) (auto intro: start_inv_step)

text \<open>Every step but those of waiting is one unit of work.\<close>

fun main_work :: "nat \<Rightarrow> main_pc \<Rightarrow> nat" where
  "main_work n (MCreate i) = 2 * i"
| "main_work n (MCreated i) = 2 * i + 1"
| "main_work n (MWait i) = 2 * n + i"
| "main_work n MDone = 3 * n + 1"

fun worker_work :: "worker_pc \<Rightarrow> nat" where
  "worker_work WNotReady = 1"
| "worker_work WBuilt = 2"
| "worker_work WRunning = 3"
| "worker_work _ = 0"

definition work_done :: "startup \<Rightarrow> nat" where
  "work_done s = main_work (length (wpcs s)) (mpc s) + sum_list (map worker_work (wpcs s))"

lemma worker_work_upd:
  "i < length ws \<Longrightarrow> sum_list (map worker_work (ws[i := w])) + worker_work (ws ! i) = sum_list (map worker_work ws) + worker_work w"
proof (induction ws arbitrary: i)
  case (Cons a ws)
  then show ?case by (cases i) auto
qed simp

lemma work_step:
  "ustep numa p s s' \<Longrightarrow> placed numa n \<Longrightarrow> start_inv n s \<Longrightarrow> work_done s' = Suc (work_done s) \<or> waits p s \<and> s' = s"
proof (induction rule: ustep.induct)
  case (Create s i)
  then have "wpcs s ! i = WNone" by (auto simp: start_inv_def)
  then show ?case using worker_work_upd[of i "wpcs s" WStarted] Create by (simp add: work_done_def)
next
  case (LetGo s i)
  then show ?case by (auto simp: work_done_def afterCreate_def start_inv_def)
next
  case (Begin s i)
  then show ?case using worker_work_upd[of i "wpcs s" WNotReady] by (simp add: work_done_def)
next
  case (Misplaced s i)
  then show ?case by (auto simp: start_inv_def placed_def)
next
  case (Build s i)
  then show ?case using worker_work_upd[of i "wpcs s" WBuilt] by (simp add: work_done_def)
next
  case (Announce s i)
  then show ?case using worker_work_upd[of i "wpcs s" WRunning] by (simp add: work_done_def)
qed (simp_all add: work_done_def)

lemma work_bound: "start_inv n s \<Longrightarrow> work_done s \<le> 6 * n + 1"
proof -
  assume s: "start_inv n s"
  have "sum_list (map worker_work ws) \<le> 3 * length ws" for ws
  proof (induction ws)
    case (Cons w ws)
    then show ?case by (cases w) auto
  qed simp
  then have "sum_list (map worker_work (wpcs s)) \<le> 3 * n" using s by (force simp: start_inv_def)
  moreover have "main_work n (mpc s) \<le> 3 * n + 1" using s by (cases "mpc s") (auto simp: start_inv_def)
  ultimately show ?thesis using s by (simp add: work_done_def start_inv_def)
qed

text \<open>Until the constructor is done, somebody can go on without waiting.\<close>

lemma start_progress:
  assumes "start_inv n s" "placed numa n" "mpc s \<noteq> MDone"
  shows "\<exists>p s'. ustep numa p s s' \<and> \<not> waits p s"
proof (cases "mpc s")
  case (MCreate j)
  then show ?thesis using assms ustep.Create[of s j numa] by (intro exI[of _ Main]) (auto simp: start_inv_def)
next
  case (MCreated j)
  then show ?thesis using assms ustep.LetGo[of s j numa] by (intro exI[of _ Main]) (auto simp: start_inv_def)
next
  case (MWait j)
  show ?thesis
  proof (cases "j < n \<longrightarrow> slReady s ! j")
    case True
    then show ?thesis using MWait assms(1) ustep.Return[of s numa] ustep.Ready[of s j numa]
      by (intro exI[of _ Main], cases "j < n") (auto simp: start_inv_def)
  next
    case False
    then have j: "j < length (wpcs s)" "threadInitialized s ! j" "wpcs s ! j \<noteq> WNone" "wpcs s ! j \<noteq> WRunning" "\<not> aborted s" "numa j = j"
      using MWait assms by (auto simp: start_inv_def placed_def)
    then have "\<exists>s'. ustep numa (Worker j) s s'"
      using ustep.Begin[of s j numa] ustep.Build[of s j numa] ustep.Announce[of s j numa] by (cases "wpcs s ! j") blast+
    then show ?thesis using j(2) by (intro exI[of _ "Worker j"]) simp
  qed
qed (use assms in simp)

lemma start_stays:
  assumes "start_inv n s" "mpc s = MDone"
  shows "\<not> ustep numa p s s'"
proof
  assume "ustep numa p s s'"
  then show False using assms by (cases rule: ustep.cases) (auto simp: start_inv_def built_def split: startup_thread.splits elim: waits.elims)
qed

lemma start_finishes: "start_inv n s \<Longrightarrow> placed numa n \<Longrightarrow> \<exists>s'. (any_step numa)\<^sup>*\<^sup>* s s' \<and> mpc s' = MDone"
proof (induction "6 * n + 1 - work_done s" arbitrary: s rule: less_induct)
  case less
  show ?case
  proof (cases "mpc s = MDone")
    case False
    then obtain p s1 where s1: "ustep numa p s s1" "\<not> waits p s" using start_progress[OF less.prems] by blast
    then have "start_inv n s1" "work_done s1 = Suc (work_done s)" using start_inv_step work_step less.prems by blast+
    then obtain s' where "(any_step numa)\<^sup>*\<^sup>* s1 s'" "mpc s' = MDone" using less.hyps[of s1] less.prems(2) work_bound[of n s1] by fastforce
    moreover have "any_step numa s s1" using s1(1) by blast
    ultimately show ?thesis using converse_rtranclp_into_rtranclp[of "any_step numa" s s1 s'] by blast
  qed blast
qed

lemma run_inv:
  assumes "start_run numa s0 who r" "placed numa n" "start_inv n s0"
  shows "start_inv n (r k)"
proof (induction k)
  case (Suc k)
  have "ustep numa (who k) (r k) (r (Suc k)) \<or> r (Suc k) = r k" using assms(1) unfolding start_run_def by blast
  then show ?case using Suc start_inv_step[OF _ assms(2)] by metis
qed (use assms in \<open>simp add: start_run_def\<close>)

text \<open>A fair run cannot wait for ever: the work it has done is bounded, and where it stops growing somebody who need not wait is left out.\<close>

lemma fair_run_ends:
  assumes run: "start_run numa s0 who r" and fair: "fair_run numa who r" and pl: "placed numa n" and inv: "start_inv n s0"
  shows "\<exists>k. mpc (r k) = MDone"
proof (rule ccontr)
  assume "\<nexists>k. mpc (r k) = MDone"
  then have nd: "mpc (r k) \<noteq> MDone" for k by blast
  note ri = run_inv[OF run pl inv]
  have step: "ustep numa (who k) (r k) (r (Suc k))" for k
    using run start_progress[OF ri pl nd, of k] unfolding start_run_def by blast
  have grow: "work_done (r (Suc k)) = Suc (work_done (r k)) \<or> waits (who k) (r k) \<and> r (Suc k) = r k" for k
    using work_step[OF step pl ri] .
  obtain k where k: "work_done (r j) \<le> work_done (r k)" for j
  proof -
    have "\<exists>k. \<forall>j. work_done (r j) \<le> work_done (r k)"
      using ex_has_greatest_nat[of "\<lambda>_. True" 0 "\<lambda>k. work_done (r k)" "6 * n + 2"] work_bound[OF ri] by (auto simp: less_Suc_eq_le)
    then show ?thesis using that by blast
  qed
  have same: "r (k + d) = r k" for d
  proof (induction d)
    case (Suc d)
    then show ?case using grow[of "k + d"] k[of "Suc (k + d)"] by auto
  qed simp
  obtain p s' where p: "ustep numa p (r k) s'" "\<not> waits p (r k)" using start_progress[OF ri pl nd] by blast
  obtain j where j: "j \<ge> k" "who j = p \<or> (\<forall>s'. \<not> ustep numa p (r j) s')" using fair unfolding fair_run_def by blast
  have rj: "r j = r k" "r (Suc j) = r k" using same[of "j - k"] same[of "Suc j - k"] j(1) by simp_all
  then have "who j = p" using j(2) p(1) by auto
  then show False using grow[of j] p(2) rj by auto
qed

text \<open>A finite run that ends where the constructor is done goes on as a fair one.\<close>

lemma fair_run_exists:
  assumes "start_inv n s0" "placed numa n"
  shows "\<exists>who r. start_run numa s0 who r \<and> fair_run numa who r"
proof -
  obtain t where t: "(any_step numa)\<^sup>*\<^sup>* s0 t" "mpc t = MDone" using start_finishes[OF assms] by blast
  then obtain m where "(any_step numa ^^ m) s0 t" by (meson rtranclp_imp_relpowp)
  then obtain f where f: "f 0 = s0" "f m = t" "\<forall>i < m. any_step numa (f i) (f (Suc i))" by (auto simp: relpowp_fun_conv)
  obtain who where who: "\<forall>i < m. ustep numa (who i) (f i) (f (Suc i))" using f(3) by metis
  have stop: "\<not> ustep numa p t s'" for p s' using start_stays[OF start_inv_reach[OF t(1) assms(2,1)] t(2)] .
  let ?r = "\<lambda>k. f (min k m)"
  have "ustep numa (who k) (?r k) (?r (Suc k)) \<or> ?r (Suc k) = ?r k \<and> (\<forall>p s'. \<not> ustep numa p (?r k) s')" for k
    using who stop f(2) by (cases "k < m") (auto simp: min_def)
  then have "start_run numa s0 who ?r" using f(1) by (simp add: start_run_def)
  moreover have "fair_run numa who ?r" unfolding fair_run_def
  proof (intro allI)
    fix p k
    show "\<exists>j \<ge> k. who j = p \<or> (\<forall>s'. \<not> ustep numa p (?r j) s')" using stop f(2) by (intro exI[of _ "max k m"]) simp
  qed
  ultimately show ?thesis by blast
qed

section \<open>Properties\<close>

text \<open>C38. The constructor of the first index of a process (no flag of \<open>slReady\<close> is set yet), in any interleaving with the workers it
  creates and with any number of turns in the two busy-waiting loops: if it returns, every worker has built the search
  layer of its NUMA node and said so. If the schedule is fair, that is, no thread that could take a step is left
  out for ever, it does return. It is assumed that every worker runs on the NUMA node it was
  bound to (\<open>placed\<close>); the assertion of the worker ends the process otherwise.\<close>

theorem startup_handshake:
  assumes "length init = n" "length ptrs = n" "placed numa n" "start_run numa (startup_begin n init (replicate n False) ptrs) who r"
  shows "(\<forall>k. mpc (r k) = MDone \<longrightarrow> (\<forall>i < n. slPtrs (r k) ! i = SlPtr SL_new \<and> wpcs (r k) ! i = WRunning)) \<and>
    (fair_run numa who r \<longrightarrow> (\<exists>k. mpc (r k) = MDone))"
proof -
  note inv = start_inv_begin[OF assms(1,2)]
  have "\<forall>i < n. slPtrs (r k) ! i = SlPtr SL_new \<and> wpcs (r k) ! i = WRunning" if "mpc (r k) = MDone" for k
    using run_inv[OF assms(4,3) inv, of k] that by (simp add: start_inv_def built_def)
  then show ?thesis using fair_run_ends[OF assms(4) _ assms(3) inv] by blast
qed

theorem startup_handshake_witness:
  "\<exists>who r k. start_run id (startup_begin 2 [False, False] (replicate 2 False) [SlNull, SlNull]) who r \<and> fair_run id who r \<and>
     mpc (r k) = MDone \<and> slPtrs (r k) ! 1 = SlPtr SL_new"
proof -
  have pl: "placed id 2" by (simp add: placed_def)
  have inv: "start_inv 2 (startup_begin 2 [False, False] (replicate 2 False) [SlNull, SlNull])" by (rule start_inv_begin) simp_all
  obtain who r where run: "start_run id (startup_begin 2 [False, False] (replicate 2 False) [SlNull, SlNull]) who r" "fair_run id who r"
    using fair_run_exists[OF inv pl] by blast
  then show ?thesis using startup_handshake[OF _ _ pl run(1)] by fastforce
qed

text \<open>The flags are not reset when an index is destroyed: if another one is created in the same process, there
  is an interleaving in which its constructor returns while a pointer of \<open>g_perNumaSlPtr\<close> still leads to a
  search layer that was deleted.\<close>

theorem second_index_starts_early:
  assumes "length init = 1" "length ptrs = 1" "placed numa 1" "(any_step numa)\<^sup>*\<^sup>* (startup_begin 1 init [False] ptrs) s" "mpc s = MDone"
  shows "\<exists>s'. (any_step numa)\<^sup>*\<^sup>* (startup_begin 1 (threadInitialized s) (slReady s) (slPtrs (HydraListImpl_destroy s))) s' \<and>
    mpc s' = MDone \<and> slPtrs s' ! 0 = SlDangling"
proof -
  have s: "slReady s = [True]" "length (slPtrs s) = 1" "length (threadInitialized s) = 1"
    using start_inv_reach[OF assms(4,3)] start_inv_begin[OF assms(1,2)] assms(5) by (auto simp: start_inv_def built_def length_Suc_conv)
  let ?b = "startup_begin 1 (threadInitialized s) (slReady s) (slPtrs (HydraListImpl_destroy s))"
  let ?s1 = "?b\<lparr>threadInitialized := (threadInitialized ?b)[0 := False], wpcs := (wpcs ?b)[0 := WStarted], mpc := MCreated 0\<rparr>"
  let ?s2 = "?s1\<lparr>threadInitialized := (threadInitialized ?s1)[0 := True], mpc := afterCreate (length (wpcs ?s1)) 0\<rparr>"
  let ?s3 = "?s2\<lparr>mpc := MWait (Suc 0)\<rparr>"
  let ?s4 = "?s3\<lparr>mpc := MDone\<rparr>"
  have 1: "ustep numa Main ?b ?s1" by (rule ustep.Create) (simp_all add: startup_begin_def)
  have 2: "ustep numa Main ?s1 ?s2" by (rule ustep.LetGo) (simp_all add: startup_begin_def)
  have 3: "ustep numa Main ?s2 ?s3" by (rule ustep.Ready) (simp_all add: startup_begin_def afterCreate_def s)
  have 4: "ustep numa Main ?s3 ?s4" by (rule ustep.Return) (simp_all add: startup_begin_def)
  note more = converse_rtranclp_into_rtranclp[of "any_step numa", OF exI[of _ Main]]
  have "(any_step numa)\<^sup>*\<^sup>* ?b ?s4" by (rule more[OF 1 more[OF 2 more[OF 3 more[OF 4 rtranclp.rtrancl_refl]]]])
  moreover have "slPtrs ?s4 ! 0 = SlDangling" using s(2) by (simp add: startup_begin_def HydraListImpl_destroy_def)
  ultimately show ?thesis by (intro exI[of _ ?s4]) simp
qed

theorem second_index_starts_early_witness:
  "\<exists>s s'. (any_step id)\<^sup>*\<^sup>* (startup_begin 1 [False] [False] [SlNull]) s \<and> mpc s = MDone \<and>
    (any_step id)\<^sup>*\<^sup>* (startup_begin 1 (threadInitialized s) (slReady s) (slPtrs (HydraListImpl_destroy s))) s' \<and> mpc s' = MDone \<and>
    slPtrs s' ! 0 = SlDangling"
proof -
  have pl: "placed id 1" by (simp add: placed_def)
  have "start_inv 1 (startup_begin 1 [False] (replicate 1 False) [SlNull])" by (rule start_inv_begin) simp_all
  then obtain s where s: "(any_step id)\<^sup>*\<^sup>* (startup_begin 1 [False] [False] [SlNull]) s" "mpc s = MDone"
    using start_finishes[OF _ pl, of "startup_begin 1 [False] [False] [SlNull]"] by auto
  show ?thesis using second_index_starts_early[OF _ _ pl s] s by auto
qed

end
