(* ===== verification/StringKey.thy ===== *)
theory StringKey
  imports HL_Prelude "HOL-Library.List_Lexorder"
begin

text \<open>
  The keys of the index over strings, class \<open>StringKey\<close> of \<open>hydralist_string/include/common.h\<close>: an
  array of 32 bytes that is compared with \<open>strcmp\<close>, beside a length that copies do not keep. The theory shows
  that the comparisons are the lexicographic order of the strings, as long as every array has its
  terminating zero.
\<close>

section \<open>The functions of the C library\<close>

text \<open>
  Arrays are lists of bytes; reading past the end is \<open>None\<close>. \<open>strcmp\<close> and \<open>memcmp\<close> compare bytes as
  unsigned numbers; only the sign of their result is defined, here it is -1, 0 or 1.
\<close>

fun strcmp :: "u8 list \<Rightarrow> u8 list \<Rightarrow> int option" where
  "strcmp (a # as) (b # bs) =
     (if a \<noteq> b then Some (if a < b then -1 else 1) else if a = 0 then Some 0 else strcmp as bs)"
| "strcmp _ _ = None"

fun memcmp :: "nat \<Rightarrow> u8 list \<Rightarrow> u8 list \<Rightarrow> int option" where
  "memcmp 0 _ _ = Some 0"
| "memcmp (Suc n) (a # as) (b # bs) = (if a \<noteq> b then Some (if a < b then -1 else 1) else memcmp n as bs)"
| "memcmp (Suc n) _ _ = None"

definition c_strlen :: "u8 list \<Rightarrow> nat option" where
  "c_strlen d = (if 0 \<in> set d then Some (length (takeWhile (\<lambda>c. c \<noteq> 0) d)) else None)"

text \<open>\<open>std::to_string\<close> of an \<open>int\<close>, in ASCII.\<close>

function digits :: "nat \<Rightarrow> u8 list" where
  "digits n = (if n < 10 then [word_of_nat (48 + n)] else digits (n div 10) @ [word_of_nat (48 + n mod 10)])"
  by auto
termination
  by (relation "measure id") auto

declare digits.simps [simp del]

definition to_string :: "int \<Rightarrow> u8 list" where
  "to_string k = (if k < 0 then 45 # digits (nat (- k)) else digits (nat k))"

section \<open>Keys\<close>

definition KEYLENGTH :: nat where
  "KEYLENGTH = 32"

record StringKey =
  bytes :: "u8 list"
  keyLength :: u64

text \<open>The constructors. Copies get the length 0, which stands for \<open>strlen\<close>.\<close>

definition StringKey_new :: StringKey where
  "StringKey_new = \<lparr>bytes = replicate KEYLENGTH 0, keyLength = 0\<rparr>"

definition StringKey_copy :: "StringKey \<Rightarrow> StringKey" where
  "StringKey_copy other = \<lparr>bytes = bytes other, keyLength = 0\<rparr>"

text \<open>The assignment copies the array and leaves the length of the target.\<close>

definition StringKey_assign :: "StringKey \<Rightarrow> StringKey \<Rightarrow> StringKey" where
  "StringKey_assign k other = k\<lparr>bytes := bytes other\<rparr>"

text \<open>\<open>set\<close> copies \<open>len\<close> bytes and does not look whether they fit.\<close>

definition StringKey_set :: "u8 list \<Rightarrow> nat \<Rightarrow> StringKey \<Rightarrow> fault + StringKey" where
  "StringKey_set bs len k =
     (if len \<le> length bs \<and> len \<le> KEYLENGTH
      then Inr (k\<lparr>bytes := take len bs @ replicate (KEYLENGTH - len) 0\<rparr>) else Inl BadAccess)"

definition StringKey_of_chars :: "u8 list \<Rightarrow> fault + StringKey" where
  "StringKey_of_chars bs = (case c_strlen bs of None \<Rightarrow> Inl BadAccess | Some len \<Rightarrow> StringKey_set bs len StringKey_new)"

text \<open>\<open>setFromString\<close> cuts a long string; of a short one \<open>strcpy\<close> copies what comes before the first zero.\<close>

definition setFromString :: "u8 list \<Rightarrow> StringKey \<Rightarrow> StringKey" where
  "setFromString s k =
     (if KEYLENGTH \<le> length s
      then k\<lparr>bytes := take (KEYLENGTH - 1) s @ [0], keyLength := word_of_nat KEYLENGTH\<rparr>
      else let c = takeWhile (\<lambda>c. c \<noteq> 0) s in
        k\<lparr>bytes := c @ replicate (KEYLENGTH - length c) 0, keyLength := word_of_nat (length s)\<rparr>)"

definition StringKey_of_int :: "int \<Rightarrow> StringKey" where
  "StringKey_of_int i = setFromString (to_string i) StringKey_new"

definition StringKey_size :: "StringKey \<Rightarrow> fault + u64" where
  "StringKey_size k =
     (if keyLength k \<noteq> 0 then Inr (keyLength k)
      else case c_strlen (bytes k) of None \<Rightarrow> Inl BadAccess | Some l \<Rightarrow> Inr (word_of_nat l))"

text \<open>The six comparisons, all through \<open>strcmp\<close>.\<close>

definition sk_compare :: "(int \<Rightarrow> bool) \<Rightarrow> StringKey \<Rightarrow> StringKey \<Rightarrow> fault + bool" where
  "sk_compare P a b = (case strcmp (bytes a) (bytes b) of None \<Rightarrow> Inl BadAccess | Some c \<Rightarrow> Inr (P c))"

definition sk_less :: "StringKey \<Rightarrow> StringKey \<Rightarrow> fault + bool" where
  "sk_less = sk_compare (\<lambda>c. c < 0)"

definition sk_greater :: "StringKey \<Rightarrow> StringKey \<Rightarrow> fault + bool" where
  "sk_greater = sk_compare (\<lambda>c. c > 0)"

definition sk_equal :: "StringKey \<Rightarrow> StringKey \<Rightarrow> fault + bool" where
  "sk_equal = sk_compare (\<lambda>c. c = 0)"

definition sk_not_equal :: "StringKey \<Rightarrow> StringKey \<Rightarrow> fault + bool" where
  "sk_not_equal a b = map_sum id Not (sk_equal a b)"

definition sk_less_eq :: "StringKey \<Rightarrow> StringKey \<Rightarrow> fault + bool" where
  "sk_less_eq a b = map_sum id Not (sk_greater a b)"

definition sk_greater_eq :: "StringKey \<Rightarrow> StringKey \<Rightarrow> fault + bool" where
  "sk_greater_eq a b = map_sum id Not (sk_less a b)"

section \<open>The fingerprint\<close>

text \<open>
  \<open>getKeyFingerPrint\<close> of \<open>hydralist_string/src/listNode.cpp\<close>; a \<open>char\<close> is signed and its sign is extended.
\<close>

definition hash_step :: "u8 \<Rightarrow> u32 \<Rightarrow> u32" where
  "hash_step c h = ((push_bit 5 h) XOR (drop_bit 27 h)) XOR scast c"

definition sk_fingerPrint :: "StringKey \<Rightarrow> fault + u8" where
  "sk_fingerPrint k =
     (case StringKey_size k of Inl f \<Rightarrow> Inl f
      | Inr sz \<Rightarrow> (let len = (ucast sz :: u32) in
          if unat len \<le> length (bytes k)
          then Inr (ucast (fold hash_step (take (unat len) (bytes k)) len AND 0xFF)) else Inl BadAccess))"

text \<open>The length of the common prefix of two strings.\<close>

fun lcp_loop :: "u8 list \<Rightarrow> u8 list \<Rightarrow> nat" where
  "lcp_loop (a # as) (b # bs) = (if a = b then Suc (lcp_loop as bs) else 0)"
| "lcp_loop _ _ = 0"

text \<open>
  \<open>LCPlength\<close>: the loop runs over positions below both lengths.
\<close>

definition LCPlength :: "u8 list \<Rightarrow> u8 list \<Rightarrow> fault + u8" where
  "LCPlength str1 str2 =
     (case c_strlen str1 of
        None \<Rightarrow> Inl BadAccess
      | Some l1 \<Rightarrow> if l1 = 0 then Inr 0
          else (case c_strlen str2 of
            None \<Rightarrow> Inl BadAccess
          | Some l2 \<Rightarrow> Inr (word_of_nat (lcp_loop (take l1 str1) (take l2 str2)))))"

section \<open>Strings\<close>

text \<open>The string in an array, and the arrays that hold one: a zero follows it, and only zeros.\<close>

definition cstr :: "u8 list \<Rightarrow> u8 list" where
  "cstr d = takeWhile (\<lambda>c. c \<noteq> 0) d"

abbreviation kstr :: "StringKey \<Rightarrow> u8 list" where
  "kstr k \<equiv> cstr (bytes k)"

definition sk_ok :: "StringKey \<Rightarrow> bool" where
  "sk_ok k \<longleftrightarrow> length (kstr k) < KEYLENGTH \<and> bytes k = kstr k @ replicate (KEYLENGTH - length (kstr k)) 0"

lemma cstr_simps [simp]: "cstr [] = []" "cstr (0 # d) = []" "c \<noteq> 0 \<Longrightarrow> cstr (c # d) = c # cstr d"
  by (simp_all add: cstr_def)

lemma cstr_no_zero [simp]: "0 \<notin> set (cstr d)"
  by (auto simp: cstr_def dest: set_takeWhileD)

lemma cstr_padded [simp]: "0 \<notin> set c \<Longrightarrow> cstr (c @ replicate n 0) = c" "0 \<notin> set c \<Longrightarrow> cstr (c @ [0]) = c"
  by (induction c) (auto simp: cstr_def)

lemma c_strlen_ok: "0 \<in> set d \<Longrightarrow> c_strlen d = Some (length (cstr d))"
  by (simp add: c_strlen_def cstr_def)

lemma take_length_cstr [simp]: "take (length (cstr d)) d = cstr d"
  unfolding cstr_def by (metis takeWhile_eq_take)

lemma sk_ok_length: "sk_ok k \<Longrightarrow> length (bytes k) = KEYLENGTH"
  unfolding sk_ok_def by (metis add_diff_inverse_nat length_append length_replicate less_imp_not_less)

lemma sk_ok_zero: "sk_ok k \<Longrightarrow> 0 \<in> set (bytes k)"
  unfolding sk_ok_def by (metis Un_iff in_set_replicate set_append zero_less_diff less_numeral_extra(3))

lemma sk_ok_eq: "sk_ok a \<Longrightarrow> sk_ok b \<Longrightarrow> bytes a = bytes b \<longleftrightarrow> kstr a = kstr b"
  unfolding sk_ok_def by metis

section \<open>The comparisons are the order of the strings\<close>

lemma strcmp_cstr:
  "0 \<in> set d \<Longrightarrow> 0 \<in> set e \<Longrightarrow> strcmp d e = Some (if cstr d < cstr e then -1 else if cstr d = cstr e then 0 else 1)"
proof (induction d e rule: strcmp.induct)
  case (1 a as b bs)
  show ?case
  proof (cases "a = b")
    case True
    then show ?thesis using 1 by (cases "a = 0") auto
  next
    case False
    then show ?thesis by (cases "a = 0"; cases "b = 0") (auto simp: word_gt_0 order.strict_iff_not)
  qed
qed auto

lemma memcmp_take:
  "n \<le> length d \<Longrightarrow> n \<le> length e \<Longrightarrow> memcmp n d e = Some 0 \<longleftrightarrow> take n d = take n e"
  by (induction n d e rule: memcmp.induct) auto

lemma memcmp_defined: "n \<le> length d \<Longrightarrow> n \<le> length e \<Longrightarrow> memcmp n d e \<noteq> None"
  by (induction n d e rule: memcmp.induct) auto

text \<open>A difference inside the first \<open>n\<close> bytes, all of them before the terminating zero of one string, decides.\<close>

lemma strcmp_memcmp:
  "memcmp n d e = Some c \<Longrightarrow> c \<noteq> 0 \<Longrightarrow> n \<le> length (cstr e) \<Longrightarrow> strcmp d e = Some c"
proof (induction n d e rule: memcmp.induct)
  case (2 n a as b bs)
  then show ?case by (cases "b = 0") (auto split: if_splits)
qed auto

lemma strcmp_drop:
  "take n d = take n e \<Longrightarrow> n \<le> length d \<Longrightarrow> n \<le> length (cstr e) \<Longrightarrow> strcmp (drop n d) (drop n e) = strcmp d e"
proof (induction n arbitrary: d e)
  case (Suc n)
  then obtain a d' b e' where "d = a # d'" "e = b # e'" by (cases d; cases e) auto
  then show ?case using Suc by (cases "b = 0") auto
qed simp

lemma sk_compare_ok:
  "sk_ok a \<Longrightarrow> sk_ok b \<Longrightarrow>
    sk_compare P a b = Inr (P (if kstr a < kstr b then -1 else if kstr a = kstr b then 0 else 1))"
  by (simp add: sk_compare_def strcmp_cstr sk_ok_zero)

lemma sk_comparisons:
  assumes "sk_ok a" "sk_ok b"
  shows "sk_less a b = Inr (kstr a < kstr b)" "sk_greater a b = Inr (kstr b < kstr a)"
    "sk_equal a b = Inr (kstr a = kstr b)" "sk_not_equal a b = Inr (kstr a \<noteq> kstr b)"
    "sk_less_eq a b = Inr (kstr a \<le> kstr b)" "sk_greater_eq a b = Inr (kstr b \<le> kstr a)"
  using assms linorder_less_linear[of "kstr a" "kstr b"]
  by (auto simp: sk_less_def sk_greater_def sk_equal_def sk_not_equal_def sk_less_eq_def sk_greater_eq_def sk_compare_ok not_less)

lemma memcmp_equal: "sk_ok a \<Longrightarrow> sk_ok b \<Longrightarrow> memcmp KEYLENGTH (bytes a) (bytes b) = Some 0 \<longleftrightarrow> kstr a = kstr b"
  by (simp add: memcmp_take sk_ok_length sk_ok_eq)

section \<open>Making keys\<close>

lemma sk_okI:
  assumes "bytes k = c @ replicate n 0" "0 \<notin> set c" "length c + n = KEYLENGTH" "0 < n"
  shows "sk_ok k" "kstr k = c"
proof -
  show c: "kstr k = c" using assms by simp
  have "n = KEYLENGTH - length c" "length c < KEYLENGTH" using assms(3,4) by auto
  then show "sk_ok k" using assms(1) c by (simp add: sk_ok_def)
qed

lemma StringKey_new_ok [simp]: "sk_ok StringKey_new" "kstr StringKey_new = []"
  using sk_okI[of StringKey_new "[]" KEYLENGTH] by (simp_all add: StringKey_new_def KEYLENGTH_def)

lemma StringKey_copy_ok [simp]: "sk_ok (StringKey_copy k) = sk_ok k" "kstr (StringKey_copy k) = kstr k"
  by (simp_all add: sk_ok_def StringKey_copy_def)

lemma StringKey_assign_ok [simp]: "sk_ok (StringKey_assign k l) = sk_ok l" "kstr (StringKey_assign k l) = kstr l"
  by (simp_all add: sk_ok_def StringKey_assign_def)

lemma setFromString_ok:
  assumes "0 \<notin> set s"
  shows "sk_ok (setFromString s k) \<and> kstr (setFromString s k) = take (KEYLENGTH - 1) s"
proof (cases "KEYLENGTH \<le> length s")
  case True
  have "0 \<notin> set (take (KEYLENGTH - 1) s)" using assms by (meson in_set_takeD)
  then show ?thesis
    using sk_okI[of "setFromString s k" "take (KEYLENGTH - 1) s" 1] True by (auto simp: setFromString_def KEYLENGTH_def)
next
  case False
  have "takeWhile (\<lambda>c. c \<noteq> 0) s = s" using assms by (induction s) auto
  then have "bytes (setFromString s k) = s @ replicate (KEYLENGTH - length s) 0" using False by (simp only: setFromString_def Let_def if_False) simp
  then show ?thesis using sk_okI[of "setFromString s k" s "KEYLENGTH - length s"] False assms by simp
qed

text \<open>Below its capacity a key remembers its string, and its fingerprint is that of its copies.\<close>

definition sk_sized :: "StringKey \<Rightarrow> bool" where
  "sk_sized k \<longleftrightarrow> keyLength k = 0 \<or> keyLength k = word_of_nat (length (kstr k))"

definition str_hash :: "u8 list \<Rightarrow> u8" where
  "str_hash c = ucast (fold hash_step c (word_of_nat (length c)) AND 0xFF)"

lemma StringKey_size_ok:
  "sk_ok k \<Longrightarrow> sk_sized k \<Longrightarrow> StringKey_size k = Inr (word_of_nat (length (kstr k)))"
  by (auto simp: StringKey_size_def c_strlen_ok sk_ok_zero sk_sized_def)

lemma sk_fingerPrint_ok:
  assumes "sk_ok k" "sk_sized k"
  shows "sk_fingerPrint k = Inr (str_hash (kstr k))"
proof -
  have len: "length (kstr k) < 32" using assms(1) by (simp add: sk_ok_def KEYLENGTH_def)
  then have u: "(ucast (word_of_nat (length (kstr k)) :: u64) :: u32) = word_of_nat (length (kstr k))"
    by (simp add: unsigned_ucast_eq word_eq_iff_unsigned unsigned_of_nat take_bit_nat_eq_self unsigned_take_bit_eq)
  have "unat (word_of_nat (length (kstr k)) :: u32) = length (kstr k)"
    using len by (simp add: unsigned_of_nat take_bit_nat_eq_self)
  then show ?thesis
    using len sk_ok_length[OF assms(1)] by (simp add: sk_fingerPrint_def StringKey_size_ok[OF assms] u str_hash_def Let_def KEYLENGTH_def)
qed

lemma sk_sized_copy [simp]: "sk_sized (StringKey_copy k)"
  by (simp add: sk_sized_def StringKey_copy_def)

lemma sk_sized_setFromString: "0 \<notin> set s \<Longrightarrow> length s < KEYLENGTH \<Longrightarrow> sk_sized (setFromString s k)"
  using setFromString_ok[of s k] by (simp add: sk_sized_def setFromString_def Let_def)

text \<open>A string that was cut leaves a length one too large, so that the fingerprint takes in the terminating zero,
  which that of a copy of the key does not. Integers become decimal numbers and are ordered as texts.\<close>

lemma long_key_fingerPrint:
  "sk_fingerPrint (StringKey_copy (setFromString (replicate 40 126) StringKey_new)) \<noteq>
   sk_fingerPrint (setFromString (replicate 40 126) StringKey_new)"
  by code_simp

lemma int_keys_textual: "sk_less (StringKey_of_int 10) (StringKey_of_int 9) = Inr True"
  by code_simp

section \<open>Common prefixes\<close>

lemma lcp_loop_bound: "lcp_loop a b \<le> length a" "lcp_loop a b \<le> length b"
  by (induction a b rule: lcp_loop.induct) auto

lemma lcp_loop_take: "n \<le> lcp_loop a b \<Longrightarrow> take n a = take n b"
  by (induction a b arbitrary: n rule: lcp_loop.induct) (auto simp: take_Cons split: nat.splits if_splits)

lemma lcp_loop_commute: "lcp_loop a b = lcp_loop b a"
  by (induction a b rule: lcp_loop.induct) (auto elim: lcp_loop.elims)

lemma LCPlength_ok:
  assumes "sk_ok a" "sk_ok b"
  shows "LCPlength (bytes a) (bytes b) = Inr (word_of_nat (lcp_loop (kstr a) (kstr b)))"
    and "unat (word_of_nat (lcp_loop (kstr a) (kstr b)) :: u8) = lcp_loop (kstr a) (kstr b)"
proof -
  show "LCPlength (bytes a) (bytes b) = Inr (word_of_nat (lcp_loop (kstr a) (kstr b)))"
    using sk_ok_zero[OF assms(1)] sk_ok_zero[OF assms(2)] by (simp add: LCPlength_def c_strlen_ok)
  have "lcp_loop (kstr a) (kstr b) < 32" using lcp_loop_bound(1)[of "kstr a" "kstr b"] assms(1) by (simp add: sk_ok_def KEYLENGTH_def)
  then show "unat (word_of_nat (lcp_loop (kstr a) (kstr b)) :: u8) = lcp_loop (kstr a) (kstr b)"
    by (simp add: unsigned_of_nat take_bit_nat_eq_self)
qed

section \<open>Properties\<close>

text \<open>C35. Keys made by \<open>setFromString\<close> from strings without a zero byte, of any length: the six comparisons compare the first
  31 bytes of the strings lexicographically, the comparison of all 32 bytes that the search in a node uses
  agrees with \<open>operator==\<close>, and copying and assigning keep what is compared.\<close>

theorem StringKey_order:
  assumes "0 \<notin> set s" "0 \<notin> set t"
  shows "sk_less (setFromString s k) (setFromString t l) = Inr (take 31 s < take 31 t) \<and>
    sk_greater (setFromString s k) (setFromString t l) = Inr (take 31 t < take 31 s) \<and>
    sk_equal (setFromString s k) (setFromString t l) = Inr (take 31 s = take 31 t) \<and>
    sk_not_equal (setFromString s k) (setFromString t l) = Inr (take 31 s \<noteq> take 31 t) \<and>
    sk_less_eq (setFromString s k) (setFromString t l) = Inr (take 31 s \<le> take 31 t) \<and>
    sk_greater_eq (setFromString s k) (setFromString t l) = Inr (take 31 t \<le> take 31 s) \<and>
    (memcmp KEYLENGTH (bytes (setFromString s k)) (bytes (setFromString t l)) = Some 0 \<longleftrightarrow> take 31 s = take 31 t) \<and>
    kstr (StringKey_copy (setFromString s k)) = take 31 s \<and> kstr (StringKey_assign l (setFromString s k)) = take 31 s"
  using setFromString_ok[OF assms(1), of k] setFromString_ok[OF assms(2), of l] memcmp_equal[of "setFromString s k" "setFromString t l"]
  by (simp add: sk_comparisons KEYLENGTH_def)

theorem StringKey_order_witness:
  "sk_less (setFromString [97, 98] StringKey_new) (setFromString [97, 99] StringKey_new) = Inr True \<and>
   sk_equal (setFromString [97, 98] StringKey_new) (setFromString [97, 99] StringKey_new) = Inr False"
  using StringKey_order[of "[97, 98]" "[97, 99]" StringKey_new StringKey_new] by simp

end
