(* ===== verification/StringNode.thy ===== *)
theory StringNode
  imports DataLayer StringKey
begin

text \<open>
  A node of the list over strings, \<open>hydralist_string/src/listNode.cpp\<close>. Keys and values lie in two arrays; the upper end of
  the range of a node is the smallest key of its successor, and the node stores the length of the prefix
  that the two have in common, which comparisons may skip. What does not touch a key is the code
  of the list over integers.
\<close>

section \<open>The node\<close>

record SNode =
  s_min :: StringKey
  prefixLength :: u8
  s_numEntries :: u8
  s_next :: ptr
  s_prev :: ptr
  s_deleted :: bool
  s_bitMap :: bitset
  s_fingerPrint :: "u8 list"
  s_verLock :: VersionedLock
  s_keyArray :: "StringKey list"
  s_valueArray :: "Val_t list"
  s_lastScanVersion :: u64
  s_permuter :: "u8 list"

text \<open>The constructors of the keys run before that of the node.\<close>

definition SNode_ctor :: "SNode \<Rightarrow> SNode" where
  "SNode_ctor r = r\<lparr>s_min := StringKey_new, s_numEntries := 0, s_deleted := False, s_bitMap := clear (s_bitMap r),
     s_verLock := VersionedLock_init, s_keyArray := replicate MAX_ENTRIES StringKey_new, s_lastScanVersion := 0\<rparr>"

definition s_setNext :: "ptr \<Rightarrow> SNode \<Rightarrow> SNode" where
  "s_setNext p n = n\<lparr>s_next := p\<rparr>"

definition s_setPrev :: "ptr \<Rightarrow> SNode \<Rightarrow> SNode" where
  "s_setPrev p n = n\<lparr>s_prev := p\<rparr>"

definition s_setMin :: "StringKey \<Rightarrow> SNode \<Rightarrow> SNode" where
  "s_setMin k n = n\<lparr>s_min := StringKey_assign (s_min n) (StringKey_copy k)\<rparr>"

definition setPrefixLength :: "u8 \<Rightarrow> SNode \<Rightarrow> SNode" where
  "setPrefixLength pl n = n\<lparr>prefixLength := pl\<rparr>"

definition s_setNumEntries :: "nat \<Rightarrow> SNode \<Rightarrow> SNode" where
  "s_setNumEntries m n = n\<lparr>s_numEntries := word_of_nat m\<rparr>"

definition s_setDeleted :: "bool \<Rightarrow> SNode \<Rightarrow> SNode" where
  "s_setDeleted b n = n\<lparr>s_deleted := b\<rparr>"

definition s_readLock :: "SNode \<Rightarrow> version_t" where
  "s_readLock n = read_lock (s_verLock n)"

definition s_writeLock :: "SNode \<Rightarrow> version_t \<times> SNode" where
  "s_writeLock n = (case write_lock (s_verLock n) of (v, l) \<Rightarrow> (v, n\<lparr>s_verLock := l\<rparr>))"

definition s_readUnlock :: "version_t \<Rightarrow> SNode \<Rightarrow> bool" where
  "s_readUnlock oldVersion n = read_unlock oldVersion (s_verLock n)"

definition s_writeUnlock :: "SNode \<Rightarrow> SNode" where
  "s_writeUnlock n = n\<lparr>s_verLock := write_unlock (s_verLock n)\<rparr>"

section \<open>Slots\<close>

definition s_insertAtIndex :: "StringKey \<Rightarrow> Val_t \<Rightarrow> nat \<Rightarrow> u8 \<Rightarrow> SNode \<Rightarrow> SNode" where
  "s_insertAtIndex k v index keyHash n =
     n\<lparr>s_keyArray := (s_keyArray n)[index := StringKey_assign (s_keyArray n ! index) k],
       s_valueArray := (s_valueArray n)[index := v],
       s_fingerPrint := (s_fingerPrint n)[index := keyHash],
       s_bitMap := set_at index (s_bitMap n),
       s_numEntries := s_numEntries n + 1\<rparr>"

definition s_updateAtIndex :: "Val_t \<Rightarrow> nat \<Rightarrow> SNode \<Rightarrow> SNode" where
  "s_updateAtIndex v index n = n\<lparr>s_valueArray := (s_valueArray n)[index := v]\<rparr>"

definition s_removeFromIndex :: "nat \<Rightarrow> SNode \<Rightarrow> SNode" where
  "s_removeFromIndex index n = n\<lparr>s_bitMap := reset_at index (s_bitMap n), s_numEntries := s_numEntries n - 1\<rparr>"

text \<open>The candidates of the vector comparison are checked with \<open>memcmp\<close> over the whole array.\<close>

definition s_isKey :: "StringKey \<Rightarrow> SNode \<Rightarrow> nat \<Rightarrow> bool" where
  "s_isKey k n pos \<longleftrightarrow> memcmp KEYLENGTH (bytes (s_keyArray n ! pos)) (bytes k) = Some 0"

definition s_getKeyIndex :: "StringKey \<Rightarrow> u8 \<Rightarrow> SNode \<Rightarrow> int" where
  "s_getKeyIndex k keyHash n =
     (let mask = cmpeq_epi8_mask (take 64 (s_fingerPrint n)) keyHash;
          bitMapMask = to_ulong (s_bitMap n);
          posToCheck_64 = mask AND bitMapMask
      in case scanMask (ucast posToCheck_64) (s_isKey k n) of
           Some pos \<Rightarrow> int pos
         | None \<Rightarrow>
             (case scanMask (ucast (drop_bit 32 posToCheck_64)) (\<lambda>pos. s_isKey k n (pos + 32)) of
                Some pos \<Rightarrow> int pos + 32
              | None \<Rightarrow> -1))"

definition s_getFreeIndex :: "StringKey \<Rightarrow> u8 \<Rightarrow> SNode \<Rightarrow> int" where
  "s_getFreeIndex k keyHash n =
     (if s_numEntries n \<noteq> 0 \<and> s_getKeyIndex k keyHash n \<noteq> -1 then -1
      else let bitMapMask = to_ulong (s_bitMap n) in
           if NOT bitMapMask = 0 then -2
           else let freeIndexMask = NOT bitMapMask in
                if (ucast freeIndexMask :: u32) \<noteq> 0
                then int (bsf (ucast freeIndexMask :: u32))
                else int (bsf (ucast (drop_bit 32 freeIndexMask) :: u32)) + 32)"

text \<open>The binary search over an array that was sorted, of which nothing is left but this function.\<close>

function lowerBound_loop :: "StringKey \<Rightarrow> SNode \<Rightarrow> nat \<Rightarrow> nat \<Rightarrow> fault + nat" where
  "lowerBound_loop k n lower upper =
     (let mid = (upper - lower) div 2 + lower in
      if length (s_keyArray n) \<le> mid then Inl BadAccess
      else bindE (sk_less k (s_keyArray n ! mid)) (\<lambda>lt.
        if lt then (if lower < mid then lowerBound_loop k n lower mid else Inr lower)
        else bindE (sk_greater k (s_keyArray n ! mid)) (\<lambda>gt.
          if gt then (if mid + 1 < upper then lowerBound_loop k n (mid + 1) upper else Inr (mid + 1))
          else Inr mid)))"
  by pat_completeness auto
termination
  by (relation "measure (\<lambda>(_, _, lower, upper). upper - lower)") auto

declare lowerBound_loop.simps [simp del]

definition lowerBound :: "StringKey \<Rightarrow> SNode \<Rightarrow> fault + nat" where
  "lowerBound k n = lowerBound_loop k n 0 (unat (s_numEntries n))"

definition s_checkRangeLookup :: "StringKey \<Rightarrow> SNode \<Rightarrow> fault + bool" where
  "s_checkRangeLookup k n =
     (let ne = unat (s_numEntries n) in
      bindE (sk_less_eq (s_min n) k) (\<lambda>le.
      if \<not> le then Inr False
      else if ne = 0 \<or> length (s_keyArray n) < ne then Inl BadAccess
      else sk_less_eq k (s_keyArray n ! (ne - 1))))"

section \<open>Operations on one node\<close>

definition s_update :: "StringKey \<Rightarrow> Val_t \<Rightarrow> SNode \<Rightarrow> fault + (bool \<times> SNode)" where
  "s_update k v n =
     bindE (sk_fingerPrint k) (\<lambda>keyHash.
       let index = s_getKeyIndex k keyHash n in
       Inr (if index = -1 then (False, n) else (True, s_updateAtIndex v (nat index) n)))"

definition s_probe :: "StringKey \<Rightarrow> SNode \<Rightarrow> fault + bool" where
  "s_probe k n = bindE (sk_fingerPrint k) (\<lambda>keyHash. Inr (s_getKeyIndex k keyHash n \<noteq> -1))"

definition s_lookup :: "StringKey \<Rightarrow> SNode \<Rightarrow> fault + Val_t option" where
  "s_lookup k n =
     bindE (sk_fingerPrint k) (\<lambda>keyHash.
       let index = s_getKeyIndex k keyHash n in
       Inr (if index = -1 then None else Some (s_valueArray n ! nat index)))"

section \<open>The permutation cache and scans\<close>

text \<open>
  \<open>std::sort\<close> with \<open>operator<\<close> of the keys, which is the order of their strings (\<open>sk_comparisons\<close>) as long as every array is
  terminated.
\<close>

definition sk_sort :: "('a \<Rightarrow> StringKey) \<Rightarrow> 'a list \<Rightarrow> fault + 'a list" where
  "sk_sort f xs = (if \<forall>x \<in> set xs. 0 \<in> set (bytes (f x)) then Inr (sort_key (kstr \<circ> f) xs) else Inl BadAccess)"

definition s_generatePermuter :: "u64 \<Rightarrow> SNode \<Rightarrow> fault + SNode" where
  "s_generatePermuter writeVersion n =
     (if writeVersion = s_lastScanVersion n then Inr n
      else bindE (sk_sort fst (map (\<lambda>i. (s_keyArray n ! i, word_of_nat i :: u8))
                                   (filter (\<lambda>i. test i (s_bitMap n)) [0..<MAX_ENTRIES]))) (\<lambda>copyArray.
           Inr (n\<lparr>s_permuter := storePermuter (map snd copyArray) (s_permuter n),
                  s_lastScanVersion := writeVersion\<rparr>)))"

definition s_permEntry :: "SNode \<Rightarrow> nat \<Rightarrow> fault + (StringKey \<times> Val_t)" where
  "s_permEntry n i =
     (if i < length (s_permuter n) \<and> unat (s_permuter n ! i) < length (s_keyArray n)
      then Inr (s_keyArray n ! unat (s_permuter n ! i), s_valueArray n ! unat (s_permuter n ! i)) else Inl BadAccess)"

function s_permuterLowerBound_loop :: "StringKey \<Rightarrow> SNode \<Rightarrow> nat \<Rightarrow> nat \<Rightarrow> fault + nat" where
  "s_permuterLowerBound_loop k n lower upper =
     (let mid = (upper - lower) div 2 + lower in
      bindE (s_permEntry n mid) (\<lambda>e.
      bindE (sk_less k (fst e)) (\<lambda>lt.
        if lt then (if lower < mid then s_permuterLowerBound_loop k n lower mid else Inr lower)
        else bindE (sk_greater k (fst e)) (\<lambda>gt.
          if gt then (if mid + 1 < upper then s_permuterLowerBound_loop k n (mid + 1) upper else Inr (mid + 1))
          else Inr mid))))"
  by pat_completeness auto
termination
  by (relation "measure (\<lambda>(_, _, lower, upper). upper - lower)") auto

declare s_permuterLowerBound_loop.simps [simp del]

definition s_permuterLowerBound :: "StringKey \<Rightarrow> SNode \<Rightarrow> fault + nat" where
  "s_permuterLowerBound k n = s_permuterLowerBound_loop k n 0 (unat (s_numEntries n))"

function s_scan_loop :: "SNode \<Rightarrow> nat \<Rightarrow> nat \<Rightarrow> Val_t list \<Rightarrow> fault + Val_t list" where
  "s_scan_loop n i todo rangeVector =
     (if i < unat (s_numEntries n) \<and> todo > 0 then
        bindE (s_permEntry n i) (\<lambda>e. s_scan_loop n (i + 1) (todo - 1) (rangeVector @ [snd e]))
      else Inr rangeVector)"
  by pat_completeness auto
termination
  by (relation "measure (\<lambda>(n, i, _, _). unat (s_numEntries n) - i)") auto

declare s_scan_loop.simps [simp del]

definition s_scan ::
  "StringKey \<Rightarrow> int \<Rightarrow> Val_t list \<Rightarrow> u64 \<Rightarrow> SNode \<Rightarrow> fault + (bool \<times> Val_t list \<times> SNode)" where
  "s_scan startKey rng rangeVector writeVersion n =
     (if s_next n = None then Inr (True, rangeVector, n)
      else
        let todo = rng - int (length rangeVector) in
        if todo < 1 then Inl AssertFail
        else
          bindE (if s_lastScanVersion n < writeVersion then s_generatePermuter writeVersion n else Inr n) (\<lambda>n1.
          bindE (sk_greater startKey (s_min n1)) (\<lambda>gt.
          bindE (if gt then s_permuterLowerBound startKey n1 else Inr 0) (\<lambda>startIndex.
          bindE (s_scan_loop n1 startIndex (nat todo) rangeVector) (\<lambda>rv.
            Inr (int (length rv) = rng, rv, n1))))))"

end
