(* ===== verification/StringList.thy ===== *)
theory StringList
  imports StringNode LinkedList
begin

text \<open>
  The list over strings: the operations of \<open>hydralist_string/src/listNode.cpp\<close> that work on several nodes and
  \<open>hydralist_string/src/linkedList.cpp\<close>. The walk asks \<open>checkRange\<close> for a direction; after a node
  is locked its range is not checked again.
\<close>

section \<open>The heap\<close>

record sstate =
  s_nodes :: "addr \<rightharpoonup> SNode"
  s_nmalloc :: "nat \<Rightarrow> addr"
  s_raw :: "nat \<Rightarrow> SNode"
  s_nallocs :: nat
  s_oplogs :: "nat \<rightharpoonup> StringKey Oplog"
  s_curQ :: u64
  s_rdtscp :: "nat \<Rightarrow> u64"
  s_clkReads :: nat
  s_opmalloc :: "nat \<Rightarrow> addr"
  s_opallocs :: nat

definition s_getNode :: "ptr \<Rightarrow> sstate \<Rightarrow> fault + SNode" where
  "s_getNode p s = (case p of None \<Rightarrow> Inl NullDeref
     | Some a \<Rightarrow> (case s_nodes s a of None \<Rightarrow> Inl BadAccess | Some n \<Rightarrow> Inr n))"

definition s_putNode :: "addr \<Rightarrow> SNode \<Rightarrow> sstate \<Rightarrow> sstate" where
  "s_putNode a n s = s\<lparr>s_nodes := (s_nodes s)(a \<mapsto> n)\<rparr>"

definition s_updNode :: "ptr \<Rightarrow> (SNode \<Rightarrow> SNode) \<Rightarrow> sstate \<Rightarrow> fault + sstate" where
  "s_updNode p f s = bindE (s_getNode p s) (\<lambda>n. Inr (s_putNode (the p) (f n) s))"

definition s_newNode :: "sstate \<Rightarrow> addr \<times> sstate" where
  "s_newNode s = (let a = s_nmalloc s (s_nallocs s) in
     (a, (s_putNode a (SNode_ctor (s_raw s (s_nallocs s))) s)\<lparr>s_nallocs := s_nallocs s + 1\<rparr>))"

text \<open>The entry of a log has a key of its own, to which the given one is assigned.\<close>

definition s_enqPerThreadLog :: "nat \<Rightarrow> Operation \<Rightarrow> StringKey \<Rightarrow> u8 \<Rightarrow> addr \<Rightarrow> sstate \<Rightarrow> sstate" where
  "s_enqPerThreadLog t o' k h lnp s =
     (let perThreadLog = (case s_oplogs s t of Some l \<Rightarrow> l | None \<Rightarrow> Oplog_new);
          p = s_opmalloc s (s_opallocs s);
          clk = s_rdtscp s (s_clkReads s);
          qnum = unat (s_curQ s mod 2)
      in s\<lparr>s_oplogs := (s_oplogs s)(t \<mapsto> enq qnum (p, mk_op o' (StringKey_assign StringKey_new k) h lnp clk) perThreadLog),
           s_clkReads := s_clkReads s + 1, s_opallocs := s_opallocs s + 1\<rparr>)"

section \<open>The range of a node\<close>

text \<open>-1: the key belongs to the left; 1: to the right; 0: here. The successor is looked at only where its key is needed.\<close>

definition s_checkRange :: "StringKey \<Rightarrow> SNode \<Rightarrow> sstate \<Rightarrow> fault + int" where
  "s_checkRange k n s =
     (if prefixLength n < 4 then
        bindE (sk_greater (s_min n) k) (\<lambda>gt.
          if gt then Inr (-1)
          else bindE (s_getNode (s_next n) s) (\<lambda>nx.
            bindE (sk_greater_eq k (s_min nx)) (\<lambda>ge. Inr (if ge then 1 else 0))))
      else
        let pl = unat (prefixLength n) in
        case memcmp pl (bytes k) (bytes (s_min n)) of
          None \<Rightarrow> Inl BadAccess
        | Some cmp \<Rightarrow>
            if cmp = 0 then
              (case strcmp (drop pl (bytes k)) (drop pl (bytes (s_min n))) of
                 None \<Rightarrow> Inl BadAccess
               | Some ret1 \<Rightarrow>
                   if ret1 = 0 then Inr 0
                   else if ret1 < 0 then Inr (-1)
                   else bindE (s_getNode (s_next n) s) (\<lambda>nx.
                     case strcmp (drop pl (bytes k)) (drop pl (bytes (s_min nx))) of
                       None \<Rightarrow> Inl BadAccess
                     | Some ret2 \<Rightarrow> Inr (if ret2 \<ge> 0 then 1 else 0)))
            else Inr (if cmp > 0 then 1 else -1))"

section \<open>Split and merge\<close>

definition s_median :: "SNode \<Rightarrow> fault + StringKey" where
  "s_median n = bindE (sk_sort id (s_keyArray n)) (\<lambda>copyArray. Inr (StringKey_copy (copyArray ! (MAX_ENTRIES div 2))))"

definition s_split_step ::
  "StringKey \<Rightarrow> nat \<Rightarrow> SNode \<times> SNode \<times> nat \<times> int \<Rightarrow> fault + (SNode \<times> SNode \<times> nat \<times> int)" where
  "s_split_step median i = (\<lambda>(this, new, newNumEntries, removeIndex).
     bindE (sk_greater_eq (s_keyArray this ! i) median) (\<lambda>ge.
       Inr (if ge then
         (s_removeFromIndex i this,
          s_insertAtIndex (s_keyArray this ! i) (s_valueArray this ! i) newNumEntries (s_fingerPrint this ! i) new,
          newNumEntries + 1,
          if removeIndex = -1 then int i else removeIndex)
       else (this, new, newNumEntries, removeIndex))))"

fun s_split_loop ::
  "StringKey \<Rightarrow> nat list \<Rightarrow> SNode \<times> SNode \<times> nat \<times> int \<Rightarrow> fault + (SNode \<times> SNode \<times> nat \<times> int)" where
  "s_split_loop median [] st = Inr st"
| "s_split_loop median (i # is) st = bindE (s_split_step median i st) (s_split_loop median is)"

definition s_split :: "addr \<Rightarrow> StringKey \<Rightarrow> Val_t \<Rightarrow> u8 \<Rightarrow> sstate \<Rightarrow> fault + (addr \<times> sstate)" where
  "s_split a k v keyHash s =
     bindE (s_getNode (Some a) s) (\<lambda>this.
     bindE (s_median this) (\<lambda>median.
       let newMin = StringKey_copy median;
           (b, s1) = s_newNode s
       in bindE (s_split_loop median [0..<MAX_ENTRIES] (this, the (s_nodes s1 b), 0, -1)) (\<lambda>(n1, m1, newNumEntries, removeIndex).
          bindE (sk_less k newMin) (\<lambda>lt.
            let (n2, m2) =
              (if lt then
                 (if removeIndex \<noteq> -1 then s_insertAtIndex k v (nat removeIndex) keyHash n1
                  else s_insertAtIndex k v (unat (s_numEntries n1)) keyHash n1, m1)
               else (n1, s_insertAtIndex k v newNumEntries keyHash m1));
              m3 = s_setPrev (Some a) (s_setDeleted False (s_setNext (s_next n2) (s_setMin newMin m2)))
            in bindE (LCPlength (bytes newMin) (bytes (s_min n2))) (\<lambda>pl.
               bindE (s_getNode (s_next n2) s1) (\<lambda>nx.
               bindE (LCPlength (bytes newMin) (bytes (s_min nx))) (\<lambda>pl'.
                 Inr (b, s_putNode a (s_setNext (Some b) (setPrefixLength pl n2))
                        (s_putNode b (setPrefixLength pl' m3) s1)))))))))"

definition s_move_step :: "nat \<Rightarrow> SNode \<times> SNode \<times> nat \<Rightarrow> SNode \<times> SNode \<times> nat" where
  "s_move_step i = (\<lambda>(dst, src, cur).
     if test i (s_bitMap src) then
       (case find (\<lambda>j. \<not> test j (s_bitMap dst)) [cur..<MAX_ENTRIES] of
          Some j \<Rightarrow> (s_insertAtIndex (StringKey_copy (s_keyArray src ! i)) (s_valueArray src ! i) j (s_fingerPrint src ! i) dst,
                     s_removeFromIndex i src, j + 1)
        | None \<Rightarrow> (dst, src, cur))
     else (dst, src, cur))"

definition s_move_loop :: "SNode \<Rightarrow> SNode \<Rightarrow> SNode \<times> SNode \<times> nat" where
  "s_move_loop dst src = fold s_move_step [0..<MAX_ENTRIES] (dst, src, 0)"

text \<open>Both merges take the prefix that the two merged nodes have in common, not that of the remaining node and its new successor.\<close>

definition s_mergeWithNext :: "addr \<Rightarrow> sstate \<Rightarrow> fault + (ptr \<times> sstate)" where
  "s_mergeWithNext a s =
     bindE (s_getNode (Some a) s) (\<lambda>this.
     bindE (s_getNode (s_next this) s) (\<lambda>del.
       let d = the (s_next this);
           (v, del1) = s_writeLock del
       in if v = 0 then Inr (None, s_putNode d del1 s)
          else
            let (this1, del2, _) = s_move_loop this del1 in
            bindE (LCPlength (bytes (s_min del2)) (bytes (s_min this1))) (\<lambda>pl.
            let this2 = s_setNext (s_next del2) (setPrefixLength pl this1);
                s1 = s_putNode a this2 (s_putNode d del2 s)
            in bindE (s_updNode (s_next del2) (s_setPrev (Some a)) s1) (\<lambda>s2.
               bindE (s_updNode (Some d) (s_setDeleted True) s2) (\<lambda>s3.
                 Inr (Some d, s3))))))"

definition s_mergeWithPrev :: "addr \<Rightarrow> sstate \<Rightarrow> fault + (ptr \<times> sstate)" where
  "s_mergeWithPrev a s =
     bindE (s_getNode (Some a) s) (\<lambda>this.
     bindE (s_getNode (s_prev this) s) (\<lambda>mer.
       let m = the (s_prev this);
           (v, mer1) = s_writeLock mer
       in if v = 0 then Inr (None, s_putNode m mer1 s)
          else
            let (mer2, this1, _) = s_move_loop mer1 this in
            bindE (LCPlength (bytes (s_min mer2)) (bytes (s_min this1))) (\<lambda>pl.
            let mer3 = s_setNext (s_next this1) (setPrefixLength pl mer2);
                s1 = s_putNode m mer3 (s_putNode a this1 s)
            in bindE (s_updNode (s_next this1) (s_setPrev (Some m)) s1) (\<lambda>s2.
               bindE (s_updNode (Some a) (s_setDeleted True) s2) (\<lambda>s3.
               bindE (s_updNode (Some m) s_writeUnlock s3) (\<lambda>s4.
                 Inr (Some a, s4)))))))"

section \<open>Insert and remove on a node\<close>

definition s_node_insert :: "nat \<Rightarrow> addr \<Rightarrow> StringKey \<Rightarrow> Val_t \<Rightarrow> sstate \<Rightarrow> fault + (bool \<times> sstate)" where
  "s_node_insert t a k v s =
     bindE (s_getNode (Some a) s) (\<lambda>this.
     bindE (sk_fingerPrint k) (\<lambda>keyHash.
       let index = s_getFreeIndex k keyHash this
       in if index = -1 then Inr (False, s)
          else if index = -2 then
            bindE (s_split a k v keyHash s) (\<lambda>(b, s1).
            bindE (s_getNode (Some b) s1) (\<lambda>new.
            bindE (s_updNode (s_next new) (s_setPrev (Some b)) s1) (\<lambda>s2.
            bindE (s_getNode (Some b) s2) (\<lambda>new2.
              Inr (True, s_enqPerThreadLog t OpInsert (s_min new2) keyHash b s2)))))
          else Inr (True, s_putNode a (s_insertAtIndex k v (nat index) keyHash this) s)))"

definition s_small_pair :: "SNode \<Rightarrow> SNode \<Rightarrow> bool" where
  "s_small_pair n m \<longleftrightarrow> unat (s_numEntries n) + unat (s_numEntries m) < MAX_ENTRIES div 2"

definition s_logRemoved :: "nat \<Rightarrow> u8 \<Rightarrow> ptr \<Rightarrow> sstate \<Rightarrow> fault + sstate" where
  "s_logRemoved t keyHash delNode s =
     (case delNode of None \<Rightarrow> Inr s
      | Some d \<Rightarrow> bindE (s_getNode (Some d) s) (\<lambda>n. Inr (s_enqPerThreadLog t OpRemove (s_min n) keyHash d s)))"

definition s_node_remove :: "nat \<Rightarrow> addr \<Rightarrow> StringKey \<Rightarrow> sstate \<Rightarrow> fault + (bool \<times> sstate)" where
  "s_node_remove t a k s =
     bindE (s_getNode (Some a) s) (\<lambda>this.
     bindE (sk_fingerPrint k) (\<lambda>keyHash.
       let index = s_getKeyIndex k keyHash this
       in if index = -1 then Inr (False, s)
          else
            let this1 = s_removeFromIndex (nat index) this;
                s1 = s_putNode a this1 s
            in bindE (s_getNode (s_next this1) s1) (\<lambda>nxt.
               if s_small_pair this1 nxt then
                 bindE (s_mergeWithNext a s1) (\<lambda>(delNode, s2).
                 bindE (s_logRemoved t keyHash delNode s2) (\<lambda>s3. Inr (True, s3)))
               else if s_prev this1 = None then Inr (True, s1)
               else bindE (s_getNode (s_prev this1) s1) (\<lambda>prv.
                 if s_small_pair this1 prv then
                   bindE (s_mergeWithPrev a s1) (\<lambda>(delNode, s2).
                   bindE (s_logRemoved t keyHash delNode s2) (\<lambda>s3. Inr (True, s3)))
                 else Inr (True, s1)))))"

section \<open>The list\<close>

definition min_key :: StringKey where
  "min_key = setFromString [] StringKey_new"

definition max_key :: StringKey where
  "max_key = setFromString (replicate 43 126) StringKey_new"

definition s_initialize :: "nat \<Rightarrow> sstate \<Rightarrow> fault + (addr \<times> sstate)" where
  "s_initialize t s =
     (let (h, s1) = s_newNode s; (tl', s2) = s_newNode s1 in
      bindE (s_updNode (Some h) (s_setNext (Some tl')) s2) (\<lambda>s3.
      bindE (s_updNode (Some h) (s_setPrev None) s3) (\<lambda>s4.
      bindE (s_updNode (Some h) (s_setMin min_key) s4) (\<lambda>s5.
      bindE (s_node_insert t h min_key 0 s5) (\<lambda>(_, s6).
      bindE (s_updNode (Some h) (setPrefixLength 0) s6) (\<lambda>s7.
      bindE (s_node_insert t tl' max_key 0 s7) (\<lambda>(_, s8).
      bindE (s_updNode (Some tl') (s_setNumEntries MAX_ENTRIES) s8) (\<lambda>s9.
      bindE (s_updNode (Some tl') (s_setNext None) s9) (\<lambda>s10.
      bindE (s_updNode (Some tl') (s_setPrev (Some tl')) s10) (\<lambda>s11.
      bindE (s_updNode (Some tl') (s_setMin max_key) s11) (\<lambda>s12.
      bindE (s_updNode (Some tl') (setPrefixLength 0) s12) (\<lambda>s13.
        Inr (h, s13)))))))))))))"

partial_function (option) s_findNode :: "StringKey \<Rightarrow> ptr \<Rightarrow> sstate \<Rightarrow> addr outcome" where
  "s_findNode k cur s =
     (case s_getNode cur s of
        Inl f \<Rightarrow> Some (Inl f)
      | Inr n \<Rightarrow>
          (case s_checkRange k n s of
             Inl f \<Rightarrow> Some (Inl f)
           | Inr cmp \<Rightarrow>
               if cmp = -1 then s_findNode k (s_prev n) s
               else if cmp = 1 then s_findNode k (s_next n) s
               else Some (Inr (the cur))))"

definition s_lockNode :: "addr \<Rightarrow> sstate \<Rightarrow> version_t \<times> sstate" where
  "s_lockNode a s = (case s_writeLock (the (s_nodes s a)) of (v, n) \<Rightarrow> (v, s_putNode a n s))"

definition s_unlockNode :: "addr \<Rightarrow> sstate \<Rightarrow> sstate" where
  "s_unlockNode a s = s_putNode a (s_writeUnlock (the (s_nodes s a))) s"

partial_function (option) s_list_insert ::
  "nat \<Rightarrow> StringKey \<Rightarrow> Val_t \<Rightarrow> ptr \<Rightarrow> sstate \<Rightarrow> (bool \<times> sstate) outcome" where
  "s_list_insert t k v head s =
     (case s_findNode k head s of
        None \<Rightarrow> None
      | Some (Inl f) \<Rightarrow> Some (Inl f)
      | Some (Inr cur) \<Rightarrow>
          (case s_lockNode cur s of (ver, s1) \<Rightarrow>
             if ver = 0 then s_list_insert t k v head s1
             else if s_deleted (the (s_nodes s1 cur)) then s_list_insert t k v head (s_unlockNode cur s1)
             else
               (case s_node_insert t cur k v s1 of
                  Inl f \<Rightarrow> Some (Inl f)
                | Inr (ret, s2) \<Rightarrow> Some (Inr (ret, s_unlockNode cur s2)))))"

partial_function (option) s_list_update ::
  "StringKey \<Rightarrow> Val_t \<Rightarrow> ptr \<Rightarrow> sstate \<Rightarrow> (bool \<times> sstate) outcome" where
  "s_list_update k v head s =
     (case s_findNode k head s of
        None \<Rightarrow> None
      | Some (Inl f) \<Rightarrow> Some (Inl f)
      | Some (Inr cur) \<Rightarrow>
          (case s_lockNode cur s of (ver, s1) \<Rightarrow>
             if ver = 0 then s_list_update k v head s1
             else if s_deleted (the (s_nodes s1 cur)) then s_list_update k v head (s_unlockNode cur s1)
             else
               (case s_update k v (the (s_nodes s1 cur)) of
                  Inl f \<Rightarrow> Some (Inl f)
                | Inr (ret, n) \<Rightarrow> Some (Inr (ret, s_unlockNode cur (s_putNode cur n s1))))))"

definition s_stepBack :: "ptr \<Rightarrow> sstate \<Rightarrow> fault + ptr" where
  "s_stepBack head s = bindE (s_getNode head s) (\<lambda>n. Inr (if s_prev n \<noteq> None then s_prev n else head))"

partial_function (option) s_list_remove ::
  "nat \<Rightarrow> StringKey \<Rightarrow> ptr \<Rightarrow> sstate \<Rightarrow> (bool \<times> sstate) outcome" where
  "s_list_remove t k head s =
     (case s_findNode k head s of
        None \<Rightarrow> None
      | Some (Inl f) \<Rightarrow> Some (Inl f)
      | Some (Inr cur) \<Rightarrow>
          (case s_lockNode cur s of (ver, s1) \<Rightarrow>
             if ver = 0 then
               (case s_stepBack head s1 of
                  Inl f \<Rightarrow> Some (Inl f)
                | Inr head' \<Rightarrow> s_list_remove t k head' s1)
             else if s_deleted (the (s_nodes s1 cur)) then
               (case s_stepBack head s1 of
                  Inl f \<Rightarrow> Some (Inl f)
                | Inr head' \<Rightarrow> s_list_remove t k head' (s_unlockNode cur s1))
             else
               (case s_node_remove t cur k s1 of
                  Inl f \<Rightarrow> Some (Inl f)
                | Inr (ret, s2) \<Rightarrow> Some (Inr (ret, s_unlockNode cur s2)))))"

partial_function (option) s_list_probe :: "StringKey \<Rightarrow> ptr \<Rightarrow> sstate \<Rightarrow> bool outcome" where
  "s_list_probe k head s =
     (case s_findNode k head s of
        None \<Rightarrow> None
      | Some (Inl f) \<Rightarrow> Some (Inl f)
      | Some (Inr cur) \<Rightarrow>
          let n = the (s_nodes s cur); readVersion = s_readLock n in
          if readVersion = 0 then s_list_probe k head s
          else if s_deleted n then s_list_probe k head s
          else (case s_probe k n of
              Inl f \<Rightarrow> Some (Inl f)
            | Inr ret \<Rightarrow> if \<not> s_readUnlock readVersion n then s_list_probe k head s else Some (Inr ret)))"

partial_function (option) s_list_lookup :: "StringKey \<Rightarrow> ptr \<Rightarrow> sstate \<Rightarrow> Val_t option outcome" where
  "s_list_lookup k head s =
     (case s_findNode k head s of
        None \<Rightarrow> None
      | Some (Inl f) \<Rightarrow> Some (Inl f)
      | Some (Inr cur) \<Rightarrow>
          let n = the (s_nodes s cur); readVersion = s_readLock n in
          if readVersion = 0 then s_list_lookup k head s
          else if s_deleted n then s_list_lookup k head s
          else (case s_lookup k n of
              Inl f \<Rightarrow> Some (Inl f)
            | Inr ret \<Rightarrow> if \<not> s_readUnlock readVersion n then s_list_lookup k head s else Some (Inr ret)))"

partial_function (option) s_list_size :: "ptr \<Rightarrow> sstate \<Rightarrow> u32 \<Rightarrow> u32 outcome" where
  "s_list_size cur s count =
     (case s_getNode cur s of
        Inl f \<Rightarrow> Some (Inl f)
      | Inr n \<Rightarrow> if s_next n \<noteq> None then s_list_size (s_next n) s (count + 1) else Some (Inr count))"

partial_function (option) s_scanNodes ::
  "StringKey \<Rightarrow> int \<Rightarrow> Val_t list \<Rightarrow> bool \<Rightarrow> ptr \<Rightarrow> sstate \<Rightarrow> (bool \<times> Val_t list \<times> sstate) outcome" where
  "s_scanNodes startKey rng rv done cur s =
     (if \<not> (moreWanted rv rng \<and> \<not> done) then Some (Inr (False, rv, s))
      else
        (case s_getNode cur s of
           Inl f \<Rightarrow> Some (Inl f)
         | Inr n \<Rightarrow>
             let readVersion = s_readLock n in
             if readVersion = 0 then Some (Inr (True, rv, s))
             else if s_deleted n then Some (Inr (True, rv, s))
             else
               (case s_scan startKey rng rv readVersion n of
                  Inl f \<Rightarrow> Some (Inl f)
                | Inr (done', rv', n') \<Rightarrow>
                    if \<not> s_readUnlock readVersion n' then Some (Inr (True, rv', s_putNode (the cur) n' s))
                    else s_scanNodes startKey rng rv' done' (s_next n') (s_putNode (the cur) n' s))))"

partial_function (option) s_list_scan ::
  "StringKey \<Rightarrow> int \<Rightarrow> ptr \<Rightarrow> sstate \<Rightarrow> (Val_t list \<times> sstate) outcome" where
  "s_list_scan startKey rng head s =
     (case s_findNode startKey head s of
        None \<Rightarrow> None
      | Some (Inl f) \<Rightarrow> Some (Inl f)
      | Some (Inr cur) \<Rightarrow>
          (case s_scanNodes startKey rng [] False (Some cur) s of
             None \<Rightarrow> None
           | Some (Inl f) \<Rightarrow> Some (Inl f)
           | Some (Inr (again, rv, s1)) \<Rightarrow>
               if again then s_list_scan startKey rng head s1
               else Some (Inr (rv, s1))))"

end
