(* ===== verification/StringRefinement.thy ===== *)
theory StringRefinement
  imports StringList ScanRefinement
begin

text \<open>
  The list over strings refines the list of \<open>DataLayer\<close> and \<open>LinkedList\<close> with the strings as keys: an abstraction maps
  its nodes, logs and memory to theirs, and its operations to theirs. The abstract node has an
  upper bound, which is chosen freely here; that it is the smallest key of the successor is part of the
  invariant of the abstract list.
\<close>

section \<open>Abstraction\<close>

definition abs_node :: "u8 list \<Rightarrow> SNode \<Rightarrow> u8 list ListNode_of" where
  "abs_node M n = \<lparr>min_k = kstr (s_min n), max_k = M, numEntries = s_numEntries n, next_p = s_next n, prev_p = s_prev n,
     deleted = s_deleted n, bitMap = s_bitMap n, fingerPrint = s_fingerPrint n, verLock = s_verLock n,
     keyArray = zip (map kstr (s_keyArray n)) (s_valueArray n), lastScanVersion = s_lastScanVersion n, permuter = s_permuter n\<rparr>"

definition keys_ok :: "SNode \<Rightarrow> bool" where
  "keys_ok n \<longleftrightarrow> sk_ok (s_min n) \<and> length (s_keyArray n) = MAX_ENTRIES \<and> length (s_valueArray n) = MAX_ENTRIES \<and>
     (\<forall>k \<in> set (s_keyArray n). sk_ok k)"

definition abs_op :: "StringKey OpStruct \<Rightarrow> u8 list OpStruct" where
  "abs_op e = \<lparr>op = op e, key = kstr (key e), hash = hash e, listNodePtr = listNodePtr e, ts = ts e\<rparr>"

definition abs_log :: "StringKey Oplog \<Rightarrow> u8 list Oplog" where
  "abs_log l = \<lparr>op_0 = map (map_prod id abs_op) (op_0 l), op_1 = map (map_prod id abs_op) (op_1 l)\<rparr>"

definition abs_state :: "(addr \<Rightarrow> u8 list) \<Rightarrow> sstate \<Rightarrow> u8 list hstate_of" where
  "abs_state M s = \<lparr>nodes = (\<lambda>a. map_option (abs_node (M a)) (s_nodes s a)), nmalloc = s_nmalloc s,
     raw = (\<lambda>i. abs_node [] (SNode_ctor (s_raw s i))), nallocs = s_nallocs s, oplogs = map_option abs_log \<circ> s_oplogs s,
     curQ = s_curQ s, rdtscp = s_rdtscp s, clkReads = s_clkReads s, opmalloc = s_opmalloc s, opallocs = s_opallocs s\<rparr>"

definition state_ok :: "sstate \<Rightarrow> bool" where
  "state_ok s \<longleftrightarrow> (\<forall>a n. s_nodes s a = Some n \<longrightarrow> keys_ok n) \<and> (\<forall>i. length (s_valueArray (s_raw s i)) = MAX_ENTRIES)"

lemma abs_node_sel [simp]:
  "min_k (abs_node M n) = kstr (s_min n)" "max_k (abs_node M n) = M" "numEntries (abs_node M n) = s_numEntries n"
  "next_p (abs_node M n) = s_next n" "prev_p (abs_node M n) = s_prev n" "deleted (abs_node M n) = s_deleted n"
  "bitMap (abs_node M n) = s_bitMap n" "fingerPrint (abs_node M n) = s_fingerPrint n" "verLock (abs_node M n) = s_verLock n"
  "keyArray (abs_node M n) = zip (map kstr (s_keyArray n)) (s_valueArray n)"
  "lastScanVersion (abs_node M n) = s_lastScanVersion n" "permuter (abs_node M n) = s_permuter n"
  by (simp_all add: abs_node_def)

lemma abs_state_sel [simp]:
  "nodes (abs_state M s) a = map_option (abs_node (M a)) (s_nodes s a)" "nmalloc (abs_state M s) = s_nmalloc s"
  "raw (abs_state M s) i = abs_node [] (SNode_ctor (s_raw s i))" "nallocs (abs_state M s) = s_nallocs s"
  "oplogs (abs_state M s) t = map_option abs_log (s_oplogs s t)" "curQ (abs_state M s) = s_curQ s"
  "rdtscp (abs_state M s) = s_rdtscp s" "clkReads (abs_state M s) = s_clkReads s"
  "opmalloc (abs_state M s) = s_opmalloc s" "opallocs (abs_state M s) = s_opallocs s"
  by (simp_all add: abs_state_def)

lemma key_nth: "keys_ok n \<Longrightarrow> i < MAX_ENTRIES \<Longrightarrow> sk_ok (s_keyArray n ! i)"
  by (simp add: keys_ok_def)

lemma keys_ok_min: "keys_ok n \<Longrightarrow> sk_ok (s_min n)"
  by (simp add: keys_ok_def)

lemma abs_nth: "keys_ok n \<Longrightarrow> i < MAX_ENTRIES \<Longrightarrow> keyArray (abs_node M n) ! i = (kstr (s_keyArray n ! i), s_valueArray n ! i)"
  by (simp add: keys_ok_def)

section \<open>One node\<close>

lemma abs_fields:
  "abs_node M (s_setNext p n) = setNext p (abs_node M n)" "abs_node M (s_setPrev p n) = setPrev p (abs_node M n)"
  "abs_node M (s_setDeleted b n) = setDeleted b (abs_node M n)" "abs_node M (s_setMin k n) = setMin (kstr k) (abs_node M n)"
  "abs_node M (setPrefixLength pl n) = abs_node M n" "abs_node M (s_writeUnlock n) = writeUnlock (abs_node M n)"
  "abs_node M (s_setNumEntries c n) = setNumEntries c (abs_node M n)" "setMax M' (abs_node M n) = abs_node M' n"
  by (simp_all add: abs_node_def s_setNext_def setNext_def s_setPrev_def setPrev_def s_setDeleted_def setDeleted_def s_setMin_def
      setMin_def setPrefixLength_def s_writeUnlock_def writeUnlock_def s_setNumEntries_def setNumEntries_def setMax_def)

lemma keys_ok_fields [simp]:
  "keys_ok (s_setNext p n) = keys_ok n" "keys_ok (s_setPrev p n) = keys_ok n" "keys_ok (s_setDeleted b n) = keys_ok n"
  "keys_ok (setPrefixLength pl n) = keys_ok n" "keys_ok (s_writeUnlock n) = keys_ok n" "keys_ok (s_setNumEntries c n) = keys_ok n"
  "keys_ok (s_removeFromIndex i n) = keys_ok n" "keys_ok (s_updateAtIndex v i n) = keys_ok n"
  "sk_ok k \<Longrightarrow> keys_ok n \<Longrightarrow> keys_ok (s_setMin k n)"
  by (simp_all add: keys_ok_def s_setNext_def s_setPrev_def s_setDeleted_def setPrefixLength_def s_writeUnlock_def s_setMin_def
      s_setNumEntries_def s_removeFromIndex_def s_updateAtIndex_def)

lemma keys_ok_insertAtIndex [simp]: "keys_ok n \<Longrightarrow> sk_ok k \<Longrightarrow> keys_ok (s_insertAtIndex k v i h n)"
  using set_update_subset_insert[of "s_keyArray n" i "StringKey_assign (s_keyArray n ! i) k"]
  by (auto simp: keys_ok_def s_insertAtIndex_def)

lemma keys_ok_ctor [simp]: "length (s_valueArray r) = MAX_ENTRIES \<Longrightarrow> keys_ok (SNode_ctor r)"
  by (simp add: keys_ok_def SNode_ctor_def)

lemma abs_ctor [simp]: "ListNode_ctor (abs_node M (SNode_ctor r)) = abs_node M (SNode_ctor r)"
  by (simp add: abs_node_def ListNode_ctor_def SNode_ctor_def clear_def)

lemma abs_writeLock: "writeLock (abs_node M n) = (case s_writeLock n of (v, n') \<Rightarrow> (v, abs_node M n'))"
  by (simp add: writeLock_def s_writeLock_def abs_node_def split: prod.split)

lemma keys_ok_writeLock: "s_writeLock n = (v, n') \<Longrightarrow> keys_ok n' = keys_ok n"
  by (auto simp: s_writeLock_def keys_ok_def split: prod.splits)

lemma abs_slots:
  "abs_node M (s_insertAtIndex k v i h n) = insertAtIndex (kstr k, v) i h (abs_node M n)"
  "abs_node M (s_removeFromIndex i n) = removeFromIndex i (abs_node M n)"
  by (simp_all add: abs_node_def s_insertAtIndex_def insertAtIndex_def s_removeFromIndex_def removeFromIndex_def map_update zip_update)

lemma abs_updateAtIndex:
  "keys_ok n \<Longrightarrow> i < MAX_ENTRIES \<Longrightarrow> abs_node M (s_updateAtIndex v i n) = updateAtIndex v i (abs_node M n)"
proof -
  assume ok: "keys_ok n" "i < MAX_ENTRIES"
  then have "(map kstr (s_keyArray n))[i := kstr (s_keyArray n ! i)] = map kstr (s_keyArray n)"
    by (simp add: list_update_same_conv keys_ok_def)
  then show ?thesis
    using abs_nth[OF ok, where M = M] by (simp add: abs_node_def s_updateAtIndex_def updateAtIndex_def flip: zip_update)
qed

lemma scanMask_cong: "(\<And>p. p < 32 \<Longrightarrow> P p = Q p) \<Longrightarrow> scanMask w P = scanMask w Q"
proof (induction w P rule: scanMask.induct)
  case (1 w P)
  have "P (bsr w) = Q (bsr w)" if "w \<noteq> 0" using 1(2) bsr_props(1)[OF that] bit_imp_le_length by force
  then show ?case using 1 by (subst (1 2) scanMask.simps) (auto simp: Let_def simp del: push_bit_of_1)
qed

lemma abs_getKeyIndex:
  assumes "keys_ok n" "sk_ok k"
  shows "s_getKeyIndex k h n = getKeyIndex (kstr k) h (abs_node M n)"
proof -
  have "s_isKey k n p = (fst (keyArray (abs_node M n) ! p) = kstr k)" if "p < MAX_ENTRIES" for p
    using key_nth[OF assms(1) that] abs_nth[OF assms(1) that] assms(2) by (simp add: s_isKey_def memcmp_equal)
  then have eq: "s_isKey k n p = (fst (keyArray (abs_node M n) ! p) = kstr k)"
    "s_isKey k n (p + 32) = (fst (keyArray (abs_node M n) ! (p + 32)) = kstr k)" if "p < 32" for p
    using that by (auto simp: MAX_ENTRIES_def)
  show ?thesis
    unfolding s_getKeyIndex_def getKeyIndex_def abs_node_sel(7,8) Let_def
    by (simp only: scanMask_cong[of "s_isKey k n" "\<lambda>p. fst (keyArray (abs_node M n) ! p) = kstr k", OF eq(1)]
        scanMask_cong[of "\<lambda>p. s_isKey k n (p + 32)" "\<lambda>p. fst (keyArray (abs_node M n) ! (p + 32)) = kstr k", OF eq(2)])
qed

lemma getKeyIndex_bound: "getKeyIndex k h n = -1 \<or> (\<exists>p < MAX_ENTRIES. getKeyIndex k h n = int p)"
proof -
  let ?m = "cmpeq_epi8_mask (take 64 (fingerPrint n)) h AND bits0 (bitMap n)" and ?P = "\<lambda>p. fst (keyArray n ! p) = k"
  show ?thesis
    by (cases ?m ?P rule: scanHalves_cases) (auto simp: getKeyIndex_scanHalves MAX_ENTRIES_def dest: bit_imp_le_length)
qed

lemma abs_getFreeIndex: "keys_ok n \<Longrightarrow> sk_ok k \<Longrightarrow> s_getFreeIndex k h n = getFreeIndex (kstr k) h (abs_node M n)"
  by (simp add: s_getFreeIndex_def getFreeIndex_def abs_getKeyIndex[where M = M])

text \<open>Keys whose fingerprint is that of their string: those that have come through the interface, which copies them.\<close>

definition key_ok :: "StringKey \<Rightarrow> bool" where
  "key_ok k \<longleftrightarrow> sk_ok k \<and> sk_sized k"

lemma abs_lookup:
  assumes "keys_ok n" "key_ok k"
  shows "s_lookup k n = Inr (ListNode_lookup str_hash (kstr k) (abs_node M n))"
  using assms getKeyIndex_bound[of "kstr k" "str_hash (kstr k)" "abs_node M n"] abs_nth[OF assms(1), where M = M]
  by (auto simp: s_lookup_def ListNode_lookup_def sk_fingerPrint_ok key_ok_def abs_getKeyIndex[where M = M] Let_def)

lemma abs_probe:
  "keys_ok n \<Longrightarrow> key_ok k \<Longrightarrow> s_probe k n = Inr (ListNode_probe str_hash (kstr k) (abs_node M n))"
  by (auto simp: s_probe_def ListNode_probe_def sk_fingerPrint_ok key_ok_def abs_getKeyIndex[where M = M] Let_def)

text \<open>Fields that range checks look at.\<close>

definition same_frame :: "SNode \<Rightarrow> SNode \<Rightarrow> bool" where
  "same_frame n n' \<longleftrightarrow> s_min n' = s_min n \<and> prefixLength n' = prefixLength n \<and> s_next n' = s_next n"

lemma same_frame_simps [simp]: "same_frame n n" "same_frame n (s_updateAtIndex v i m) = same_frame n m"
  "same_frame n (s_removeFromIndex i m) = same_frame n m" "same_frame n (s_insertAtIndex k v i h m) = same_frame n m"
  "same_frame n (s_writeUnlock m) = same_frame n m"
  by (simp_all add: same_frame_def s_updateAtIndex_def s_removeFromIndex_def s_insertAtIndex_def s_writeUnlock_def)

lemma abs_update:
  assumes "keys_ok n" "key_ok k"
  shows "\<exists>r n'. s_update k v n = Inr (r, n') \<and> ListNode_update str_hash (kstr k) v (abs_node M n) = (r, abs_node M n') \<and>
    keys_ok n' \<and> same_frame n n'"
  using assms getKeyIndex_bound[of "kstr k" "str_hash (kstr k)" "abs_node M n"]
  by (auto simp: s_update_def ListNode_update_def sk_fingerPrint_ok key_ok_def abs_getKeyIndex[where M = M] Let_def abs_updateAtIndex
      intro!: exI)

section \<open>The memory\<close>

lemma s_putNode_sel [simp]:
  "s_nodes (s_putNode a n s) = (s_nodes s)(a \<mapsto> n)" "s_nmalloc (s_putNode a n s) = s_nmalloc s" "s_raw (s_putNode a n s) = s_raw s"
  "s_nallocs (s_putNode a n s) = s_nallocs s" "s_oplogs (s_putNode a n s) = s_oplogs s" "s_curQ (s_putNode a n s) = s_curQ s"
  "s_rdtscp (s_putNode a n s) = s_rdtscp s" "s_clkReads (s_putNode a n s) = s_clkReads s" "s_opmalloc (s_putNode a n s) = s_opmalloc s"
  "s_opallocs (s_putNode a n s) = s_opallocs s"
  by (simp_all add: s_putNode_def)

lemma abs_state_eqI:
  assumes "\<And>a. nodes t a = map_option (abs_node (M a)) (s_nodes s a)" "nmalloc t = s_nmalloc s"
    "\<And>i. raw t i = abs_node [] (SNode_ctor (s_raw s i))" "nallocs t = s_nallocs s"
    "\<And>i. oplogs t i = map_option abs_log (s_oplogs s i)" "curQ t = s_curQ s" "rdtscp t = s_rdtscp s" "clkReads t = s_clkReads s"
    "opmalloc t = s_opmalloc s" "opallocs t = s_opallocs s"
  shows "t = abs_state M s"
  using assms by (intro hstate_of.equality) (auto simp: fun_eq_iff)

lemma abs_putNode: "putNode a (abs_node m n) (abs_state M s) = abs_state (M(a := m)) (s_putNode a n s)"
  by (rule abs_state_eqI) auto

lemma abs_getNode: "getNode p (abs_state M s) = map_sum id (abs_node (M (the p))) (s_getNode p s)"
  by (simp add: getNode_def s_getNode_def split: option.splits)

lemma abs_getNode_Inr:
  "getNode p (abs_state M s) = Inr m \<longleftrightarrow> (\<exists>n. s_getNode p s = Inr n \<and> m = abs_node (M (the p)) n)"
  by (cases "s_getNode p s") (auto simp: abs_getNode)

lemma abs_updNode:
  assumes "\<And>n m. f (abs_node m n) = abs_node m (g n)" "updNode p f (abs_state M s) = Inr t"
  shows "\<exists>s'. s_updNode p g s = Inr s' \<and> t = abs_state M s'"
  using assms by (cases "s_getNode p s") (auto simp: updNode_def s_updNode_def abs_getNode abs_putNode)

lemma abs_updMax:
  assumes "updNode p (setMax m) (abs_state M s) = Inr t"
  shows "t = abs_state (M(the p := m)) s"
proof -
  obtain a n where a: "p = Some a" "s_nodes s a = Some n" "t = putNode a (abs_node m n) (abs_state M s)"
    using assms by (auto simp: updNode_def abs_getNode s_getNode_def abs_fields split: option.splits)
  then show ?thesis by (auto simp: intro!: abs_state_eqI)
qed

lemma abs_newNode:
  "newNode (abs_state M s) = (case s_newNode s of (b, s') \<Rightarrow> (b, abs_state (M(b := [])) s'))"
  by (auto simp: newNode_def s_newNode_def Let_def intro!: abs_state_eqI)

lemma state_ok_putNode [simp]: "state_ok s \<Longrightarrow> keys_ok n \<Longrightarrow> state_ok (s_putNode a n s)"
  by (simp add: state_ok_def)

lemma state_ok_getNode: "state_ok s \<Longrightarrow> s_getNode p s = Inr n \<Longrightarrow> keys_ok n"
  by (auto simp: state_ok_def s_getNode_def split: option.splits)

lemma state_ok_updNode: "state_ok s \<Longrightarrow> (\<And>n. keys_ok n \<Longrightarrow> keys_ok (g n)) \<Longrightarrow> s_updNode p g s = Inr s' \<Longrightarrow> state_ok s'"
  using state_ok_getNode[of s p] by (cases "s_getNode p s") (auto simp: s_updNode_def)

lemma state_ok_newNode: "state_ok s \<Longrightarrow> s_newNode s = (b, s') \<Longrightarrow> state_ok s'"
  by (auto simp: s_newNode_def Let_def state_ok_def split: if_splits)

lemma abs_log_enq: "abs_log (enq q (p, e) l) = enq q (p, abs_op e) (abs_log l)"
  by (simp add: abs_log_def enq_def setQ_def getQ_def)

lemma abs_enqPerThreadLog:
  "abs_state M (s_enqPerThreadLog t o' k h p s) = enqPerThreadLog t o' (kstr k) h p (abs_state M s)"
proof -
  have "abs_log Oplog_new = Oplog_new" "abs_op (mk_op o' (StringKey_assign StringKey_new k) h p clk) = mk_op o' (kstr k) h p clk" for clk
    by (simp_all add: abs_log_def Oplog_new_def abs_op_def mk_op_def)
  then show ?thesis
    by (intro abs_state_eqI[symmetric])
      (auto simp: s_enqPerThreadLog_def enqPerThreadLog_def Let_def ordo_get_clock_def getOpLog_def abs_log_enq split: option.splits)
qed

lemma state_ok_enqPerThreadLog [simp]: "state_ok (s_enqPerThreadLog t o' k h p s) = state_ok s"
  by (simp add: s_enqPerThreadLog_def state_ok_def Let_def)

end
