(* ===== verification/StringOps.thy ===== *)
theory StringOps
  imports StringRefinement
begin

text \<open>
  Splits, merges and the two writing operations of a node of the list over strings: each follows the operation of the same name of
  \<open>DataLayer\<close> on the abstract memory. Besides the stored prefixes what changes is the upper
  bound of the nodes, which the string code does not store.
\<close>

section \<open>Split\<close>

lemma sort_key_nth: "i < length xs \<Longrightarrow> f (sort_key f xs ! i) = sort (map f xs) ! i"
proof -
  assume "i < length xs"
  moreover have "sort (map f xs) = map f (sort_key f xs)" by (rule properties_for_sort) simp_all
  ultimately show ?thesis by simp
qed

lemma abs_median:
  assumes "keys_ok n"
  shows "\<exists>m. s_median n = Inr m \<and> sk_ok m \<and> kstr m = median_of (abs_node M n)"
proof -
  have len: "length (s_keyArray n) = MAX_ENTRIES" "length (s_valueArray n) = MAX_ENTRIES"
    and ok: "\<forall>k \<in> set (s_keyArray n). sk_ok k" using assms by (auto simp: keys_ok_def)
  let ?ks = "sort_key kstr (s_keyArray n)" and ?i = "MAX_ENTRIES div 2"
  have i: "?i < MAX_ENTRIES" by (simp add: MAX_ENTRIES_def)
  have "?ks ! ?i \<in> set ?ks" using i len by (intro nth_mem) simp
  then have "sk_ok (?ks ! ?i)" using ok by simp
  moreover have "kstr (?ks ! ?i) = median_of (abs_node M n)"
    using sort_key_nth[of ?i "s_keyArray n" kstr] sort_key_nth[of ?i "keyArray (abs_node M n)" fst] i len by (simp add: median_of_def)
  ultimately show ?thesis
    using ok len by (simp add: s_median_def sk_sort_def sk_ok_zero comp_def)
qed

lemma s_split_step_run:
  assumes "keys_ok n" "keys_ok m" "sk_ok med" "i < MAX_ENTRIES"
  shows "\<exists>n' m' c' r'. s_split_step med i (n, m, c, r) = Inr (n', m', c', r') \<and> keys_ok n' \<and> keys_ok m' \<and> same_frame n n' \<and>
    split_step (kstr med) i (abs_node M n, abs_node N m, c, r) = (abs_node M n', abs_node N m', c', r')"
  using assms key_nth[OF assms(1,4)] abs_nth[OF assms(1,4), where M = M]
  by (auto simp: s_split_step_def split_step_def sk_comparisons abs_slots
      simp del: abs_node_sel(10) intro!: exI)

lemma s_split_loop_run:
  assumes "keys_ok n" "keys_ok m" "sk_ok med" "set is \<subseteq> {..<MAX_ENTRIES}"
  shows "\<exists>n' m' c' r'. s_split_loop med is (n, m, c, r) = Inr (n', m', c', r') \<and> keys_ok n' \<and> keys_ok m' \<and> same_frame n n' \<and>
    fold (split_step (kstr med)) is (abs_node M n, abs_node N m, c, r) = (abs_node M n', abs_node N m', c', r')"
  using assms
proof (induction "is" arbitrary: n m c r)
  case (Cons i "is")
  obtain n1 m1 c1 r1 where 1: "s_split_step med i (n, m, c, r) = Inr (n1, m1, c1, r1)" "keys_ok n1" "keys_ok m1" "same_frame n n1"
      "split_step (kstr med) i (abs_node M n, abs_node N m, c, r) = (abs_node M n1, abs_node N m1, c1, r1)"
    using s_split_step_run[OF Cons.prems(1-3), of i] Cons.prems(4) by auto blast
  show ?case
    using Cons.IH[OF 1(2,3) Cons.prems(3), of c1 r1] Cons.prems(4) 1 by (auto simp: same_frame_def)
qed auto

lemma s_newNode_node: "s_newNode s = (b, s1) \<Longrightarrow> s_nodes s1 = (s_nodes s)(b \<mapsto> SNode_ctor (s_raw s (s_nallocs s)))"
  by (auto simp: s_newNode_def Let_def)

text \<open>The prefix stored in \<open>n\<close> is one that \<open>n\<close> has in common with its successor \<open>nx\<close>.\<close>

definition prefix_ok :: "SNode \<Rightarrow> SNode \<Rightarrow> bool" where
  "prefix_ok n nx \<longleftrightarrow> prefixLength n < 4 \<or> unat (prefixLength n) \<le> lcp_loop (kstr (s_min n)) (kstr (s_min nx))"

lemma s_split_run:
  assumes ok: "state_ok s" "sk_ok k" and self: "s_nodes s a = Some n0" and nx: "s_next n0 = Some c" "s_nodes s c = Some nx"
    and new: "s_newNode s = (b, s1)" "b \<notin> dom (s_nodes s)"
  shows "\<exists>n m. s_split a k v h s = Inr (b, s_putNode a n (s_putNode b m s1)) \<and>
    split a (kstr k) v h (abs_state M s) = Inr (b, abs_state (M(b := M a, a := kstr (s_min m))) (s_putNode a n (s_putNode b m s1))) \<and>
    keys_ok n \<and> keys_ok m \<and> s_min n = s_min n0 \<and> s_next n = Some b \<and> s_next m = s_next n0 \<and> prefix_ok n m \<and> prefix_ok m nx"
proof -
  let ?new = "SNode_ctor (s_raw s (s_nallocs s))"
  have kok: "keys_ok n0" "keys_ok ?new" "sk_ok (s_min nx)" "sk_ok (s_min n0)"
    using ok(1) self nx by (auto simp: state_ok_def intro: keys_ok_min)
  have s1: "s_nodes s1 b = Some ?new" "s_nodes s1 c = Some nx" using s_newNode_node[OF new(1)] new(2) nx(2) by auto
  obtain med where med: "s_median n0 = Inr med" "sk_ok med" "median_of (abs_node (M a) n0) = kstr med"
    using abs_median[OF kok(1)] by metis
  obtain n1 m1 c1 r1 where loop: "s_split_loop med [0..<MAX_ENTRIES] (n0, ?new, 0, -1) = Inr (n1, m1, c1, r1)"
      "keys_ok n1" "keys_ok m1" "same_frame n0 n1"
      "split_loop (kstr med) (abs_node (M a) n0) (abs_node [] ?new) = (abs_node (M a) n1, abs_node [] m1, c1, r1)"
    using s_split_loop_run[OF kok(1,2) med(2), of "[0..<MAX_ENTRIES]" 0 "-1" "M a" "[]"] unfolding split_loop_def
    by (metis atLeast_upt order_refl)
  define n2 where "n2 = (if kstr k < kstr med then (if r1 \<noteq> -1 then s_insertAtIndex k v (nat r1) h n1
      else s_insertAtIndex k v (unat (s_numEntries n1)) h n1) else n1)"
  define m2 where "m2 = (if kstr k < kstr med then m1 else s_insertAtIndex k v c1 h m1)"
  have 2: "keys_ok n2" "keys_ok m2" "same_frame n0 n2" using loop ok(2) by (auto simp: n2_def m2_def)
  let ?m = "StringKey_copy med"
  obtain pl pl' where pl: "LCPlength (bytes ?m) (bytes (s_min n2)) = Inr pl" "LCPlength (bytes ?m) (bytes (s_min nx)) = Inr pl'"
    using LCPlength_ok(1)[of ?m] med(2) kok 2(3) by (auto simp: same_frame_def)
  define m3 where "m3 = setPrefixLength pl' (s_setPrev (Some a) (s_setDeleted False (s_setNext (s_next n2) (s_setMin ?m m2))))"
  define n3 where "n3 = s_setNext (Some b) (setPrefixLength pl n2)"
  have pair: "(if kstr k < kstr med then (if r1 \<noteq> -1 then s_insertAtIndex k v (nat r1) h n1
      else s_insertAtIndex k v (unat (s_numEntries n1)) h n1, m1) else (n1, s_insertAtIndex k v c1 h m1)) = (n2, m2)"
    by (simp add: n2_def m2_def)
  have "s_split a k v h s = Inr (b, s_putNode a n3 (s_putNode b m3 s1))"
    using self med loop(1) new(1) s1 sk_comparisons(1)[of k ?m] ok(2) pl nx 2(3) pair
    by (simp add: s_split_def s_getNode_def m3_def n3_def same_frame_def Let_def cong: if_cong)
  moreover have pair': "(if kstr k < kstr med then (if r1 \<noteq> -1 then insertAtIndex (kstr k, v) (nat r1) h (abs_node (M a) n1)
      else insertAtIndex (kstr k, v) (unat (s_numEntries n1)) h (abs_node (M a) n1), abs_node [] m1)
      else (abs_node (M a) n1, insertAtIndex (kstr k, v) c1 h (abs_node [] m1))) = (abs_node (M a) n2, abs_node [] m2)"
    by (simp add: n2_def m2_def abs_slots)
  have "split_nodes (kstr k) v h a b (abs_node (M a) n0) (abs_node [] ?new) = (abs_node (kstr med) n3, abs_node (M a) m3)"
    using med(3) loop(5) pair' by (simp add: split_nodes_def Let_def n3_def m3_def abs_fields cong: if_cong)
      (simp add: abs_node_def setMax_def setPrev_def setDeleted_def setNext_def setMin_def)
  then have "split a (kstr k) v h (abs_state M s) = Inr (b, abs_state (M(b := M a, a := kstr med)) (s_putNode a n3 (s_putNode b m3 s1)))"
    using self new s1(1) by (simp add: split_def abs_newNode abs_putNode getNode_def Let_def)
  moreover have "kstr (s_min m3) = kstr med" "s_min n3 = s_min n0" "s_next n3 = Some b" "s_next m3 = s_next n0"
      "prefixLength n3 = pl" "prefixLength m3 = pl'" "keys_ok n3" "keys_ok m3"
    using 2 med by (simp_all add: m3_def n3_def s_setNext_def s_setPrev_def s_setDeleted_def s_setMin_def setPrefixLength_def same_frame_def
        keys_ok_def)
  moreover have "prefix_ok n3 m3" "prefix_ok m3 nx"
    using pl med(2) kok calculation 2(3) LCPlength_ok[of ?m "s_min n2"] LCPlength_ok[of ?m "s_min nx"] lcp_loop_commute[of "kstr med"]
    by (auto simp: prefix_ok_def same_frame_def)
  ultimately show ?thesis by metis
qed

section \<open>The stored prefixes\<close>

text \<open>Every successor is allocated and every stored prefix is right.\<close>

definition prefix_inv :: "sstate \<Rightarrow> bool" where
  "prefix_inv s \<longleftrightarrow> (\<forall>a n b. s_nodes s a = Some n \<longrightarrow> s_next n = Some b \<longrightarrow> (\<exists>nx. s_nodes s b = Some nx \<and> prefix_ok n nx))"

lemma prefix_invE:
  assumes "prefix_inv s" "s_nodes s a = Some n" "s_next n = Some b"
  obtains nx where "s_nodes s b = Some nx" "prefix_ok n nx"
  using assms by (metis prefix_inv_def)

lemma prefix_inv_put:
  assumes "prefix_inv s" "s_nodes s a = Some n" "same_frame n n'"
  shows "prefix_inv (s_putNode a n' s)"
  unfolding prefix_inv_def
proof (intro allI impI)
  fix x m b assume x: "s_nodes (s_putNode a n' s) x = Some m" "s_next m = Some b"
  define m0 where "m0 = (if x = a then n else m)"
  have m0: "s_nodes s x = Some m0" "s_min m = s_min m0" "prefixLength m = prefixLength m0" "s_next m0 = Some b"
    using x assms(2,3) by (auto simp: m0_def same_frame_def split: if_splits)
  obtain nx where nx: "s_nodes s b = Some nx" "prefix_ok m0 nx" using prefix_invE[OF assms(1) m0(1,4)] .
  show "\<exists>nx. s_nodes (s_putNode a n' s) b = Some nx \<and> prefix_ok m nx"
    using nx m0(2,3) assms(2,3) by (cases "b = a") (auto simp: prefix_ok_def same_frame_def)
qed

lemma prefix_inv_upd:
  "prefix_inv s \<Longrightarrow> s_updNode p g s = Inr s' \<Longrightarrow> (\<And>n. same_frame n (g n)) \<Longrightarrow> prefix_inv s'"
  by (auto simp: s_updNode_def s_getNode_def intro: prefix_inv_put split: option.splits)

lemma prefix_inv_cong: "s_nodes s' = s_nodes s \<Longrightarrow> prefix_inv s' = prefix_inv s"
  by (simp add: prefix_inv_def)

lemma s_enqPerThreadLog_nodes [simp]: "s_nodes (s_enqPerThreadLog t o' k h p s) = s_nodes s"
  by (simp add: s_enqPerThreadLog_def Let_def)

lemma s_enqPerThreadLog_opallocs [simp]: "s_opallocs (s_enqPerThreadLog t o' k h p s) = s_opallocs s + 1"
  by (simp add: s_enqPerThreadLog_def Let_def)

lemma same_frame_setPrev [simp]: "same_frame n (s_setPrev p n)"
  by (simp add: same_frame_def s_setPrev_def)

lemma prefix_inv_split:
  assumes inv: "prefix_inv s" and a: "s_nodes s a = Some n0" "s_next n0 = Some c" "s_nodes s c = Some nx"
    and b: "b \<notin> dom (s_nodes s)" "s_nodes s1 = (s_nodes s)(b \<mapsto> m0)"
    and n: "s_min n = s_min n0" "s_next n = Some b" "s_next m = s_next n0" "prefix_ok n m" "prefix_ok m nx"
  shows "prefix_inv (s_putNode a n (s_putNode b m s1))"
  unfolding prefix_inv_def
proof (intro allI impI)
  let ?s = "s_putNode a n (s_putNode b m s1)"
  fix x l y assume x: "s_nodes ?s x = Some l" "s_next l = Some y"
  have ab: "a \<noteq> b" "c \<noteq> b" using a b(1) by auto
  have put: "s_nodes ?s z = (if z = a then Some n else if z = b then Some m else s_nodes s z)" for z using b(2) by auto
  have old: "\<exists>nz. s_nodes ?s z = Some nz \<and> s_min nz = s_min n1" if "s_nodes s z = Some n1" for z n1
    using that a(1) n(1) b(1) by (cases "z = a"; cases "z = b") (auto simp: put simp del: s_putNode_sel)
  consider "x = a" | "x = b" | "s_nodes s x = Some l" "x \<noteq> a" "x \<noteq> b" using x(1) b(2) by (auto split: if_splits)
  then show "\<exists>nz. s_nodes ?s y = Some nz \<and> prefix_ok l nz"
  proof cases
    case 1
    then show ?thesis using x n ab by (auto simp: put)
  next
    case 2
    then have l: "l = m" "y = c" using x ab n(3) a(2) by (auto simp: put)
    then show ?thesis using old[OF a(3)] n(5) unfolding prefix_ok_def by metis
  next
    case 3
    obtain nz where nz: "s_nodes s y = Some nz" "prefix_ok l nz" using prefix_invE[OF inv 3(1) x(2)] .
    then show ?thesis using old[OF nz(1)] unfolding prefix_ok_def by metis
  qed
qed

lemma s_updNode_dom: "s_updNode p g s = Inr s' \<Longrightarrow> s_nodes s a \<noteq> None \<Longrightarrow> s_nodes s' a \<noteq> None"
  by (cases "s_getNode p s") (auto simp: s_updNode_def)

section \<open>Insert\<close>

lemma s_node_insert_run:
  assumes ok: "state_ok s" "key_ok k" "prefix_inv s" and fresh: "s_nmalloc s (s_nallocs s) \<notin> dom (s_nodes s)"
    and nxt: "s_nodes s a = Some n0" "s_next n0 = Some c"
    and run: "ListNode_insert str_hash t a (kstr k) v (abs_state M s) = Inr (r, s2)"
  shows "\<exists>s' M'. s_node_insert t a k v s = Inr (r, s') \<and> s2 = abs_state M' s' \<and> state_ok s' \<and> prefix_inv s' \<and> s_nodes s' a \<noteq> None"
proof -
  note n0 = nxt(1)
  have k: "sk_ok k" "sk_fingerPrint k = Inr (str_hash (kstr k))" using ok(2) by (auto simp: key_ok_def sk_fingerPrint_ok)
  have n0ok: "keys_ok n0" using ok(1) n0 by (auto simp: state_ok_def)
  let ?h = "str_hash (kstr k)" and ?i = "getFreeIndex (kstr k) (str_hash (kstr k)) (abs_node (M a) n0)"
  have i: "s_getFreeIndex k ?h n0 = ?i" using abs_getFreeIndex[OF n0ok k(1)] .
  consider "?i = -1" | "?i = -2" | "?i \<noteq> -1" "?i \<noteq> -2" by blast
  then show ?thesis
  proof cases
    case 1
    then show ?thesis using run n0 k i ok by (auto simp: ListNode_insert_def s_node_insert_def s_getNode_def Let_def)
  next
    case 2
    obtain b s1 where new: "s_newNode s = (b, s1)" by (cases "s_newNode s")
    have b: "b \<notin> dom (s_nodes s)" using new fresh by (auto simp: s_newNode_def Let_def)
    obtain nx where nx: "s_nodes s c = Some nx" using prefix_invE[OF ok(3) nxt] .
    obtain n m where nm: "s_split a k v ?h s = Inr (b, s_putNode a n (s_putNode b m s1))"
        "split a (kstr k) v ?h (abs_state M s) = Inr (b, abs_state (M(b := M a, a := kstr (s_min m))) (s_putNode a n (s_putNode b m s1)))"
        "keys_ok n" "keys_ok m" "s_min n = s_min n0" "s_next n = Some b" "s_next m = s_next n0" "prefix_ok n m" "prefix_ok m nx"
      using s_split_run[OF ok(1) k(1) nxt nx new b] by blast
    let ?s = "s_putNode a n (s_putNode b m s1)" and ?M = "M(b := M a, a := kstr (s_min m))"
    have sok: "state_ok ?s" "prefix_inv ?s" using nm(3,4) state_ok_newNode[OF ok(1) new]
        prefix_inv_split[OF ok(3) nxt nx b s_newNode_node[OF new] nm(5-9)] by auto
    have ab: "a \<noteq> b" using n0 b by auto
    obtain t3 where t3: "updNode (s_next n0) (setPrev (Some b)) (abs_state ?M ?s) = Inr t3"
      using run n0 2 nm(2,7) ab by (cases "updNode (s_next n0) (setPrev (Some b)) (abs_state ?M ?s)")
        (auto simp: ListNode_insert_def Let_def getNode_def)
    obtain s3 where s3: "s_updNode (s_next n0) (s_setPrev (Some b)) ?s = Inr s3" "t3 = abs_state ?M s3"
      using abs_updNode[OF _ t3, of "s_setPrev (Some b)"] by (auto simp: abs_fields)
    obtain m' where m': "s_nodes s3 b = Some m'" using s3(1) ab
      by (auto simp: s_updNode_def s_getNode_def nxt split: if_splits option.splits)
    have "s2 = abs_state ?M (s_enqPerThreadLog t OpInsert (s_min m') ?h b s3)" "r"
      using run n0 2 nm(2,7) ab t3 s3 m' by (auto simp: ListNode_insert_def Let_def getNode_def abs_enqPerThreadLog)
    moreover have "s_node_insert t a k v s = Inr (True, s_enqPerThreadLog t OpInsert (s_min m') ?h b s3)"
      using n0 k i 2 nm(1,7) s3(1) m' ab by (simp add: s_node_insert_def s_getNode_def Let_def)
    moreover have "state_ok s3" "prefix_inv s3" "s_nodes s3 a \<noteq> None"
      using state_ok_updNode[OF sok(1) _ s3(1)] prefix_inv_upd[OF sok(2) s3(1)] s_updNode_dom[OF s3(1), of a] by auto
    ultimately show ?thesis using prefix_inv_cong[of "s_enqPerThreadLog t OpInsert (s_min m') ?h b s3" s3] by auto
  next
    case 3
    let ?n = "s_insertAtIndex k v (nat ?i) ?h n0"
    have "s2 = putNode a (abs_node (M a) ?n) (abs_state M s)" "r" using run n0 3 by (auto simp: ListNode_insert_def abs_slots Let_def)
    then show ?thesis
      using n0 k i 3 ok n0ok prefix_inv_put[OF ok(3) n0, of ?n]
      by (auto simp: s_node_insert_def s_getNode_def abs_putNode Let_def)
  qed
qed

section \<open>Merge\<close>

lemma s_move_step_run:
  assumes "keys_ok d" "keys_ok n" "i < MAX_ENTRIES"
  shows "\<exists>d' n' c'. s_move_step i (d, n, c) = (d', n', c') \<and> keys_ok d' \<and> keys_ok n' \<and> same_frame d d' \<and> same_frame n n' \<and>
    move_step i (abs_node M d, abs_node N n, c) = (abs_node M d', abs_node N n', c')"
  using assms key_nth[OF assms(2,3)] abs_nth[OF assms(2,3), where M = N]
  by (auto simp: s_move_step_def move_step_def abs_slots split: option.split simp del: abs_node_sel(10) intro!: exI)

lemma s_move_fold_run:
  assumes "keys_ok d" "keys_ok n" "set is \<subseteq> {..<MAX_ENTRIES}"
  shows "\<exists>d' n' c'. fold s_move_step is (d, n, c) = (d', n', c') \<and> keys_ok d' \<and> keys_ok n' \<and> same_frame d d' \<and> same_frame n n' \<and>
    fold move_step is (abs_node M d, abs_node N n, c) = (abs_node M d', abs_node N n', c')"
  using assms
proof (induction "is" arbitrary: d n c)
  case (Cons i "is")
  obtain d1 n1 c1 where 1: "s_move_step i (d, n, c) = (d1, n1, c1)" "keys_ok d1" "keys_ok n1" "same_frame d d1" "same_frame n n1"
      "move_step i (abs_node M d, abs_node N n, c) = (abs_node M d1, abs_node N n1, c1)"
    using s_move_step_run[OF Cons.prems(1,2), of i] Cons.prems(3) by auto blast
  show ?case
    using Cons.IH[OF 1(2,3), of c1] Cons.prems(3) 1 by (auto simp: same_frame_def)
qed auto

lemma s_move_loop_run:
  assumes "keys_ok d" "keys_ok n"
  obtains d' n' c' where "s_move_loop d n = (d', n', c')" "keys_ok d'" "keys_ok n'" "same_frame d d'" "same_frame n n'"
    "move_loop (abs_node M d) (abs_node N n) = (abs_node M d', abs_node N n', c')"
  using s_move_fold_run[OF assms, of "[0..<MAX_ENTRIES]" 0 M N] unfolding s_move_loop_def move_loop_def
  by (metis atLeast_upt order_refl)

lemma s_writeLock_frame:
  "s_writeLock n = (v, n') \<Longrightarrow> same_frame n n' \<and> keys_ok n' = keys_ok n \<and> writeLock (abs_node M n) = (v, abs_node M n')"
  by (auto simp: s_writeLock_def keys_ok_def same_frame_def abs_writeLock split: prod.splits)

lemma s_updNode_opallocs: "s_updNode p g s = Inr s' \<Longrightarrow> s_opallocs s' = s_opallocs s"
  by (cases "s_getNode p s") (auto simp: s_updNode_def)

lemma bindE_Inr: "bindE m f = Inr y \<longleftrightarrow> (\<exists>x. m = Inr x \<and> f x = Inr y)"
  by (cases m) auto

text \<open>The common end of both merges.\<close>

lemma s_unlink_run:
  assumes "state_ok s1" "updNode p (setPrev x) (abs_state M s1) = Inr t2" "updNode (Some y) (setDeleted True) t2 = Inr t3"
    "updNode (Some z) (setMax m) t3 = Inr t"
  shows "\<exists>s2 s3. s_updNode p (s_setPrev x) s1 = Inr s2 \<and> s_updNode (Some y) (s_setDeleted True) s2 = Inr s3 \<and>
    t = abs_state (M(z := m)) s3 \<and> state_ok s3 \<and> s_opallocs s3 = s_opallocs s1 \<and> (s_nodes s1 z \<noteq> None \<longrightarrow> s_nodes s3 z \<noteq> None) \<and>
    (s_nodes s1 y \<noteq> None \<longrightarrow> s_nodes s3 y \<noteq> None)"
proof -
  obtain s2 where s2: "s_updNode p (s_setPrev x) s1 = Inr s2" "t2 = abs_state M s2"
    using abs_updNode[OF _ assms(2), of "s_setPrev x"] by (auto simp: abs_fields)
  obtain s3 where s3: "s_updNode (Some y) (s_setDeleted True) s2 = Inr s3" "t3 = abs_state M s3"
    using abs_updNode[OF _ assms(3)[unfolded s2], of "s_setDeleted True"] by (auto simp: abs_fields)
  have "state_ok s3" using state_ok_updNode[OF state_ok_updNode[OF assms(1) _ s2(1)] _ s3(1)] by simp
  moreover have "s_opallocs s3 = s_opallocs s1" using s_updNode_opallocs[OF s2(1)] s_updNode_opallocs[OF s3(1)] by simp
  ultimately show ?thesis
    using s2(1) s3(1) abs_updMax[OF assms(4)[unfolded s3(2)]] s_updNode_dom[OF s2(1)] s_updNode_dom[OF s3(1)] by (metis option.sel)
qed

lemma s_mergeWithNext_run:
  assumes ok: "state_ok s" and run: "mergeWithNext a (abs_state M s) = Inr (r, t)"
  shows "\<exists>s' M'. s_mergeWithNext a s = Inr (r, s') \<and> t = abs_state M' s' \<and> state_ok s' \<and> s_opallocs s' = s_opallocs s \<and>
    s_nodes s' a \<noteq> None \<and> (r = None \<longrightarrow> prefix_inv s \<longrightarrow> prefix_inv s')"
proof -
  obtain n d del where n: "s_getNode (Some a) s = Inr n" and d: "s_next n = Some d" "s_getNode (Some d) s = Inr del" "s_nodes s d = Some del"
    using run by (auto simp: mergeWithNext_def bindE_Inr abs_getNode_Inr s_getNode_def split: option.splits)
  have kok: "keys_ok n" "keys_ok del" using state_ok_getNode[OF ok] n d by auto
  obtain v del1 where l: "s_writeLock del = (v, del1)" by (cases "s_writeLock del")
  have l1: "same_frame del del1" "keys_ok del1" "writeLock (abs_node (M d) del) = (v, abs_node (M d) del1)"
    using s_writeLock_frame[OF l, of "M d"] kok by auto
  show ?thesis
  proof (cases "v = 0")
    case True
    then have "t = abs_state (M(d := M d)) (s_putNode d del1 s)" "r = None"
      using run n d l1 by (auto simp: mergeWithNext_def abs_getNode abs_putNode)
    moreover have "s_mergeWithNext a s = Inr (None, s_putNode d del1 s)" using n d l True by (simp add: s_mergeWithNext_def)
    ultimately show ?thesis using ok l1 n prefix_inv_put[OF _ d(3) l1(1)] by (auto simp: s_getNode_def split: option.splits)
  next
    case False
    obtain n1 del2 c where mv: "s_move_loop n del1 = (n1, del2, c)" "keys_ok n1" "keys_ok del2" "same_frame n n1" "same_frame del1 del2"
        "move_loop (abs_node (M a) n) (abs_node (M d) del1) = (abs_node (M a) n1, abs_node (M d) del2, c)"
      using s_move_loop_run[OF kok(1) l1(2)] .
    obtain pl where pl: "LCPlength (bytes (s_min del2)) (bytes (s_min n1)) = Inr pl"
      using LCPlength_ok(1) mv(2,3) keys_ok_min by blast
    let ?n = "s_setNext (s_next del2) (setPrefixLength pl n1)"
    let ?s1 = "s_putNode a ?n (s_putNode d del2 s)"
    have "putNode a (setNext (s_next del2) (abs_node (M a) n1)) (putNode d (abs_node (M d) del2) (abs_state M s)) = abs_state M ?s1"
      using abs_putNode[of a "M a" ?n M "s_putNode d del2 s"] abs_putNode[of d "M d" del2 M s] by (simp add: abs_fields)
    then obtain t2 t3 where t: "updNode (s_next del2) (setPrev (Some a)) (abs_state M ?s1) = Inr t2"
        "updNode (Some d) (setDeleted True) t2 = Inr t3" "updNode (Some a) (setMax (M d)) t3 = Inr t" "r = Some d"
      using run n d l1(3) mv(6) False by (auto simp: mergeWithNext_def abs_getNode bindE_Inr)
    obtain s2 s3 where s3: "s_updNode (s_next del2) (s_setPrev (Some a)) ?s1 = Inr s2" "s_updNode (Some d) (s_setDeleted True) s2 = Inr s3"
        "t = abs_state (M(a := M d)) s3" "state_ok s3" "s_opallocs s3 = s_opallocs s" "s_nodes s3 a \<noteq> None"
      using s_unlink_run[OF _ t(1,2,3)] ok mv by auto
    moreover have "s_mergeWithNext a s = Inr (Some d, s3)"
      using n d l mv(1) pl s3(1,2) False by (simp add: s_mergeWithNext_def)
    ultimately show ?thesis using t(4) by auto
  qed
qed

lemma s_mergeWithPrev_run:
  assumes ok: "state_ok s" and run: "mergeWithPrev a (abs_state M s) = Inr (r, t)"
  shows "\<exists>s' M'. s_mergeWithPrev a s = Inr (r, s') \<and> t = abs_state M' s' \<and> state_ok s' \<and> s_opallocs s' = s_opallocs s \<and>
    s_nodes s' a \<noteq> None \<and> (r = None \<longrightarrow> prefix_inv s \<longrightarrow> prefix_inv s')"
proof -
  obtain n d mer where n: "s_getNode (Some a) s = Inr n" and d: "s_prev n = Some d" "s_getNode (Some d) s = Inr mer" "s_nodes s d = Some mer"
    using run by (auto simp: mergeWithPrev_def bindE_Inr abs_getNode_Inr s_getNode_def split: option.splits)
  have kok: "keys_ok n" "keys_ok mer" using state_ok_getNode[OF ok] n d by auto
  obtain v mer1 where l: "s_writeLock mer = (v, mer1)" by (cases "s_writeLock mer")
  have l1: "same_frame mer mer1" "keys_ok mer1" "writeLock (abs_node (M d) mer) = (v, abs_node (M d) mer1)"
    using s_writeLock_frame[OF l, of "M d"] kok by auto
  show ?thesis
  proof (cases "v = 0")
    case True
    then have "t = abs_state (M(d := M d)) (s_putNode d mer1 s)" "r = None"
      using run n d l1 by (auto simp: mergeWithPrev_def abs_getNode abs_putNode)
    moreover have "s_mergeWithPrev a s = Inr (None, s_putNode d mer1 s)" using n d l True by (simp add: s_mergeWithPrev_def)
    ultimately show ?thesis using ok l1 n prefix_inv_put[OF _ d(3) l1(1)] by (auto simp: s_getNode_def split: option.splits)
  next
    case False
    obtain mer2 n1 c where mv: "s_move_loop mer1 n = (mer2, n1, c)" "keys_ok mer2" "keys_ok n1" "same_frame mer1 mer2" "same_frame n n1"
        "move_loop (abs_node (M d) mer1) (abs_node (M a) n) = (abs_node (M d) mer2, abs_node (M a) n1, c)"
      using s_move_loop_run[OF l1(2) kok(1)] .
    obtain pl where pl: "LCPlength (bytes (s_min mer2)) (bytes (s_min n1)) = Inr pl"
      using LCPlength_ok(1) mv(2,3) keys_ok_min by blast
    let ?m = "s_setNext (s_next n1) (setPrefixLength pl mer2)"
    let ?s1 = "s_putNode d ?m (s_putNode a n1 s)"
    have "putNode d (setNext (s_next n1) (abs_node (M d) mer2)) (putNode a (abs_node (M a) n1) (abs_state M s)) = abs_state M ?s1"
      using abs_putNode[of d "M d" ?m M "s_putNode a n1 s"] abs_putNode[of a "M a" n1 M s] by (simp add: abs_fields)
    then obtain t2 t3 t4 where t: "updNode (s_next n1) (setPrev (Some d)) (abs_state M ?s1) = Inr t2"
        "updNode (Some a) (setDeleted True) t2 = Inr t3" "updNode (Some d) (setMax (M a)) t3 = Inr t4"
        "updNode (Some d) writeUnlock t4 = Inr t" "r = Some a"
      using run n d l1(3) mv(6) False by (auto simp: mergeWithPrev_def abs_getNode bindE_Inr)
    obtain s2 s3 where s3: "s_updNode (s_next n1) (s_setPrev (Some d)) ?s1 = Inr s2" "s_updNode (Some a) (s_setDeleted True) s2 = Inr s3"
        "t4 = abs_state (M(d := M a)) s3" "state_ok s3" "s_opallocs s3 = s_opallocs s" "s_nodes s3 a \<noteq> None"
      using s_unlink_run[OF _ t(1,2,3)] ok mv by (auto split: if_splits)
    obtain s4 where s4: "s_updNode (Some d) s_writeUnlock s3 = Inr s4" "t = abs_state (M(d := M a)) s4"
      using abs_updNode[OF _ t(4)[unfolded s3(3)], of s_writeUnlock] by (auto simp: abs_fields)
    have "s_mergeWithPrev a s = Inr (Some a, s4)"
      using n d l mv(1) pl s3(1,2) s4(1) False by (simp add: s_mergeWithPrev_def)
    moreover have "state_ok s4" "s_opallocs s4 = s_opallocs s" "s_nodes s4 a \<noteq> None"
      using state_ok_updNode[OF s3(4) _ s4(1)] s_updNode_opallocs[OF s4(1)] s_updNode_dom[OF s4(1) s3(6)] s3(5) by auto
    ultimately show ?thesis using t(5) s4(2) by auto
  qed
qed

section \<open>Remove\<close>

lemma s_logRemoved_run:
  assumes "state_ok s" "logRemoved t h d (abs_state M s) = Inr s2"
  shows "\<exists>s'. s_logRemoved t h d s = Inr s' \<and> s2 = abs_state M s' \<and> state_ok s' \<and> (d = None \<longrightarrow> s' = s) \<and> s_nodes s' = s_nodes s \<and>
    (d \<noteq> None \<longrightarrow> s_opallocs s' = s_opallocs s + 1)"
  using assms by (cases d) (auto simp: logRemoved_def s_logRemoved_def bindE_Inr abs_getNode_Inr abs_enqPerThreadLog)

lemma s_removeFromIndex_sel [simp]: "s_next (s_removeFromIndex i n) = s_next n" "s_prev (s_removeFromIndex i n) = s_prev n"
  by (simp_all add: s_removeFromIndex_def)

lemma abs_small_pair: "small_pair (abs_node M n) (abs_node N m) = s_small_pair n m"
  by (simp add: small_pair_def s_small_pair_def)

text \<open>A remove that merges nothing keeps the stored prefixes right; a merge leaves a log entry.\<close>

lemma s_node_remove_run:
  assumes ok: "state_ok s" "key_ok k" "prefix_inv s"
    and run: "ListNode_remove str_hash t a (kstr k) (abs_state M s) = Inr (r, s2)"
  shows "\<exists>s' M'. s_node_remove t a k s = Inr (r, s') \<and> s2 = abs_state M' s' \<and> state_ok s' \<and> s_nodes s' a \<noteq> None \<and>
    (s_opallocs s' = s_opallocs s \<longrightarrow> prefix_inv s')"
proof -
  obtain n where n: "s_nodes s a = Some n"
    using run by (auto simp: ListNode_remove_def bindE_Inr abs_getNode_Inr s_getNode_def split: option.splits)
  have k: "sk_ok k" "sk_fingerPrint k = Inr (str_hash (kstr k))" using ok(2) by (auto simp: key_ok_def sk_fingerPrint_ok)
  have nok: "keys_ok n" using ok(1) n by (auto simp: state_ok_def)
  let ?h = "str_hash (kstr k)" and ?i = "getKeyIndex (kstr k) (str_hash (kstr k)) (abs_node (M a) n)"
  have i: "s_getKeyIndex k ?h n = ?i" using abs_getKeyIndex[OF nok k(1)] .
  show ?thesis
  proof (cases "?i = -1")
    case True
    then show ?thesis using run n k i ok by (auto simp: ListNode_remove_def s_node_remove_def s_getNode_def Let_def)
  next
    case False
    let ?n = "s_removeFromIndex (nat ?i) n"
    let ?s1 = "s_putNode a ?n s"
    have s1ok: "state_ok ?s1" "prefix_inv ?s1" using ok nok prefix_inv_put[OF ok(3) n, of ?n] by auto
    let ?rm = "\<lambda>mrg. bindE (mrg a (abs_state M ?s1)) (\<lambda>(d, s2). bindE (logRemoved t ?h d s2) (\<lambda>s3. Inr (True, s3)))"
    let ?srm = "\<lambda>mrg. bindE (mrg a ?s1) (\<lambda>(d, s2). bindE (s_logRemoved t ?h d s2) (\<lambda>s3. Inr (True, s3)))"
    let ?P = "\<lambda>res. \<exists>s' M'. res = Inr (r, s') \<and> s2 = abs_state M' s' \<and> state_ok s' \<and> s_nodes s' a \<noteq> None \<and> (s_opallocs s' = s_opallocs s \<longrightarrow> prefix_inv s')"
    have merged: "?P (?srm smrg)" if m: "?rm mrg = Inr (r, s2)"
      and sim: "\<And>d t'. mrg a (abs_state M ?s1) = Inr (d, t') \<Longrightarrow> \<exists>s' M'. smrg a ?s1 = Inr (d, s') \<and> t' = abs_state M' s' \<and> state_ok s' \<and>
        s_opallocs s' = s_opallocs ?s1 \<and> s_nodes s' a \<noteq> None \<and> (d = None \<longrightarrow> prefix_inv ?s1 \<longrightarrow> prefix_inv s')" for mrg smrg
    proof -
      obtain d t' where d: "mrg a (abs_state M ?s1) = Inr (d, t')" "logRemoved t ?h d t' = Inr s2" "r" using m by (auto simp: bindE_Inr)
      obtain s' M' where s': "smrg a ?s1 = Inr (d, s')" "t' = abs_state M' s'" "state_ok s'" "s_opallocs s' = s_opallocs ?s1" "s_nodes s' a \<noteq> None"
          "d = None \<longrightarrow> prefix_inv s'" using sim[OF d(1)] s1ok by blast
      show ?thesis using s_logRemoved_run[OF s'(3) d(2)[unfolded s'(2)]] s' d by (cases d) auto
    qed
    have arun: "bindE (getNode (s_next ?n) (abs_state M ?s1)) (\<lambda>nxt.
        if small_pair (abs_node (M a) ?n) nxt then ?rm mergeWithNext
        else if s_prev ?n = None then Inr (True, abs_state M ?s1)
        else bindE (getNode (s_prev ?n) (abs_state M ?s1)) (\<lambda>prv.
          if small_pair (abs_node (M a) ?n) prv then ?rm mergeWithPrev else Inr (True, abs_state M ?s1))) = Inr (r, s2)"
      using run n False by (simp add: ListNode_remove_def Let_def getNode_def[of "Some a"] abs_putNode flip: abs_slots(2) cong: if_cong)
    have srun: "s_node_remove t a k s = bindE (s_getNode (s_next ?n) ?s1) (\<lambda>nxt.
        if s_small_pair ?n nxt then ?srm s_mergeWithNext
        else if s_prev ?n = None then Inr (True, ?s1)
        else bindE (s_getNode (s_prev ?n) ?s1) (\<lambda>prv.
          if s_small_pair ?n prv then ?srm s_mergeWithPrev else Inr (True, ?s1)))"
      using n k i False by (simp add: s_node_remove_def Let_def s_getNode_def[of "Some a"] cong: if_cong)
    obtain nx where nx: "s_getNode (s_next ?n) ?s1 = Inr nx" using arun by (auto simp: bindE_Inr abs_getNode_Inr)
    have plain: "?P (Inr (True, ?s1))" if "(True, abs_state M ?s1) = (r, s2)" using that s1ok by auto
    show ?thesis
    proof (cases "s_small_pair ?n nx")
      case True
      then show ?thesis
        using arun merged[of mergeWithNext s_mergeWithNext] s_mergeWithNext_run[OF s1ok(1)] nx by (simp add: srun abs_getNode abs_small_pair)
    next
      case big: False
      show ?thesis
      proof (cases "s_prev ?n = None")
        case True
        then show ?thesis using arun plain nx big by (simp add: srun abs_getNode abs_small_pair)
      next
        case prev: False
        then obtain pv where pv: "s_getNode (s_prev ?n) ?s1 = Inr pv"
          using arun nx big by (cases "s_getNode (s_prev ?n) ?s1") (auto simp: abs_getNode abs_small_pair)
        show ?thesis
          using arun merged[of mergeWithPrev s_mergeWithPrev] s_mergeWithPrev_run[OF s1ok(1)] plain nx big prev pv
          by (simp add: srun abs_getNode abs_small_pair split: if_splits)
      qed
    qed
  qed
qed

end
