(* ===== verification/StringScan.thy ===== *)
theory StringScan
  imports StringOps
begin

text \<open>
  Scans of the list over strings follow those of \<open>ListNode\<close> and \<open>LinkedList\<close>. The comparison given to \<open>std::sort\<close> looks at the keys
  alone; that of the pairs in the list over integers also looks at the slots, which are in ascending order before the sort.
\<close>

section \<open>Sorting by key\<close>

lemma insort_fst: "\<forall>y \<in> set ys. snd x \<le> snd y \<Longrightarrow> insort_key fst x ys = insort x ys" for x :: "'a::linorder \<times> 'b::linorder"
  by (induction ys) (auto simp: less_eq_prod_def)

lemma sort_fst: "sorted (map snd xs) \<Longrightarrow> sort_key fst xs = sort xs" for xs :: "('a::linorder \<times> 'b::linorder) list"
proof (induction xs)
  case (Cons x xs)
  then have "insort_key fst x (sort xs) = insort x (sort xs)" by (intro insort_fst) auto
  then show ?case using Cons by simp
qed simp

lemma map_insort_key: "map g (insort_key (\<lambda>x. f (g x)) x xs) = insort_key f (g x) (map g xs)"
  by (induction xs) auto

lemma map_sort_key: "map g (sort_key (\<lambda>x. f (g x)) xs) = sort_key f (map g xs)"
  by (induction xs) (simp_all add: map_insort_key)

lemma sorted_slot_words: "sorted (map (\<lambda>i. word_of_nat i :: u8) (filter P [0..<MAX_ENTRIES]))"
proof -
  have "sorted (map (\<lambda>i. i) (filter P [0..<MAX_ENTRIES]))" by (rule sorted_filter) simp
  then have "sorted (filter P [0..<MAX_ENTRIES])" by simp
  moreover have "mono_on (set (filter P [0..<MAX_ENTRIES])) (\<lambda>i. word_of_nat i :: u8)"
    by (auto simp: mono_on_def MAX_ENTRIES_def word_le_nat_alt unsigned_of_nat take_bit_nat_eq_self)
  ultimately show ?thesis by (rule sorted_map_mono)
qed

section \<open>One node\<close>

lemma abs_generatePermuter:
  assumes "keys_ok n"
  shows "\<exists>n'. s_generatePermuter w n = Inr n' \<and> generatePermuter w (abs_node M n) = abs_node M n' \<and> keys_ok n' \<and> same_frame n n'"
proof (cases "w = s_lastScanVersion n")
  case False
  let ?is = "filter (\<lambda>i. test i (s_bitMap n)) [0..<MAX_ENTRIES]"
  let ?xs = "map (\<lambda>i. (s_keyArray n ! i, word_of_nat i :: u8)) ?is"
  have ok: "\<forall>x \<in> set ?xs. 0 \<in> set (bytes (fst x))" using key_nth[OF assms] by (auto simp: sk_ok_zero)
  have abs: "map (\<lambda>i. (fst (keyArray (abs_node M n) ! i), word_of_nat i :: u8)) ?is = map (map_prod kstr id) ?xs"
    using abs_nth[OF assms, where M = M] by (simp del: abs_node_sel(10))
  have "sorted (map snd (map (map_prod kstr id) ?xs))" using sorted_slot_words by (simp add: comp_def)
  then have "sort (map (map_prod kstr id) ?xs) = sort_key fst (map (map_prod kstr id) ?xs)" by (rule sort_fst[symmetric])
  also have "\<dots> = map (map_prod kstr id) (sort_key (\<lambda>x. fst (map_prod kstr id x)) ?xs)" by (rule map_sort_key[symmetric])
  finally have "map snd (sort (map (\<lambda>i. (fst (keyArray (abs_node M n) ! i), word_of_nat i :: u8)) ?is)) = map snd (sort_key (\<lambda>x. kstr (fst x)) ?xs)"
    unfolding abs by simp
  then show ?thesis
    using False ok assms
    by (auto simp: s_generatePermuter_def generatePermuter_def sk_sort_def comp_def abs_node_def keys_ok_def same_frame_def Let_def)
qed (use assms in \<open>simp add: s_generatePermuter_def generatePermuter_def\<close>)

lemma abs_permEntry: "keys_ok n \<Longrightarrow> permEntry (abs_node M n) i = map_sum id (map_prod kstr id) (s_permEntry n i)"
  by (simp add: permEntry_def s_permEntry_def keys_ok_def)

lemma s_permEntry_ok: "keys_ok n \<Longrightarrow> s_permEntry n i = Inr e \<Longrightarrow> sk_ok (fst e)"
  using key_nth[of n "unat (s_permuter n ! i)"] by (auto simp: s_permEntry_def keys_ok_def split: if_splits)

lemma abs_permuterLowerBound_loop:
  "keys_ok n \<Longrightarrow> sk_ok k \<Longrightarrow> s_permuterLowerBound_loop k n l u = permuterLowerBound_loop (kstr k) (abs_node M n) l u"
proof (induction k n l u rule: s_permuterLowerBound_loop.induct)
  case (1 k n l u)
  define mid where "mid = (u - l) div 2 + l"
  have ih: "l < mid \<Longrightarrow> s_permuterLowerBound_loop k n l mid = permuterLowerBound_loop (kstr k) (abs_node M n) l mid"
    "mid + 1 < u \<Longrightarrow> s_permuterLowerBound_loop k n (mid + 1) u = permuterLowerBound_loop (kstr k) (abs_node M n) (mid + 1) u"
    using 1(1)[OF mid_def, of True] 1(2)[OF mid_def, of False True] 1(3,4) by auto
  note e = abs_permEntry[OF 1(3), of M mid] s_permEntry_ok[OF 1(3), of mid]
  show ?case
    using ih e 1(4) unfolding s_permuterLowerBound_loop.simps[of k n l u] permuterLowerBound_loop.simps[of "kstr k" "abs_node M n" l u]
      Let_def mid_def[symmetric]
    by (cases "s_permEntry n mid") (auto simp: sk_comparisons)
qed

lemma abs_scan_loop: "keys_ok n \<Longrightarrow> s_scan_loop n i todo rv = scan_loop (abs_node M n) i todo rv"
proof (induction n i todo rv rule: s_scan_loop.induct)
  case (1 n i todo rv)
  then show ?case using abs_permEntry[OF 1(2), of M i]
    by (subst s_scan_loop.simps, subst scan_loop.simps) (cases "s_permEntry n i", auto)
qed

lemma s_scan_run:
  assumes ok: "keys_ok n" "sk_ok k" and run: "ListNode_scan (kstr k) rng rv w (abs_node M n) = Inr (d, rv', m)"
  shows "\<exists>n'. s_scan k rng rv w n = Inr (d, rv', n') \<and> m = abs_node M n' \<and> keys_ok n' \<and> same_frame n n'"
proof (cases "s_next n = None \<or> rng - int (length rv) < 1")
  case True
  then show ?thesis using run ok by (auto simp: ListNode_scan_def s_scan_def)
next
  case False
  obtain n1 where n1: "(if s_lastScanVersion n < w then s_generatePermuter w n else Inr n) = Inr n1"
      "(if s_lastScanVersion n < w then generatePermuter w (abs_node M n) else abs_node M n) = abs_node M n1" "keys_ok n1" "same_frame n n1"
    using abs_generatePermuter[OF ok(1), of w M] ok(1) same_frame_simps(1) by metis
  have cmp: "sk_greater k (s_min n1) = Inr (kstr (s_min n1) < kstr k)" using sk_comparisons ok(2) keys_ok_min[OF n1(3)] by blast
  show ?thesis
    using run False n1 cmp abs_permuterLowerBound_loop[OF n1(3) ok(2), where M = M] abs_scan_loop[OF n1(3), where M = M]
    by (auto simp: ListNode_scan_def s_scan_def Let_def permuterLowerBound_def s_permuterLowerBound_def split: sum.splits if_splits)
qed

lemma s_scan_fault:
  assumes ok: "keys_ok n" "sk_ok k" and run: "ListNode_scan (kstr k) rng rv w (abs_node M n) = Inl e"
  shows "s_scan k rng rv w n = Inl e"
proof (cases "s_next n = None \<or> rng - int (length rv) < 1")
  case True
  then show ?thesis using run ok by (auto simp: ListNode_scan_def s_scan_def split: if_splits)
next
  case False
  obtain n1 where n1: "(if s_lastScanVersion n < w then s_generatePermuter w n else Inr n) = Inr n1"
      "(if s_lastScanVersion n < w then generatePermuter w (abs_node M n) else abs_node M n) = abs_node M n1" "keys_ok n1"
    using abs_generatePermuter[OF ok(1), of w M] ok(1) by metis
  have cmp: "sk_greater k (s_min n1) = Inr (kstr (s_min n1) < kstr k)" using sk_comparisons ok(2) keys_ok_min[OF n1(3)] by blast
  show ?thesis
    using run False n1 cmp abs_permuterLowerBound_loop[OF n1(3) ok(2), where M = M] abs_scan_loop[OF n1(3), where M = M]
    by (auto simp: ListNode_scan_def s_scan_def Let_def permuterLowerBound_def s_permuterLowerBound_def split: sum.splits if_splits)
qed

section \<open>Several nodes\<close>

definition scans_to :: "(addr \<Rightarrow> u8 list) \<Rightarrow> (bool \<times> Val_t list \<times> sstate) outcome \<Rightarrow> bool \<Rightarrow> Val_t list \<Rightarrow> u8 list hstate_of \<Rightarrow> bool" where
  "scans_to M res again rv t \<longleftrightarrow> (\<exists>s'. res = Some (Inr (again, rv, s')) \<and> t = abs_state M s' \<and> state_ok s' \<and> prefix_inv s')"

text \<open>One round of the loop, for any continuation \<open>f\<close> of the abstract one that is followed.\<close>

lemma s_scanNodes_step:
  assumes ok: "sk_ok k" "state_ok s" "prefix_inv s"
    and IH: "\<And>rv dn cur s. f (kstr k) rng rv dn cur (abs_state M s) = Some (Inr (again, rv', t)) \<Longrightarrow> state_ok s \<Longrightarrow> prefix_inv s \<Longrightarrow>
      scans_to M (s_scanNodes k rng rv dn cur s) again rv' t"
    and body: "(if \<not> (moreWanted rv rng \<and> \<not> dn) then Some (Inr (False, rv, abs_state M s))
      else case getNode cur (abs_state M s) of Inl f \<Rightarrow> Some (Inl f)
        | Inr n \<Rightarrow> let readVersion = readLock n in
            if readVersion = 0 then Some (Inr (True, rv, abs_state M s))
            else if deleted n then Some (Inr (True, rv, abs_state M s))
            else case ListNode_scan (kstr k) rng rv readVersion n of Inl f \<Rightarrow> Some (Inl f)
              | Inr (done', rv', n') \<Rightarrow>
                  if \<not> readUnlock readVersion n' then Some (Inr (True, rv', putNode (the cur) n' (abs_state M s)))
                  else f (kstr k) rng rv' done' (next_p n') (putNode (the cur) n' (abs_state M s))) = Some (Inr (again, rv', t))"
  shows "scans_to M (s_scanNodes k rng rv dn cur s) again rv' t"
proof (cases "moreWanted rv rng \<and> \<not> dn")
  case False
  then show ?thesis using body ok by (subst s_scanNodes.simps) (auto simp: scans_to_def)
next
  case more: True
  obtain a n where n: "cur = Some a" "s_nodes s a = Some n"
    using body more by (auto simp: getNode_def split: option.splits)
  let ?w = "s_readLock n"
  have w: "readLock (abs_node (M a) n) = ?w" by (simp add: readLock_def s_readLock_def)
  have nok: "keys_ok n" using ok n by (auto simp: state_ok_def)
  note here = more n w s_scanNodes.simps[of k rng _ False "Some a" s] s_getNode_def getNode_def Let_def
  show ?thesis
  proof (cases "?w = 0 \<or> s_deleted n")
    case True
    then show ?thesis using body ok by (auto simp: here scans_to_def split: if_splits)
  next
    case False
    then obtain d rv1 m where sc: "ListNode_scan (kstr k) rng rv ?w (abs_node (M a) n) = Inr (d, rv1, m)"
      using body by (auto simp: here split: sum.splits)
    obtain n' where n': "s_scan k rng rv ?w n = Inr (d, rv1, n')" "m = abs_node (M a) n'" "keys_ok n'" "same_frame n n'"
      using s_scan_run[OF nok ok(1) sc] by blast
    have un: "readUnlock ?w m = s_readUnlock ?w n'" using n'(2) by (simp add: readUnlock_def s_readUnlock_def)
    have "state_ok (s_putNode a n' s)" "prefix_inv (s_putNode a n' s)"
      using ok n' prefix_inv_put[OF ok(3) n(2) n'(4)] by auto
    then show ?thesis
      using body sc n'(1,2) un False IH[of rv1 d "s_next n'" "s_putNode a n' s"]
      by (auto simp: here abs_putNode scans_to_def split: if_splits)
  qed
qed

lemma s_scanNodes_run:
  assumes run: "scanNodes (kstr k) rng rv dn cur (abs_state M s) = Some (Inr (again, rv', t))"
    and ok: "sk_ok k" "state_ok s" "prefix_inv s"
  shows "scans_to M (s_scanNodes k rng rv dn cur s) again rv' t"
proof -
  define P where "P K g rv dn cur S y \<longleftrightarrow> (\<forall>s. K = kstr k \<longrightarrow> g = rng \<longrightarrow> S = abs_state M s \<longrightarrow> y = Inr (again, rv', t) \<longrightarrow> state_ok s \<longrightarrow>
    prefix_inv s \<longrightarrow> scans_to M (s_scanNodes k rng rv dn cur s) again rv' t)" for K g rv dn cur S and y :: "fault + _"
  have "P (kstr k) rng rv dn cur (abs_state M s) (Inr (again, rv', t))"
    using run
  proof (rule scanNodes.raw_induct[rotated, where P = P], unfold P_def, intro allI impI)
    fix f K g rv dn cur S s and y :: "fault + _"
    assume IH: "\<And>K g rv dn cur S (y :: fault + _). f K g rv dn cur S = Some y \<Longrightarrow> \<forall>s. K = kstr k \<longrightarrow> g = rng \<longrightarrow> S = abs_state M s \<longrightarrow>
        y = Inr (again, rv', t) \<longrightarrow> state_ok s \<longrightarrow> prefix_inv s \<longrightarrow> scans_to M (s_scanNodes k rng rv dn cur s) again rv' t"
      and eqs: "K = kstr k" "g = rng" "S = abs_state M s" "y = Inr (again, rv', t)" and s: "state_ok s" "prefix_inv s"
    assume body: "(if \<not> (moreWanted rv g \<and> \<not> dn) then Some (Inr (False, rv, S))
      else case getNode cur S of Inl f \<Rightarrow> Some (Inl f)
        | Inr n \<Rightarrow> let readVersion = readLock n in
            if readVersion = 0 then Some (Inr (True, rv, S))
            else if deleted n then Some (Inr (True, rv, S))
            else case ListNode_scan K g rv readVersion n of Inl f \<Rightarrow> Some (Inl f)
              | Inr (done', rv', n') \<Rightarrow>
                  if \<not> readUnlock readVersion n' then Some (Inr (True, rv', putNode (the cur) n' S))
                  else f K g rv' done' (next_p n') (putNode (the cur) n' S)) = Some y"
    show "scans_to M (s_scanNodes k rng rv dn cur s) again rv' t"
    proof (rule s_scanNodes_step[where f = f, OF ok(1) s])
      fix rv dn cur s
      assume "f (kstr k) rng rv dn cur (abs_state M s) = Some (Inr (again, rv', t))" "state_ok s" "prefix_inv s"
      then show "scans_to M (s_scanNodes k rng rv dn cur s) again rv' t" using IH by blast
    qed (rule body[unfolded eqs])
  qed
  then show ?thesis using ok by (simp add: P_def)
qed

end
