(* ===== verification/StringWalk.thy ===== *)
theory StringWalk
  imports StringScan
begin

text \<open>
  The list over strings refines a finite map from strings to values. As long as the stored prefixes are right, \<open>checkRange\<close>
  decides as a comparison of the whole keys would and the walk ends at the node of the key; the operations then do what those
  of the abstract list do. Merging stores the wrong prefix, after which a walk may never end.
\<close>

section \<open>The range of a node\<close>

lemma take_kstr: "m \<le> length (kstr k) \<Longrightarrow> take m (bytes k) = take m (kstr k)"
  by (metis min.absorb1 take_length_cstr take_take)

lemma memcmp_cong: "take m d = take m e \<Longrightarrow> m \<le> length d \<Longrightarrow> m \<le> length e \<Longrightarrow> memcmp m c d = memcmp m c e"
proof (induction m c d arbitrary: e rule: memcmp.induct)
  case (2 m a as b bs)
  then show ?case by (cases e) auto
qed auto

lemma strcmp_keys:
  "sk_ok a \<Longrightarrow> sk_ok b \<Longrightarrow> strcmp (bytes a) (bytes b) = Some (if kstr a < kstr b then -1 else if kstr a = kstr b then 0 else 1)"
  by (simp add: strcmp_cstr sk_ok_zero)

lemma s_checkRange_ok:
  assumes k: "sk_ok k" and n: "sk_ok (s_min n)" "s_getNode (s_next n) s = Inr nx" "sk_ok (s_min nx)" "prefix_ok n nx"
    and less: "kstr (s_min n) < kstr (s_min nx)"
  shows "s_checkRange k n s = Inr (if kstr k < kstr (s_min n) then -1 else if kstr (s_min nx) \<le> kstr k then 1 else 0)"
proof (cases "prefixLength n < 4")
  case True
  then show ?thesis using k n by (simp add: s_checkRange_def sk_comparisons)
next
  case False
  define pl where "pl = unat (prefixLength n)"
  have lcp: "pl \<le> lcp_loop (kstr (s_min n)) (kstr (s_min nx))" using n(4) False by (simp add: prefix_ok_def pl_def)
  have len: "pl \<le> length (kstr (s_min n))" "pl \<le> length (kstr (s_min nx))"
    using lcp lcp_loop_bound[of "kstr (s_min n)" "kstr (s_min nx)"] by linarith+
  have bl: "pl \<le> length (bytes k)" "pl \<le> length (bytes (s_min n))" "pl \<le> length (bytes (s_min nx))"
  proof -
    have "length (kstr (s_min n)) < KEYLENGTH" using n(1) by (simp add: sk_ok_def)
    then show "pl \<le> length (bytes k)" "pl \<le> length (bytes (s_min n))" "pl \<le> length (bytes (s_min nx))"
      using len(1) sk_ok_length k n(1,3) by auto
  qed
  have same: "take pl (bytes (s_min n)) = take pl (bytes (s_min nx))"
    using lcp_loop_take[OF lcp] len by (simp add: take_kstr)
  obtain c where c: "memcmp pl (bytes k) (bytes (s_min n)) = Some c" using memcmp_defined[OF bl(1,2)] by blast
  then have cx: "memcmp pl (bytes k) (bytes (s_min nx)) = Some c" using memcmp_cong[OF same bl(2,3)] by simp
  show ?thesis
  proof (cases "c = 0")
    case True
    then have tk: "take pl (bytes k) = take pl (bytes (s_min n))" using c memcmp_take[OF bl(1,2)] by simp
    have "strcmp (drop pl (bytes k)) (drop pl (bytes (s_min n))) = strcmp (bytes k) (bytes (s_min n))"
      "strcmp (drop pl (bytes k)) (drop pl (bytes (s_min nx))) = strcmp (bytes k) (bytes (s_min nx))"
      using strcmp_drop[OF tk bl(1) len(1)] strcmp_drop[OF _ bl(1) len(2)] tk same by auto
    then show ?thesis
      using False c True n(2) less strcmp_keys[OF k n(1)] strcmp_keys[OF k n(3)]
      by (auto simp: s_checkRange_def Let_def pl_def[symmetric])
  next
    case False
    have "strcmp (bytes k) (bytes (s_min n)) = Some c" "strcmp (bytes k) (bytes (s_min nx)) = Some c"
      using strcmp_memcmp[OF c False len(1)] strcmp_memcmp[OF cx False len(2)] .
    then show ?thesis
      using \<open>\<not> prefixLength n < 4\<close> c False strcmp_keys[OF k n(1)] strcmp_keys[OF k n(3)]
      by (auto simp: s_checkRange_def Let_def pl_def[symmetric] split: if_splits)
  qed
qed

section \<open>The invariant\<close>

text \<open>
  The keys lie between the empty string and the 31 characters \<open>~\<close> of the tail; the upper bounds \<open>M\<close> of the nodes are
  not stored.
\<close>

definition s_live :: "nat \<Rightarrow> u8 list cells \<Rightarrow> addr \<Rightarrow> (addr \<Rightarrow> u8 list) \<Rightarrow> sstate \<Rightarrow> bool" where
  "s_live f L q M s \<longleftrightarrow> state_ok s \<and> prefix_inv s \<and> dl_inv_by str_hash [] (kstr max_key) f L q (abs_state M s)"

lemma chain_links:
  assumes "chain None lo L q hi" "(a, n) \<in> set L"
  shows "min_k n < max_k n" "\<exists>b. next_p n = Some b \<and> ((\<exists>m. (b, m) \<in> set L \<and> min_k m = max_k n) \<or> b = q \<and> max_k n = hi)"
    "prev_p n = None \<and> min_k n = lo \<or> (\<exists>b m. prev_p n = Some b \<and> (b, m) \<in> set L)"
proof -
  obtain A B where L: "L = A @ (a, n) # B" using assms(2) by (meson split_list)
  then have ch: "chain None lo A a (min_k n)" "prev_p n = lastptr None A" "next_p n = Some (hdaddr B q)" "min_k n < max_k n"
      "chain (Some a) (max_k n) B q hi"
    using assms(1) by (auto simp: chain_append)
  show "min_k n < max_k n" by (fact ch(4))
  show "\<exists>b. next_p n = Some b \<and> ((\<exists>m. (b, m) \<in> set L \<and> min_k m = max_k n) \<or> b = q \<and> max_k n = hi)"
    using ch(3,5) by (cases B) (auto simp: L)
  show "prev_p n = None \<and> min_k n = lo \<or> (\<exists>b m. prev_p n = Some b \<and> (b, m) \<in> set L)"
    using ch(1,2) by (cases A rule: rev_cases) (auto simp: L)
qed

lemma s_live_node:
  assumes "s_live f L q M s" "(a, N) \<in> set L"
  obtains n nx where "s_nodes s a = Some n" "N = abs_node (M a) n" "keys_ok n" "s_getNode (s_next n) s = Inr nx" "kstr (s_min nx) = max_k N"
    "\<And>k. sk_ok k \<Longrightarrow> s_checkRange k n s = Inr (if kstr k < min_k N then -1 else if max_k N \<le> kstr k then 1 else 0)"
proof -
  have inv: "state_ok s" "prefix_inv s" "holds (nodes (abs_state M s)) L" "chain None [] L q (kstr max_key)" "cells_ok_by str_hash f L"
      "\<exists>t. nodes (abs_state M s) q = Some t \<and> tail_ok_by (kstr max_key) t"
    using assms(1) by (auto simp: s_live_def dl_inv_by_def)
  obtain n where n: "s_nodes s a = Some n" "N = abs_node (M a) n" using inv(3) assms(2) by (auto simp: holds_def)
  obtain b where b: "s_next n = Some b" "(\<exists>m. (b, m) \<in> set L \<and> min_k m = M a) \<or> b = q \<and> M a = kstr max_key"
    using chain_links(2)[OF inv(4) assms(2)] n(2) by auto
  obtain nx where nx: "s_nodes s b = Some nx" "prefix_ok n nx" using prefix_invE[OF inv(2) n(1) b(1)] .
  have m: "kstr (s_min nx) = M a"
    using b(2) inv(3,6) nx(1) by (auto simp: holds_def tail_ok_by_def)
  have "kstr (s_min n) < M a" using chain_links(1)[OF inv(4) assms(2)] n(2) by simp
  moreover have ok: "keys_ok n" "keys_ok nx" using inv(1) n nx by (auto simp: state_ok_def)
  ultimately have "s_checkRange k n s = Inr (if kstr k < min_k N then -1 else if max_k N \<le> kstr k then 1 else 0)" if "sk_ok k" for k
    using s_checkRange_ok[OF that, of n s nx] b(1) nx n(2) m by (simp add: keys_ok_min s_getNode_def)
  then show ?thesis using that[OF n ok(1), of nx] m b(1) nx(1) n(2) by (simp add: s_getNode_def)
qed

section \<open>The walk\<close>

lemma s_findNode_run:
  assumes inv: "s_live f L q M s" and k: "sk_ok k" "kstr k < kstr max_key" and a: "a \<in> fst ` set L"
  shows "s_findNode k (Some a) s = findNode (kstr k) (Some a) (abs_state M s)"
proof -
  have ch: "chain None [] L q (kstr max_key)" "holds (nodes (abs_state M s)) L" using inv by (auto simp: s_live_def dl_inv_by_def)
  obtain c where run: "findNode (kstr k) (Some a) (abs_state M s) = Some (Inr c)"
    using findNode_chain[OF ch a, of "kstr k"] k(2) by auto
  define P where "P K p S y \<longleftrightarrow> (\<forall>a. K = kstr k \<longrightarrow> S = abs_state M s \<longrightarrow> p = Some a \<longrightarrow> a \<in> fst ` set L \<longrightarrow> s_findNode k p s = Some y)"
    for K p S and y :: "fault + addr"
  have "P (kstr k) (Some a) (abs_state M s) (Inr c)"
    using run
  proof (rule findNode.raw_induct[rotated, where P = P], unfold P_def, intro allI impI)
    fix g K p S a and y :: "fault + addr"
    assume IH: "\<And>K p S (y :: fault + addr). g K p S = Some y \<Longrightarrow>
        \<forall>a. K = kstr k \<longrightarrow> S = abs_state M s \<longrightarrow> p = Some a \<longrightarrow> a \<in> fst ` set L \<longrightarrow> s_findNode k p s = Some y"
      and body: "(case getNode p S of Inl f \<Rightarrow> Some (Inl f)
        | Inr n \<Rightarrow> if K < min_k n then g K (prev_p n) S else if \<not> checkRange K n then g K (next_p n) S else Some (Inr (the p))) = Some y"
      and eqs: "K = kstr k" "S = abs_state M s" "p = Some a" and a: "a \<in> fst ` set L"
    obtain N where N: "(a, N) \<in> set L" using a by auto
    obtain n where n: "s_nodes s a = Some n" "N = abs_node (M a) n"
        "s_checkRange k n s = Inr (if kstr k < min_k N then -1 else if max_k N \<le> kstr k then 1 else 0)"
      using s_live_node[OF inv N] k(1) by metis
    have left: "\<exists>b. s_prev n = Some b \<and> b \<in> fst ` set L" if "kstr k < min_k N"
      using chain_links(3)[OF ch(1) N] n(2) that by force
    have right: "\<exists>b. s_next n = Some b \<and> b \<in> fst ` set L" if "max_k N \<le> kstr k"
      using chain_links(2)[OF ch(1) N] n(2) that k(2) by force
    show "s_findNode k p s = Some y"
      using body n left right IH[of "kstr k" "s_prev n" S y] IH[of "kstr k" "s_next n" S y]
      by (subst s_findNode.simps) (auto simp: eqs s_getNode_def getNode_def checkRange_def not_less split: if_splits)
  qed
  then show ?thesis using run a by (simp add: P_def)
qed

section \<open>The operations follow those of the abstract list\<close>

lemma s_covering_node:
  assumes inv: "s_live f L q M s" and k: "key_ok k" "kstr k < kstr max_key" and a: "a \<in> fst ` set L"
  obtains L1 c n L2 where "L = L1 @ (c, abs_node (M c) n) # L2" "s_findNode k (Some a) s = Some (Inr c)" "s_nodes s c = Some n" "keys_ok n"
    "\<not> s_deleted n" "node_ok_by str_hash f (abs_node (M c) n)" "kstr (s_min n) \<le> kstr k" "kstr k < M c"
    "dl_map L (kstr k) = node_map (abs_node (M c) n) (kstr k)"
proof -
  have dl: "dl_inv_by str_hash [] (kstr max_key) f L q (abs_state M s)" and ok: "state_ok s" using inv by (auto simp: s_live_def)
  obtain L1 c N L2 where c: "L = L1 @ (c, N) # L2" "findNode (kstr k) (Some a) (abs_state M s) = Some (Inr c)"
      "nodes (abs_state M s) c = Some N" "node_ok_by str_hash f N" "min_k N \<le> kstr k" "kstr k < max_k N"
      "dl_map L (kstr k) = node_map N (kstr k)"
    using covering_node_by[OF dl a, of "kstr k"] k(2) by (metis Nil_le_Cons less_eq_list_code(1))
  obtain n where n: "s_nodes s c = Some n" "N = abs_node (M c) n" using c(3) by auto
  show ?thesis
    using that[of L1 c n L2] c n ok s_findNode_run[OF inv _ k(2) a] k(1) by (auto simp: state_ok_def key_ok_def node_ok_by_def)
qed

lemma s_list_lookup_refines:
  assumes inv: "s_live f L q M s" and k: "key_ok k" "kstr k < kstr max_key" and a: "a \<in> fst ` set L"
  shows "s_list_lookup k (Some a) s = Some (Inr (dl_map L (kstr k)))" "s_list_probe k (Some a) s = Some (Inr (dl_map L (kstr k) \<noteq> None))"
proof -
  obtain L1 c n L2 where c: "s_findNode k (Some a) s = Some (Inr c)" "s_nodes s c = Some n" "keys_ok n" "\<not> s_deleted n"
      "node_ok_by str_hash f (abs_node (M c) n)" "dl_map L (kstr k) = node_map (abs_node (M c) n) (kstr k)"
    using s_covering_node[OF assms] by metis
  have l: "s_readLock n \<noteq> 0" "s_readUnlock (s_readLock n) n"
    using readLock_ok[OF c(5)] by (auto simp: readLock_def s_readLock_def s_readUnlock_def read_unlock_def)
  have ok: "slots_ok_by str_hash (abs_node (M c) n)" using c(5) by (simp add: node_ok_by_def)
  show "s_list_lookup k (Some a) s = Some (Inr (dl_map L (kstr k)))"
    using c l abs_lookup[OF c(3) k(1), of "M c"] ListNode_lookup_eq[OF ok] by (subst s_list_lookup.simps) (simp add: Let_def)
  show "s_list_probe k (Some a) s = Some (Inr (dl_map L (kstr k) \<noteq> None))"
    using c l abs_probe[OF c(3) k(1), of "M c"] ListNode_probe_eq[OF ok] by (subst s_list_probe.simps) (simp add: Let_def)
qed

text \<open>Locking and unlocking the covering node.\<close>

lemma s_lockNode_run:
  assumes n: "s_nodes s c = Some n" "node_ok_by str_hash f (abs_node (M c) n)"
  obtains v n1 where "s_lockNode c s = (v, s_putNode c n1 s)" "v \<noteq> 0" "abs_node (M c) n1 = locked (abs_node (M c) n)" "same_frame n n1"
    "keys_ok n1 = keys_ok n" "s_deleted n1 = s_deleted n" "abs_state M (s_putNode c n1 s) = putNode c (locked (abs_node (M c) n)) (abs_state M s)"
proof -
  obtain v n1 where l: "s_writeLock n = (v, n1)" by (cases "s_writeLock n")
  have w: "same_frame n n1" "keys_ok n1 = keys_ok n" "writeLock (abs_node (M c) n) = (v, abs_node (M c) n1)"
    using s_writeLock_frame[OF l] by auto
  then have e: "v \<noteq> 0" "abs_node (M c) n1 = locked (abs_node (M c) n)" using writeLock_ok[OF n(2)] by (auto simp: locked_def)
  have "s_deleted n1 = s_deleted n" using l by (auto simp: s_writeLock_def split: prod.splits)
  moreover have "abs_state M (s_putNode c n1 s) = putNode c (locked (abs_node (M c) n)) (abs_state M s)"
    using abs_putNode[of c "M c" n1 M s] e(2) by simp
  ultimately show ?thesis using that[of v n1] l n(1) w e by (simp add: s_lockNode_def)
qed

lemma s_unlockNode_run:
  assumes "s_nodes s c \<noteq> None" "state_ok s"
  shows "unlockNode c (abs_state M s) = abs_state M (s_unlockNode c s)" "state_ok (s_unlockNode c s)" "prefix_inv s \<longrightarrow> prefix_inv (s_unlockNode c s)"
  using assms by (auto simp: unlockNode_def s_unlockNode_def abs_putNode state_ok_def simp flip: abs_fields(6) intro: prefix_inv_put)

lemma s_fresh: "s_live f L q M s \<Longrightarrow> s_nmalloc s (s_nallocs s) \<notin> dom (s_nodes s)"
  by (auto simp: s_live_def dl_inv_by_def alloc_ok_def dest!: spec[of _ "s_nallocs s"])

text \<open>Every writing operation comes to the covering node and has locked it.\<close>

lemma s_locked_node:
  assumes inv: "s_live (Suc f) L q M s" and k: "key_ok k" "kstr k < kstr max_key" and a: "a \<in> fst ` set L"
  obtains L1 c n L2 w n1 b where "L = L1 @ (c, abs_node (M c) n) # L2" "min_k (abs_node (M c) n) \<le> kstr k" "kstr k < max_k (abs_node (M c) n)"
    "node_map (abs_node (M c) n) (kstr k) = dl_map L (kstr k)"
    "s_findNode k (Some a) s = Some (Inr c)" "s_lockNode c s = (w, s_putNode c n1 s)" "w \<noteq> 0" "\<not> s_deleted n1" "s_next n1 = Some b" "keys_ok n1"
    "state_ok (s_putNode c n1 s)" "prefix_inv (s_putNode c n1 s)"
    "s_nmalloc (s_putNode c n1 s) (s_nallocs (s_putNode c n1 s)) \<notin> dom (s_nodes (s_putNode c n1 s))"
    "abs_node (M c) n1 = locked (abs_node (M c) n)"
    "putNode c (locked (abs_node (M c) n)) (abs_state M s) = abs_state M (s_putNode c n1 s)"
    "nodes (abs_state M s) c = Some (abs_node (M c) n)" "node_ok_by str_hash (Suc f) (abs_node (M c) n)"
proof -
  obtain L1 c n L2 where c: "L = L1 @ (c, abs_node (M c) n) # L2" "s_findNode k (Some a) s = Some (Inr c)" "s_nodes s c = Some n" "keys_ok n"
      "\<not> s_deleted n" "node_ok_by str_hash (Suc f) (abs_node (M c) n)" "kstr (s_min n) \<le> kstr k" "kstr k < M c"
      "dl_map L (kstr k) = node_map (abs_node (M c) n) (kstr k)"
    using s_covering_node[OF assms] .
  have dl: "chain None [] L q (kstr max_key)" and ok: "state_ok s" "prefix_inv s" using inv by (auto simp: s_live_def dl_inv_by_def)
  obtain w n1 where l: "s_lockNode c s = (w, s_putNode c n1 s)" "w \<noteq> 0" "abs_node (M c) n1 = locked (abs_node (M c) n)" "same_frame n n1"
      "keys_ok n1 = keys_ok n" "s_deleted n1 = s_deleted n"
      "abs_state M (s_putNode c n1 s) = putNode c (locked (abs_node (M c) n)) (abs_state M s)"
    using s_lockNode_run[where M = M, OF c(3,6)] .
  have "(c, abs_node (M c) n) \<in> set L" by (simp add: c(1))
  then obtain b where b: "s_next n1 = Some b" using chain_links(2)[OF dl] l(4) by (force simp: same_frame_def)
  have "state_ok (s_putNode c n1 s)" "prefix_inv (s_putNode c n1 s)"
      "s_nmalloc (s_putNode c n1 s) (s_nallocs (s_putNode c n1 s)) \<notin> dom (s_nodes (s_putNode c n1 s))"
    using ok c l prefix_inv_put[OF ok(2) c(3) l(4)] s_fresh[OF inv] by auto
  then show ?thesis using that[of L1 c n L2 w n1 b] c l b by simp
qed

lemma s_list_insert_refines:
  assumes inv: "s_live (Suc f) L q M s" and k: "key_ok k" "kstr k < kstr max_key" and a: "a \<in> fst ` set L"
  shows "\<exists>L' M' s'. s_list_insert t k v (Some a) s = Some (Inr (dl_map L (kstr k) = None, s')) \<and> s_live f L' q M' s' \<and>
    wrote_by str_hash [] (kstr max_key) f t L q (abs_state M s)
      ((dl_map L)(kstr k := (if dl_map L (kstr k) = None then Some v else dl_map L (kstr k)))) L' (abs_state M' s') \<and>
    fst ` set L \<subseteq> fst ` set L'"
proof -
  obtain L1 c n L2 w n1 b where L: "L = L1 @ (c, abs_node (M c) n) # L2" and r: "min_k (abs_node (M c) n) \<le> kstr k" "kstr k < max_k (abs_node (M c) n)"
      and m: "node_map (abs_node (M c) n) (kstr k) = dl_map L (kstr k)"
      and l: "s_findNode k (Some a) s = Some (Inr c)" "s_lockNode c s = (w, s_putNode c n1 s)" "w \<noteq> 0" "\<not> s_deleted n1" "s_next n1 = Some b"
      and s1: "state_ok (s_putNode c n1 s)" "prefix_inv (s_putNode c n1 s)"
        "s_nmalloc (s_putNode c n1 s) (s_nallocs (s_putNode c n1 s)) \<notin> dom (s_nodes (s_putNode c n1 s))"
      and abs: "putNode c (locked (abs_node (M c) n)) (abs_state M s) = abs_state M (s_putNode c n1 s)"
    using s_locked_node[OF assms] .
  have "dl_inv_by str_hash [] (kstr max_key) (Suc f) (L1 @ (c, abs_node (M c) n) # L2) q (abs_state M s)"
    using inv unfolding L[symmetric] by (simp add: s_live_def)
  from ListNode_insert_covering[OF this r, of t v, folded L, unfolded m abs] obtain L' s2 where
      ins: "ListNode_insert str_hash t c (kstr k) v (abs_state M (s_putNode c n1 s)) = Inr (dl_map L (kstr k) = None, s2)"
      "wrote_by str_hash [] (kstr max_key) f t L q (abs_state M s)
        ((dl_map L)(kstr k := (if dl_map L (kstr k) = None then Some v else dl_map L (kstr k)))) L' (unlockNode c s2)"
      "fst ` set L \<subseteq> fst ` set L'" by blast
  have "s_nodes (s_putNode c n1 s) c = Some n1" by simp
  from s_node_insert_run[OF s1(1) k(1) s1(2,3) this l(5) ins(1)] obtain s' M' where
      s': "s_node_insert t c k v (s_putNode c n1 s) = Inr (dl_map L (kstr k) = None, s')" "s2 = abs_state M' s'" "state_ok s'" "prefix_inv s'"
      "s_nodes s' c \<noteq> None" by blast
  note u = s_unlockNode_run(1)[OF s'(5,3), of M'] s_unlockNode_run(2,3)[OF s'(5,3)]
  have "s_list_insert t k v (Some a) s = Some (Inr (dl_map L (kstr k) = None, s_unlockNode c s'))"
    using l s'(1) by (subst s_list_insert.simps) simp
  moreover have "s_live f L' q M' (s_unlockNode c s')"
    using u s'(2,4) ins(2) by (auto simp: s_live_def wrote_by_def)
  ultimately show ?thesis using ins(2,3) u(1) s'(2) by metis
qed

lemma s_list_remove_refines:
  assumes inv: "s_live (Suc f) L q M s" and k: "key_ok k" "kstr k < kstr max_key" and a: "a \<in> fst ` set L"
  shows "\<exists>L' M' s'. s_list_remove t k (Some a) s = Some (Inr (dl_map L (kstr k) \<noteq> None, s')) \<and>
    wrote_by str_hash [] (kstr max_key) f t L q (abs_state M s) ((dl_map L)(kstr k := None)) L' (abs_state M' s') \<and> state_ok s' \<and>
    (s_opallocs s' = s_opallocs s \<longrightarrow> s_live f L' q M' s')"
proof -
  obtain L1 c n L2 w n1 b where L: "L = L1 @ (c, abs_node (M c) n) # L2" and r: "min_k (abs_node (M c) n) \<le> kstr k" "kstr k < max_k (abs_node (M c) n)"
      and m: "node_map (abs_node (M c) n) (kstr k) = dl_map L (kstr k)"
      and l: "s_findNode k (Some a) s = Some (Inr c)" "s_lockNode c s = (w, s_putNode c n1 s)" "w \<noteq> 0" "\<not> s_deleted n1" "s_next n1 = Some b"
      and s1: "state_ok (s_putNode c n1 s)" "prefix_inv (s_putNode c n1 s)"
      and abs: "putNode c (locked (abs_node (M c) n)) (abs_state M s) = abs_state M (s_putNode c n1 s)"
    using s_locked_node[OF assms] .
  have "dl_inv_by str_hash [] (kstr max_key) (Suc f) (L1 @ (c, abs_node (M c) n) # L2) q (abs_state M s)"
    using inv unfolding L[symmetric] by (simp add: s_live_def)
  from ListNode_remove_covering[OF this r, of t, folded L, unfolded m abs] obtain L' s2 where
      rem: "ListNode_remove str_hash t c (kstr k) (abs_state M (s_putNode c n1 s)) = Inr (dl_map L (kstr k) \<noteq> None, s2)"
      "wrote_by str_hash [] (kstr max_key) f t L q (abs_state M s) ((dl_map L)(kstr k := None)) L' (unlockNode c s2)" by blast
  from s_node_remove_run[OF s1(1) k(1) s1(2) rem(1)] obtain s' M' where
      s': "s_node_remove t c k (s_putNode c n1 s) = Inr (dl_map L (kstr k) \<noteq> None, s')" "s2 = abs_state M' s'" "state_ok s'"
      "s_nodes s' c \<noteq> None" "s_opallocs s' = s_opallocs (s_putNode c n1 s) \<longrightarrow> prefix_inv s'" by blast
  note u = s_unlockNode_run(1)[OF s'(4,3), of M'] s_unlockNode_run(2,3)[OF s'(4,3)]
  have "s_list_remove t k (Some a) s = Some (Inr (dl_map L (kstr k) \<noteq> None, s_unlockNode c s'))"
    using l s'(1) by (subst s_list_remove.simps) simp
  moreover have "s_opallocs (s_unlockNode c s') = s_opallocs s \<longrightarrow> s_live f L' q M' (s_unlockNode c s')"
    using u s'(2,5) rem(2) by (auto simp: s_live_def wrote_by_def s_unlockNode_def)
  ultimately show ?thesis using rem(2) u(1,2) s'(2) by metis
qed

lemma s_list_update_refines:
  assumes inv: "s_live (Suc f) L q M s" and k: "key_ok k" "kstr k < kstr max_key" and a: "a \<in> fst ` set L"
  shows "\<exists>L' s'. s_list_update k v (Some a) s = Some (Inr (dl_map L (kstr k) \<noteq> None, s')) \<and> s_live f L' q M s' \<and>
    wrote_by str_hash [] (kstr max_key) f t L q (abs_state M s)
      (if dl_map L (kstr k) = None then dl_map L else (dl_map L)(kstr k \<mapsto> v)) L' (abs_state M s') \<and> map fst L' = map fst L"
proof -
  obtain L1 c n L2 w n1 b where r: "min_k (abs_node (M c) n) \<le> kstr k" "kstr k < max_k (abs_node (M c) n)"
      and l: "s_findNode k (Some a) s = Some (Inr c)" "s_lockNode c s = (w, s_putNode c n1 s)" "w \<noteq> 0" "\<not> s_deleted n1" "keys_ok n1"
      and s1: "state_ok (s_putNode c n1 s)" "prefix_inv (s_putNode c n1 s)" and n1: "abs_node (M c) n1 = locked (abs_node (M c) n)"
      and abs: "putNode c (locked (abs_node (M c) n)) (abs_state M s) = abs_state M (s_putNode c n1 s)"
      and nc: "nodes (abs_state M s) c = Some (abs_node (M c) n)" "node_ok_by str_hash (Suc f) (abs_node (M c) n)"
    using s_locked_node[OF assms] by metis
  obtain b n' where upd: "s_update k v n1 = Inr (b, n')" "ListNode_update str_hash (kstr k) v (locked (abs_node (M c) n)) = (b, abs_node (M c) n')"
      "keys_ok n'" "same_frame n1 n'"
    using abs_update[OF l(5) k(1), of v "M c"] unfolding n1 by blast
  let ?s2 = "s_putNode c n' (s_putNode c n1 s)"
  let ?s' = "s_unlockNode c ?s2"
  have s2: "state_ok ?s2" "prefix_inv ?s2" using s1 upd(3) prefix_inv_put[OF s1(2) _ upd(4), of c] by auto
  have put: "putNode c (abs_node (M c) n') (abs_state M (s_putNode c n1 s)) = abs_state M ?s2"
    using abs_putNode[of c "M c" n' M "s_putNode c n1 s"] by simp
  have u: "unlockNode c (abs_state M ?s2) = abs_state M ?s'" "state_ok ?s'" "prefix_inv ?s'"
    using s_unlockNode_run[OF _ s2(1), of c] s2(2) by auto
  have fn: "findNode (kstr k) (Some a) (abs_state M s) = Some (Inr c)" using s_findNode_run[OF inv _ k(2) a] k(1) l(1) by (simp add: key_ok_def)
  have "\<not> deleted (abs_node (M c) n)" using nc(2) by (simp add: node_ok_by_def)
  then have "LinkedList_update str_hash (kstr k) v (Some a) (abs_state M s) = Some (Inr (b, abs_state M ?s'))"
    using lockNode_ok[OF nc] fn r upd(2) u(1) put by (subst LinkedList_update.simps) (simp add: checkRange_def abs[symmetric])
  then obtain L' where L': "b = (dl_map L (kstr k) \<noteq> None)" "wrote_by str_hash [] (kstr max_key) f t L q (abs_state M s)
      (if dl_map L (kstr k) = None then dl_map L else (dl_map L)(kstr k \<mapsto> v)) L' (abs_state M ?s')" "map fst L' = map fst L"
    using LinkedList_update_refines_by[of str_hash "[]" "kstr max_key" f L q "abs_state M s" a "kstr k" v t] inv a k(2) by (auto simp: s_live_def)
  moreover have "s_list_update k v (Some a) s = Some (Inr (b, ?s'))"
    using l upd(1) by (subst s_list_update.simps) simp
  moreover have "s_live f L' q M ?s'" using L'(2) u by (simp add: s_live_def wrote_by_def)
  ultimately show ?thesis by blast
qed

lemma s_list_scan_refines:
  assumes inv: "s_live f L q M s" and k: "key_ok k" "kstr k < kstr max_key" and a: "a \<in> fst ` set L"
  shows "case scan_fault (kstr k) rng L of Some e \<Rightarrow> s_list_scan k rng (Some a) s = Some (Inl e)
    | None \<Rightarrow> (\<exists>L' s'. s_list_scan k rng (Some a) s = Some (Inr (take (nat rng) (range_values (kstr k) (dl_map L)), s')) \<and> s_live f L' q M s' \<and>
        scanned L L')"
proof (cases "scan_fault (kstr k) rng L")
  case None
  have dl: "dl_inv_by str_hash [] (kstr max_key) f L q (abs_state M s)" and ok: "state_ok s" "prefix_inv s" using inv by (auto simp: s_live_def)
  let ?rv = "take (nat rng) (range_values (kstr k) (dl_map L))"
  obtain c L' t where t: "findNode (kstr k) (Some a) (abs_state M s) = Some (Inr c)"
      "scanNodes (kstr k) rng [] False (Some c) (abs_state M s) = Some (Inr (False, ?rv, t))"
      "dl_inv_by str_hash [] (kstr max_key) f L' q t" "scanned L L'"
    using scanNodes_covering[OF dl a _ None] k(2) by (metis Nil_le_Cons less_eq_list_code(1))
  have "s_findNode k (Some a) s = Some (Inr c)" using s_findNode_run[OF inv _ k(2) a] k(1) t(1) by (simp add: key_ok_def)
  then show ?thesis
    using s_scanNodes_run[OF t(2) _ ok] k(1) t None by (simp, subst s_list_scan.simps) (auto simp: scans_to_def s_live_def key_ok_def)
next
  case (Some e)
  have dl: "dl_inv_by str_hash [] (kstr max_key) f L q (abs_state M s)" using inv by (auto simp: s_live_def)
  obtain L1 c n L2 where c: "L = L1 @ (c, abs_node (M c) n) # L2" "s_findNode k (Some a) s = Some (Inr c)" "s_nodes s c = Some n" "keys_ok n"
      "\<not> s_deleted n" "node_ok_by str_hash f (abs_node (M c) n)" "kstr (s_min n) \<le> kstr k" "kstr k < M c"
    using s_covering_node[OF assms] by metis
  note bad = scan_fault_covering[OF dl[unfolded c(1)] _ _ Some[unfolded c(1)]]
  have l: "s_readLock n \<noteq> 0" "s_readLock n = version (s_verLock n)"
    using readLock_ok[OF c(6)] by (auto simp: readLock_def s_readLock_def)
  have "s_scan k rng [] (s_readLock n) n = Inl e" using s_scan_fault[OF c(4), of k rng "[]" "s_readLock n" "M c"] bad(1) c(7,8) k(1) l(2) by (simp add: key_ok_def)
  moreover have "moreWanted [] rng" using bad(2) c(7,8) Some by (auto simp: moreWanted_def scan_fault_def split: if_splits)
  ultimately have "s_scanNodes k rng [] False (Some c) s = Some (Inl e)"
    using c(3,5) l(1) by (subst s_scanNodes.simps) (simp add: s_getNode_def Let_def)
  then show ?thesis using Some c(2) by (simp, subst s_list_scan.simps) simp
qed

end
