(* ===== verification/StringTheorems.thy ===== *)
theory StringTheorems
  imports StringWalk
begin

text \<open>
  The properties of the list over strings: the list that \<open>initialize\<close> builds, the operations as those of a finite map from strings to values, and
  the walk that never ends after a merge.
\<close>

section \<open>The first list\<close>

lemma sk_min_max: "sk_ok min_key" "kstr min_key = []" "sk_fingerPrint min_key = Inr (str_hash [])" "sk_ok max_key" "kstr max_key = replicate 31 126"
  "\<exists>h. sk_fingerPrint max_key = Inr h"
proof -
  show m: "sk_ok min_key" "kstr min_key = []" using setFromString_ok[of "[]" StringKey_new] by (simp_all add: min_key_def)
  show "sk_fingerPrint min_key = Inr (str_hash [])"
    using sk_fingerPrint_ok[OF m(1)] m(2) sk_sized_setFromString[of "[]"] by (simp add: min_key_def KEYLENGTH_def)
  show "sk_ok max_key" "kstr max_key = replicate 31 126"
    using setFromString_ok[of "replicate 43 126" StringKey_new] by (simp_all add: max_key_def KEYLENGTH_def)
  have "\<not> isl (sk_fingerPrint max_key)" by code_simp
  then show "\<exists>h. sk_fingerPrint max_key = Inr h" by (cases "sk_fingerPrint max_key") auto
qed

lemma s_node_insert_fresh:
  assumes "s_nodes s a = Some n" "s_numEntries n = 0" "bits0 (s_bitMap n) = 0" "sk_fingerPrint k = Inr h"
  shows "s_node_insert t a k v s = Inr (True, s_putNode a (s_insertAtIndex k v 0 h n) s)"
proof -
  have "to_ulong (s_bitMap n) = 0" using assms(3) by (simp add: to_ulong_def)
  moreover have "bsf (ucast (NOT (0 :: u64)) :: u32) = 0" "(ucast (NOT (0 :: u64)) :: u32) \<noteq> 0" by code_simp+
  ultimately have "s_getFreeIndex k h n = 0" using assms(2) by (simp add: s_getFreeIndex_def Let_def)
  then show ?thesis using assms by (simp add: s_node_insert_def s_getNode_def Let_def)
qed

definition s_head :: "addr \<Rightarrow> SNode \<Rightarrow> SNode" where
  "s_head q r = setPrefixLength 0 (s_insertAtIndex min_key 0 0 (str_hash [])
     (s_setMin min_key (s_setPrev None (s_setNext (Some q) (SNode_ctor r)))))"

definition s_tail :: "addr \<Rightarrow> u8 \<Rightarrow> SNode \<Rightarrow> SNode" where
  "s_tail q h r = setPrefixLength 0 (s_setMin max_key (s_setPrev (Some q) (s_setNext None (s_setNumEntries MAX_ENTRIES
     (s_insertAtIndex max_key 0 0 h (SNode_ctor r))))))"

lemmas s_setters = s_setNext_def s_setPrev_def s_setMin_def s_setNumEntries_def setPrefixLength_def

lemma s_initialize_run:
  fixes s
  defines "h \<equiv> s_nmalloc s (s_nallocs s)" and "q \<equiv> s_nmalloc s (Suc (s_nallocs s))"
  assumes hq: "h \<noteq> q"
  shows "\<exists>hash. s_initialize t s = Inr (h, s\<lparr>s_nodes := (s_nodes s)(h \<mapsto> s_head q (s_raw s (s_nallocs s)),
    q \<mapsto> s_tail q hash (s_raw s (Suc (s_nallocs s)))), s_nallocs := s_nallocs s + 2\<rparr>)"
proof -
  obtain hash where hash: "sk_fingerPrint max_key = Inr hash" using sk_min_max(6) by blast
  have fresh: "s_node_insert t a min_key 0 u = Inr (True, s_putNode a (s_insertAtIndex min_key 0 0 (str_hash []) n) u)"
      "s_node_insert t a max_key 0 u = Inr (True, s_putNode a (s_insertAtIndex max_key 0 0 hash n) u)"
    if "s_nodes u a = Some n" "s_numEntries n = 0" "bits0 (s_bitMap n) = 0" for a n u
    using s_node_insert_fresh[OF that] sk_min_max(3) hash by auto
  have "s_initialize t s = Inr (h, s\<lparr>s_nodes := (s_nodes s)(h \<mapsto> s_head q (s_raw s (s_nallocs s)),
    q \<mapsto> s_tail q hash (s_raw s (Suc (s_nallocs s)))), s_nallocs := s_nallocs s + 2\<rparr>)"
    using hq by (simp add: s_initialize_def s_newNode_def Let_def s_updNode_def s_getNode_def h_def[symmetric] q_def[symmetric] fresh s_setters
        SNode_ctor_def clear_def s_head_def s_tail_def s_putNode_def s_insertAtIndex_def fun_upd_twist)
  then show ?thesis by blast
qed

lemma keys_ok_head_tail: "length (s_valueArray r) = MAX_ENTRIES \<Longrightarrow> keys_ok (s_head q r)"
  "length (s_valueArray r) = MAX_ENTRIES \<Longrightarrow> keys_ok (s_tail q h r)"
  by (simp_all add: s_head_def s_tail_def sk_min_max)

lemma abs_head:
  "abs_node X (s_head q r) = (insertAtIndex ([], 0) 0 (str_hash []) (ListNode_ctor (abs_node [] (SNode_ctor r))))
     \<lparr>next_p := Some q, prev_p := None, min_k := [], max_k := X\<rparr>"
  by (simp add: s_head_def abs_fields abs_slots sk_min_max node_simps insertAtIndex_def)

lemma head_ok:
  assumes "arrays_sized (abs_node [] (SNode_ctor r))" "2 * f + 2 < 2 ^ 64" "X \<noteq> []"
  shows "node_ok_by str_hash f (abs_node X (s_head q r))" "node_map (abs_node X (s_head q r)) = [[] \<mapsto> 0]"
proof -
  let ?c = "ListNode_ctor (abs_node [] (SNode_ctor r))"
  let ?n = "insertAtIndex ([] :: u8 list, 0) 0 (str_hash []) ?c"
  have c: "slots_ok_by str_hash ?c" "length (permuter ?c) = MAX_ENTRIES"
    using assms(1) by (auto simp: slots_ok_ctor simp del: abs_ctor) (simp add: arrays_sized_def ListNode_ctor_def)
  have i: "0 < MAX_ENTRIES" "0 \<notin> nslots ?c" "[] \<notin> nkeys ?c" using MAX_ENTRIES_bounds by (simp_all del: abs_ctor)
  have n: "slots_ok_by str_hash ?n" "node_map ?n = [[] \<mapsto> 0]"
    using slots_ok_insertAtIndex[OF c(1) i refl] node_map_insertAtIndex[OF c(1) i refl] by (simp_all del: abs_ctor)
  then have keys: "nkeys ?n = {[]}" by (simp add: dom_node_map[symmetric])
  show "node_map (abs_node X (s_head q r)) = [[] \<mapsto> 0]" using n(2) by (simp add: abs_head del: abs_ctor)
  have "[] < X" using assms(3) by (cases X) auto
  then show "node_ok_by str_hash f (abs_node X (s_head q r))"
    using n keys c(2) assms(2)
    by (simp add: abs_head node_ok_by_def lock_ok_def cache_ok_def ListNode_ctor_def[of "abs_node [] (SNode_ctor r)"] VersionedLock_init_def unlocked_def del: abs_ctor)
qed

lemma s_initialize_ok:
  assumes ok: "state_ok s" "prefix_inv s" "alloc_ok (abs_state M s)" and f: "2 * f + 2 < 2 ^ 64"
  shows "\<exists>N M' s'. s_initialize t s = Inr (s_nmalloc s (s_nallocs s), s') \<and>
    s_live f [(s_nmalloc s (s_nallocs s), N)] (s_nmalloc s (Suc (s_nallocs s))) M' s' \<and> node_map N = [[] \<mapsto> 0] \<and> min_k N = []"
proof -
  define h q where "h = s_nmalloc s (s_nallocs s)" and "q = s_nmalloc s (Suc (s_nallocs s))"
  have al: "inj (s_nmalloc s)" "\<And>i. s_nallocs s \<le> i \<Longrightarrow> s_nmalloc s i \<notin> dom (s_nodes s)" "\<And>i. arrays_sized (abs_node [] (SNode_ctor (s_raw s i)))"
  proof -
    show "inj (s_nmalloc s)" using ok(3) by (simp add: alloc_ok_def)
    show "s_nmalloc s i \<notin> dom (s_nodes s)" if "s_nallocs s \<le> i" for i using ok(3) that by (simp add: alloc_ok_def domIff)
    show "arrays_sized (abs_node [] (SNode_ctor (s_raw s i)))" for i using ok(3) by (simp add: alloc_ok_def)
  qed
  have hq: "h \<noteq> q" using inj_eq[OF al(1)] by (simp add: h_def q_def)
  have fresh: "h \<notin> dom (s_nodes s)" "q \<notin> dom (s_nodes s)" using al(2) by (auto simp: h_def q_def)
  let ?H = "s_head q (s_raw s (s_nallocs s))"
  obtain hash where run: "s_initialize t s = Inr (h, s\<lparr>s_nodes := (s_nodes s)(h \<mapsto> ?H, q \<mapsto> s_tail q hash (s_raw s (Suc (s_nallocs s)))),
      s_nallocs := s_nallocs s + 2\<rparr>)" (is "_ = Inr (h, ?s')")
    using s_initialize_run[of s t, folded h_def q_def, OF hq] by blast
  have st: "state_ok ?s'" using ok(1) keys_ok_head_tail by (auto simp: state_ok_def)
  have "prefix_inv ?s'"
    unfolding prefix_inv_def
  proof (intro allI impI)
    fix x n b assume x: "s_nodes ?s' x = Some n" "s_next n = Some b"
    have ht: "s_next ?H = Some q" "prefixLength ?H = 0" "s_next (s_tail q hash (s_raw s (Suc (s_nallocs s)))) = None"
      by (simp_all add: s_head_def s_tail_def s_setters s_insertAtIndex_def)
    show "\<exists>nx. s_nodes ?s' b = Some nx \<and> prefix_ok n nx"
    proof (cases "x = h \<or> x = q")
      case True
      then show ?thesis using x ht hq by (auto simp: prefix_ok_def)
    next
      case False
      then have "s_nodes s x = Some n" using x(1) by auto
      then obtain nx where nx: "s_nodes s b = Some nx" "prefix_ok n nx" using prefix_invE[OF ok(2) _ x(2)] by blast
      then have "b \<noteq> h" "b \<noteq> q" using fresh by (metis domI)+
      then show ?thesis using nx by simp
    qed
  qed
  moreover have "dl_inv_by str_hash [] (kstr max_key) f [(h, abs_node (kstr max_key) ?H)] q (abs_state (M(h := kstr max_key)) ?s')"
  proof -
    have X: "kstr max_key \<noteq> []" by (simp add: sk_min_max(5))
    have none: "s_nodes s (s_nmalloc s i) = None" if "s_nallocs s \<le> i" for i using al(2)[OF that] by auto
    have "alloc_ok (abs_state (M(h := kstr max_key)) ?s')"
      using al(1,3) inj_eq[OF al(1)] none by (auto simp: alloc_ok_def h_def q_def)
    moreover have "unat (word_of_nat MAX_ENTRIES :: u8) = MAX_ENTRIES" by (simp add: MAX_ENTRIES_def)
    moreover have "tail_ok_by (kstr max_key) (abs_node (M q) (s_tail q hash (s_raw s (Suc (s_nallocs s)))))"
      using calculation(2) by (simp add: tail_ok_by_def s_tail_def s_setters s_insertAtIndex_def SNode_ctor_def VersionedLock_init_def unlocked_def)
    ultimately show ?thesis
      using hq head_ok(1)[OF al(3) f X] X by (cases "kstr max_key") (auto simp: dl_inv_by_def abs_head)
  qed
  ultimately show ?thesis
    using run st head_ok(2)[OF al(3)[of "s_nallocs s"] f, where X = "kstr max_key" and q = q] sk_min_max(5) unfolding h_def[symmetric] q_def[symmetric]
    by (intro exI[of _ "abs_node (kstr max_key) ?H"] exI[of _ "M(h := kstr max_key)"] exI[of _ ?s']) (simp add: s_live_def abs_head)
qed

section \<open>A concrete list\<close>

definition s_blank :: SNode where
  "s_blank = \<lparr>s_min = StringKey_new, prefixLength = 0, s_numEntries = 0, s_next = None, s_prev = None, s_deleted = False,
     s_bitMap = \<lparr>bits0 = 0, bits1 = 0\<rparr>, s_fingerPrint = replicate MAX_ENTRIES 0, s_verLock = \<lparr>version = 2\<rparr>,
     s_keyArray = replicate MAX_ENTRIES StringKey_new, s_valueArray = replicate MAX_ENTRIES 0, s_lastScanVersion = 0,
     s_permuter = replicate MAX_ENTRIES 0\<rparr>"

definition s_boot :: sstate where
  "s_boot = \<lparr>s_nodes = Map.empty, s_nmalloc = (\<lambda>i. i), s_raw = (\<lambda>_. s_blank), s_nallocs = 0, s_oplogs = Map.empty, s_curQ = 0,
     s_rdtscp = (\<lambda>i. word_of_nat i), s_clkReads = 0, s_opmalloc = (\<lambda>i. i), s_opallocs = 0\<rparr>"

definition s_boot_list :: sstate where
  "s_boot_list = snd (projr (s_initialize 0 s_boot))"

lemma s_boot_ok:
  "\<exists>N M. s_live 1000 [(0, N)] 1 M s_boot_list \<and> node_map N = [[] \<mapsto> 0] \<and> nslots N \<noteq> {}"
proof -
  have "state_ok s_boot" "prefix_inv s_boot" "alloc_ok (abs_state (\<lambda>_. []) s_boot)"
    by (simp_all add: state_ok_def prefix_inv_def alloc_ok_def s_boot_def s_blank_def arrays_sized_def SNode_ctor_def fun_eq_iff)
  from s_initialize_ok[OF this, of 1000 0] obtain N M s' where i: "s_initialize 0 s_boot = Inr (0, s')" "s_live 1000 [(0, N)] 1 M s'"
      "node_map N = [[] \<mapsto> 0]" by (auto simp: s_boot_def)
  moreover have "nslots N \<noteq> {}" using i(3) dom_node_map[of N] by (auto simp: node_keys_def)
  ultimately show ?thesis by (auto simp: s_boot_list_def)
qed

definition s_key :: "u8 list \<Rightarrow> StringKey" where
  "s_key c = setFromString c StringKey_new"

lemma s_key_ok: "0 \<notin> set c \<Longrightarrow> length c < KEYLENGTH \<Longrightarrow> key_ok (s_key c) \<and> kstr (s_key c) = c"
  using setFromString_ok[of c StringKey_new] sk_sized_setFromString[of c StringKey_new] by (simp add: s_key_def key_ok_def)

lemma s_key_a: "key_ok (s_key [97])" "kstr (s_key [97]) = [97]" "[97] < kstr max_key" "key_ok (s_key [])" "kstr (s_key []) = []" "[] < kstr max_key"
proof -
  have "kstr max_key = 126 # replicate 30 126" by (simp add: sk_min_max(5) numeral_eq_Suc)
  then show "key_ok (s_key [97])" "kstr (s_key [97]) = [97]" "[97] < kstr max_key" "key_ok (s_key [])" "kstr (s_key []) = []" "[] < kstr max_key"
    using s_key_ok[of "[97]"] s_key_ok[of "[]"] by (simp_all add: KEYLENGTH_def)
qed

section \<open>The operations\<close>

text \<open>C6. Inserting into a well formed list over strings whose stored prefixes are all right (\<open>s_live\<close>), from any live node and for any key below that of the tail, returns. It returns true exactly
  if the string was not there; then the list holds the new entry and all the old ones, and otherwise it is unchanged. The list stays
  well formed with every stored prefix right, no node leaves it, and what the thread appends to its log turns the old
  anchors into the new ones.\<close>

theorem s_list_insert_correct:
  assumes "s_live (Suc f) L q M s" "key_ok k" "kstr k < kstr max_key" "a \<in> fst ` set L"
  shows "\<exists>L' M' s'. s_list_insert t k v (Some a) s = Some (Inr (dl_map L (kstr k) = None, s')) \<and> s_live f L' q M' s' \<and>
    dl_map L' = (if dl_map L (kstr k) = None then (dl_map L)(kstr k \<mapsto> v) else dl_map L) \<and> fst ` set L \<subseteq> fst ` set L' \<and>
    (\<exists>es. appended t es (abs_state M s) (abs_state M' s') \<and> anchor_map L' = fold (replay \<circ> snd) es (anchor_map L))"
proof -
  have "(dl_map L)(kstr k := (if dl_map L (kstr k) = None then Some v else dl_map L (kstr k)))
      = (if dl_map L (kstr k) = None then (dl_map L)(kstr k \<mapsto> v) else dl_map L)" by (simp add: fun_upd_idem)
  then show ?thesis using s_list_insert_refines[OF assms, of t v] unfolding wrote_by_def by metis
qed

theorem s_list_insert_correct_witness:
  "\<exists>L' M' s'. s_list_insert 0 (s_key [97]) 7 (Some 0) s_boot_list = Some (Inr (True, s')) \<and> s_live 999 L' 1 M' s' \<and>
    dl_map L' = [[] \<mapsto> 0, [97] \<mapsto> 7]"
proof -
  obtain N M where b: "s_live (Suc 999) [(0, N)] 1 M s_boot_list" "node_map N = [[] \<mapsto> 0]" using s_boot_ok by auto
  show ?thesis using s_list_insert_correct[OF b(1) s_key_a(1), of 0 0 7] b(2) s_key_a(2,3) by auto
qed

text \<open>Looking a string up and asking whether it is there, from any live node, return what the list holds.\<close>

theorem s_list_lookup_correct:
  assumes "s_live f L q M s" "key_ok k" "kstr k < kstr max_key" "a \<in> fst ` set L"
  shows "s_list_lookup k (Some a) s = Some (Inr (dl_map L (kstr k))) \<and> s_list_probe k (Some a) s = Some (Inr (dl_map L (kstr k) \<noteq> None))"
  using s_list_lookup_refines[OF assms] by blast

theorem s_list_lookup_correct_witness:
  "s_list_lookup (s_key []) (Some 0) s_boot_list = Some (Inr (Some 0)) \<and> s_list_probe (s_key [97]) (Some 0) s_boot_list = Some (Inr False)"
proof -
  obtain N M where b: "s_live 1000 [(0, N)] 1 M s_boot_list" "node_map N = [[] \<mapsto> 0]" using s_boot_ok by auto
  show ?thesis using s_list_lookup_correct[OF b(1) s_key_a(4), of 0] s_list_lookup_correct[OF b(1) s_key_a(1), of 0] b(2) s_key_a by simp
qed

text \<open>Updating a string returns true exactly if the string is there; then its value is the new one and nothing else changes.\<close>

theorem s_list_update_correct:
  assumes "s_live (Suc f) L q M s" "key_ok k" "kstr k < kstr max_key" "a \<in> fst ` set L"
  shows "\<exists>L' s'. s_list_update k v (Some a) s = Some (Inr (dl_map L (kstr k) \<noteq> None, s')) \<and> s_live f L' q M s' \<and>
    dl_map L' = (if dl_map L (kstr k) = None then dl_map L else (dl_map L)(kstr k \<mapsto> v)) \<and> map fst L' = map fst L"
  using s_list_update_refines[OF assms, of v undefined] unfolding wrote_by_def by blast

theorem s_list_update_correct_witness:
  "\<exists>L' M s'. s_list_update (s_key []) 9 (Some 0) s_boot_list = Some (Inr (True, s')) \<and> s_live 999 L' 1 M s' \<and> dl_map L' = [[] \<mapsto> 9]"
proof -
  obtain N M where b: "s_live (Suc 999) [(0, N)] 1 M s_boot_list" "node_map N = [[] \<mapsto> 0]" using s_boot_ok by auto
  show ?thesis using s_list_update_correct[OF b(1) s_key_a(4), of 0 9] b(2) s_key_a by auto
qed

text \<open>C9. Removing a string from a well formed list whose stored prefixes are all right (\<open>s_live\<close>), from any live node and for any key below that of the tail, returns; it returns true exactly if the string was there, and the list, still well formed, holds everything else. If the
  removal led to no merge (none was logged) the stored prefixes are still right as well.\<close>

theorem s_list_remove_correct:
  assumes "s_live (Suc f) L q M s" "key_ok k" "kstr k < kstr max_key" "a \<in> fst ` set L"
  shows "\<exists>L' M' s'. s_list_remove t k (Some a) s = Some (Inr (dl_map L (kstr k) \<noteq> None, s')) \<and>
    dl_inv_by str_hash [] (kstr max_key) f L' q (abs_state M' s') \<and> dl_map L' = (dl_map L)(kstr k := None) \<and>
    (s_opallocs s' = s_opallocs s \<longrightarrow> s_live f L' q M' s')"
  using s_list_remove_refines[OF assms, of t] unfolding wrote_by_def by blast

theorem s_list_remove_correct_witness:
  "\<exists>L' M' s'. s_list_remove 0 (s_key []) (Some 0) s_boot_list = Some (Inr (True, s')) \<and>
    dl_inv_by str_hash [] (kstr max_key) 999 L' 1 (abs_state M' s') \<and> dl_map L' = Map.empty"
proof -
  obtain N M where b: "s_live (Suc 999) [(0, N)] 1 M s_boot_list" "node_map N = [[] \<mapsto> 0]" using s_boot_ok by auto
  show ?thesis using s_list_remove_correct[OF b(1) s_key_a(4), of 0 0] b(2) s_key_a by auto
qed

text \<open>C10. A scan over strings from any live node, as long as every stored prefix is right (part of \<open>s_live\<close>; a merge may break it), for any start key below that of the tail and any range.
  It fails where \<open>scan_fault\<close> says so: with the assertion for a negative range; by reading outside of the array if at least one value is asked for and the node that covers the
  start key is empty, does not begin with it, and its permutation cache, never written, begins with an index outside of the array. Otherwise
  it returns the values of the smallest strings that are not below the start key, in the order of the strings, as many as were asked for or as
  there are; the contents and the list stay.\<close>

theorem s_list_scan_correct:
  assumes "s_live f L q M s" "key_ok k" "kstr k < kstr max_key" "a \<in> fst ` set L"
  shows "case scan_fault (kstr k) rng L of
      Some e \<Rightarrow> s_list_scan k rng (Some a) s = Some (Inl e)
    | None \<Rightarrow> (\<exists>L' s'. s_list_scan k rng (Some a) s = Some (Inr (take (nat rng) (range_values (kstr k) (dl_map L)), s')) \<and> s_live f L' q M s' \<and>
        scanned L L')"
  using s_list_scan_refines[OF assms] .

theorem s_list_scan_correct_witness:
  "(\<exists>L' M s'. s_list_scan (s_key []) 5 (Some 0) s_boot_list = Some (Inr ([0], s')) \<and> s_live 1000 L' 1 M s') \<and>
   s_list_scan (s_key []) (-1) (Some 0) s_boot_list = Some (Inl AssertFail)"
proof -
  obtain N M where b: "s_live 1000 [(0, N)] 1 M s_boot_list" "node_map N = [[] \<mapsto> 0]" "nslots N \<noteq> {}" using s_boot_ok by auto
  have "map_entries (dl_map [(0, N)]) = [([], 0)]"
    by (rule map_entries_unique[symmetric]) (use b(2) in \<open>auto split: if_splits\<close>)
  then have "range_values [] (dl_map [(0, N)]) = [0]" by (simp add: range_values_def)
  moreover have "scan_fault [] 5 [(0, N)] = None" "scan_fault [] (-1) [(0, N)] = Some AssertFail" using b(3) by (simp_all add: scan_fault_def stray_index_def)
  ultimately show ?thesis
    using s_list_scan_correct[OF b(1) s_key_a(4), of 0 5] s_list_scan_correct[OF b(1) s_key_a(4), of 0 "-1"] s_key_a by auto
qed

section \<open>The range check\<close>

text \<open>C7. In a well-formed list the range check, which skips the stored prefix, says of every live node and every key what comparing
  the whole strings with the smallest keys of the node and of its successor would say.\<close>

theorem s_checkRange_correct:
  assumes "s_live f L q M s" "(a, N) \<in> set L" "sk_ok k"
  shows "\<exists>n. s_nodes s a = Some n \<and>
    s_checkRange k n s = Inr (if kstr k < kstr (s_min n) then -1 else if max_k N \<le> kstr k then 1 else 0) \<and>
    (\<exists>nx. s_getNode (s_next n) s = Inr nx \<and> kstr (s_min nx) = max_k N)"
proof -
  obtain n nx where n: "s_nodes s a = Some n" "N = abs_node (M a) n" "s_getNode (s_next n) s = Inr nx" "kstr (s_min nx) = max_k N"
      "s_checkRange k n s = Inr (if kstr k < min_k N then -1 else if max_k N \<le> kstr k then 1 else 0)"
    using s_live_node[OF assms(1,2)] assms(3) by metis
  then show ?thesis by simp
qed

theorem s_checkRange_correct_witness:
  "\<exists>n. s_nodes s_boot_list 0 = Some n \<and> s_checkRange max_key n s_boot_list = Inr 1"
proof -
  obtain N M where b: "s_live 1000 [(0, N)] 1 M s_boot_list" using s_boot_ok by auto
  have "max_k N = kstr max_key" "holds (nodes (abs_state M s_boot_list)) [(0, N)]" "min_k N = []" using b by (auto simp: s_live_def dl_inv_by_def)
  then show ?thesis using s_checkRange_correct[OF b, of 0 N max_key] sk_min_max(4) s_key_a(6) by auto
qed

section \<open>Merging stores a wrong prefix\<close>

text \<open>A walk between two neighbours that send each other the key never ends.\<close>

lemma s_findNode_bounces:
  assumes x: "s_nodes s x = Some n" "s_checkRange k n s = Inr 1" "s_next n = Some z"
    and z: "s_nodes s z = Some m" "s_checkRange k m s = Inr (-1)" "s_prev m = Some x"
  shows "s_findNode k (Some x) s = None" "s_findNode k (Some z) s = None"
proof -
  define P where "P K p S y \<longleftrightarrow> \<not> (K = k \<and> S = s \<and> (p = Some x \<or> p = Some z))" for K p S and y :: "fault + addr"
  have "P K p S y" if "s_findNode K p S = Some y" for K p S y
    using that
  proof (rule s_findNode.raw_induct[rotated, where P = P])
    fix g K p S and y :: "fault + addr"
    assume IH: "\<And>K p S (y :: fault + addr). g K p S = Some y \<Longrightarrow> P K p S y"
      and body: "(case s_getNode p S of Inl f \<Rightarrow> Some (Inl f)
        | Inr n \<Rightarrow> case s_checkRange K n S of Inl f \<Rightarrow> Some (Inl f)
          | Inr cmp \<Rightarrow> if cmp = - 1 then g K (s_prev n) S else if cmp = 1 then g K (s_next n) S else Some (Inr (the p))) = Some y"
    show "P K p S y" unfolding P_def
    proof
      assume a: "K = k \<and> S = s \<and> (p = Some x \<or> p = Some z)"
      then have "g k (Some z) s = Some y \<or> g k (Some x) s = Some y" using body x z by (auto simp: s_getNode_def)
      then show False using IH unfolding P_def by blast
    qed
  qed
  then show "s_findNode k (Some x) s = None" "s_findNode k (Some z) s = None"
    unfolding P_def by (metis option.exhaust)+
qed

lemma s_checkRange_left:
  assumes "sk_ok k" "sk_ok (s_min n)" "kstr k < kstr (s_min n)" "unat (prefixLength n) \<le> length (kstr (s_min n))"
  shows "s_checkRange k n s = Inr (-1)"
proof (cases "prefixLength n < 4")
  case True
  then show ?thesis using assms by (simp add: s_checkRange_def sk_comparisons)
next
  case False
  let ?pl = "unat (prefixLength n)"
  have "length (kstr (s_min n)) < KEYLENGTH" using assms(2) by (simp add: sk_ok_def)
  then have bl: "?pl \<le> length (bytes k)" "?pl \<le> length (bytes (s_min n))" using assms sk_ok_length by auto
  obtain c where c: "memcmp ?pl (bytes k) (bytes (s_min n)) = Some c" using memcmp_defined[OF bl] by blast
  have cmp: "strcmp (bytes k) (bytes (s_min n)) = Some (-1)" using strcmp_keys[OF assms(1,2)] assms(3) by simp
  show ?thesis
  proof (cases "c = 0")
    case True
    then have "take ?pl (bytes k) = take ?pl (bytes (s_min n))" using c memcmp_take[OF bl] by simp
    from strcmp_drop[OF this bl(1) assms(4)] show ?thesis using False c True cmp by (simp add: s_checkRange_def Let_def)
  next
    case nz: False
    then show ?thesis using False c cmp strcmp_memcmp[OF c nz assms(4)] by (simp add: s_checkRange_def Let_def)
  qed
qed

lemma length_cstr: "0 \<notin> set (take m d) \<Longrightarrow> m \<le> length d \<Longrightarrow> m \<le> length (cstr d)"
proof (induction m arbitrary: d)
  case (Suc m)
  then show ?case by (cases d) auto
qed simp

text \<open>A key above the smallest one of the node that does not begin with the stored prefix is sent to the right without a look at the successor.\<close>

lemma s_checkRange_right:
  assumes "sk_ok k" "sk_ok (s_min n)" "kstr (s_min n) < kstr k" and pl: "4 \<le> unat (prefixLength n)" "unat (prefixLength n) \<le> length (kstr (s_min n))"
    and other: "take (unat (prefixLength n)) (kstr k) \<noteq> take (unat (prefixLength n)) (kstr (s_min n))"
  shows "s_checkRange k n s = Inr 1"
proof -
  let ?pl = "unat (prefixLength n)"
  have "length (kstr (s_min n)) < KEYLENGTH" using assms(2) by (simp add: sk_ok_def)
  then have bl: "?pl \<le> length (bytes k)" "?pl \<le> length (bytes (s_min n))" using pl(2) assms(1,2) sk_ok_length by auto
  obtain c where c: "memcmp ?pl (bytes k) (bytes (s_min n)) = Some c" using memcmp_defined[OF bl] by blast
  have "take ?pl (bytes k) \<noteq> take ?pl (bytes (s_min n))"
  proof
    assume eq: "take ?pl (bytes k) = take ?pl (bytes (s_min n))"
    then have "0 \<notin> set (take ?pl (bytes k))" using take_kstr[OF pl(2)] by (metis cstr_no_zero in_set_takeD)
    then have "?pl \<le> length (kstr k)" using length_cstr bl(1) by blast
    then show False using eq other take_kstr[OF pl(2)] take_kstr by metis
  qed
  then have nz: "c \<noteq> 0" using c memcmp_take[OF bl] by auto
  have "strcmp (bytes k) (bytes (s_min n)) = Some 1" using strcmp_keys[OF assms(1,2)] assms(3) by auto
  then have "c = 1" using strcmp_memcmp[OF c nz pl(2)] by simp
  moreover have "\<not> prefixLength n < 4" using pl(1) by (simp add: word_less_nat_alt)
  ultimately show ?thesis using c by (simp add: s_checkRange_def Let_def)
qed

lemma s_mergeWithNext_eq:
  assumes ok: "state_ok s" and n: "s_nodes s a = Some n" "s_next n = Some d" "s_nodes s d = Some del" "s_next del = Some z" "s_nodes s z = Some m"
    and ne: "a \<noteq> d" "z \<noteq> a" "z \<noteq> d" and free: "fst (s_writeLock del) \<noteq> 0"
  shows "\<exists>s' n'. s_mergeWithNext a s = Inr (Some d, s') \<and> s_nodes s' a = Some n' \<and> s_min n' = s_min n \<and> s_next n' = Some z \<and>
    unat (prefixLength n') = lcp_loop (kstr (s_min del)) (kstr (s_min n)) \<and> s_nodes s' z = Some (s_setPrev (Some a) m)"
proof -
  obtain v del1 where l: "s_writeLock del = (v, del1)" by (cases "s_writeLock del")
  have kok: "keys_ok n" "keys_ok del" using ok n by (auto simp: state_ok_def)
  have l1: "same_frame del del1" "keys_ok del1" using s_writeLock_frame[OF l] kok by auto
  obtain n1 del2 c where mv: "s_move_loop n del1 = (n1, del2, c)" "keys_ok n1" "keys_ok del2" "same_frame n n1" "same_frame del1 del2"
    using s_move_loop_run[OF kok(1) l1(2)] by metis
  note lcp = LCPlength_ok[OF keys_ok_min[OF mv(3)] keys_ok_min[OF mv(2)]]
  let ?pl = "word_of_nat (lcp_loop (kstr (s_min del2)) (kstr (s_min n1))) :: u8"
  let ?n = "s_setNext (s_next del2) (setPrefixLength ?pl n1)"
  let ?s = "s_putNode d (s_setDeleted True del2) (s_putNode z (s_setPrev (Some a) m) (s_putNode a ?n (s_putNode d del2 s)))"
  have nx: "s_next del2 = Some z" "s_min del2 = s_min del" "s_min n1 = s_min n" using mv l1 n(4) by (auto simp: same_frame_def)
  have "s_mergeWithNext a s = Inr (Some d, ?s)"
    using n ne free l mv(1) lcp(1) nx(1) by (simp add: s_mergeWithNext_def s_getNode_def s_updNode_def)
  moreover have "s_nodes ?s a = Some ?n" "s_nodes ?s z = Some (s_setPrev (Some a) m)" using ne by auto
  moreover have "s_min ?n = s_min n" "s_next ?n = Some z" "unat (prefixLength ?n) = lcp_loop (kstr (s_min del)) (kstr (s_min n))"
    using nx lcp(2) by (simp_all add: s_setNext_def setPrefixLength_def)
  ultimately show ?thesis by metis
qed

text \<open>C8. Merging a node with its successor stores in it the prefix it had in common with the node that goes away. If that prefix has at least four
  characters, then afterwards no lookup and no insertion of a key that lies in the range of the merged node and does not begin with
  that prefix ever returns: the merged node sends the walk to its new successor, and that one back.\<close>

theorem merge_prefix_hangs:
  assumes "state_ok s" "s_nodes s a = Some n" "s_next n = Some d" "s_nodes s d = Some del" "s_next del = Some z" "s_nodes s z = Some m"
    "a \<noteq> d" "z \<noteq> a" "z \<noteq> d" "fst (s_writeLock del) \<noteq> 0" "unat (prefixLength m) \<le> length (kstr (s_min m))"
    "p = lcp_loop (kstr (s_min del)) (kstr (s_min n))" "4 \<le> p"
    "sk_ok k" "kstr (s_min n) < kstr k" "kstr k < kstr (s_min m)" "take p (kstr k) \<noteq> take p (kstr (s_min n))"
  shows "\<exists>s'. s_mergeWithNext a s = Inr (Some d, s') \<and> s_list_lookup k (Some a) s' = None \<and> s_list_lookup k (Some z) s' = None \<and>
    s_list_insert t k v (Some a) s' = None"
proof -
  obtain s' n' where s': "s_mergeWithNext a s = Inr (Some d, s')" "s_nodes s' a = Some n'" "s_min n' = s_min n" "s_next n' = Some z"
      "unat (prefixLength n') = p" "s_nodes s' z = Some (s_setPrev (Some a) m)"
    using s_mergeWithNext_eq[OF assms(1-10)] assms(12) by metis
  have ok: "sk_ok (s_min n)" "sk_ok (s_min m)" using assms(1,2,6) by (auto simp: state_ok_def intro: keys_ok_min)
  have "s_checkRange k n' s' = Inr 1"
    using s_checkRange_right[OF assms(14), of n' s'] s' ok assms(13,15,17) lcp_loop_bound(2)[of "kstr (s_min del)" "kstr (s_min n)"] assms(12) by simp
  moreover have "s_checkRange k (s_setPrev (Some a) m) s' = Inr (-1)"
    using s_checkRange_left[OF assms(14), of "s_setPrev (Some a) m"] ok assms(11,16) by (simp add: s_setPrev_def)
  ultimately have "s_findNode k (Some a) s' = None" "s_findNode k (Some z) s' = None"
    using s_findNode_bounces[OF s'(2) _ s'(4,6)] by (auto simp: s_setPrev_def)
  then show ?thesis
    using s'(1) by (subst (1 2) s_list_lookup.simps, subst s_list_insert.simps) simp
qed

definition s_demo :: sstate where
  "s_demo = s_boot\<lparr>s_nodes := [0 \<mapsto> s_blank\<lparr>s_min := s_key [97, 97, 97, 97, 49], s_next := Some 1\<rparr>,
     1 \<mapsto> s_blank\<lparr>s_min := s_key [97, 97, 97, 97, 50], s_next := Some 2, s_prev := Some 0\<rparr>,
     2 \<mapsto> s_blank\<lparr>s_min := s_key [98], s_prev := Some 1\<rparr>]\<rparr>"

theorem merge_prefix_hangs_witness:
  "\<exists>s'. s_mergeWithNext 0 s_demo = Inr (Some 1, s') \<and> s_list_lookup (s_key [97, 97, 97, 98]) (Some 0) s' = None \<and>
    s_list_lookup (s_key [97, 97, 97, 98]) (Some 2) s' = None \<and> s_list_insert 0 (s_key [97, 97, 97, 98]) 7 (Some 0) s' = None"
proof -
  have k: "sk_ok (s_key c)" "kstr (s_key c) = c" if "0 \<notin> set c" "length c < KEYLENGTH" for c
    using s_key_ok[OF that] by (auto simp: key_ok_def)
  have "sk_ok (s_key [97, 97, 97, 97, 49])" "sk_ok (s_key [97, 97, 97, 97, 50])" "sk_ok (s_key [98])" "sk_ok (s_key [97, 97, 97, 98])"
    "kstr (s_key [97, 97, 97, 97, 49]) = [97, 97, 97, 97, 49]" "kstr (s_key [97, 97, 97, 97, 50]) = [97, 97, 97, 97, 50]"
    "kstr (s_key [98]) = [98]" "kstr (s_key [97, 97, 97, 98]) = [97, 97, 97, 98]"
    by (rule k; simp add: KEYLENGTH_def)+
  note keys = this
  have lock: "fst (s_writeLock (s_blank\<lparr>s_min := k, s_next := x, s_prev := y\<rparr>)) \<noteq> 0" for k x y
    by (simp add: s_writeLock_def s_blank_def write_lock_eq)
  have ok: "state_ok s_demo" using keys by (auto simp: state_ok_def keys_ok_def s_demo_def s_boot_def s_blank_def split: if_splits)
  show ?thesis
    by (rule merge_prefix_hangs[OF ok, where n = "s_blank\<lparr>s_min := s_key [97, 97, 97, 97, 49], s_next := Some 1\<rparr>"
        and del = "s_blank\<lparr>s_min := s_key [97, 97, 97, 97, 50], s_next := Some 2, s_prev := Some 0\<rparr>"
        and m = "s_blank\<lparr>s_min := s_key [98], s_prev := Some 1\<rparr>" and p = 4])
      (simp_all add: keys lock, simp_all add: s_demo_def s_boot_def s_blank_def)
qed

end
