(* ===== verification/StringSearch.thy ===== *)
theory StringSearch
  imports StringKey SearchLayer
begin

text \<open>
  The search layer over strings, \<open>hydralist_string/src/SearchLayer.h\<close>: the radix tree of \<open>ArtTree\<close> over keys of 32 bytes. A leaf is the address of a
  list node, whose smallest key, and with it the 32 bytes of the key, lie first in its memory: \<open>keyAt\<close>. The counter of the nodes is signed here, a C \<open>int\<close>; it counts leaves and is modelled as an unbounded integer.
\<close>

section \<open>Definitions\<close>

record SArtIndex =
  s_curMin :: StringKey
  s_idx :: art
  s_numInserts :: int

definition s_SL_new :: SArtIndex where
  "s_SL_new = \<lparr>s_curMin = setFromString (replicate 43 126) StringKey_new, s_idx = Tree_new, s_numInserts = 0\<rparr>"

definition s_SL_loadKey :: "(u64 \<Rightarrow> StringKey) \<Rightarrow> loadKey" where
  "s_SL_loadKey keyAt tid = take KEYLENGTH (bytes (keyAt tid))"

definition s_SL_setKey :: "StringKey \<Rightarrow> u8 list" where
  "s_SL_setKey k = take KEYLENGTH (bytes k)"

text \<open>\<open>None\<close>: a null pointer is followed or a comparison reads past the end of a key.\<close>

definition s_SL_insert :: "(u64 \<Rightarrow> StringKey) \<Rightarrow> StringKey \<Rightarrow> u64 \<Rightarrow> SArtIndex \<Rightarrow> SArtIndex option" where
  "s_SL_insert keyAt k ptr s =
     (case pass_tree (Tree_insert (s_SL_loadKey keyAt) (s_idx s) (s_SL_setKey k) ptr) of
        None \<Rightarrow> None
      | Some t \<Rightarrow>
          (case sk_less k (s_curMin s) of
             Inl f \<Rightarrow> None
           | Inr lt \<Rightarrow> Some (s\<lparr>s_idx := t, s_curMin := (if lt then StringKey_assign (s_curMin s) k else s_curMin s),
                             s_numInserts := s_numInserts s + 1\<rparr>)))"

definition s_SL_remove :: "StringKey \<Rightarrow> u64 \<Rightarrow> SArtIndex \<Rightarrow> SArtIndex option" where
  "s_SL_remove k ptr s =
     (case pass_tree (Tree_remove (s_idx s) (s_SL_setKey k) ptr) of
        None \<Rightarrow> None
      | Some t \<Rightarrow> Some (s\<lparr>s_idx := t, s_numInserts := s_numInserts s - 1\<rparr>))"

definition s_SL_lookup :: "(u64 \<Rightarrow> StringKey) \<Rightarrow> StringKey \<Rightarrow> SArtIndex \<Rightarrow> u64 option" where
  "s_SL_lookup keyAt k s =
     (case sk_less_eq k (s_curMin s) of
        Inl f \<Rightarrow> None
      | Inr le \<Rightarrow> if le then Some 0 else Tree_lookupNext (s_SL_loadKey keyAt) (s_idx s) (s_SL_setKey k))"

definition s_SL_isEmpty :: "SArtIndex \<Rightarrow> bool" where
  "s_SL_isEmpty s \<longleftrightarrow> s_numInserts s < 2"

definition s_SL_size :: "SArtIndex \<Rightarrow> u32" where
  "s_SL_size s = word_of_int (s_numInserts s)"

section \<open>The order of the bytes is the order of the strings\<close>

lemma be_val_lexico: "length a = length b \<Longrightarrow> be_val a < be_val b \<longleftrightarrow> a < b"
proof (induction a b rule: list_induct2)
  case (Cons x xs y ys)
  have lt: "be_val (p # ps) < be_val (q # qs)" if "p < q" "length ps = length qs" for p q ps qs
    using Key_less_be_val[of "p # ps" "q # qs"] that by (auto split: if_splits)
  show ?case using Cons lt[of x y xs ys] lt[of y x ys xs] by (cases x y rule: linorder_cases) auto
qed simp

lemma padded_less:
  "0 \<notin> set c \<Longrightarrow> 0 \<notin> set d \<Longrightarrow> length c + m = length d + k \<Longrightarrow> c @ replicate m 0 < d @ replicate k (0 :: u8) \<longleftrightarrow> c < d"
proof (induction c arbitrary: d)
  case Nil
  then show ?case by (cases d; cases m) (auto simp: word_gt_0)
next
  case (Cons x c)
  then show ?case by (cases d; cases k) (auto simp: word_gt_0)
qed

lemma sk_bytes:
  assumes "sk_ok a" "sk_ok b"
  shows "be_val (s_SL_setKey a) < be_val (s_SL_setKey b) \<longleftrightarrow> kstr a < kstr b" "s_SL_setKey a = s_SL_setKey b \<longleftrightarrow> kstr a = kstr b"
    "length (s_SL_setKey a) = KEYLENGTH"
proof -
  have e: "s_SL_setKey k = bytes k" "length (bytes k) = KEYLENGTH" "bytes k = kstr k @ replicate (KEYLENGTH - length (kstr k)) 0"
      "length (kstr k) < KEYLENGTH" if "sk_ok k" for k
    using that sk_ok_length[OF that] by (auto simp: s_SL_setKey_def sk_ok_def)
  show "s_SL_setKey a = s_SL_setKey b \<longleftrightarrow> kstr a = kstr b" "length (s_SL_setKey a) = KEYLENGTH" using e assms sk_ok_eq by auto
  have "bytes a < bytes b \<longleftrightarrow> kstr a < kstr b"
    using padded_less[of "kstr a" "kstr b" "KEYLENGTH - length (kstr a)" "KEYLENGTH - length (kstr b)"] e[OF assms(1)] e[OF assms(2)] by simp
  then show "be_val (s_SL_setKey a) < be_val (s_SL_setKey b) \<longleftrightarrow> kstr a < kstr b"
    using be_val_lexico[of "bytes a" "bytes b"] e assms by simp
qed

section \<open>The operations\<close>

text \<open>The nodes in the layer are those of the leaves; every key is a string, and none is below the smallest one seen.\<close>

definition s_sl_inv :: "(u64 \<Rightarrow> StringKey) \<Rightarrow> SArtIndex \<Rightarrow> bool" where
  "s_sl_inv keyAt s \<longleftrightarrow> root_ok (s_SL_loadKey keyAt) KEYLENGTH (s_idx s) \<and> sk_ok (s_curMin s) \<and>
     (\<forall>x \<in> tids (s_idx s). sk_ok (keyAt x) \<and> kstr (s_curMin s) \<le> kstr (keyAt x)) \<and> s_numInserts s = int (card (tids (s_idx s)))"

lemma s_SL_loadKey_eq: "s_SL_loadKey keyAt x = s_SL_setKey (keyAt x)"
  by (simp add: s_SL_loadKey_def s_SL_setKey_def)

lemma s_SL_new_ok: "s_sl_inv keyAt s_SL_new \<and> tids (s_idx s_SL_new) = {}"
  using Tree_new_ok[of KEYLENGTH "s_SL_loadKey keyAt"] setFromString_ok[of "replicate 43 126" StringKey_new]
  by (simp add: s_sl_inv_def s_SL_new_def KEYLENGTH_def)

lemma s_SL_insert_ok:
  assumes inv: "s_sl_inv keyAt s" and p: "keyAt p = k" "sk_ok k" "p < 2 ^ 63" and new: "\<forall>x \<in> tids (s_idx s). kstr (keyAt x) \<noteq> kstr k"
  shows "\<exists>s'. s_SL_insert keyAt k p s = Some s' \<and> s_sl_inv keyAt s' \<and> tids (s_idx s') = insert p (tids (s_idx s)) \<and>
    kstr (s_curMin s') = min (kstr k) (kstr (s_curMin s))"
proof -
  let ?lk = "s_SL_loadKey keyAt"
  have root: "root_ok ?lk KEYLENGTH (s_idx s)" and m: "sk_ok (s_curMin s)" using inv by (auto simp: s_sl_inv_def)
  have other: "?lk x \<noteq> ?lk p" if "x \<in> tids (s_idx s)" for x
    using that inv new p sk_bytes(2)[of "keyAt x" k] by (auto simp: s_sl_inv_def s_SL_loadKey_eq)
  have len: "length (?lk p) = KEYLENGTH" using p sk_bytes(3) by (simp add: s_SL_loadKey_eq)
  obtain t where t: "pass_tree (Tree_insert ?lk (s_idx s) (?lk p) p) = Some t" "root_ok ?lk KEYLENGTH t" "tids t = insert p (tids (s_idx s))"
      "card (tids t) = Suc (card (tids (s_idx s)))"
    using rowex.ins_card[OF root len p(3) _ other] by auto
  then show ?thesis
    using inv p m sk_comparisons(1)[OF p(2) m]
    by (auto simp: s_SL_insert_def s_sl_inv_def s_SL_loadKey_eq min_def not_less)
qed

lemma s_SL_remove_ok:
  assumes inv: "s_sl_inv keyAt s" and p: "keyAt p = k" "p \<in> tids (s_idx s)"
  shows "\<exists>s'. s_SL_remove k p s = Some s' \<and> s_sl_inv keyAt s' \<and> tids (s_idx s') = tids (s_idx s) - {p} \<and> s_curMin s' = s_curMin s"
proof -
  let ?lk = "s_SL_loadKey keyAt"
  have root: "root_ok ?lk KEYLENGTH (s_idx s)" and ok: "sk_ok k" using inv p by (auto simp: s_sl_inv_def)
  have len: "length (?lk p) = KEYLENGTH" using p ok sk_bytes(3) by (simp add: s_SL_loadKey_eq)
  obtain t where t: "pass_tree (Tree_remove (s_idx s) (?lk p) p) = Some t" "root_ok ?lk KEYLENGTH t" "tids t = tids (s_idx s) - {p}"
    using rowex.del_ok[OF root len] by auto
  then show ?thesis
    using inv p card_Suc_Diff1[of "tids (s_idx s)" p] by (auto simp: s_SL_remove_def s_sl_inv_def s_SL_loadKey_eq)
qed

lemma s_SL_nearest:
  assumes "s_sl_inv keyAt s" "sk_ok k" "\<not> s_SL_isEmpty s"
  shows "\<exists>r. s_SL_lookup keyAt k s = Some r \<and>
    (if kstr k \<le> kstr (s_curMin s) then r = 0
     else r \<in> tids (s_idx s) \<and> (\<forall>x \<in> tids (s_idx s). \<not> (kstr k \<le> kstr (keyAt x) \<and> kstr (keyAt x) < kstr (keyAt r)) \<and>
       \<not> (kstr (keyAt r) < kstr (keyAt x) \<and> kstr (keyAt x) \<le> kstr k)))"
proof -
  let ?lk = "s_SL_loadKey keyAt"
  have root: "root_ok ?lk KEYLENGTH (s_idx s)" and m: "sk_ok (s_curMin s)" and ok: "\<forall>x \<in> tids (s_idx s). sk_ok (keyAt x)"
    using assms(1) by (auto simp: s_sl_inv_def)
  have "tids (s_idx s) \<noteq> {}" using assms(1,3) by (auto simp: s_sl_inv_def s_SL_isEmpty_def)
  then obtain r where r: "Tree_lookupNext ?lk (s_idx s) (s_SL_setKey k) = Some r" "nearest ?lk (tids (s_idx s)) (s_SL_setKey k) r"
    using rowex.near_ok[OF root sk_bytes(3)[OF assms(2,2)]] by auto
  have cmp: "be_val (s_SL_setKey a) < be_val (s_SL_setKey b) \<longleftrightarrow> kstr a < kstr b" if "sk_ok a" "sk_ok b" for a b
    using sk_bytes(1)[OF that] .
  show ?thesis
    using r ok assms(2) sk_comparisons(5)[OF assms(2) m] cmp
    by (auto simp: s_SL_lookup_def nearest_def s_SL_loadKey_eq simp flip: not_less)
qed

section \<open>Properties\<close>

text \<open>A lookup in the search layer over strings, if it is not empty, returns: the null pointer for a string that is not above the smallest one ever
  inserted, and otherwise the address of a node of the layer such that the key of no other node lies between its key and the given string.\<close>

theorem s_SL_lookup_correct:
  assumes "s_sl_inv keyAt s" "sk_ok k" "\<not> s_SL_isEmpty s"
  shows "\<exists>r. s_SL_lookup keyAt k s = Some r \<and>
    (if kstr k \<le> kstr (s_curMin s) then r = 0
     else r \<in> tids (s_idx s) \<and> (\<forall>x \<in> tids (s_idx s). \<not> (kstr k \<le> kstr (keyAt x) \<and> kstr (keyAt x) < kstr (keyAt r)) \<and>
       \<not> (kstr (keyAt r) < kstr (keyAt x) \<and> kstr (keyAt x) \<le> kstr k)))"
  using s_SL_nearest[OF assms] .

text \<open>A layer with the nodes 97 and 99, whose keys are the strings of one character with those codes.\<close>

definition s_demoKey :: "u64 \<Rightarrow> StringKey" where
  "s_demoKey p = setFromString [ucast p] StringKey_new"

theorem s_SL_lookup_correct_witness:
  "\<exists>s. s_SL_lookup s_demoKey (s_demoKey 98) s \<in> {Some 97, Some 99} \<and> s_SL_lookup s_demoKey (s_demoKey 97) s = Some 0"
proof -
  have k: "sk_ok (s_demoKey 97)" "kstr (s_demoKey 97) = [97]" "sk_ok (s_demoKey 98)" "kstr (s_demoKey 98) = [98]"
      "sk_ok (s_demoKey 99)" "kstr (s_demoKey 99) = [99]"
    using setFromString_ok[of "[97]" StringKey_new] setFromString_ok[of "[98]" StringKey_new] setFromString_ok[of "[99]" StringKey_new]
    by (simp_all add: s_demoKey_def KEYLENGTH_def)
  have "kstr (s_curMin s_SL_new) = 126 # replicate 30 126"
    using setFromString_ok[of "replicate 43 126" StringKey_new] replicate_Suc[of 30 "126 :: u8"] by (simp add: s_SL_new_def KEYLENGTH_def)
  then have m: "[97] \<le> kstr (s_curMin s_SL_new)" by simp
  obtain s1 where s1: "s_sl_inv s_demoKey s1" "tids (s_idx s1) = {97}" "kstr (s_curMin s1) = [97]"
    using s_SL_insert_ok[of s_demoKey s_SL_new 97 "s_demoKey 97"] s_SL_new_ok[of s_demoKey] k m by (auto simp: min_def)
  obtain s2 where s2: "s_sl_inv s_demoKey s2" "tids (s_idx s2) = {99, 97}" "kstr (s_curMin s2) = [97]"
    using s_SL_insert_ok[OF s1(1), of 99 "s_demoKey 99"] s1 k by (auto simp: min_def)
  have "\<not> s_SL_isEmpty s2" using s2 by (simp add: s_sl_inv_def s_SL_isEmpty_def)
  from s_SL_lookup_correct[OF s2(1) k(3) this] s_SL_lookup_correct[OF s2(1) k(1) this] show ?thesis
    using k s2 by (intro exI[of _ s2]) auto
qed

end
