(* ===== verification/StringIndex.thy ===== *)
theory StringIndex
  imports StringTheorems StringSearch HydraList
begin

text \<open>
  The index over strings, \<open>hydralist_string/src/HydraList.cpp\<close>: the same code as for integers on top of the list and the search layer over strings.
  What belongs to a thread and the announcement for the grace period are those of \<open>HydraList\<close> and \<open>GracePeriod\<close>.
\<close>

section \<open>Definitions\<close>

record SHydraListImpl =
  s_dl :: sstate
  s_dlHead :: addr
  s_perNumaSlPtr :: "SArtIndex list"
  s_totalNumaActive :: int
  s_numThreads :: u32
  s_threadDataSet :: "ThreadData list"

definition s_getThreadNuma :: "u64 \<Rightarrow> thread_local \<Rightarrow> SHydraListImpl \<Rightarrow> fault + (nat \<times> thread_local)" where
  "s_getThreadNuma aux tls hl =
     bindE (if threadNumaNode tls = -1
            then (let chip = uint (tacc_rdtscp_chip aux) in if chip > 8 then Inl AssertFail else Inr (tls\<lparr>threadNumaNode := chip\<rparr>))
            else Inr tls)
       (\<lambda>tls'. Inr (if s_totalNumaActive hl \<le> threadNumaNode tls' then 0 else nat (threadNumaNode tls'), tls'))"

definition s_nodeKeyAt :: "StringKey \<Rightarrow> sstate \<Rightarrow> u64 \<Rightarrow> StringKey" where
  "s_nodeKeyAt junk h p = (case s_nodes h (unat p) of Some n \<Rightarrow> s_min n | None \<Rightarrow> junk)"

definition s_getJumpNode :: "StringKey \<Rightarrow> u64 \<Rightarrow> StringKey \<Rightarrow> thread_local \<Rightarrow> SHydraListImpl \<Rightarrow> fault + (addr \<times> thread_local)" where
  "s_getJumpNode junk aux k tls hl =
     bindE (s_getThreadNuma aux tls hl) (\<lambda>(numaNode, tls').
       if numaNode < length (s_perNumaSlPtr hl) then
         (let sl = s_perNumaSlPtr hl ! numaNode in
          if s_SL_isEmpty sl then Inr (s_dlHead hl, tls')
          else case s_SL_lookup (s_nodeKeyAt junk (s_dl hl)) k sl of
              None \<Rightarrow> Inl NullDeref
            | Some jumpNode \<Rightarrow> Inr (if jumpNode = 0 then s_dlHead hl else unat jumpNode, tls'))
       else Inl BadAccess)"

definition s_beginOp :: "thread_local \<Rightarrow> SHydraListImpl \<Rightarrow> fault + SHydraListImpl" where
  "s_beginOp tls hl =
     (let clk = s_rdtscp (s_dl hl) (s_clkReads (s_dl hl)); h = (s_dl hl)\<lparr>s_clkReads := s_clkReads (s_dl hl) + 1\<rparr> in
      case curThreadData tls of
        None \<Rightarrow> Inl NullDeref
      | Some i \<Rightarrow> Inr (hl\<lparr>s_dl := h, s_threadDataSet := (s_threadDataSet hl)[i := td_read_lock clk (s_threadDataSet hl ! i)]\<rparr>))"

definition s_endOp :: "thread_local \<Rightarrow> SHydraListImpl \<Rightarrow> SHydraListImpl" where
  "s_endOp tls hl = (let i = the (curThreadData tls) in
     hl\<lparr>s_threadDataSet := (s_threadDataSet hl)[i := td_read_unlock (s_threadDataSet hl ! i)]\<rparr>)"

definition s_fromJumpNode :: "StringKey \<Rightarrow> u64 \<Rightarrow> StringKey \<Rightarrow> thread_local \<Rightarrow> SHydraListImpl \<Rightarrow>
    (ptr \<Rightarrow> sstate \<Rightarrow> ('a \<times> sstate) outcome) \<Rightarrow> ('a \<times> thread_local \<times> SHydraListImpl) outcome" where
  "s_fromJumpNode junk aux k tls hl f =
     (case s_getJumpNode junk aux k tls hl of
        Inl e \<Rightarrow> Some (Inl e)
      | Inr (jumpNode, tls') \<Rightarrow>
          (case f (Some jumpNode) (s_dl hl) of
             None \<Rightarrow> None
           | Some (Inl e) \<Rightarrow> Some (Inl e)
           | Some (Inr (r, h)) \<Rightarrow> Some (Inr (r, tls', hl\<lparr>s_dl := h\<rparr>))))"

definition s_guarded :: "StringKey \<Rightarrow> u64 \<Rightarrow> StringKey \<Rightarrow> thread_local \<Rightarrow> SHydraListImpl \<Rightarrow>
    (ptr \<Rightarrow> sstate \<Rightarrow> ('a \<times> sstate) outcome) \<Rightarrow> ('a \<times> thread_local \<times> SHydraListImpl) outcome" where
  "s_guarded junk aux k tls hl f =
     (case s_beginOp tls hl of
        Inl e \<Rightarrow> Some (Inl e)
      | Inr hl1 \<Rightarrow>
          (case s_fromJumpNode junk aux k tls hl1 f of
             None \<Rightarrow> None
           | Some (Inl e) \<Rightarrow> Some (Inl e)
           | Some (Inr (r, tls', hl2)) \<Rightarrow> Some (Inr (r, tls', s_endOp tls hl2))))"

definition SHydraList_insert where
  "SHydraList_insert junk aux k v tls hl = s_guarded junk aux k tls hl (s_list_insert (self tls) k v)"

definition SHydraList_update where
  "SHydraList_update junk aux k v tls hl = s_guarded junk aux k tls hl (s_list_update k v)"

definition SHydraList_remove where
  "SHydraList_remove junk aux k tls hl = s_guarded junk aux k tls hl (s_list_remove (self tls) k)"

definition SHydraList_lookup where
  "SHydraList_lookup junk aux val k tls hl = s_guarded junk aux k tls hl (\<lambda>p h.
     case s_list_lookup k p h of
       None \<Rightarrow> None
     | Some (Inl e) \<Rightarrow> Some (Inl e)
     | Some (Inr r) \<Rightarrow> Some (Inr (case r of Some v \<Rightarrow> v | None \<Rightarrow> (val :: Val_t), h)))"

definition SHydraList_scan where
  "SHydraList_scan junk aux startKey rng tls hl = s_fromJumpNode junk aux startKey tls hl (\<lambda>p h.
     case s_list_scan startKey rng p h of
       None \<Rightarrow> None
     | Some (Inl e) \<Rightarrow> Some (Inl e)
     | Some (Inr (rv, h')) \<Rightarrow> Some (Inr ((word_of_nat (length rv) :: u64, rv), h')))"

definition s_registerThread :: "u64 \<Rightarrow> thread_local \<Rightarrow> SHydraListImpl \<Rightarrow> thread_local \<times> SHydraListImpl" where
  "s_registerThread junkClock tls hl =
     (tls\<lparr>curThreadData := Some (length (s_threadDataSet hl))\<rparr>,
      hl\<lparr>s_numThreads := s_numThreads hl + 1,
         s_threadDataSet := s_threadDataSet hl @ [ThreadData_new (unat (s_numThreads hl)) junkClock]\<rparr>)"

definition s_unregisterThread :: "thread_local \<Rightarrow> SHydraListImpl \<Rightarrow> SHydraListImpl" where
  "s_unregisterThread tls hl =
     (case curThreadData tls of
        None \<Rightarrow> hl
      | Some i \<Rightarrow> hl\<lparr>s_threadDataSet := (s_threadDataSet hl)[i := setfinish (s_threadDataSet hl ! i)]\<rparr>)"

definition SHydraListImpl_new :: "nat \<Rightarrow> nat \<Rightarrow> nat \<Rightarrow> sstate \<Rightarrow> fault + SHydraListImpl" where
  "SHydraListImpl_new NUM_SOCKET t numNuma h = bindE (if numNuma \<le> NUM_SOCKET then s_initialize t h else Inl AssertFail) (\<lambda>(hd', h').
     Inr \<lparr>s_dl = h', s_dlHead = hd', s_perNumaSlPtr = replicate numNuma s_SL_new, s_totalNumaActive = int numNuma,
          s_numThreads = 0, s_threadDataSet = []\<rparr>)"

section \<open>The jump node is alive\<close>

definition s_leads_live :: "StringKey \<Rightarrow> u8 list cells \<Rightarrow> SHydraListImpl \<Rightarrow> bool" where
  "s_leads_live junk L hl \<longleftrightarrow> s_dlHead hl \<in> fst ` set L \<and> 0 < s_totalNumaActive hl \<and>
     length (s_perNumaSlPtr hl) = nat (s_totalNumaActive hl) \<and>
     (\<forall>sl \<in> set (s_perNumaSlPtr hl). s_sl_inv (s_nodeKeyAt junk (s_dl hl)) sl \<and> unat ` tids (s_idx sl) \<subseteq> fst ` set L)"

definition s_thread_ready :: "u64 \<Rightarrow> thread_local \<Rightarrow> SHydraListImpl \<Rightarrow> bool" where
  "s_thread_ready aux tls hl \<longleftrightarrow> (\<exists>i. curThreadData tls = Some i \<and> i < length (s_threadDataSet hl)) \<and> -1 \<le> threadNumaNode tls \<and>
     (threadNumaNode tls = -1 \<longrightarrow> uint (tacc_rdtscp_chip aux) \<le> 8)"

lemma s_getThreadNuma_ok:
  assumes "s_thread_ready aux tls hl" "0 < s_totalNumaActive hl"
  shows "\<exists>n tls'. s_getThreadNuma aux tls hl = Inr (n, tls') \<and> n < nat (s_totalNumaActive hl) \<and> s_thread_ready aux tls' hl"
proof -
  have "-1 \<le> uint (tacc_rdtscp_chip aux)" using uint_ge_0[of "tacc_rdtscp_chip aux"] by linarith
  then show ?thesis using assms by (auto simp: s_getThreadNuma_def s_thread_ready_def Let_def simp del: nat_uint_eq)
qed

lemma s_getJumpNode_live:
  assumes "s_thread_ready aux tls hl" "s_leads_live junk L hl" "sk_ok k"
  shows "\<exists>a tls'. s_getJumpNode junk aux k tls hl = Inr (a, tls') \<and> a \<in> fst ` set L \<and> s_thread_ready aux tls' hl"
proof -
  obtain n tls' where n: "s_getThreadNuma aux tls hl = Inr (n, tls')" "n < length (s_perNumaSlPtr hl)" "s_thread_ready aux tls' hl"
    using s_getThreadNuma_ok[OF assms(1)] assms(2) by (auto simp: s_leads_live_def)
  let ?sl = "s_perNumaSlPtr hl ! n"
  have sl: "s_sl_inv (s_nodeKeyAt junk (s_dl hl)) ?sl" "unat ` tids (s_idx ?sl) \<subseteq> fst ` set L" and hd: "s_dlHead hl \<in> fst ` set L"
    using assms(2) nth_mem[OF n(2)] by (auto simp: s_leads_live_def)
  show ?thesis
  proof (cases "s_SL_isEmpty ?sl")
    case True
    then show ?thesis using n hd by (simp add: s_getJumpNode_def Let_def)
  next
    case False
    from s_SL_nearest[OF sl(1) assms(3) False] obtain r where "s_SL_lookup (s_nodeKeyAt junk (s_dl hl)) k ?sl = Some r" "r = 0 \<or> r \<in> tids (s_idx ?sl)"
      by (auto split: if_splits)
    then show ?thesis using n hd False sl(2) by (auto simp: s_getJumpNode_def Let_def)
  qed
qed

definition s_ran_once :: "thread_local \<Rightarrow> SHydraListImpl \<Rightarrow> SHydraListImpl \<Rightarrow> bool" where
  "s_ran_once tls hl hl' \<longleftrightarrow> (let i = the (curThreadData tls); td = s_threadDataSet hl ! i in
     hl' = hl\<lparr>s_dl := s_dl hl', s_threadDataSet := (s_threadDataSet hl)
       [i := td\<lparr>localClock := s_rdtscp (s_dl hl) (s_clkReads (s_dl hl)), runCnt := runCnt td + 2\<rparr>]\<rparr>)"

lemma s_live_clock [simp]: "s_live f L q M (s\<lparr>s_clkReads := n\<rparr>) = s_live f L q M s"
proof -
  have "abs_state M (s\<lparr>s_clkReads := n\<rparr>) = (abs_state M s)\<lparr>clkReads := n\<rparr>" by (rule abs_state_eqI[symmetric]) simp_all
  then show ?thesis by (simp add: s_live_def state_ok_def prefix_inv_def dl_inv_by_def alloc_ok_def)
qed

lemma s_leads_live_begin:
  "s_leads_live junk L hl \<Longrightarrow> s_leads_live junk L (hl\<lparr>s_dl := (s_dl hl)\<lparr>s_clkReads := n\<rparr>, s_threadDataSet := ts'\<rparr>)"
  by (simp add: s_leads_live_def s_nodeKeyAt_def[abs_def])

lemma s_fromJumpNode_ok:
  assumes "s_thread_ready aux tls hl" "s_leads_live junk L hl" "sk_ok k"
    and f: "\<And>a. a \<in> fst ` set L \<Longrightarrow> \<exists>r h'. f (Some a) (s_dl hl) = Some (Inr (r, h')) \<and> P r h'"
  shows "\<exists>r h' tls'. s_fromJumpNode junk aux k tls hl f = Some (Inr (r, tls', hl\<lparr>s_dl := h'\<rparr>)) \<and> P r h' \<and> s_thread_ready aux tls' hl"
proof -
  obtain a tls' where a: "s_getJumpNode junk aux k tls hl = Inr (a, tls')" "a \<in> fst ` set L" "s_thread_ready aux tls' hl"
    using s_getJumpNode_live[OF assms(1-3)] by blast
  then show ?thesis using f[OF a(2)] by (auto simp: s_fromJumpNode_def)
qed

lemma s_fromJumpNode_fault:
  assumes "s_thread_ready aux tls hl" "s_leads_live junk L hl" "sk_ok k" "\<And>a. a \<in> fst ` set L \<Longrightarrow> f (Some a) (s_dl hl) = Some (Inl e)"
  shows "s_fromJumpNode junk aux k tls hl f = Some (Inl e)"
proof -
  obtain a tls' where "s_getJumpNode junk aux k tls hl = Inr (a, tls')" "a \<in> fst ` set L" using s_getJumpNode_live[OF assms(1-3)] by blast
  then show ?thesis using assms(4) by (simp add: s_fromJumpNode_def)
qed

lemma s_guarded_ok:
  assumes "s_thread_ready aux tls hl" "s_leads_live junk L hl" "sk_ok k"
    and f: "\<And>a s. a \<in> fst ` set L \<Longrightarrow> s = (s_dl hl)\<lparr>s_clkReads := s_clkReads (s_dl hl) + 1\<rparr> \<Longrightarrow> \<exists>r h'. f (Some a) s = Some (Inr (r, h')) \<and> P r h'"
  shows "\<exists>r tls' hl'. s_guarded junk aux k tls hl f = Some (Inr (r, tls', hl')) \<and> P r (s_dl hl') \<and> s_ran_once tls hl hl' \<and> s_thread_ready aux tls' hl'"
proof -
  obtain i where i: "curThreadData tls = Some i" "i < length (s_threadDataSet hl)" using assms(1) by (auto simp: s_thread_ready_def)
  let ?h = "(s_dl hl)\<lparr>s_clkReads := s_clkReads (s_dl hl) + 1\<rparr>"
  let ?hl = "hl\<lparr>s_dl := ?h, s_threadDataSet := (s_threadDataSet hl)
    [i := td_read_lock (s_rdtscp (s_dl hl) (s_clkReads (s_dl hl))) (s_threadDataSet hl ! i)]\<rparr>"
  have b: "s_beginOp tls hl = Inr ?hl" by (simp add: s_beginOp_def i(1))
  have r: "s_thread_ready aux tls ?hl" using assms(1) by (simp add: s_thread_ready_def)
  obtain r h' tls' where j: "s_fromJumpNode junk aux k tls ?hl f = Some (Inr (r, tls', ?hl\<lparr>s_dl := h'\<rparr>))" "P r h'" "s_thread_ready aux tls' ?hl"
    using s_fromJumpNode_ok[OF r s_leads_live_begin[OF assms(2)] assms(3), of f P] f by auto
  have "s_ran_once tls hl (s_endOp tls (?hl\<lparr>s_dl := h'\<rparr>))"
    using i by (simp add: s_ran_once_def s_endOp_def td_read_unlock_def td_read_lock_def incrementRunCnt_def setLocalClock_def Let_def ac_simps)
  then show ?thesis using b j by (auto simp: s_guarded_def s_endOp_def s_thread_ready_def Let_def)
qed

text \<open>How a writing operation ends: it returned \<open>r\<close> and left a list that holds \<open>m\<close> and satisfies \<open>ok\<close>.\<close>

definition s_returned :: "(u8 list cells \<Rightarrow> sstate \<Rightarrow> bool) \<Rightarrow> u64 \<Rightarrow> thread_local \<Rightarrow> SHydraListImpl \<Rightarrow>
    (bool \<times> thread_local \<times> SHydraListImpl) outcome \<Rightarrow> bool \<Rightarrow> (u8 list \<rightharpoonup> Val_t) \<Rightarrow> bool" where
  "s_returned ok aux tls hl res r m \<longleftrightarrow> (\<exists>L' tls' hl'. res = Some (Inr (r, tls', hl')) \<and> ok L' (s_dl hl') \<and> dl_map L' = m \<and>
     s_ran_once tls hl hl' \<and> s_thread_ready aux tls' hl')"

lemma s_guarded_returned:
  assumes "s_thread_ready aux tls hl" "s_leads_live junk L hl" "sk_ok k" "s_live f L q M (s_dl hl)"
    and op': "\<And>a s. a \<in> fst ` set L \<Longrightarrow> s_live f L q M s \<Longrightarrow> s_opallocs s = s_opallocs (s_dl hl) \<Longrightarrow>
      \<exists>L' s'. op' (Some a) s = Some (Inr (r, s')) \<and> ok L' s' \<and> dl_map L' = m"
  shows "s_returned ok aux tls hl (s_guarded junk aux k tls hl op') r m"
proof -
  let ?P = "\<lambda>r' h'. r' = r \<and> (\<exists>L'. ok L' h' \<and> dl_map L' = m)"
  have "\<exists>r' h'. op' (Some a) s = Some (Inr (r', h')) \<and> ?P r' h'"
    if "a \<in> fst ` set L" "s = (s_dl hl)\<lparr>s_clkReads := s_clkReads (s_dl hl) + 1\<rparr>" for a s
    using op'[OF that(1), of s] assms(4) that(2) by auto
  from s_guarded_ok[where f = op' and P = ?P, OF assms(1-3) this] show ?thesis unfolding s_returned_def by blast
qed

section \<open>Properties\<close>

text \<open>C33. While the search layers over strings lead to nodes of the list, and the list is well formed with every stored prefix right (\<open>s_live\<close>; a new list is,
  and only a removal that merges two nodes may end it, after which insertions may never return), \<open>insert\<close>, \<open>update\<close> and \<open>remove\<close> of the index by a registered thread, for a
  key below that of the tail, return, change the map as they should and say truthfully whether they did. After an insertion or an update every stored prefix is right again; after a
  removal the list is well formed, and every stored prefix is right unless two nodes were merged. The thread has counted itself in and out once.\<close>

theorem SHydraList_writes_correct:
  assumes "s_live (Suc f) L q M (s_dl hl)" "s_leads_live junk L hl" "s_thread_ready aux tls hl" "key_ok k" "kstr k < kstr max_key"
  shows "s_returned (\<lambda>L' h'. \<exists>M'. s_live f L' q M' h') aux tls hl (SHydraList_insert junk aux k v tls hl) (dl_map L (kstr k) = None)
      (if dl_map L (kstr k) = None then (dl_map L)(kstr k \<mapsto> v) else dl_map L) \<and>
    s_returned (\<lambda>L' h'. \<exists>M'. s_live f L' q M' h') aux tls hl (SHydraList_update junk aux k v tls hl) (dl_map L (kstr k) \<noteq> None)
      (if dl_map L (kstr k) = None then dl_map L else (dl_map L)(kstr k \<mapsto> v)) \<and>
    s_returned (\<lambda>L' h'. \<exists>M'. dl_inv_by str_hash [] (kstr max_key) f L' q (abs_state M' h') \<and>
        (s_opallocs h' = s_opallocs (s_dl hl) \<longrightarrow> s_live f L' q M' h')) aux tls hl
      (SHydraList_remove junk aux k tls hl) (dl_map L (kstr k) \<noteq> None) ((dl_map L)(kstr k := None))"
proof -
  have k: "sk_ok k" using assms(4) by (simp add: key_ok_def)
  note g = s_guarded_returned[OF assms(3,2) k assms(1)]
  have m: "(dl_map L)(kstr k := (if dl_map L (kstr k) = None then Some v else dl_map L (kstr k)))
      = (if dl_map L (kstr k) = None then (dl_map L)(kstr k \<mapsto> v) else dl_map L)" by (simp add: fun_upd_idem)
  have "s_returned (\<lambda>L' h'. \<exists>M'. s_live f L' q M' h') aux tls hl (SHydraList_insert junk aux k v tls hl) (dl_map L (kstr k) = None)
      (if dl_map L (kstr k) = None then (dl_map L)(kstr k \<mapsto> v) else dl_map L)"
    unfolding SHydraList_insert_def
    by (rule g) (use s_list_insert_refines[OF _ assms(4,5), of f L q M _ _ "self tls" v, unfolded wrote_by_def m] in blast)
  moreover have "s_returned (\<lambda>L' h'. \<exists>M'. s_live f L' q M' h') aux tls hl (SHydraList_update junk aux k v tls hl) (dl_map L (kstr k) \<noteq> None)
      (if dl_map L (kstr k) = None then dl_map L else (dl_map L)(kstr k \<mapsto> v))"
    unfolding SHydraList_update_def
    by (rule g) (use s_list_update_refines[OF _ assms(4,5), of f L q M _ _ v, unfolded wrote_by_def] in blast)
  moreover have "s_returned (\<lambda>L' h'. \<exists>M'. dl_inv_by str_hash [] (kstr max_key) f L' q (abs_state M' h') \<and>
        (s_opallocs h' = s_opallocs (s_dl hl) \<longrightarrow> s_live f L' q M' h')) aux tls hl
      (SHydraList_remove junk aux k tls hl) (dl_map L (kstr k) \<noteq> None) ((dl_map L)(kstr k := None))"
    unfolding SHydraList_remove_def
  proof (rule g)
    fix a s assume s: "a \<in> fst ` set L" "s_live (Suc f) L q M s" "s_opallocs s = s_opallocs (s_dl hl)"
    show "\<exists>L' s'. s_list_remove (self tls) k (Some a) s = Some (Inr (dl_map L (kstr k) \<noteq> None, s')) \<and>
        (\<exists>M'. dl_inv_by str_hash [] (kstr max_key) f L' q (abs_state M' s') \<and> (s_opallocs s' = s_opallocs (s_dl hl) \<longrightarrow> s_live f L' q M' s')) \<and>
        dl_map L' = (dl_map L)(kstr k := None)"
      using s_list_remove_refines[OF s(2) assms(4,5) s(1), of "self tls", unfolded wrote_by_def] s(3) by metis
  qed
  ultimately show ?thesis by blast
qed

text \<open>C34. While the search layers over strings lead to nodes of the list, and the list is well formed with every stored prefix right (\<open>s_live\<close>; after a removal that
  merges two nodes a lookup may never return): for a key below that of the tail, \<open>lookup\<close> of the index by a registered thread returns the value of the string, or whatever the
  uninitialised variable held if there is none. \<open>scan\<close> fails where that of the list does (\<open>scan_fault\<close>: a negative range, or an empty node at the start key whose
  uninitialised permutation cache begins with an index outside of the array), and otherwise returns the values of the smallest strings from the start key on and their number.
  Neither changes the map.\<close>

theorem SHydraList_reads_correct:
  assumes "s_live f L q M (s_dl hl)" "s_leads_live junk L hl" "s_thread_ready aux tls hl" "key_ok k" "kstr k < kstr max_key"
  shows "(\<exists>tls' hl'. SHydraList_lookup junk aux val k tls hl = Some (Inr (case dl_map L (kstr k) of Some v \<Rightarrow> v | None \<Rightarrow> val, tls', hl')) \<and>
      s_live f L q M (s_dl hl') \<and> s_ran_once tls hl hl') \<and>
    (case scan_fault (kstr k) rng L of
       Some e \<Rightarrow> SHydraList_scan junk aux k rng tls hl = Some (Inl e)
     | None \<Rightarrow> (\<exists>L' tls' hl'. SHydraList_scan junk aux k rng tls hl =
           Some (Inr ((word_of_nat (min (nat rng) (length (range_values (kstr k) (dl_map L)))), take (nat rng) (range_values (kstr k) (dl_map L))), tls', hl')) \<and>
         s_live f L' q M (s_dl hl') \<and> dl_map L' = dl_map L))"
proof
  have k: "sk_ok k" using assms(4) by (simp add: key_ok_def)
  let ?look = "\<lambda>p h. case s_list_lookup k p h of None \<Rightarrow> None | Some (Inl e) \<Rightarrow> Some (Inl e)
     | Some (Inr r) \<Rightarrow> Some (Inr (case r of Some v \<Rightarrow> v | None \<Rightarrow> val, h))"
  let ?P = "\<lambda>r h'. r = (case dl_map L (kstr k) of Some v \<Rightarrow> v | None \<Rightarrow> val) \<and> s_live f L q M h'"
  have "\<exists>r h'. ?look (Some a) s = Some (Inr (r, h')) \<and> ?P r h'"
    if "a \<in> fst ` set L" "s = (s_dl hl)\<lparr>s_clkReads := s_clkReads (s_dl hl) + 1\<rparr>" for a s
    using s_list_lookup_refines(1)[of f L q M s k a] assms(1,4,5) that by simp
  from s_guarded_ok[where f = ?look and P = ?P, OF assms(3,2) k this]
  show "\<exists>tls' hl'. SHydraList_lookup junk aux val k tls hl = Some (Inr (case dl_map L (kstr k) of Some v \<Rightarrow> v | None \<Rightarrow> val, tls', hl')) \<and>
      s_live f L q M (s_dl hl') \<and> s_ran_once tls hl hl'"
    unfolding SHydraList_lookup_def by blast
next
  have k: "sk_ok k" using assms(4) by (simp add: key_ok_def)
  let ?vs = "take (nat rng) (range_values (kstr k) (dl_map L))"
  let ?scan = "\<lambda>p h. case s_list_scan k rng p h of None \<Rightarrow> None | Some (Inl e) \<Rightarrow> Some (Inl e)
     | Some (Inr (rv, h')) \<Rightarrow> Some (Inr ((word_of_nat (length rv) :: u64, rv), h'))"
  show "case scan_fault (kstr k) rng L of Some e \<Rightarrow> SHydraList_scan junk aux k rng tls hl = Some (Inl e)
     | None \<Rightarrow> (\<exists>L' tls' hl'. SHydraList_scan junk aux k rng tls hl =
           Some (Inr ((word_of_nat (min (nat rng) (length (range_values (kstr k) (dl_map L)))), ?vs), tls', hl')) \<and>
         s_live f L' q M (s_dl hl') \<and> dl_map L' = dl_map L)"
  proof (cases "scan_fault (kstr k) rng L")
    case None
    let ?P = "\<lambda>r h'. r = (word_of_nat (length ?vs), ?vs) \<and> (\<exists>L'. s_live f L' q M h' \<and> dl_map L' = dl_map L)"
    have "\<exists>r h'. ?scan (Some a) (s_dl hl) = Some (Inr (r, h')) \<and> ?P r h'" if "a \<in> fst ` set L" for a
      using s_list_scan_refines[OF assms(1,4,5) that, of rng] None scanned_same by fastforce
    from s_fromJumpNode_ok[where f = ?scan and P = ?P, OF assms(3,2) k this]
    show ?thesis unfolding SHydraList_scan_def using None by (auto simp: min.commute)
  next
    case (Some e)
    have "?scan (Some a) (s_dl hl) = Some (Inl e)" if "a \<in> fst ` set L" for a
      using s_list_scan_refines[OF assms(1,4,5) that, of rng] Some by simp
    from s_fromJumpNode_fault[where f = ?scan, OF assms(3,2) k this] show ?thesis unfolding SHydraList_scan_def using Some by simp
  qed
qed

text \<open>A new index on one NUMA node with one registered thread.\<close>

definition s_demo_hl :: SHydraListImpl where
  "s_demo_hl = snd (s_registerThread 0 (demo_tls\<lparr>curThreadData := None\<rparr>) (projr (SHydraListImpl_new 1 0 1 s_boot)))"

lemma s_demo_hl_ok:
  "s_dl s_demo_hl = s_boot_list" "s_leads_live StringKey_new [(0, N)] s_demo_hl" "s_thread_ready 0 demo_tls s_demo_hl"
proof -
  obtain s' where "s_initialize 0 s_boot = Inr (0, s')" using s_initialize_run[of s_boot 0] by (auto simp: s_boot_def)
  then have d: "s_demo_hl = \<lparr>s_dl = s_boot_list, s_dlHead = 0, s_perNumaSlPtr = [s_SL_new], s_totalNumaActive = 1, s_numThreads = 1,
      s_threadDataSet = [ThreadData_new 0 0]\<rparr>"
    by (simp add: s_demo_hl_def SHydraListImpl_new_def s_registerThread_def s_boot_list_def)
  show "s_dl s_demo_hl = s_boot_list" by (simp add: d)
  show "s_leads_live StringKey_new [(0, N)] s_demo_hl" using s_SL_new_ok by (simp add: d s_leads_live_def)
  show "s_thread_ready 0 demo_tls s_demo_hl" by (simp add: d s_thread_ready_def demo_tls_def tacc_rdtscp_chip_def)
qed

theorem SHydraList_writes_correct_witness:
  "s_returned (\<lambda>L' h'. \<exists>M'. s_live 999 L' 1 M' h') 0 demo_tls s_demo_hl
     (SHydraList_insert StringKey_new 0 (s_key [97]) 7 demo_tls s_demo_hl) True [[] \<mapsto> 0, [97] \<mapsto> 7]"
proof -
  obtain N M where b: "s_live (Suc 999) [(0, N)] 1 M (s_dl s_demo_hl)" "node_map N = [[] \<mapsto> 0]"
    using s_boot_ok by (auto simp: s_demo_hl_ok(1))
  from SHydraList_writes_correct[OF b(1) s_demo_hl_ok(2,3) s_key_a(1), of 7] show ?thesis using b(2) s_key_a(2,3) by simp
qed

theorem SHydraList_reads_correct_witness:
  "(\<exists>tls' hl'. SHydraList_lookup StringKey_new 0 42 (s_key [97]) demo_tls s_demo_hl = Some (Inr (42, tls', hl'))) \<and>
   (\<exists>tls' hl'. SHydraList_scan StringKey_new 0 (s_key []) 3 demo_tls s_demo_hl = Some (Inr ((1, [0]), tls', hl')))"
proof -
  obtain N M where b: "s_live 1000 [(0, N)] 1 M (s_dl s_demo_hl)" "node_map N = [[] \<mapsto> 0]" "nslots N \<noteq> {}"
    using s_boot_ok by (auto simp: s_demo_hl_ok(1))
  have "map_entries (dl_map [(0, N)]) = [([], 0)]"
    by (rule map_entries_unique[symmetric]) (use b(2) in \<open>auto split: if_splits\<close>)
  then have "range_values [] (dl_map [(0, N)]) = [0]" "scan_fault [] 3 [(0, N)] = None"
    using b(3) by (simp_all add: range_values_def scan_fault_def stray_index_def)
  then show ?thesis
    using SHydraList_reads_correct[OF b(1) s_demo_hl_ok(2,3) s_key_a(1), of 42 3] SHydraList_reads_correct[OF b(1) s_demo_hl_ok(2,3) s_key_a(4), of 42 3]
      b(2) s_key_a by auto
qed

end
