(* ===== verification/Spec2Isabelle.thy ===== *)
theory Spec2Isabelle
  imports NodeTheorems ThreadLoops HydraList EpocheTheorems ArtDelete ArtRangeTheorems
    Convergence KeyMemory EpocheEnd Startup StringIndex
begin

text \<open>
  A verification development for HydraList, the concurrent ordered index of this repository
  (\<open>src/hydralist\<close> over 64-bit integers, \<open>src/hydralist_string\<close> over strings of up to 31 bytes).

  \<^bold>\<open>The program.\<close> HydraList keeps its entries in one \<^emph>\<open>data list\<close>, a doubly linked list of nodes of up to
  64 unsorted entries each (\<open>linkedList.cpp\<close>, \<open>listNode.cpp\<close>). Every NUMA node of the machine has
  its own \<^emph>\<open>search layer\<close> (\<open>SearchLayer.h\<close>), a radix tree (\<open>lib/ARTROWEX\<close>) from the smallest key of a
  list node, its anchor, to the node; an operation asks the search layer for a node near the key and walks
  from there (\<open>HydraList.cpp\<close>). The search layers follow the list with a delay: a split or merge of
  list nodes logs the change of the anchors in a log of its thread (\<open>Oplog.cpp\<close>), the combiner thread merges the
  logs and hands the result to the worker threads (\<open>Combiner.h\<close>), each worker applies it to its
  search layer (\<open>WorkerThread.cpp\<close>). List nodes are guarded by sequence locks (\<open>VersionedLock.h\<close>)
  and freed after a grace period over the clocks of the threads (\<open>threadData.h\<close>, \<open>ordo_clock.h\<close>);
  nodes of the radix tree are freed by epochs (\<open>Epoche.cpp\<close>).

  \<^bold>\<open>How the model is built.\<close> Operations are functions on explicit state. Integers keep their width: keys, values,
  versions, clocks and epochs are 64-bit words and wrap as in the code. An operation that may
  spin or restart for ever is a partial function into \<open>'a outcome\<close> (theory \<open>HL_Prelude\<close>): \<open>None\<close> if
  it does not return, \<open>Some (Inl e)\<close> if it hits a null or bad access or a failing assertion,
  \<open>Some (Inr r)\<close> if it returns. Pointers are addresses into a heap that is a map; the
  allocator is part of the state (\<open>nmalloc\<close>), so are the bytes that uninitialised memory holds. Where
  the order of the steps of several threads matters, the steps are an inductive relation and the theorems
  quantify over all its runs. Code outside the repository is a parameter: the
  single-producer queue of boost is the record \<open>spsc_ops\<close> with the laws of the locale
  \<open>spsc_queue\<close>, the clock is a script of readings, the processor table of the build is an argument
  of \<open>pinThread\<close>.

  \<^bold>\<open>Theories, in the order they build on each other.\<close>

  \<^item> \<open>HL_Prelude\<close>: machine types, outcomes, the x86 instructions the code issues by hand, generic lemmas.

  \<^item> \<open>Bitset\<close> (\<open>bitset.h\<close>), \<open>VersionedLock\<close> (\<open>VersionedLock.h\<close>, with
    the machine \<open>lstep\<close> of concurrent readers and writers: mutual exclusion, and a validated read saw one
    state).

  \<^item> \<open>ListNode\<close> (one node: slots, fingerprints, occupancy, the permutation cache), \<open>NodeSearch\<close> (the AVX-512
    searches agree with the loops they replace), \<open>NodeOps\<close> (a node as a finite map), \<open>NodeSplit\<close>
    (the loops of split and merge), \<open>DataLayer\<close> (the heap of nodes, split and merge with their links and
    log entries), \<open>Oplog\<close>.

  \<^item> \<open>LinkedList\<close> (the operations of \<open>linkedList.cpp\<close> with their walks and restarts), \<open>DataList\<close> (the
    invariant \<open>dl_inv f L q s\<close>: the live nodes \<open>L\<close> are linked in both directions, their ranges
    partition the keys, nobody holds a lock, every version is at least \<open>2 * f\<close> below overflow),
    \<open>ListInit\<close>, \<open>ListRefinement\<close>, \<open>ListRemove\<close>, \<open>ScanRefinement\<close> (each operation from any live node returns
    and refines the operation of a finite map), \<open>ListTheorems\<close>, \<open>NodeTheorems\<close> (the properties, and
    the inputs on which the code fails or spins).

  \<^item> \<open>ArtKey\<close>, \<open>ArtWord\<close>, \<open>ArtNode\<close>, \<open>ArtLayouts\<close>, \<open>ArtWide\<close>, \<open>ArtN\<close>: keys, version words with the
    machine \<open>lock_step\<close>, the four node layouts as instances of the locale \<open>art_node\<close>, and the dispatch over
    them with growth, compaction and shrinking. \<open>ArtTree\<close>, \<open>ArtInv\<close>, \<open>ArtLookup\<close>, \<open>ArtInsert\<close>,
    \<open>ArtRemove\<close>, \<open>ArtTheorems\<close>: the operations of \<open>Tree.cpp\<close>, the tree invariant and the refinement of a
    map from keys to leaves. \<open>ArtRange\<close>, \<open>ArtRangeTheorems\<close>: \<open>lookupRange\<close> and \<open>lookupNext1\<close>. \<open>ArtDelete\<close>:
    release of subtrees. \<open>KeyMemory\<close>: key objects with their heap arrays. \<open>Epoche\<close>,
    \<open>EpocheTheorems\<close>, \<open>EpocheEnd\<close>: reclamation by epochs, the machine \<open>estep\<close>, the destructor.

  \<^item> \<open>SearchLayer\<close>, \<open>Replication\<close>, \<open>ReplicationTheorems\<close>, \<open>ThreadLoops\<close>, \<open>Convergence\<close>: search layers, combiner
    and workers with the machine \<open>rstep\<close>, the loops of the background threads, and the machine \<open>cstep\<close> of user threads
    that change the data list, the combiner that drains, sorts and broadcasts their logs, and the workers that apply them.

  \<^item> \<open>GracePeriod\<close> (the machine \<open>gstep\<close>), \<open>HydraList\<close> (the index: registration, jump nodes, the operations
    with their read sections), \<open>Startup\<close> (constructor and workers as the machine \<open>ustep\<close>, with the turns of their busy-waiting
    loops as steps and fair schedules as infinite runs; destructor, the interface \<open>HydraList.h\<close>).

  \<^item> \<open>StringKey\<close>, \<open>StringNode\<close>, \<open>StringList\<close>, \<open>StringSearch\<close>, \<open>StringIndex\<close>: the index over strings, \<open>src/hydralist_string\<close>: keys of 32
    bytes compared with \<open>strcmp\<close>, nodes with two arrays and a stored prefix length, the walk steered by
    \<open>checkRange\<close>, the search layer over 32-byte keys, the index. Its node has no upper bound; the
    successor's smallest key stands for it. The invariant and the operations of \<open>ListNode\<close>, \<open>DataLayer\<close>,
    \<open>LinkedList\<close> and \<open>DataList\<close> are polymorphic in the key (\<open>'k ListNode_of\<close>, \<open>'k hstate_of\<close>) with the fingerprint as a
    parameter, so the list over strings is proved by refinement to the list over byte strings:
    \<open>StringRefinement\<close> (the abstraction), \<open>StringOps\<close> (split, merge, insert and remove of a node), \<open>StringScan\<close>,
    \<open>StringWalk\<close> (the walk, and the invariant \<open>s_live\<close>: the abstract list is well formed and every
    stored prefix is common to a node and its successor), \<open>StringTheorems\<close> (the properties).

  \<^bold>\<open>Interfaces.\<close> The locales \<open>slot_search\<close> and \<open>free_slot_search\<close> are the contracts of the searches in a list node,
  \<open>art_node\<close>, \<open>karr_pos\<close> and \<open>leaf_index\<close> those of the radix tree nodes and of the tree as the search layers
  use it, \<open>spsc_queue\<close> and \<open>log_queue\<close> those of the queues to the workers; each is interpreted on the definitions that
  implement it.

  \<^bold>\<open>What is shown.\<close> The data list refines a finite map under insert, update, remove, lookup and scan, from any live
  start node, and logs exactly the changes of its anchors; for a scan the two ways in which it fails are part of the
  theorem (\<open>scan_fault\<close>). In any interleaving of user threads, combiner and workers a search layer that has applied all logs
  holds exactly the anchors, provided that no round of the combiner merges two changes of the same anchor (\<open>calm\<close>: merged logs are
  sorted by address, and the theorem on their order shows what happens otherwise) and no push to the queue of the worker was refused; the radix tree refines a map and its
  neighbour and range queries return what the stored keys determine; no merged log, tree node or
  list node is freed while a thread may use it; the start-up handshake of the first index ends under every fair schedule. The index over strings
  refines a map from strings in the same way, and its range check agrees with a comparison of the whole strings,
  as long as every stored prefix is right, which is part of the invariant \<open>s_live\<close> and which a removal that merges two nodes may end. Other theorems fix the
  behaviour where the code does not do what it means to: restarts from deleted nodes, the key
  \<open>ULLONG_MAX\<close>, scans of empty nodes, the order of merged logs, dropped logs, range queries whose bounds
  part inside a compressed path, a second index in one process, lookups over
  strings that never end after a merge.

  \<^bold>\<open>Bounds.\<close> The number \<open>f\<close> in \<open>dl_inv f\<close> is a budget of write-lock rounds: each changing operation uses
  one, and the 64-bit version of a new lock allows \<open>2^63 - 1\<close> of them. The node type shares the
  version word of a radix tree node with a 60-bit counter, whence the bound in the theorem on type bits.
  A run of \<open>cstep\<close> has as many steps as the budget allows, which bounds the merged logs, too.
  Search layers tag leaves in bit 63, so anchors are addresses below \<open>2^63\<close>. Loops without
  a bound in the code are partial functions; that they return is part of each theorem.

  \<^bold>\<open>Not modelled.\<close> Printing, timing statistics and the topology generator. The operations of the data
  list and of the radix tree are run as whole operations of one thread; how threads interfere inside
  them is covered by the machines for the locks, and a reader that overlaps a writer restarts.
  Weak memory is not modelled: steps of the machines are atomic and seen in one order. The
  other indexes of the repository (\<open>BwTree\<close>, \<open>masstree\<close>, \<open>wormhole\<close>, \<open>hot\<close>, \<open>BTreeOLC\<close>, \<open>ARTOLC\<close>, skip lists,
  \<open>libcuckoo\<close>, \<open>btree-rtm\<close>) are third-party baselines of the benchmarks, \<open>pcm\<close> reads performance
  counters, and the drivers run workloads and print timings. In \<open>src/hydralist_string\<close> the radix tree, the
  locks, the logs, the combiner, the workers, the loops of the background threads and the destructor are the text of
  \<open>src/hydralist\<close> over another key type; they are modelled once, for integers.
\<close>

end
